(* ===== verification/Prelude.thy ===== *)
theory Prelude
  imports Main "HOL-Library.AList"
begin

text \<open>
  What every component of the model shares: the values a JavaScript variable can hold
  (\<open>jsval\<close>), the errors the source throws, results that are either an error or a value,
  state-passing actions whose state survives an error (a JavaScript method that throws keeps
  the assignments it made before), JavaScript's \<open>Map\<close> and \<open>Set\<close> as ordered lists, string
  rendering, and the rules about them that the component proofs use.
\<close>

section \<open>JavaScript values\<close>

text \<open>
  \<open>JNum\<close> is an integral number, \<open>JFrac\<close> any other non-NaN number (a fraction or an
  infinity; all of them are truthy). \<open>JObj ref\<close> lists the properties that \<open>in\<close> and \<open>[]\<close> see,
  own and inherited; \<open>JFun src ps\<close> is a function with its source text and its properties.
\<close>

datatype jsval =
    JUndef
  | JNull
  | JBool bool
  | JNum int
  | JNaN
  | JFrac string
  | JStr string
  | JArr "jsval list"
  | JObj "(string \<times> jsval) list"
  | JDate int
  | JFun string "(string \<times> jsval) list"

fun truthy :: "jsval \<Rightarrow> bool" where
  "truthy JUndef = False"
| "truthy JNull = False"
| "truthy (JBool b) = b"
| "truthy (JNum n) = (n \<noteq> 0)"
| "truthy JNaN = False"
| "truthy (JStr s) = (s \<noteq> [])"
| "truthy _ = True"

text \<open>The property \<open>k\<close> of a value, \<open>JUndef\<close> where it has none.\<close>

definition assoc_get :: "(string \<times> jsval) list \<Rightarrow> string \<Rightarrow> jsval" where
  "assoc_get ps k = (case map_of ps k of None \<Rightarrow> JUndef | Some v \<Rightarrow> v)"

fun js_props :: "jsval \<Rightarrow> (string \<times> jsval) list" where
  "js_props (JObj ps) = ps"
| "js_props (JFun _ ps) = ps"
| "js_props _ = []"

definition js_in :: "string \<Rightarrow> jsval \<Rightarrow> bool" where
  "js_in k v = (k \<in> fst ` set (js_props v))"

definition js_get :: "jsval \<Rightarrow> string \<Rightarrow> jsval" where
  "js_get v k = assoc_get (js_props v) k"

fun is_string :: "jsval \<Rightarrow> bool" where
  "is_string (JStr _) = True"
| "is_string _ = False"

fun is_function :: "jsval \<Rightarrow> bool" where
  "is_function (JFun _ _) = True"
| "is_function _ = False"

fun is_number :: "jsval \<Rightarrow> bool" where
  "is_number (JNum _) = True"
| "is_number JNaN = True"
| "is_number (JFrac _) = True"
| "is_number _ = False"

fun is_boolean :: "jsval \<Rightarrow> bool" where
  "is_boolean (JBool _) = True"
| "is_boolean _ = False"

text \<open>\<open>typeof v === 'object'\<close>: objects, arrays, dates and \<open>null\<close>.\<close>

fun typeof_object :: "jsval \<Rightarrow> bool" where
  "typeof_object JNull = True"
| "typeof_object (JArr _) = True"
| "typeof_object (JObj _) = True"
| "typeof_object (JDate _) = True"
| "typeof_object _ = False"

section \<open>Errors, results, state-passing actions\<close>

datatype js_error =
    TypeError string
  | GenericError string
  | ConcurrencyError string
  | UserError jsval

fun is_concurrency_error :: "js_error \<Rightarrow> bool" where
  "is_concurrency_error (ConcurrencyError _) = True"
| "is_concurrency_error _ = False"

type_synonym 'a result = "js_error + 'a"

primrec res_bind :: "'a result \<Rightarrow> ('a \<Rightarrow> 'b result) \<Rightarrow> 'b result" where
  "res_bind (Inl e) f = Inl e"
| "res_bind (Inr a) f = f a"

type_synonym ('s, 'a) act = "'s \<Rightarrow> 'a result \<times> 's"

definition act_return :: "'a \<Rightarrow> ('s, 'a) act" where
  "act_return a = (\<lambda>s. (Inr a, s))"

definition act_throw :: "js_error \<Rightarrow> ('s, 'a) act" where
  "act_throw e = (\<lambda>s. (Inl e, s))"

definition act_bind :: "('s, 'a) act \<Rightarrow> ('a \<Rightarrow> ('s, 'b) act) \<Rightarrow> ('s, 'b) act" where
  "act_bind m f = (\<lambda>s. case m s of (Inl e, s') \<Rightarrow> (Inl e, s') | (Inr a, s') \<Rightarrow> f a s')"

text \<open>A check that touches no state, before the rest of an action.\<close>

definition act_check :: "unit result \<Rightarrow> ('s, 'a) act \<Rightarrow> ('s, 'a) act" where
  "act_check r m = (\<lambda>s. case r of Inl e \<Rightarrow> (Inl e, s) | Inr _ \<Rightarrow> m s)"

named_theorems act_simps \<open>unfolding of state-passing actions\<close>

declare act_return_def [act_simps] act_throw_def [act_simps] act_check_def [act_simps]

lemma act_bind_Inr_iff:
  "act_bind m f s = (Inr b, t) \<longleftrightarrow> (\<exists>a u. m s = (Inr a, u) \<and> f a u = (Inr b, t))"
  by (auto simp: act_bind_def split: prod.splits sum.splits)

lemma act_bind_Inl_iff:
  "act_bind m f s = (Inl e, t) \<longleftrightarrow>
     m s = (Inl e, t) \<or> (\<exists>a u. m s = (Inr a, u) \<and> f a u = (Inl e, t))"
  by (auto simp: act_bind_def split: prod.splits sum.splits)

lemma act_bind_step [simp]:
  "m s = (Inr a, u) \<Longrightarrow> act_bind m f s = f a u"
  "m s = (Inl e, u) \<Longrightarrow> act_bind m f s = (Inl e, u)"
  by (simp_all add: act_bind_def)

lemma res_bind_Inr_iff [simp]:
  "res_bind r f = Inr b \<longleftrightarrow> (\<exists>a. r = Inr a \<and> f a = Inr b)"
  by (cases r) auto

lemma res_bind_Inl_iff [simp]:
  "res_bind r f = Inl e \<longleftrightarrow> r = Inl e \<or> (\<exists>a. r = Inr a \<and> f a = Inl e)"
  by (cases r) auto

section \<open>JavaScript maps and sets as ordered lists\<close>

text \<open>
  A \<open>Map\<close> keeps its keys in insertion order, and setting a key it has keeps the key's
  place: that is \<open>AList.update\<close>, with \<open>map_of\<close> to look up and \<open>AList.delete\<close> to remove. A
  \<open>Set\<close> is a list without repetition, to which \<open>set_add\<close> appends.
\<close>

type_synonym ('k, 'v) jsmap = "('k \<times> 'v) list"

definition map_has :: "('k, 'v) jsmap \<Rightarrow> 'k \<Rightarrow> bool" where
  "map_has m k = (map_of m k \<noteq> None)"

definition set_add :: "'a \<Rightarrow> 'a list \<Rightarrow> 'a list" where
  "set_add x xs = (if x \<in> set xs then xs else xs @ [x])"

lemma set_set_add [simp]: "set (set_add x xs) = insert x (set xs)"
  by (auto simp: set_add_def)

lemma distinct_set_add [simp]: "distinct xs \<Longrightarrow> distinct (set_add x xs)"
  by (auto simp: set_add_def)

lemma map_of_update [simp]: "map_of (AList.update k v m) = (map_of m)(k \<mapsto> v)"
  by (rule AList.update_conv')

lemma map_of_delete [simp]: "map_of (AList.delete k m) = (map_of m)(k := None)"
  by (rule AList.delete_conv')

lemma map_has_update [simp]: "map_has (AList.update k v m) j \<longleftrightarrow> j = k \<or> map_has m j"
  by (simp add: map_has_def)

lemma map_has_delete [simp]: "map_has (AList.delete k m) j \<longleftrightarrow> j \<noteq> k \<and> map_has m j"
  by (simp add: map_has_def)

lemma keys_update [simp]:
  "map fst (AList.update k v m) = (if k \<in> fst ` set m then map fst m else map fst m @ [k])"
  by (simp add: AList.update_keys)

lemma distinct_keys_update:
  "distinct (map fst m) \<Longrightarrow> distinct (map fst (AList.update k v m))"
  by (rule AList.distinct_update)

lemma distinct_keys_delete:
  "distinct (map fst m) \<Longrightarrow> distinct (map fst (AList.delete k m))"
  by (rule AList.distinct_delete)

section \<open>Strings\<close>

function show_nat :: "nat \<Rightarrow> string" where
  "show_nat n = (if n < 10 then [char_of (48 + n)]
                 else show_nat (n div 10) @ [char_of (48 + n mod 10)])"
  by pat_completeness auto
termination
  by (relation "measure id") auto

declare show_nat.simps [simp del]

definition show_int :: "int \<Rightarrow> string" where
  "show_int i = (if i < 0 then ''-'' @ show_nat (nat (- i)) else show_nat (nat i))"

lemma show_nat_nonempty [simp]: "show_nat n \<noteq> []"
  by (subst show_nat.simps) simp

lemma char_of_digit_inj:
  assumes "a < 10" "b < 10" and eq: "(char_of (48 + a) :: char) = char_of (48 + b)"
  shows "a = (b :: nat)"
proof -
  have "of_char (char_of (48 + a) :: char) = (of_char (char_of (48 + b) :: char) :: nat)"
    using eq by simp
  with assms(1,2) show ?thesis by (simp add: take_bit_eq_mod)
qed

text \<open>Decimal rendering is injective: what makes the ids drawn from a counter distinct.\<close>

lemma show_nat_inject: "show_nat m = show_nat n \<Longrightarrow> m = n"
proof (induction m arbitrary: n rule: show_nat.induct)
  case (1 m)
  have ne: "show_nat (k div 10) \<noteq> []" for k by simp
  show ?case
  proof (cases "m < 10"; cases "n < 10")
    assume "m < 10" "n < 10"
    with "1.prems" show ?thesis
      by (simp add: show_nat.simps [of m] show_nat.simps [of n])
  next
    assume "m < 10" "\<not> n < 10"
    with "1.prems" ne [of n] show ?thesis
      by (simp add: show_nat.simps [of m] show_nat.simps [of n])
  next
    assume "\<not> m < 10" "n < 10"
    with "1.prems" ne [of m] show ?thesis
      by (simp add: show_nat.simps [of m] show_nat.simps [of n])
  next
    assume big: "\<not> m < 10" "\<not> n < 10"
    with "1.prems" have tens: "show_nat (m div 10) = show_nat (n div 10)"
      and unit: "(char_of (48 + m mod 10) :: char) = char_of (48 + n mod 10)"
      by (simp_all add: show_nat.simps [of m] show_nat.simps [of n])
    have "m div 10 = n div 10" using "1.IH" big(1) tens by blast
    moreover have "m mod 10 = n mod 10"
      by (rule char_of_digit_inj [OF _ _ unit]) simp_all
    ultimately show ?thesis by (metis div_mod_decomp)
  qed
qed

text \<open>Elements of pairwise different keys.\<close>

lemma sorted_wrt_distinct_map: "distinct (map g xs) \<Longrightarrow> sorted_wrt (\<lambda>x y. g x \<noteq> g y) xs"
  by (induction xs) auto

end
