(* ===== verification/Guards.thy ===== *)
theory Guards
  imports Prelude
begin

text \<open>
  The runtime type guards of \<open>src/interfaces/\<close> and the assertions of \<open>src/utils/assert.ts\<close>,
  on arbitrary JavaScript values. A guard is a predicate; an assertion is a result: the
  \<open>TypeError\<close> it throws, or nothing. Also \<open>src/telemetry/spanAttributes.ts\<close>, which filters
  properties by such a guard.
\<close>

section \<open>Type guards\<close>

definition isObject :: "jsval \<Rightarrow> bool" where
  "isObject v = (typeof_object v \<and> v \<noteq> JNull
     \<and> \<not> (case v of JDate _ \<Rightarrow> True | _ \<Rightarrow> False)
     \<and> \<not> (case v of JArr _ \<Rightarrow> True | _ \<Rightarrow> False))"

text \<open>The pattern \<open>'m' in obj && typeof obj.m === 'function'\<close>.\<close>

definition has_method :: "jsval \<Rightarrow> string \<Rightarrow> bool" where
  "has_method v m = (js_in m v \<and> is_function (js_get v m))"

definition isMessage :: "jsval \<Rightarrow> bool" where
  "isMessage v = (isObject v \<and> js_in ''type'' v \<and> is_string (js_get v ''type'')
     \<and> js_get v ''type'' \<noteq> JStr [])"

definition isEvent :: "jsval \<Rightarrow> bool" where
  "isEvent v = (isObject v \<and> js_in ''type'' v \<and> is_string (js_get v ''type'')
     \<and> js_get v ''type'' \<noteq> JStr [])"

definition SNAPSHOT_EVENT_TYPE :: string where
  "SNAPSHOT_EVENT_TYPE = ''snapshot''"

definition isSnapshotEventVal :: "jsval \<Rightarrow> bool" where
  "isSnapshotEventVal v = (isEvent v \<and> js_get v ''type'' = JStr SNAPSHOT_EVENT_TYPE
     \<and> truthy (js_get v ''payload''))"

fun isEventSet :: "jsval \<Rightarrow> bool" where
  "isEventSet (JArr es) = list_all isEvent es"
| "isEventSet _ = False"

definition isObservable :: "jsval \<Rightarrow> bool" where
  "isObservable v = (isObject v \<and> has_method v ''on'' \<and> has_method v ''off'')"

definition isEventBus :: "jsval \<Rightarrow> bool" where
  "isEventBus v = (isObservable v \<and> has_method v ''publish'')"

definition isObservableQueueProvider :: "jsval \<Rightarrow> bool" where
  "isObservableQueueProvider v = (isObject v \<and> has_method v ''queue'')"

definition isIdentifierProvider :: "jsval \<Rightarrow> bool" where
  "isIdentifierProvider v = (isObject v \<and> has_method v ''getNewId'')"

definition isExecutionLocker :: "jsval \<Rightarrow> bool" where
  "isExecutionLocker v = (isObject v \<and> has_method v ''acquire'')"

definition isDispatchPipelineProcessor :: "jsval \<Rightarrow> bool" where
  "isDispatchPipelineProcessor v = (isObject v \<and> has_method v ''process'')"

definition isAggregateSnapshotStorage :: "jsval \<Rightarrow> bool" where
  "isAggregateSnapshotStorage v = (isObject v \<and> has_method v ''getAggregateSnapshot''
     \<and> has_method v ''saveAggregateSnapshot'' \<and> has_method v ''deleteAggregateSnapshot'')"

definition isEventStorageReader :: "jsval \<Rightarrow> bool" where
  "isEventStorageReader v = (isObject v \<and> has_method v ''getEventsByTypes''
     \<and> has_method v ''getAggregateEvents'' \<and> has_method v ''getSagaEvents'')"

definition isEventLocker :: "jsval \<Rightarrow> bool" where
  "isEventLocker v =
     ((isObject v \<and> js_in ''getLastEvent'' v \<and> js_in ''tryMarkAsProjecting'' v
        \<and> js_in ''markAsProjected'' v \<and> js_in ''markAsLastEvent'' v)
      \<or> (is_function v \<and> is_function (js_get v ''getLastEvent'')
        \<and> is_function (js_get v ''tryMarkAsProjecting'')
        \<and> is_function (js_get v ''markAsProjected'')
        \<and> is_function (js_get v ''markAsLastEvent'')))"

definition isViewLocker :: "jsval \<Rightarrow> bool" where
  "isViewLocker v =
     ((isObject v \<and> js_in ''ready'' v \<and> js_in ''lock'' v \<and> js_in ''unlock'' v \<and> js_in ''once'' v)
      \<or> (is_function v \<and> is_function (js_get v ''lock'') \<and> is_function (js_get v ''unlock'')
        \<and> is_function (js_get v ''once'') \<and> js_get v ''ready'' \<noteq> JUndef))"

text \<open>\<open>Function.prototype.toString.call(f).startsWith('class')\<close>.\<close>

fun isClass :: "jsval \<Rightarrow> bool" where
  "isClass (JFun src _) = (take 5 src = ''class'')"
| "isClass _ = False"

section \<open>Assertions\<close>

abbreviation throw_type :: "string \<Rightarrow> string \<Rightarrow> unit result" where
  "throw_type arg msg \<equiv> Inl (TypeError (arg @ msg))"

definition assertDefined :: "jsval \<Rightarrow> string \<Rightarrow> unit result" where
  "assertDefined v n = (if \<not> truthy v then throw_type n '' is required'' else Inr ())"

definition assertString :: "jsval \<Rightarrow> string \<Rightarrow> unit result" where
  "assertString v n = (if \<not> is_string v \<or> v = JStr []
     then throw_type n '' must be a non-empty String'' else Inr ())"

definition assertFunction :: "jsval \<Rightarrow> string \<Rightarrow> unit result" where
  "assertFunction v n = (if \<not> is_function v
     then throw_type n '' must be a Function'' else Inr ())"

definition assertObject :: "jsval \<Rightarrow> string \<Rightarrow> unit result" where
  "assertObject v n = (if \<not> typeof_object v \<or> \<not> truthy v
     then throw_type n '' must be an Object'' else Inr ())"

fun array_items :: "jsval \<Rightarrow> jsval list option" where
  "array_items (JArr xs) = Some xs"
| "array_items _ = None"

definition assertArray :: "jsval \<Rightarrow> string \<Rightarrow> unit result" where
  "assertArray v n = (case array_items v of
       None \<Rightarrow> throw_type n '' must be a non-empty Array''
     | Some xs \<Rightarrow> if xs = [] then throw_type n '' must be a non-empty Array'' else Inr ())"

definition assertStringArray :: "jsval \<Rightarrow> string \<Rightarrow> unit result" where
  "assertStringArray v n = (case array_items v of
       None \<Rightarrow> throw_type n '' must be a non-empty String[]''
     | Some xs \<Rightarrow> if xs = [] \<or> list_ex (\<lambda>x. \<not> is_string x \<or> x = JStr []) xs
         then throw_type n '' must be a non-empty String[]'' else Inr ())"

definition assertOptionalArray :: "jsval \<Rightarrow> string \<Rightarrow> unit result" where
  "assertOptionalArray v n = (if array_items v = None
     then throw_type n '' must be an Array'' else Inr ())"

definition assertMessage :: "jsval \<Rightarrow> string \<Rightarrow> unit result" where
  "assertMessage v n = (if \<not> isMessage v
     then throw_type n '' must be a valid IMessage'' else Inr ())"

definition assertEvent :: "jsval \<Rightarrow> string \<Rightarrow> unit result" where
  "assertEvent v n = (if \<not> isEvent v then throw_type n '' must be a valid IEvent'' else Inr ())"

definition assertSnapshotEvent :: "jsval \<Rightarrow> string \<Rightarrow> unit result" where
  "assertSnapshotEvent v n = (if \<not> isSnapshotEventVal v
     then throw_type n '' must be a valid ISnapshotEvent'' else Inr ())"

definition assertObservable :: "jsval \<Rightarrow> string \<Rightarrow> unit result" where
  "assertObservable v n = (if \<not> isObservable v
     then throw_type n '' must be an IObservable'' else Inr ())"

definition assertNumber :: "jsval \<Rightarrow> string \<Rightarrow> unit result" where
  "assertNumber v n = (if \<not> is_number v then throw_type n '' must be a Number'' else Inr ())"

definition assertClass :: "jsval \<Rightarrow> string \<Rightarrow> unit result" where
  "assertClass v n = (if \<not> isClass v then throw_type n '' must be a class'' else Inr ())"

text \<open>\<open>Number.isSafeInteger\<close>: integral and at most $2^{53}-1$ in absolute value.\<close>

fun isSafeInteger :: "jsval \<Rightarrow> bool" where
  "isSafeInteger (JNum i) = (\<bar>i\<bar> \<le> 2 ^ 53 - 1)"
| "isSafeInteger _ = False"

fun negative :: "jsval \<Rightarrow> bool" where
  "negative (JNum i) = (i < 0)"
| "negative _ = False"

definition assertNonNegativeInteger :: "jsval \<Rightarrow> string \<Rightarrow> unit result" where
  "assertNonNegativeInteger v n = (if \<not> is_number v \<or> \<not> isSafeInteger v \<or> negative v
     then throw_type n '' must be a non-negative integer'' else Inr ())"

definition assertBoolean :: "jsval \<Rightarrow> string \<Rightarrow> unit result" where
  "assertBoolean v n = (if \<not> is_boolean v then throw_type n '' must be a Boolean'' else Inr ())"

definition assertNotDefined :: "jsval \<Rightarrow> string \<Rightarrow> unit result" where
  "assertNotDefined v n = (if v \<noteq> JUndef then throw_type n '' must not be defined'' else Inr ())"

text \<open>When each assertion passes, in a form the component proofs rewrite with.\<close>

named_theorems assert_simps \<open>when an assertion passes\<close>

lemma assertDefined_ok [assert_simps]: "assertDefined v n = Inr u \<longleftrightarrow> truthy v"
  by (simp add: assertDefined_def)

lemma assertString_ok [assert_simps]: "assertString v n = Inr u \<longleftrightarrow> (\<exists>s. v = JStr s \<and> s \<noteq> [])"
  by (cases v) (auto simp: assertString_def)

lemma assertFunction_ok [assert_simps]: "assertFunction v n = Inr u \<longleftrightarrow> (\<exists>s ps. v = JFun s ps)"
  by (cases v) (auto simp: assertFunction_def)

lemma assertNonNegativeInteger_ok [assert_simps]:
  "assertNonNegativeInteger v n = Inr u \<longleftrightarrow> (\<exists>i. v = JNum i \<and> 0 \<le> i \<and> i < 2 ^ 53)"
  by (cases v) (auto simp: assertNonNegativeInteger_def)

lemma assertStringArray_ok [assert_simps]:
  "assertStringArray v n = Inr u \<longleftrightarrow>
     (\<exists>ss. v = JArr (map JStr ss) \<and> ss \<noteq> [] \<and> [] \<notin> set ss)"
proof -
  have strs: "\<not> list_ex (\<lambda>x. \<not> is_string x \<or> x = JStr []) xs \<longleftrightarrow>
      (\<exists>ss. xs = map JStr ss \<and> [] \<notin> set ss)" for xs
  proof (induction xs)
    case (Cons x xs)
    show ?case
    proof (cases x)
      case (JStr s)
      show ?thesis
      proof
        assume "\<not> list_ex (\<lambda>x. \<not> is_string x \<or> x = JStr []) (x # xs)"
        with Cons JStr obtain ss where "xs = map JStr ss" "[] \<notin> set ss" "s \<noteq> []" by auto
        with JStr show "\<exists>ss. x # xs = map JStr ss \<and> [] \<notin> set ss"
          by (intro exI [of _ "s # ss"]) auto
      qed (use Cons JStr in \<open>auto simp: Cons_eq_map_conv\<close>)
    qed (auto simp: Cons_eq_map_conv)
  qed simp
  show ?thesis
    by (cases v) (use strs in \<open>auto simp: assertStringArray_def\<close>)
qed

lemma isEvent_eq_isMessage: "isEvent v = isMessage v"
  by (simp add: isEvent_def isMessage_def)

lemma isObject_iff: "isObject v \<longleftrightarrow> (\<exists>ps. v = JObj ps)"
  by (cases v) (auto simp: isObject_def)

text \<open>
  What the dispatcher, the buses and the DI resolvers rely on when one check follows another:
  a snapshot event is an event, an event is a message, an event bus is observable.
\<close>

lemma guard_hierarchy:
  "isSnapshotEventVal v \<Longrightarrow> isEvent v"
  "isEvent v \<Longrightarrow> isMessage v"
  "isEventBus v \<Longrightarrow> isObservable v"
  "isEventSet (JArr (e # es)) \<Longrightarrow> isEvent e"
  by (simp_all add: isSnapshotEventVal_def isEvent_eq_isMessage isEventBus_def)

section \<open>Span attributes\<close>

fun isSpanAttributeValue :: "jsval \<Rightarrow> bool" where
  "isSpanAttributeValue v = (is_string v \<or> is_number v \<or> is_boolean v)"

primrec span_attributes_loop ::
  "string \<Rightarrow> jsval \<Rightarrow> string list \<Rightarrow> (string, jsval) jsmap \<Rightarrow> (string, jsval) jsmap" where
  "span_attributes_loop prefix attrs [] acc = acc"
| "span_attributes_loop prefix attrs (key # keys) acc =
     (let value = js_get attrs key
      in if \<not> isSpanAttributeValue value then span_attributes_loop prefix attrs keys acc
         else span_attributes_loop prefix attrs keys
                (AList.update (''cqrs.'' @ prefix @ ''.'' @ key) value acc))"

text \<open>\<open>keys\<close> defaults to the object's own keys.\<close>

definition spanAttributes ::
  "string \<Rightarrow> jsval \<Rightarrow> string list option \<Rightarrow> (string, jsval) jsmap" where
  "spanAttributes prefix attrs keys =
     span_attributes_loop prefix attrs
       (case keys of None \<Rightarrow> map fst (js_props attrs) | Some ks \<Rightarrow> ks) []"

abbreviation span_key :: "string \<Rightarrow> string \<Rightarrow> string" where
  "span_key p key \<equiv> (''cqrs.'' @ p @ ''.'') @ key"

lemma span_attributes_loop_hit:
  "key \<in> set ks \<Longrightarrow> isSpanAttributeValue (js_get a key) \<Longrightarrow>
     map_of (span_attributes_loop p a ks acc) (span_key p key) = Some (js_get a key)"
proof (induction ks arbitrary: acc)
  case (Cons k ks)
  show ?case
  proof (cases "key \<in> set ks")
    case True
    with Cons show ?thesis by (simp add: Let_def del: isSpanAttributeValue.simps)
  next
    case False
    with Cons.prems have k: "k = key" by simp
    have "map_of (span_attributes_loop p a ks acc') (span_key p key) = map_of acc' (span_key p key)"
      for acc'
      using False by (induction ks arbitrary: acc') (auto simp: Let_def)
    with k Cons.prems(2) show ?thesis by (simp add: Let_def del: isSpanAttributeValue.simps)
  qed
qed simp

lemma span_attributes_loop_keys:
  "fst ` set (span_attributes_loop p a ks acc) =
     fst ` set acc \<union> span_key p ` {k \<in> set ks. isSpanAttributeValue (js_get a k)}"
  by (induction ks arbitrary: acc)
    (auto simp: Let_def dom_map_of_conv_image_fst [symmetric] simp del: isSpanAttributeValue.simps)

end
