(* ===== verification/Messages.thy ===== *)
theory Messages
  imports Guards
begin

text \<open>
  Messages, events and commands (\<open>src/interfaces/IMessage.ts\<close>, \<open>IEvent.ts\<close>, \<open>ICommand.ts\<close>,
  \<open>ISnapshotEvent.ts\<close>), their descriptions (\<open>src/Event.ts\<close>) and saga ids
  (\<open>src/utils/sagaId.ts\<close>). An optional property is an \<open>option\<close> field, absent where it is
  \<open>undefined\<close>.
\<close>

section \<open>Identifiers, messages, events\<close>

text \<open>
  \<open>Identifier = string | number | object\<close>. An object is compared by reference; the model
  names the reference and keeps the text \<open>String(id)\<close> renders it to.
\<close>

datatype ident = IdStr string | IdNum int | IdObj nat string

fun id_truthy :: "ident \<Rightarrow> bool" where
  "id_truthy (IdStr s) = (s \<noteq> [])"
| "id_truthy (IdNum n) = (n \<noteq> 0)"
| "id_truthy (IdObj _ _) = True"

fun String_of :: "ident \<Rightarrow> string" where
  "String_of (IdStr s) = s"
| "String_of (IdNum n) = show_int n"
| "String_of (IdObj _ t) = t"

text \<open>Whether an optional identifier is truthy, as \<open>if (aggregateId)\<close> asks.\<close>

definition opt_id_truthy :: "ident option \<Rightarrow> bool" where
  "opt_id_truthy oid = (case oid of None \<Rightarrow> False | Some i \<Rightarrow> id_truthy i)"

text \<open>\<open>assertString(id, ...)\<close> on an optional identifier: the string, when it is one.\<close>

definition assert_id_string :: "ident option \<Rightarrow> string \<Rightarrow> string result" where
  "assert_id_string oid n = (case oid of
       Some (IdStr s) \<Rightarrow> if s = [] then Inl (TypeError (n @ '' must be a non-empty String'')) else Inr s
     | _ \<Rightarrow> Inl (TypeError (n @ '' must be a non-empty String'')))"

definition assert_id_defined :: "ident option \<Rightarrow> string \<Rightarrow> ident result" where
  "assert_id_defined oid n = (case oid of
       Some i \<Rightarrow> if id_truthy i then Inr i else Inl (TypeError (n @ '' is required''))
     | None \<Rightarrow> Inl (TypeError (n @ '' is required'')))"

lemma assert_id_defined_Inr [simp]: "assert_id_defined (Some i) n = Inr a \<longleftrightarrow> a = i \<and> id_truthy i"
  by (auto simp: assert_id_defined_def)

record message =
  msg_type :: string
  aggregateId :: "ident option"
  aggregateVersion :: "int option"
  sagaOrigins :: "(string, string) jsmap option"
  payload :: jsval
  msg_context :: "jsval option"

record event = message +
  event_id :: "ident option"

type_synonym command = message

text \<open>\<open>isMessage\<close> and \<open>isEvent\<close> on a value of these types: the type is not empty.\<close>

definition message_ok :: "('a) message_scheme \<Rightarrow> bool" where
  "message_ok m = (msg_type m \<noteq> [])"

definition isSnapshotEvent :: "event \<Rightarrow> bool" where
  "isSnapshotEvent e = (message_ok e \<and> msg_type e = SNAPSHOT_EVENT_TYPE \<and> truthy (payload e))"

text \<open>\<open>message.sagaOrigins?.[descriptor]\<close>.\<close>

definition saga_origin :: "('a) message_scheme \<Rightarrow> string \<Rightarrow> string option" where
  "saga_origin m d = (case sagaOrigins m of None \<Rightarrow> None | Some os \<Rightarrow> map_of os d)"

text \<open>
  \<open>DispatchPipelineEnvelope\<close>: an event on its way through the dispatch pipeline with its meta
  data, and a batch of them (\<open>src/interfaces/IDispatchPipelineProcessor.ts\<close>).
\<close>

record envelope =
  origin :: "string option"
  ignoreConcurrencyError :: bool
  env_event :: "event option"

type_synonym batch = "envelope list"

text \<open>\<open>AggregateEventsQueryParams\<close>; \<open>tail_last\<close> is \<open>tail === 'last'\<close>.\<close>

record aggregate_query =
  q_snapshot :: "event option"
  q_eventTypes :: "string list option"
  tail_last :: bool

text \<open>The aggregate and version an event claims, where it has both.\<close>

definition version_key :: "event \<Rightarrow> (ident \<times> int) option" where
  "version_key e = (case aggregateId e of None \<Rightarrow> None
     | Some a \<Rightarrow> (case aggregateVersion e of None \<Rightarrow> None | Some v \<Rightarrow> Some (a, v)))"

definition version_keys :: "event list \<Rightarrow> (ident \<times> int) list" where
  "version_keys es = List.map_filter version_key es"

lemma version_key_iff:
  "version_key e = Some (a, v) \<longleftrightarrow> aggregateId e = Some a \<and> aggregateVersion e = Some v"
  by (auto simp: version_key_def split: option.splits)

lemma version_keys_simps [simp]:
  "version_keys [] = []"
  "version_keys (e # es) = (case version_key e of None \<Rightarrow> version_keys es | Some k \<Rightarrow> k # version_keys es)"
  "version_keys (es @ fs) = version_keys es @ version_keys fs"
  by (auto simp: version_keys_def List.map_filter_def split: option.splits)

lemma set_version_keys: "set (version_keys es) = {k. \<exists>e \<in> set es. version_key e = Some k}"
  by (induction es) (auto split: option.splits)

section \<open>Descriptions of events\<close>

definition describe :: "event \<Rightarrow> string" where
  "describe e =
     '''' @ [CHR 0x27] @ msg_type e @ [CHR 0x27]
     @ (case event_id e of
          Some i \<Rightarrow> if id_truthy i then '' (id: '' @ String_of i @ '')'' else []
        | None \<Rightarrow> [])
     @ (case aggregateId e of
          Some i \<Rightarrow> if id_truthy i then '' of '' @ String_of i @ '' (v''
              @ (case aggregateVersion e of None \<Rightarrow> ''undefined'' | Some v \<Rightarrow> show_int v) @ '')'' else []
        | None \<Rightarrow> [])"

fun describeMultiple :: "event list \<Rightarrow> string" where
  "describeMultiple [e] = describe e"
| "describeMultiple es = show_nat (length es) @ '' events''"

section \<open>Saga ids\<close>

definition makeSagaId :: "string \<Rightarrow> string \<Rightarrow> string result" where
  "makeSagaId sagaDescriptor originEventId =
     res_bind (assertString (JStr sagaDescriptor) ''sagaDescriptor'') (\<lambda>_.
     res_bind (assertString (JStr originEventId) ''originEventId'') (\<lambda>_.
     Inr (sagaDescriptor @ '':'' @ originEventId)))"

text \<open>\<open>String.prototype.lastIndexOf\<close> for one character: $-1$ where it does not occur.\<close>

fun lastIndexOf :: "string \<Rightarrow> char \<Rightarrow> int" where
  "lastIndexOf [] c = -1"
| "lastIndexOf (x # xs) c =
     (let r = lastIndexOf xs c
      in if r \<ge> 0 then r + 1 else if x = c then 0 else -1)"

definition parseSagaId :: "ident \<Rightarrow> (string \<times> string) result" where
  "parseSagaId sagaId =
     res_bind (assert_id_string (Some sagaId) ''sagaId'') (\<lambda>s.
       let separatorOffset = lastIndexOf s (CHR '':'')
       in if separatorOffset \<le> 0 \<or> separatorOffset \<ge> int (length s) - 1
          then Inl (TypeError ''sagaId argument must match \"<sagaDescriptor>:<originEventId>\" format'')
          else Inr (take (nat separatorOffset) s, drop (nat separatorOffset + 1) s))"

lemma lastIndexOf_ge: "-1 \<le> lastIndexOf xs c"
  by (induction xs) (auto simp: Let_def)

lemma lastIndexOf_absent: "c \<notin> set xs \<longleftrightarrow> lastIndexOf xs c = -1"
proof (induction xs)
  case (Cons x xs)
  with lastIndexOf_ge [of xs c] show ?case by (auto simp: Let_def)
qed simp

lemma lastIndexOf_append:
  "lastIndexOf (xs @ ys) c =
     (if c \<in> set ys then int (length xs) + lastIndexOf ys c else lastIndexOf xs c)"
proof (induction xs)
  case Nil
  then show ?case using lastIndexOf_absent [of c ys] by auto
next
  case (Cons x xs)
  have "c \<in> set ys \<Longrightarrow> 0 \<le> lastIndexOf ys c"
    using lastIndexOf_absent [of c ys] lastIndexOf_ge [of ys c] by linarith
  with Cons show ?case by (auto simp: Let_def)
qed

lemma lastIndexOf_split:
  "lastIndexOf s c = int n \<Longrightarrow> n < length s \<and> s = take n s @ c # drop (n + 1) s \<and> c \<notin> set (drop (n + 1) s)"
proof (induction s arbitrary: n)
  case (Cons x xs)
  show ?case
  proof (cases "0 \<le> lastIndexOf xs c")
    case True
    with Cons.prems obtain m where "n = Suc m" "lastIndexOf xs c = int m"
      by (cases n) (auto simp: Let_def)
    with Cons.IH show ?thesis by auto
  next
    case False
    with Cons.prems have "x = c" "n = 0" by (auto simp: Let_def split: if_splits)
    moreover have "c \<notin> set xs"
      using False lastIndexOf_absent [of c xs] lastIndexOf_ge [of xs c] by linarith
    ultimately show ?thesis by simp
  qed
qed simp

lemma makeSagaId_ok [simp]:
  "makeSagaId d r = Inr s \<longleftrightarrow> d \<noteq> [] \<and> r \<noteq> [] \<and> s = d @ '':'' @ r"
  by (auto simp: makeSagaId_def assert_simps)

lemma parseSagaId_ok:
  "parseSagaId (IdStr s) = Inr (d, r) \<longleftrightarrow>
     d \<noteq> [] \<and> r \<noteq> [] \<and> CHR '':'' \<notin> set r \<and> s = d @ '':'' @ r"
proof
  assume parse: "parseSagaId (IdStr s) = Inr (d, r)"
  define k where "k = nat (lastIndexOf s (CHR '':''))"
  from parse have off: "0 < lastIndexOf s (CHR '':'')" "lastIndexOf s (CHR '':'') < int (length s) - 1"
    and dr: "d = take k s" "r = drop (k + 1) s"
    by (auto simp: parseSagaId_def assert_id_string_def Let_def k_def split: if_splits)
  from off(1) have "lastIndexOf s (CHR '':'') = int k" by (simp add: k_def)
  from lastIndexOf_split [OF this] off dr
  show "d \<noteq> [] \<and> r \<noteq> [] \<and> CHR '':'' \<notin> set r \<and> s = d @ '':'' @ r"
    by (auto simp: k_def)
next
  assume shape: "d \<noteq> [] \<and> r \<noteq> [] \<and> CHR '':'' \<notin> set r \<and> s = d @ '':'' @ r"
  then have "lastIndexOf s (CHR '':'') = int (length d)"
    using lastIndexOf_append [of "d @ '':''" r "CHR '':''"]
      lastIndexOf_append [of d "'':''" "CHR '':''"] by simp
  with shape show "parseSagaId (IdStr s) = Inr (d, r)"
    by (auto simp: parseSagaId_def assert_id_string_def Let_def neq_Nil_conv)
qed

text \<open>
  A saga id made from a descriptor and the id of an origin event is parsed back into the two
  exactly if the origin's id has no colon; \<open>makeSagaId\<close> accepts the others as well, and their
  saga ids are read back as another pair.
\<close>

theorem parse_makeSagaId:
  "makeSagaId d r = Inr s \<Longrightarrow> parseSagaId (IdStr s) = Inr (d, r) \<longleftrightarrow> CHR '':'' \<notin> set r"
  by (auto simp: parseSagaId_ok)

lemma parse_makeSagaId_witness:
  "parseSagaId (IdStr ''Signup:17'') = Inr (''Signup'', ''17'')
   \<and> parseSagaId (IdStr ''Signup:a:17'') \<noteq> Inr (''Signup'', ''a:17'')"
  using parse_makeSagaId [of "''Signup''" "''17''"] parse_makeSagaId [of "''Signup''" "''a:17''"] by simp_all

section \<open>An event for examples\<close>

definition demo_event :: "string \<Rightarrow> string \<Rightarrow> int \<Rightarrow> string \<Rightarrow> event" where
  "demo_event t a v i = \<lparr>msg_type = t, aggregateId = Some (IdStr a), aggregateVersion = Some v,
     sagaOrigins = None, payload = JUndef, msg_context = None, event_id = Some (IdStr i)\<rparr>"

lemma demo_event_sel [simp]:
  "msg_type (demo_event t a v i) = t" "aggregateId (demo_event t a v i) = Some (IdStr a)"
  "aggregateVersion (demo_event t a v i) = Some v" "sagaOrigins (demo_event t a v i) = None"
  "payload (demo_event t a v i) = JUndef" "event_id (demo_event t a v i) = Some (IdStr i)"
  by (simp_all add: demo_event_def)

lemma demo_event_key [simp]: "version_key (demo_event t a v i) = Some (IdStr a, v)"
  by (simp add: version_key_def)

end
