(* ===== verification/MemView.thy ===== *)
theory MemView
  imports Messages
begin

text \<open>
  The in-memory view (\<open>src/in-memory/InMemoryView.ts\<close>) with its lock
  (\<open>src/in-memory/InMemoryLock.ts\<close>), and the contract of \<open>src/interfaces/IObjectStorage.ts\<close> as
  a locale which the view implements. An update callback is a function of the record it gets
  (\<open>JUndef\<close> for none): what it returns or throws, and what it made of its argument in place.
\<close>

section \<open>The lock of a view\<close>

text \<open>\<open>locked\<close> says whether there is a lock marker; \<open>None\<close> is waiting for it to go.\<close>

record mem_lock =
  lockMarker :: bool

definition mem_lock_ready :: "'a mem_lock_scheme \<Rightarrow> bool" where
  "mem_lock_ready l = (\<not> lockMarker l)"

definition mem_lock_lock :: "'a mem_lock_scheme \<Rightarrow> (bool \<times> 'a mem_lock_scheme) option" where
  "mem_lock_lock l = (if lockMarker l then None else let l' = l\<lparr>lockMarker := True\<rparr> in Some (lockMarker l', l'))"

definition mem_lock_unlock :: "'a mem_lock_scheme \<Rightarrow> 'a mem_lock_scheme" where
  "mem_lock_unlock l = l\<lparr>lockMarker := False\<rparr>"

text \<open>\<open>once(event)\<close>: whether it resolves at once, or has to wait.\<close>

definition mem_lock_once :: "string \<Rightarrow> 'a mem_lock_scheme \<Rightarrow> bool result" where
  "mem_lock_once ev l = (if ev \<noteq> ''ready'' then Inl (TypeError (''Unexpected event type: '' @ ev))
     else Inr (\<not> lockMarker l))"

section \<open>The view\<close>

record mem_view = mem_lock +
  view_map :: "(ident, jsval) jsmap"

type_synonym callback = "jsval \<Rightarrow> jsval result \<times> jsval"

definition pure_callback :: "(jsval \<Rightarrow> jsval) \<Rightarrow> callback" where
  "pure_callback f = (\<lambda>r. (Inr (f r), r))"

definition new_view :: mem_view where
  "new_view = \<lparr>lockMarker = False, view_map = []\<rparr>"

definition applyUpdate :: "jsval \<Rightarrow> callback \<Rightarrow> jsval result \<times> jsval" where
  "applyUpdate view update = (case update view of
       (Inl e, arg) \<Rightarrow> (Inl e, arg)
     | (Inr v, arg) \<Rightarrow> (Inr (if v = JUndef then arg else v), arg))"

definition view_has :: "ident \<Rightarrow> mem_view \<Rightarrow> bool" where
  "view_has key v = map_has (view_map v) key"

definition view_size :: "mem_view \<Rightarrow> nat" where
  "view_size v = length (view_map v)"

definition view_getSync :: "ident option \<Rightarrow> mem_view \<Rightarrow> jsval option result" where
  "view_getSync key v = res_bind (assert_id_defined key ''key'') (\<lambda>k. Inr (map_of (view_map v) k))"

text \<open>\<open>get\<close> waits until the view is ready, unless told not to: \<open>None\<close> is waiting.\<close>

definition view_get :: "ident option \<Rightarrow> bool \<Rightarrow> mem_view \<Rightarrow> jsval option result option" where
  "view_get key nowait v = (case assert_id_defined key ''key'' of
       Inl e \<Rightarrow> Some (Inl e)
     | Inr k \<Rightarrow> if \<not> mem_lock_ready v \<and> \<not> nowait then None else Some (Inr (map_of (view_map v) k)))"

definition view_getAll :: "(jsval \<Rightarrow> ident \<Rightarrow> bool) option \<Rightarrow> mem_view \<Rightarrow> (ident \<times> jsval) list option" where
  "view_getAll filt v = (if \<not> mem_lock_ready v then None
     else Some (filter (\<lambda>(k, r). case filt of None \<Rightarrow> True | Some f \<Rightarrow> f r k) (view_map v)))"

text \<open>An \<open>undefined\<close> value takes the parameter's default, an empty object.\<close>

definition view_create :: "ident option \<Rightarrow> jsval \<Rightarrow> (mem_view, unit) act" where
  "view_create key value v = (case assert_id_defined key ''key'' of
       Inl e \<Rightarrow> (Inl e, v)
     | Inr k \<Rightarrow> (let val = (if value = JUndef then JObj [] else value)
         in if is_function val then (Inl (TypeError ''value argument must be an instance of an Object''), v)
            else if map_has (view_map v) k
            then (Inl (GenericError (''Key '' @ String_of k @ '' already exists'')), v)
            else (Inr (), v\<lparr>view_map := AList.update k val (view_map v)\<rparr>)))"

definition update_existing :: "ident \<Rightarrow> callback \<Rightarrow> (mem_view, unit) act" where
  "update_existing key update v = (case map_of (view_map v) key of
       None \<Rightarrow> (Inl (GenericError (''Key '' @ String_of key @ '' does not exist'')), v)
     | Some value \<Rightarrow> (case applyUpdate value update of
           (Inl e, arg) \<Rightarrow> (Inl e, v\<lparr>view_map := AList.update key arg (view_map v)\<rparr>)
         | (Inr u, arg) \<Rightarrow> (Inr (), v\<lparr>view_map := AList.update key (if u = JUndef then arg else u) (view_map v)\<rparr>)))"

definition view_update :: "ident option \<Rightarrow> callback \<Rightarrow> (mem_view, unit) act" where
  "view_update key update v = (case assert_id_defined key ''key'' of
       Inl e \<Rightarrow> (Inl e, v) | Inr k \<Rightarrow> update_existing k update v)"

definition view_updateEnforcingNew :: "ident option \<Rightarrow> callback \<Rightarrow> (mem_view, unit) act" where
  "view_updateEnforcingNew key update v = (case assert_id_defined key ''key'' of
       Inl e \<Rightarrow> (Inl e, v)
     | Inr k \<Rightarrow> if \<not> map_has (view_map v) k
         then (case applyUpdate JUndef update of
             (Inl e, _) \<Rightarrow> (Inl e, v) | (Inr u, _) \<Rightarrow> view_create (Some k) u v)
         else update_existing k update v)"

primrec update_each :: "(jsval \<Rightarrow> bool) option \<Rightarrow> callback \<Rightarrow> ident list \<Rightarrow> (mem_view, unit) act" where
  "update_each filt update [] v = (Inr (), v)"
| "update_each filt update (k # ks) v =
     (if (case filt of None \<Rightarrow> True
           | Some f \<Rightarrow> f (case map_of (view_map v) k of None \<Rightarrow> JUndef | Some r \<Rightarrow> r))
      then (case update_existing k update v of
          (Inl e, v') \<Rightarrow> (Inl e, v') | (Inr _, v') \<Rightarrow> update_each filt update ks v')
      else update_each filt update ks v)"

definition view_updateAll :: "(jsval \<Rightarrow> bool) option \<Rightarrow> callback \<Rightarrow> (mem_view, unit) act" where
  "view_updateAll filt update v = update_each filt update (map fst (view_map v)) v"

definition view_delete :: "ident option \<Rightarrow> (mem_view, unit) act" where
  "view_delete key v = (case assert_id_defined key ''key'' of
       Inl e \<Rightarrow> (Inl e, v)
     | Inr k \<Rightarrow> (Inr (), v\<lparr>view_map := AList.delete k (view_map v)\<rparr>))"

primrec delete_each :: "(jsval \<Rightarrow> bool) option \<Rightarrow> (ident \<times> jsval) list \<Rightarrow> (mem_view, unit) act" where
  "delete_each filt [] v = (Inr (), v)"
| "delete_each filt (kr # krs) v =
     (if (case filt of None \<Rightarrow> True | Some f \<Rightarrow> f (snd kr))
      then (case view_delete (Some (fst kr)) v of
          (Inl e, v') \<Rightarrow> (Inl e, v') | (Inr _, v') \<Rightarrow> delete_each filt krs v')
      else delete_each filt krs v)"

definition view_deleteAll :: "(jsval \<Rightarrow> bool) option \<Rightarrow> (mem_view, unit) act" where
  "view_deleteAll filt v = delete_each filt (view_map v) v"

definition view_toString :: "mem_view \<Rightarrow> string" where
  "view_toString v = show_nat (view_size v) @ '' record'' @ (if view_size v \<noteq> 1 then ''s'' else [])"

section \<open>The contract of an object storage\<close>

text \<open>
  \<open>rec\<close> is what a storage holds under an id, \<open>same i j\<close> that two ids address one record, and
  \<open>stored v\<close> what is read back after \<open>v\<close> was written; \<open>storable\<close> are the values that can be written.
\<close>

locale object_storage =
  fixes rec :: "'s \<Rightarrow> ident \<Rightarrow> jsval option"
    and create :: "ident \<Rightarrow> jsval \<Rightarrow> ('s, unit) act"
    and upd :: "ident \<Rightarrow> callback \<Rightarrow> ('s, unit) act"
    and upsert :: "ident \<Rightarrow> callback \<Rightarrow> ('s, unit) act"
    and del :: "ident \<Rightarrow> ('s, unit) act"
    and same :: "ident \<Rightarrow> ident \<Rightarrow> bool"
    and stored :: "jsval \<Rightarrow> jsval"
    and storable :: "jsval \<Rightarrow> bool"
    and valid :: "ident \<Rightarrow> bool"
    and st_ok :: "'s \<Rightarrow> bool"
  assumes create_new: "st_ok s \<Longrightarrow> valid i \<Longrightarrow> rec s i = None \<Longrightarrow> storable x \<Longrightarrow>
        \<exists>s'. create i x s = (Inr (), s') \<and> st_ok s' \<and> (\<forall>j. rec s' j = (if same i j then Some (stored x) else rec s j))"
    and create_taken: "st_ok s \<Longrightarrow> valid i \<Longrightarrow> rec s i \<noteq> None \<Longrightarrow> storable x \<Longrightarrow> \<exists>e. create i x s = (Inl e, s)"
    and upd_there: "st_ok s \<Longrightarrow> valid i \<Longrightarrow> rec s i = Some r \<Longrightarrow> storable (f r) \<Longrightarrow>
        \<exists>s'. upd i (pure_callback f) s = (Inr (), s') \<and> st_ok s' \<and>
          (\<forall>j. rec s' j = (if same i j then Some (stored (f r)) else rec s j))"
    and upd_missing: "st_ok s \<Longrightarrow> valid i \<Longrightarrow> rec s i = None \<Longrightarrow> \<exists>e. upd i c s = (Inl e, s)"
    and upsert_there: "st_ok s \<Longrightarrow> valid i \<Longrightarrow> rec s i = Some r \<Longrightarrow> storable (f r) \<Longrightarrow>
        \<exists>s'. upsert i (pure_callback f) s = (Inr (), s') \<and> st_ok s' \<and>
          (\<forall>j. rec s' j = (if same i j then Some (stored (f r)) else rec s j))"
    and upsert_missing: "st_ok s \<Longrightarrow> valid i \<Longrightarrow> rec s i = None \<Longrightarrow> storable (f JUndef) \<Longrightarrow>
        \<exists>s'. upsert i (pure_callback f) s = (Inr (), s') \<and> st_ok s' \<and>
          (\<forall>j. rec s' j = (if same i j then Some (stored (f JUndef)) else rec s j))"
    and del_removes: "st_ok s \<Longrightarrow> valid i \<Longrightarrow>
        \<exists>s'. del i s = (Inr (), s') \<and> st_ok s' \<and> (\<forall>j. rec s' j = (if same i j then None else rec s j))"
    and same_refl: "same i i"
begin

lemma create_then_get:
  assumes "st_ok s" and "valid i" and "rec s i = None" and "storable x" and "create i x s = (r, s')"
  shows "r = Inr () \<and> rec s' i = Some (stored x)"
  using create_new [OF assms(1-4)] assms(5) same_refl by auto

text \<open>A projection that upserts a record for every event folds its function over the events.\<close>

lemma upserts_fold:
  assumes "st_ok s" and "valid i" and "\<And>x e. storable (f e x)" and "\<And>x e. stored (f e x) = f e x"
  shows "\<exists>s'. fold (\<lambda>e t. snd (upsert i (pure_callback (f e)) t)) es s = s' \<and> st_ok s' \<and>
    (es \<noteq> [] \<longrightarrow> rec s' i = Some (fold f es (case rec s i of None \<Rightarrow> JUndef | Some r \<Rightarrow> r)))
    \<and> (\<forall>j. \<not> same i j \<longrightarrow> rec s' j = rec s j)"
  using assms(1)
proof (induction es arbitrary: s)
  case (Cons e es)
  define x where "x = (case rec s i of None \<Rightarrow> JUndef | Some r \<Rightarrow> r)"
  have "\<exists>s1. upsert i (pure_callback (f e)) s = (Inr (), s1) \<and> st_ok s1 \<and>
      (\<forall>j. rec s1 j = (if same i j then Some (f e x) else rec s j))"
    using upsert_there [OF Cons.prems assms(2), of _ "f e"] upsert_missing [OF Cons.prems assms(2), of "f e"] assms(3,4)
    by (cases "rec s i") (auto simp: x_def)
  then obtain s1 where s1: "upsert i (pure_callback (f e)) s = (Inr (), s1)" "st_ok s1"
    "\<And>j. rec s1 j = (if same i j then Some (f e x) else rec s j)" by blast
  from Cons.IH [OF s1(2)] s1(1,3) same_refl [of i] show ?case
    by (cases "es = []") (auto simp: x_def [symmetric])
qed simp

end

text \<open>The in-memory view is one: any defined value but a function can be stored, as it is.\<close>

definition mem_storable :: "jsval \<Rightarrow> bool" where
  "mem_storable x = (x \<noteq> JUndef \<and> \<not> is_function x)"

interpretation view: object_storage
  "\<lambda>v i. map_of (view_map v) i" "\<lambda>i. view_create (Some i)" "\<lambda>i. view_update (Some i)"
  "\<lambda>i. view_updateEnforcingNew (Some i)" "\<lambda>i. view_delete (Some i)" "(=)" "\<lambda>x. x" mem_storable id_truthy "\<lambda>_. True"
proof
  fix v :: mem_view and i x r f c
  have ok: "id_truthy i \<Longrightarrow> assert_id_defined (Some i) n = Inr i" for n by simp
  show "id_truthy i \<Longrightarrow> map_of (view_map v) i = None \<Longrightarrow> mem_storable x \<Longrightarrow>
      \<exists>s'. view_create (Some i) x v = (Inr (), s') \<and> True \<and> (\<forall>j. map_of (view_map s') j = (if i = j then Some x else map_of (view_map v) j))"
    by (auto simp: view_create_def ok mem_storable_def map_has_def Let_def)
  show "id_truthy i \<Longrightarrow> map_of (view_map v) i \<noteq> None \<Longrightarrow> mem_storable x \<Longrightarrow> \<exists>e. view_create (Some i) x v = (Inl e, v)"
    by (auto simp: view_create_def ok mem_storable_def map_has_def Let_def)
  show "id_truthy i \<Longrightarrow> map_of (view_map v) i = Some r \<Longrightarrow> mem_storable (f r) \<Longrightarrow>
      \<exists>s'. view_update (Some i) (pure_callback f) v = (Inr (), s') \<and> True \<and>
        (\<forall>j. map_of (view_map s') j = (if i = j then Some (f r) else map_of (view_map v) j))"
    by (auto simp: view_update_def ok update_existing_def applyUpdate_def pure_callback_def mem_storable_def)
  show "id_truthy i \<Longrightarrow> map_of (view_map v) i = None \<Longrightarrow> \<exists>e. view_update (Some i) c v = (Inl e, v)"
    by (auto simp: view_update_def ok update_existing_def)
  show "id_truthy i \<Longrightarrow> map_of (view_map v) i = Some r \<Longrightarrow> mem_storable (f r) \<Longrightarrow>
      \<exists>s'. view_updateEnforcingNew (Some i) (pure_callback f) v = (Inr (), s') \<and> True \<and>
        (\<forall>j. map_of (view_map s') j = (if i = j then Some (f r) else map_of (view_map v) j))"
    by (auto simp: view_updateEnforcingNew_def ok update_existing_def applyUpdate_def pure_callback_def mem_storable_def map_has_def)
  show "id_truthy i \<Longrightarrow> map_of (view_map v) i = None \<Longrightarrow> mem_storable (f JUndef) \<Longrightarrow>
      \<exists>s'. view_updateEnforcingNew (Some i) (pure_callback f) v = (Inr (), s') \<and> True \<and>
        (\<forall>j. map_of (view_map s') j = (if i = j then Some (f JUndef) else map_of (view_map v) j))"
    by (auto simp: view_updateEnforcingNew_def ok view_create_def applyUpdate_def pure_callback_def mem_storable_def map_has_def Let_def)
  show "id_truthy i \<Longrightarrow> \<exists>s'. view_delete (Some i) v = (Inr (), s') \<and> True \<and>
      (\<forall>j. map_of (view_map s') j = (if i = j then None else map_of (view_map v) j))"
    by (auto simp: view_delete_def ok)
qed simp_all

section \<open>Properties\<close>

text \<open>
  A projection whose handlers all upsert one record of an in-memory view, each with a function of
  the event and the record so far: after any events the record is the fold of these functions over
  them, and no other record has changed.
\<close>

theorem view_folds_events:
  assumes "id_truthy i" and "\<And>x e. mem_storable (f e x)" and "es \<noteq> []"
  shows "map_of (view_map (fold (\<lambda>e v. snd (view_updateEnforcingNew (Some i) (pure_callback (f e)) v)) es v)) i
      = Some (fold f es (case map_of (view_map v) i of None \<Rightarrow> JUndef | Some r \<Rightarrow> r))
    \<and> (\<forall>j. i \<noteq> j \<longrightarrow> map_of (view_map (fold (\<lambda>e v. snd (view_updateEnforcingNew (Some i) (pure_callback (f e)) v)) es v)) j
      = map_of (view_map v) j)"
  using view.upserts_fold [OF _ assms(1), where f = f and es = es and s = v] assms(2,3) by auto

lemma view_folds_events_witness:
  "map_of (view_map (fold (\<lambda>e v. snd (view_updateEnforcingNew (Some (IdStr ''k'')) (pure_callback (\<lambda>_. JNum e)) v))
      [1, 2, 3] new_view)) (IdStr ''k'') = Some (JNum 3)"
  using view_folds_events [of "IdStr ''k''" "\<lambda>e _. JNum e" "[1, 2, 3]" new_view] by (simp add: mem_storable_def)

end
