(* ===== verification/DbObjectStorage.thy ===== *)
theory DbObjectStorage
  imports MemView
begin

text \<open>
  The three database-backed object storages: \<open>src/sqlite/SqliteObjectStorage.ts\<close>,
  \<open>src/mongodb/MongoObjectStorage.ts\<close>, \<open>src/redis/RedisObjectStorage.ts\<close>, with the id encodings of
  \<open>src/sqlite/utils\<close>. A table is a map from keys to data and version. Between reading a record
  and writing it back other processes may act: \<open>env\<close> is what they do to the table, per attempt.
\<close>

section \<open>Values in a database\<close>

text \<open>
  \<open>JSON.parse(JSON.stringify(v))\<close>: \<open>None\<close> where \<open>stringify\<close> returns \<open>undefined\<close>. How a date is
  rendered is the parameter \<open>dt\<close>; of the non-integral numbers the infinities become \<open>null\<close>.
\<close>

fun json :: "(int \<Rightarrow> string) \<Rightarrow> jsval \<Rightarrow> jsval option" where
  "json dt JUndef = None"
| "json dt (JFun _ _) = None"
| "json dt JNull = Some JNull"
| "json dt (JBool b) = Some (JBool b)"
| "json dt (JNum n) = Some (JNum n)"
| "json dt JNaN = Some JNull"
| "json dt (JFrac s) = Some (if s = ''Infinity'' \<or> s = ''-Infinity'' then JNull else JFrac s)"
| "json dt (JStr s) = Some (JStr s)"
| "json dt (JDate t) = Some (JStr (dt t))"
| "json dt (JArr vs) = Some (JArr (map (\<lambda>v. case json dt v of None \<Rightarrow> JNull | Some x \<Rightarrow> x) vs))"
| "json dt (JObj ps) = Some (JObj (concat (map (\<lambda>p. case json dt (snd p) of None \<Rightarrow> [] | Some x \<Rightarrow> [(fst p, x)]) ps)))"

definition hex_digit :: "char \<Rightarrow> nat option" where
  "hex_digit c = (let n = of_char c in
     if 48 \<le> n \<and> n \<le> 57 then Some (n - 48)
     else if 97 \<le> n \<and> n \<le> 102 then Some (n - 87)
     else if 65 \<le> n \<and> n \<le> 70 then Some (n - 55) else None)"

text \<open>\<open>Buffer.from(s, 'hex')\<close> stops at the first pair that is not two hexadecimal digits.\<close>

fun hex_bytes :: "string \<Rightarrow> nat list" where
  "hex_bytes (a # b # cs) = (case (hex_digit a, hex_digit b) of
       (Some x, Some y) \<Rightarrow> (16 * x + y) # hex_bytes cs
     | _ \<Rightarrow> [])"
| "hex_bytes _ = []"

definition guid :: "ident \<Rightarrow> nat list" where
  "guid i = hex_bytes (filter (\<lambda>c. c \<noteq> CHR ''-'') (String_of i))"

type_synonym 'k table = "('k, jsval \<times> int) jsmap"

definition rec_error :: "ident \<Rightarrow> string \<Rightarrow> js_error" where
  "rec_error i msg = GenericError (''Record '' @ String_of i @ '' '' @ msg)"

section \<open>SQLite\<close>

definition getQuery :: "nat list \<Rightarrow> nat list table \<Rightarrow> (jsval \<times> int) option" where
  "getQuery gid t = map_of t gid"

text \<open>\<open>INSERT\<close>: a taken key violates the primary key, data that is not JSON the column.\<close>

definition insertQuery :: "nat list \<Rightarrow> jsval option \<Rightarrow> nat list table \<Rightarrow> nat result \<times> nat list table" where
  "insertQuery gid data t = (case data of
       None \<Rightarrow> (Inl (GenericError ''NOT NULL constraint failed''), t)
     | Some d \<Rightarrow> if map_has t gid then (Inl (GenericError ''UNIQUE constraint failed''), t)
         else (Inr 1, AList.update gid (d, 1) t))"

definition updateByIdAndVersionQuery ::
  "jsval option \<Rightarrow> nat list \<Rightarrow> int \<Rightarrow> nat list table \<Rightarrow> nat result \<times> nat list table" where
  "updateByIdAndVersionQuery data gid version t = (case map_of t gid of
       Some (_, ver) \<Rightarrow>
         if ver = version
         then (case data of
             None \<Rightarrow> (Inl (GenericError ''NOT NULL constraint failed''), t)
           | Some d \<Rightarrow> (Inr 1, AList.update gid (d, ver + 1) t))
         else (Inr 0, t)
     | None \<Rightarrow> (Inr 0, t))"

definition deleteQuery :: "nat list \<Rightarrow> nat list table \<Rightarrow> nat \<times> nat list table" where
  "deleteQuery gid t = (if map_has t gid then 1 else 0, AList.delete gid t)"

definition sqlite_get :: "ident option \<Rightarrow> nat list table \<Rightarrow> jsval option result" where
  "sqlite_get oid t = res_bind (assert_id_defined oid ''id'') (\<lambda>i. Inr (map_option fst (getQuery (guid i) t)))"

definition sqlite_createSync :: "(int \<Rightarrow> string) \<Rightarrow> ident \<Rightarrow> jsval \<Rightarrow> (nat list table, unit) act" where
  "sqlite_createSync dt i x t = (case insertQuery (guid i) (json dt x) t of
       (Inl e, t1) \<Rightarrow> (Inl e, t1)
     | (Inr changes, t1) \<Rightarrow> (if changes \<noteq> 1 then Inl (rec_error i ''could not be created'') else Inr (), t1))"

definition sqlite_create :: "(int \<Rightarrow> string) \<Rightarrow> ident option \<Rightarrow> jsval \<Rightarrow> (nat list table, unit) act" where
  "sqlite_create dt oid x t = (case assert_id_defined oid ''id'' of
       Inl e \<Rightarrow> (Inl e, t) | Inr i \<Rightarrow> sqlite_createSync dt i x t)"

definition sqlite_updateExisting ::
  "(int \<Rightarrow> string) \<Rightarrow> (nat list table \<Rightarrow> nat list table) \<Rightarrow> ident \<Rightarrow> jsval \<times> int \<Rightarrow> callback \<Rightarrow> (nat list table, unit) act" where
  "sqlite_updateExisting dt env i record update t = (case fst (update (fst record)) of
       Inl e \<Rightarrow> (Inl e, t)
     | Inr u \<Rightarrow> (case updateByIdAndVersionQuery (json dt u) (guid i) (snd record) (env t) of
           (Inl e, t1) \<Rightarrow> (Inl e, t1)
         | (Inr changes, t1) \<Rightarrow> (if changes \<noteq> 1 then Inl (rec_error i ''could not be updated'') else Inr (), t1)))"

definition sqlite_updateSync ::
  "(int \<Rightarrow> string) \<Rightarrow> (nat list table \<Rightarrow> nat list table) \<Rightarrow> ident \<Rightarrow> callback \<Rightarrow> (nat list table, unit) act" where
  "sqlite_updateSync dt env i update t = (case getQuery (guid i) t of
       None \<Rightarrow> (Inl (rec_error i ''does not exist''), t)
     | Some record \<Rightarrow> sqlite_updateExisting dt env i record update t)"

definition sqlite_update ::
  "(int \<Rightarrow> string) \<Rightarrow> (nat list table \<Rightarrow> nat list table) \<Rightarrow> ident option \<Rightarrow> callback \<Rightarrow> (nat list table, unit) act" where
  "sqlite_update dt env oid update t = (case assert_id_defined oid ''id'' of
       Inl e \<Rightarrow> (Inl e, t) | Inr i \<Rightarrow> sqlite_updateSync dt env i update t)"

definition sqlite_updateEnforcingNew ::
  "(int \<Rightarrow> string) \<Rightarrow> (nat list table \<Rightarrow> nat list table) \<Rightarrow> ident option \<Rightarrow> callback \<Rightarrow> (nat list table, unit) act" where
  "sqlite_updateEnforcingNew dt env oid update t = (case assert_id_defined oid ''id'' of
       Inl e \<Rightarrow> (Inl e, t)
     | Inr i \<Rightarrow> (case getQuery (guid i) t of
           Some record \<Rightarrow> sqlite_updateExisting dt env i record update t
         | None \<Rightarrow> (case fst (update JUndef) of
             Inl e \<Rightarrow> (Inl e, t) | Inr u \<Rightarrow> sqlite_createSync dt i u (env t))))"

definition sqlite_delete :: "ident option \<Rightarrow> (nat list table, bool) act" where
  "sqlite_delete oid t = (case assert_id_defined oid ''id'' of
       Inl e \<Rightarrow> (Inl e, t)
     | Inr i \<Rightarrow> (case deleteQuery (guid i) t of (changes, t1) \<Rightarrow> (Inr (changes = 1), t1)))"

section \<open>MongoDB\<close>

text \<open>\<open>bson\<close> is what the driver returns for a value it stored.\<close>

definition mongo_get :: "ident option \<Rightarrow> string table \<Rightarrow> jsval option result" where
  "mongo_get oid t = res_bind (assert_id_defined oid ''id'') (\<lambda>i. Inr (map_option fst (map_of t (String_of i))))"

definition mongo_create :: "(jsval \<Rightarrow> jsval) \<Rightarrow> ident option \<Rightarrow> jsval \<Rightarrow> (string table, unit) act" where
  "mongo_create bson oid x t = (case assert_id_defined oid ''id'' of
       Inl e \<Rightarrow> (Inl e, t)
     | Inr i \<Rightarrow> if map_has t (String_of i) then (Inl (rec_error i ''could not be created''), t)
         else (Inr (), AList.update (String_of i) (bson x, 1) t))"

text \<open>\<open>findOneAndUpdate({ _id, version })\<close>: whether a document matched, and the collection after.\<close>

definition mongo_replace :: "string \<Rightarrow> int \<Rightarrow> jsval \<Rightarrow> string table \<Rightarrow> bool \<times> string table" where
  "mongo_replace k ver x t = (case map_of t k of
       Some (d, v) \<Rightarrow> if v = ver then (True, AList.update k (x, ver + 1) t) else (False, t)
     | None \<Rightarrow> (False, t))"

primrec mongo_update_loop ::
  "(jsval \<Rightarrow> jsval) \<Rightarrow> (nat \<Rightarrow> string table \<Rightarrow> string table) \<Rightarrow> ident \<Rightarrow> callback \<Rightarrow> nat \<Rightarrow> nat \<Rightarrow>
   (string table, unit) act" where
  "mongo_update_loop bson env i update n 0 t = (Inl (rec_error i ''could not be updated after retries''), t)"
| "mongo_update_loop bson env i update n (Suc left) t = (case map_of t (String_of i) of
       None \<Rightarrow> (Inl (rec_error i ''does not exist''), t)
     | Some (d, ver) \<Rightarrow> (case fst (update d) of
           Inl e \<Rightarrow> (Inl e, t)
         | Inr u \<Rightarrow> (case mongo_replace (String_of i) ver (bson u) (env n t) of
               (True, t1) \<Rightarrow> (Inr (), t1)
             | (False, t1) \<Rightarrow> mongo_update_loop bson env i update (Suc n) left t1)))"

definition mongo_update ::
  "(jsval \<Rightarrow> jsval) \<Rightarrow> (nat \<Rightarrow> string table \<Rightarrow> string table) \<Rightarrow> nat \<Rightarrow> ident option \<Rightarrow> callback \<Rightarrow> (string table, unit) act" where
  "mongo_update bson env maxRetries oid update t = (case assert_id_defined oid ''id'' of
       Inl e \<Rightarrow> (Inl e, t)
     | Inr i \<Rightarrow> mongo_update_loop bson env i update 0 (maxRetries + 1) t)"

primrec mongo_upsert_loop ::
  "(jsval \<Rightarrow> jsval) \<Rightarrow> (nat \<Rightarrow> string table \<Rightarrow> string table) \<Rightarrow> ident \<Rightarrow> callback \<Rightarrow> nat \<Rightarrow> nat \<Rightarrow>
   (string table, unit) act" where
  "mongo_upsert_loop bson env i update n 0 t = (Inl (rec_error i ''could not be upserted after retries''), t)"
| "mongo_upsert_loop bson env i update n (Suc left) t = (case map_of t (String_of i) of
       Some (d, ver) \<Rightarrow> (case fst (update d) of
           Inl e \<Rightarrow> (Inl e, t)
         | Inr u \<Rightarrow> (case mongo_replace (String_of i) ver (bson u) (env n t) of
               (True, t1) \<Rightarrow> (Inr (), t1)
             | (False, t1) \<Rightarrow> mongo_upsert_loop bson env i update (Suc n) left t1))
     | None \<Rightarrow> (case fst (update JUndef) of
           Inl e \<Rightarrow> (Inl e, t)
         | Inr u \<Rightarrow> (let t1 = env n t in
             if map_has t1 (String_of i) then mongo_upsert_loop bson env i update (Suc n) left t1
             else (Inr (), AList.update (String_of i) (bson u, 1) t1))))"

definition mongo_updateEnforcingNew ::
  "(jsval \<Rightarrow> jsval) \<Rightarrow> (nat \<Rightarrow> string table \<Rightarrow> string table) \<Rightarrow> nat \<Rightarrow> ident option \<Rightarrow> callback \<Rightarrow> (string table, unit) act" where
  "mongo_updateEnforcingNew bson env maxRetries oid update t = (case assert_id_defined oid ''id'' of
       Inl e \<Rightarrow> (Inl e, t)
     | Inr i \<Rightarrow> mongo_upsert_loop bson env i update 0 (maxRetries + 1) t)"

definition mongo_delete :: "ident option \<Rightarrow> (string table, bool) act" where
  "mongo_delete oid t = (case assert_id_defined oid ''id'' of
       Inl e \<Rightarrow> (Inl e, t)
     | Inr i \<Rightarrow> (Inr (map_has t (String_of i)), AList.delete (String_of i) t))"

section \<open>Redis\<close>

text \<open>The envelope \<open>{ d, v }\<close> is JSON; an undefined \<open>d\<close> is dropped and read back as undefined.\<close>

definition envelope_data :: "(int \<Rightarrow> string) \<Rightarrow> jsval \<Rightarrow> jsval" where
  "envelope_data dt x = (case json dt x of None \<Rightarrow> JUndef | Some j \<Rightarrow> j)"

definition redis_key :: "string \<Rightarrow> ident \<Rightarrow> string" where
  "redis_key tableName i = tableName @ '':'' @ String_of i"

definition redis_get :: "string \<Rightarrow> ident option \<Rightarrow> string table \<Rightarrow> jsval option result" where
  "redis_get tn oid t = res_bind (assert_id_defined oid ''id'') (\<lambda>i. Inr (map_option fst (map_of t (redis_key tn i))))"

definition redis_create :: "(int \<Rightarrow> string) \<Rightarrow> string \<Rightarrow> ident option \<Rightarrow> jsval \<Rightarrow> (string table, unit) act" where
  "redis_create dt tn oid x t = (case assert_id_defined oid ''id'' of
       Inl e \<Rightarrow> (Inl e, t)
     | Inr i \<Rightarrow> if map_has t (redis_key tn i) then (Inl (rec_error i ''could not be created''), t)
         else (Inr (), AList.update (redis_key tn i) (envelope_data dt x, 1) t))"

text \<open>The script that updates if the version matches: $1$ done, $0$ other version, $-1$ no record.\<close>

definition script_update_if_version :: "string \<Rightarrow> int \<Rightarrow> jsval \<times> int \<Rightarrow> string table \<Rightarrow> int \<times> string table" where
  "script_update_if_version k ver x t = (case map_of t k of
       None \<Rightarrow> (-1, t)
     | Some (d, v) \<Rightarrow> if v \<noteq> ver then (0, t) else (1, AList.update k x t))"

primrec redis_update_loop ::
  "(int \<Rightarrow> string) \<Rightarrow> (nat \<Rightarrow> string table \<Rightarrow> string table) \<Rightarrow> string \<Rightarrow> ident \<Rightarrow> callback \<Rightarrow> nat \<Rightarrow> nat \<Rightarrow>
   (string table, unit) act" where
  "redis_update_loop dt env tn i update n 0 t = (Inl (rec_error i ''could not be updated after retries''), t)"
| "redis_update_loop dt env tn i update n (Suc left) t = (case map_of t (redis_key tn i) of
       None \<Rightarrow> (Inl (rec_error i ''does not exist''), t)
     | Some (d, ver) \<Rightarrow> (case fst (update d) of
           Inl e \<Rightarrow> (Inl e, t)
         | Inr u \<Rightarrow> (case script_update_if_version (redis_key tn i) ver (envelope_data dt u, ver + 1) (env n t) of
               (res, t1) \<Rightarrow> if res = 1 then (Inr (), t1)
                 else if res = -1 then (Inl (rec_error i ''does not exist''), t1)
                 else redis_update_loop dt env tn i update (Suc n) left t1)))"

definition redis_update ::
  "(int \<Rightarrow> string) \<Rightarrow> (nat \<Rightarrow> string table \<Rightarrow> string table) \<Rightarrow> string \<Rightarrow> nat \<Rightarrow> ident option \<Rightarrow> callback \<Rightarrow>
   (string table, unit) act" where
  "redis_update dt env tn maxRetries oid update t = (case assert_id_defined oid ''id'' of
       Inl e \<Rightarrow> (Inl e, t)
     | Inr i \<Rightarrow> redis_update_loop dt env tn i update 0 (maxRetries + 1) t)"

primrec redis_upsert_loop ::
  "(int \<Rightarrow> string) \<Rightarrow> (nat \<Rightarrow> string table \<Rightarrow> string table) \<Rightarrow> string \<Rightarrow> ident \<Rightarrow> callback \<Rightarrow> nat \<Rightarrow> nat \<Rightarrow>
   (string table, unit) act" where
  "redis_upsert_loop dt env tn i update n 0 t = (Inl (rec_error i ''could not be upserted after retries''), t)"
| "redis_upsert_loop dt env tn i update n (Suc left) t = (case map_of t (redis_key tn i) of
       Some (d, ver) \<Rightarrow> (case fst (update d) of
           Inl e \<Rightarrow> (Inl e, t)
         | Inr u \<Rightarrow> (case script_update_if_version (redis_key tn i) ver (envelope_data dt u, ver + 1) (env n t) of
               (res, t1) \<Rightarrow> if res = 1 then (Inr (), t1)
                 else redis_upsert_loop dt env tn i update (Suc n) left t1))
     | None \<Rightarrow> (case fst (update JUndef) of
           Inl e \<Rightarrow> (Inl e, t)
         | Inr u \<Rightarrow> (let t1 = env n t in
             if map_has t1 (redis_key tn i) then redis_upsert_loop dt env tn i update (Suc n) left t1
             else (Inr (), AList.update (redis_key tn i) (envelope_data dt u, 1) t1))))"

definition redis_updateEnforcingNew ::
  "(int \<Rightarrow> string) \<Rightarrow> (nat \<Rightarrow> string table \<Rightarrow> string table) \<Rightarrow> string \<Rightarrow> nat \<Rightarrow> ident option \<Rightarrow> callback \<Rightarrow>
   (string table, unit) act" where
  "redis_updateEnforcingNew dt env tn maxRetries oid update t = (case assert_id_defined oid ''id'' of
       Inl e \<Rightarrow> (Inl e, t)
     | Inr i \<Rightarrow> redis_upsert_loop dt env tn i update 0 (maxRetries + 1) t)"

definition redis_delete :: "string \<Rightarrow> ident option \<Rightarrow> (string table, bool) act" where
  "redis_delete tn oid t = (case assert_id_defined oid ''id'' of
       Inl e \<Rightarrow> (Inl e, t)
     | Inr i \<Rightarrow> (Inr (map_has t (redis_key tn i)), AList.delete (redis_key tn i) t))"

section \<open>The contract holds where nobody interferes\<close>

text \<open>
  The records of the three tables by id, with keys that two ids share if their encodings are
  equal. Without interference each is an \<open>object_storage\<close>; an id and every id of the same key
  address one record.
\<close>

definition table_rec :: "(ident \<Rightarrow> 'k) \<Rightarrow> 'k table \<Rightarrow> ident \<Rightarrow> jsval option" where
  "table_rec key t i = map_option fst (map_of t (key i))"

definition quiet :: "'n \<Rightarrow> 'k table \<Rightarrow> 'k table" where
  "quiet n t = t"

definition no_result :: "('s, 'a) act \<Rightarrow> ('s, unit) act" where
  "no_result m s = (case m s of (Inl e, t) \<Rightarrow> (Inl e, t) | (Inr _, t) \<Rightarrow> (Inr (), t))"

lemma table_rec_update [simp]:
  "table_rec key (AList.update (key i) (x, v) t) j = (if key i = key j then Some x else table_rec key t j)"
  by (auto simp: table_rec_def)

lemma table_rec_delete [simp]:
  "table_rec key (AList.delete (key i) t) j = (if key i = key j then None else table_rec key t j)"
  by (auto simp: table_rec_def)

lemma table_rec_None: "table_rec key t i = None \<longleftrightarrow> map_of t (key i) = None"
  by (simp add: table_rec_def)

lemma table_rec_Some: "table_rec key t i = Some r \<longleftrightarrow> (\<exists>v. map_of t (key i) = Some (r, v))"
  by (auto simp: table_rec_def)

lemmas storage_defs = pure_callback_def quiet_def no_result_def map_has_def Let_def

interpretation sqlite: object_storage
  "table_rec guid" "\<lambda>i. sqlite_create dt (Some i)" "\<lambda>i. sqlite_update dt (quiet ()) (Some i)"
  "\<lambda>i. sqlite_updateEnforcingNew dt (quiet ()) (Some i)" "\<lambda>i. no_result (sqlite_delete (Some i))"
  "\<lambda>i j. guid i = guid j" "\<lambda>x. the (json dt x)" "\<lambda>x. json dt x \<noteq> None" id_truthy "\<lambda>_. True"
  for dt
proof
  fix t :: "nat list table" and i x r f c
  assume ok: "id_truthy i"
  note defs = sqlite_create_def sqlite_createSync_def sqlite_update_def sqlite_updateSync_def sqlite_updateEnforcingNew_def
    sqlite_updateExisting_def sqlite_delete_def getQuery_def insertQuery_def updateByIdAndVersionQuery_def deleteQuery_def
  have id_ok: "assert_id_defined (Some i) n = Inr i" for n using ok by simp
  show "table_rec guid t i = None \<Longrightarrow> json dt x \<noteq> None \<Longrightarrow> \<exists>s'. sqlite_create dt (Some i) x t = (Inr (), s') \<and> True \<and>
      (\<forall>j. table_rec guid s' j = (if guid i = guid j then Some (the (json dt x)) else table_rec guid t j))"
    by (auto simp: defs id_ok table_rec_None map_has_def)
  show "table_rec guid t i \<noteq> None \<Longrightarrow> json dt x \<noteq> None \<Longrightarrow> \<exists>e. sqlite_create dt (Some i) x t = (Inl e, t)"
    by (auto simp: defs id_ok table_rec_None map_has_def)
  show "table_rec guid t i = Some r \<Longrightarrow> json dt (f r) \<noteq> None \<Longrightarrow>
      \<exists>s'. sqlite_update dt (quiet ()) (Some i) (pure_callback f) t = (Inr (), s') \<and> True \<and>
        (\<forall>j. table_rec guid s' j = (if guid i = guid j then Some (the (json dt (f r))) else table_rec guid t j))"
    by (auto simp: defs id_ok table_rec_Some storage_defs)
  show "table_rec guid t i = None \<Longrightarrow> \<exists>e. sqlite_update dt (quiet ()) (Some i) c t = (Inl e, t)"
    by (simp add: defs id_ok table_rec_None)
  show "table_rec guid t i = Some r \<Longrightarrow> json dt (f r) \<noteq> None \<Longrightarrow>
      \<exists>s'. sqlite_updateEnforcingNew dt (quiet ()) (Some i) (pure_callback f) t = (Inr (), s') \<and> True \<and>
        (\<forall>j. table_rec guid s' j = (if guid i = guid j then Some (the (json dt (f r))) else table_rec guid t j))"
    by (auto simp: defs id_ok table_rec_Some storage_defs)
  show "table_rec guid t i = None \<Longrightarrow> json dt (f JUndef) \<noteq> None \<Longrightarrow>
      \<exists>s'. sqlite_updateEnforcingNew dt (quiet ()) (Some i) (pure_callback f) t = (Inr (), s') \<and> True \<and>
        (\<forall>j. table_rec guid s' j = (if guid i = guid j then Some (the (json dt (f JUndef))) else table_rec guid t j))"
    by (auto simp: defs id_ok table_rec_None storage_defs)
  show "\<exists>s'. no_result (sqlite_delete (Some i)) t = (Inr (), s') \<and> True \<and>
      (\<forall>j. table_rec guid s' j = (if guid i = guid j then None else table_rec guid t j))"
    by (simp add: defs id_ok no_result_def)
qed simp_all

interpretation mongo: object_storage
  "table_rec String_of" "\<lambda>i. mongo_create bson (Some i)" "\<lambda>i. mongo_update bson quiet n (Some i)"
  "\<lambda>i. mongo_updateEnforcingNew bson quiet n (Some i)" "\<lambda>i. no_result (mongo_delete (Some i))"
  "\<lambda>i j. String_of i = String_of j" bson "\<lambda>_. True" id_truthy "\<lambda>_. True"
  for bson n
proof
  fix t :: "string table" and i x r f c
  assume ok: "id_truthy i"
  note defs = mongo_create_def mongo_update_def mongo_updateEnforcingNew_def mongo_replace_def mongo_delete_def
  have id_ok: "assert_id_defined (Some i) n = Inr i" for n using ok by simp
  show "table_rec String_of t i = None \<Longrightarrow> \<exists>s'. mongo_create bson (Some i) x t = (Inr (), s') \<and> True \<and>
      (\<forall>j. table_rec String_of s' j = (if String_of i = String_of j then Some (bson x) else table_rec String_of t j))"
    by (simp add: defs id_ok table_rec_None map_has_def)
  show "table_rec String_of t i \<noteq> None \<Longrightarrow> \<exists>e. mongo_create bson (Some i) x t = (Inl e, t)"
    by (simp add: defs id_ok table_rec_None map_has_def)
  show "table_rec String_of t i = Some r \<Longrightarrow>
      \<exists>s'. mongo_update bson quiet n (Some i) (pure_callback f) t = (Inr (), s') \<and> True \<and>
        (\<forall>j. table_rec String_of s' j = (if String_of i = String_of j then Some (bson (f r)) else table_rec String_of t j))"
    by (auto simp: defs id_ok table_rec_Some storage_defs)
  show "table_rec String_of t i = None \<Longrightarrow> \<exists>e. mongo_update bson quiet n (Some i) c t = (Inl e, t)"
    by (simp add: defs id_ok table_rec_None)
  show "table_rec String_of t i = Some r \<Longrightarrow>
      \<exists>s'. mongo_updateEnforcingNew bson quiet n (Some i) (pure_callback f) t = (Inr (), s') \<and> True \<and>
        (\<forall>j. table_rec String_of s' j = (if String_of i = String_of j then Some (bson (f r)) else table_rec String_of t j))"
    by (auto simp: defs id_ok table_rec_Some storage_defs)
  show "table_rec String_of t i = None \<Longrightarrow>
      \<exists>s'. mongo_updateEnforcingNew bson quiet n (Some i) (pure_callback f) t = (Inr (), s') \<and> True \<and>
        (\<forall>j. table_rec String_of s' j = (if String_of i = String_of j then Some (bson (f JUndef)) else table_rec String_of t j))"
    by (simp add: defs id_ok table_rec_None storage_defs)
  show "\<exists>s'. no_result (mongo_delete (Some i)) t = (Inr (), s') \<and> True \<and>
      (\<forall>j. table_rec String_of s' j = (if String_of i = String_of j then None else table_rec String_of t j))"
    by (simp add: defs id_ok no_result_def)
qed simp_all

interpretation redis: object_storage
  "table_rec (redis_key tn)" "\<lambda>i. redis_create dt tn (Some i)" "\<lambda>i. redis_update dt quiet tn n (Some i)"
  "\<lambda>i. redis_updateEnforcingNew dt quiet tn n (Some i)" "\<lambda>i. no_result (redis_delete tn (Some i))"
  "\<lambda>i j. redis_key tn i = redis_key tn j" "envelope_data dt" "\<lambda>_. True" id_truthy "\<lambda>_. True"
  for dt tn n
proof
  fix t :: "string table" and i x r f c
  assume ok: "id_truthy i"
  note defs = redis_create_def redis_update_def redis_updateEnforcingNew_def script_update_if_version_def redis_delete_def
  have id_ok: "assert_id_defined (Some i) n = Inr i" for n using ok by simp
  show "table_rec (redis_key tn) t i = None \<Longrightarrow> \<exists>s'. redis_create dt tn (Some i) x t = (Inr (), s') \<and> True \<and>
      (\<forall>j. table_rec (redis_key tn) s' j = (if redis_key tn i = redis_key tn j then Some (envelope_data dt x) else table_rec (redis_key tn) t j))"
    by (simp add: defs id_ok table_rec_None map_has_def)
  show "table_rec (redis_key tn) t i \<noteq> None \<Longrightarrow> \<exists>e. redis_create dt tn (Some i) x t = (Inl e, t)"
    by (simp add: defs id_ok table_rec_None map_has_def)
  show "table_rec (redis_key tn) t i = Some r \<Longrightarrow>
      \<exists>s'. redis_update dt quiet tn n (Some i) (pure_callback f) t = (Inr (), s') \<and> True \<and>
        (\<forall>j. table_rec (redis_key tn) s' j = (if redis_key tn i = redis_key tn j then Some (envelope_data dt (f r)) else table_rec (redis_key tn) t j))"
    by (auto simp: defs id_ok table_rec_Some storage_defs)
  show "table_rec (redis_key tn) t i = None \<Longrightarrow> \<exists>e. redis_update dt quiet tn n (Some i) c t = (Inl e, t)"
    by (simp add: defs id_ok table_rec_None)
  show "table_rec (redis_key tn) t i = Some r \<Longrightarrow>
      \<exists>s'. redis_updateEnforcingNew dt quiet tn n (Some i) (pure_callback f) t = (Inr (), s') \<and> True \<and>
        (\<forall>j. table_rec (redis_key tn) s' j = (if redis_key tn i = redis_key tn j then Some (envelope_data dt (f r)) else table_rec (redis_key tn) t j))"
    by (auto simp: defs id_ok table_rec_Some storage_defs)
  show "table_rec (redis_key tn) t i = None \<Longrightarrow>
      \<exists>s'. redis_updateEnforcingNew dt quiet tn n (Some i) (pure_callback f) t = (Inr (), s') \<and> True \<and>
        (\<forall>j. table_rec (redis_key tn) s' j = (if redis_key tn i = redis_key tn j then Some (envelope_data dt (f JUndef)) else table_rec (redis_key tn) t j))"
    by (simp add: defs id_ok table_rec_None storage_defs)
  show "\<exists>s'. no_result (redis_delete tn (Some i)) t = (Inr (), s') \<and> True \<and>
      (\<forall>j. table_rec (redis_key tn) s' j = (if redis_key tn i = redis_key tn j then None else table_rec (redis_key tn) t j))"
    by (simp add: defs id_ok no_result_def)
qed simp_all

section \<open>Under interference\<close>

text \<open>
  An update that succeeds was atomic: it replaced the record the table held at that moment by the
  callback's result on it, and no other record.
\<close>

definition atomic_update :: "'k \<Rightarrow> (jsval \<Rightarrow> jsval) \<Rightarrow> callback \<Rightarrow> 'k table \<Rightarrow> 'k table \<Rightarrow> bool" where
  "atomic_update k st update t t' \<longleftrightarrow> (\<exists>d ver u. map_of t k = Some (d, ver) \<and> fst (update d) = Inr u
     \<and> t' = AList.update k (st u, ver + 1) t)"

text \<open>
  Others may change records, but a record's version tells its data: whoever writes a record takes
  a version it did not have. A deletion and a new creation in between break this: both records
  have version 1.
\<close>

definition version_tells :: "('n \<Rightarrow> 'k table \<Rightarrow> 'k table) \<Rightarrow> bool" where
  "version_tells env \<longleftrightarrow> (\<forall>n t k d d' v. map_of t k = Some (d, v) \<longrightarrow> map_of (env n t) k = Some (d', v) \<longrightarrow> d' = d)"

lemma version_tellsD:
  "version_tells env \<Longrightarrow> map_of t k = Some (d, v) \<Longrightarrow> map_of (env n t) k = Some (d', v) \<Longrightarrow> d' = d"
  unfolding version_tells_def by blast

lemma mongo_replace_atomic:
  assumes "mongo_replace k ver x t = (True, t')"
  obtains d where "map_of t k = Some (d, ver)" "t' = AList.update k (x, ver + 1) t"
  using assms by (auto simp: mongo_replace_def split: option.splits if_splits)

lemma script_update_atomic:
  assumes "script_update_if_version k ver x t = (1, t')"
  obtains d where "map_of t k = Some (d, ver)" "t' = AList.update k x t"
  using assms by (auto simp: script_update_if_version_def split: option.splits if_splits)

text \<open>What others made of the table before each of some tries: a try that fails changes nothing.\<close>

definition after_others :: "(nat \<Rightarrow> 'k table \<Rightarrow> 'k table) \<Rightarrow> nat \<Rightarrow> nat \<Rightarrow> 'k table \<Rightarrow> 'k table" where
  "after_others env n m t = fold env [n..<m] t"

lemma after_others_Suc: "n < m \<Longrightarrow> after_others env (Suc n) m (env n t) = after_others env n m t"
  by (simp add: after_others_def upt_conv_Cons)

lemma after_others_one: "after_others env n (Suc n) t = env n t"
  by (simp add: after_others_def)

lemma mongo_update_loop_atomic:
  assumes tells: "version_tells env"
  shows "mongo_update_loop bson env i update n left t = (Inr (), t') \<Longrightarrow>
     \<exists>m. n < m \<and> m \<le> n + left \<and> atomic_update (String_of i) bson update (after_others env n m t) t'"
proof (induction left arbitrary: n t)
  case (Suc left)
  from Suc.prems obtain d ver u where r: "map_of t (String_of i) = Some (d, ver)" "fst (update d) = Inr u"
    by (auto split: option.splits sum.splits)
  obtain b t1 where m: "mongo_replace (String_of i) ver (bson u) (env n t) = (b, t1)"
    by (cases "mongo_replace (String_of i) ver (bson u) (env n t)")
  show ?case
  proof (cases b)
    case True
    with m r Suc.prems have "mongo_replace (String_of i) ver (bson u) (env n t) = (True, t')" by simp
    then obtain d' where d': "map_of (env n t) (String_of i) = Some (d', ver)"
      "t' = AList.update (String_of i) (bson u, ver + 1) (env n t)" by (rule mongo_replace_atomic)
    with version_tellsD [OF tells r(1)] r(2) have "atomic_update (String_of i) bson update (env n t) t'"
      unfolding atomic_update_def by metis
    then show ?thesis by (intro exI [of _ "Suc n"]) (simp add: after_others_one)
  next
    case False
    with m have "t1 = env n t" by (auto simp: mongo_replace_def split: option.splits if_splits)
    with m r False Suc.prems Suc.IH [of "Suc n" t1] obtain k where "Suc n < k" "k \<le> Suc n + left"
      "atomic_update (String_of i) bson update (after_others env (Suc n) k (env n t)) t'" by auto
    then show ?thesis by (intro exI [of _ k]) (simp add: after_others_Suc)
  qed
qed simp

lemma redis_update_loop_atomic:
  assumes tells: "version_tells env"
  shows "redis_update_loop dt env tn i update n left t = (Inr (), t') \<Longrightarrow>
     \<exists>m. n < m \<and> m \<le> n + left \<and> atomic_update (redis_key tn i) (envelope_data dt) update (after_others env n m t) t'"
proof (induction left arbitrary: n t)
  case (Suc left)
  from Suc.prems obtain d ver u where r: "map_of t (redis_key tn i) = Some (d, ver)" "fst (update d) = Inr u"
    by (auto split: option.splits sum.splits)
  obtain res t1 where m: "script_update_if_version (redis_key tn i) ver (envelope_data dt u, ver + 1) (env n t) = (res, t1)"
    by (cases "script_update_if_version (redis_key tn i) ver (envelope_data dt u, ver + 1) (env n t)")
  show ?case
  proof (cases "res = 1")
    case True
    with m r Suc.prems have "script_update_if_version (redis_key tn i) ver (envelope_data dt u, ver + 1) (env n t) = (1, t')"
      by simp
    then obtain d' where d': "map_of (env n t) (redis_key tn i) = Some (d', ver)"
      "t' = AList.update (redis_key tn i) (envelope_data dt u, ver + 1) (env n t)" by (rule script_update_atomic)
    with version_tellsD [OF tells r(1)] r(2) have "atomic_update (redis_key tn i) (envelope_data dt) update (env n t) t'"
      unfolding atomic_update_def by metis
    then show ?thesis by (intro exI [of _ "Suc n"]) (simp add: after_others_one)
  next
    case False
    with m have "t1 = env n t" by (auto simp: script_update_if_version_def split: option.splits if_splits)
    with m r False Suc.prems Suc.IH [of "Suc n" t1] obtain k where "Suc n < k" "k \<le> Suc n + left"
      "atomic_update (redis_key tn i) (envelope_data dt) update (after_others env (Suc n) k (env n t)) t'"
      by (auto split: if_splits)
    then show ?thesis by (intro exI [of _ k]) (simp add: after_others_Suc)
  qed
qed simp

text \<open>A try on which nobody interferes is the last one: the loop then succeeds.\<close>

lemma mongo_update_loop_progress:
  assumes "map_of t (String_of i) \<noteq> None" "left \<noteq> 0"
    and "\<And>d. \<exists>u. fst (update d) = Inr u"
    and "\<And>m t'. map_of t' (String_of i) \<noteq> None \<Longrightarrow> map_of (env m t') (String_of i) \<noteq> None"
    and "\<And>t'. env (n + left - 1) t' = t'"
  shows "\<exists>t'. mongo_update_loop bson env i update n left t = (Inr (), t')"
  using assms(1, 2, 5)
proof (induction left arbitrary: n t)
  case (Suc left)
  obtain d ver where r: "map_of t (String_of i) = Some (d, ver)" using Suc.prems(1) by fastforce
  obtain u where u: "fst (update d) = Inr u" using assms(3) by blast
  obtain b t1 where m: "mongo_replace (String_of i) ver (bson u) (env n t) = (b, t1)"
    by (cases "mongo_replace (String_of i) ver (bson u) (env n t)")
  show ?case
  proof (cases b)
    case True with m r u show ?thesis by simp
  next
    case False
    have "left \<noteq> 0"
    proof
      assume "left = 0"
      then have "env n t = t" using Suc.prems(3) by simp
      with m r False show False by (simp add: mongo_replace_def)
    qed
    moreover have t1: "t1 = env n t" using m False by (auto simp: mongo_replace_def split: option.splits if_splits)
    moreover have "map_of t1 (String_of i) \<noteq> None" using t1 assms(4) r by simp
    moreover have "env (Suc n + left - 1) t' = t'" for t' using Suc.prems(3) [of t'] by simp
    ultimately have "\<exists>t'. mongo_update_loop bson env i update (Suc n) left t1 = (Inr (), t')"
      by (intro Suc.IH)
    then show ?thesis using m r u False by simp
  qed
qed simp

section \<open>Properties\<close>


text \<open>Somebody else increments the counter once, after the first read.\<close>

definition demo_bump :: "nat \<Rightarrow> string table \<Rightarrow> string table" where
  "demo_bump n t = (if n = 0 \<and> t = [(''a'', JNum 5, 1)] then [(''a'', JNum 6, 2)] else t)"

lemma demo_bump_tells: "version_tells demo_bump"
  by (simp add: version_tells_def demo_bump_def split: if_split)

definition demo_increment :: callback where
  "demo_increment = pure_callback (\<lambda>r. case r of JNum n \<Rightarrow> JNum (n + 1) | _ \<Rightarrow> JNum 0)"


text \<open>The same for Redis, where the version is compared by a script.\<close>

lemma redis_update_linear:
  assumes "version_tells env" and "redis_update dt env tn maxRetries (Some i) update t = (Inr (), t')"
  shows "\<exists>m. 0 < m \<and> m \<le> maxRetries + 1 \<and>
    atomic_update (redis_key tn i) (envelope_data dt) update (after_others env 0 m t) t'"
  using assms(2) redis_update_loop_atomic [OF assms(1), of dt tn i update 0 "maxRetries + 1" t t']
  by (auto simp: redis_update_def simp del: redis_update_loop.simps split: sum.splits)

text \<open>
  SQLite rows are addressed by the bytes of an id's hexadecimal text, and text that is not
  hexadecimal is cut off: once a record was created under one id, every id with the same bytes finds
  it, and cannot be created.
\<close>

theorem sqlite_ids_collide:
  assumes "id_truthy i" and "id_truthy j" and "guid i = guid j" and "sqlite_create dt (Some i) x t = (Inr (), t')"
  shows "sqlite_get (Some j) t' = Inr (json dt x) \<and> (\<exists>err. sqlite_create dt (Some j) y t' = (Inl err, t'))"
proof -
  have id_ok: "id_truthy k \<Longrightarrow> assert_id_defined (Some k) n = Inr k" for k n by simp
  have "table_rec guid t i = None \<and> json dt x \<noteq> None"
    using assms(4) id_ok [OF assms(1)] by (cases "map_of t (guid i)") (auto simp: sqlite_create_def sqlite_createSync_def insertQuery_def table_rec_None map_has_def
        split: option.splits if_splits)
  with sqlite.create_then_get [OF _ assms(1) _ _ assms(4)] obtain v where
    "map_of t' (guid j) = Some (the (json dt x), v)" "json dt x \<noteq> None"
    using assms(3) by (auto simp: table_rec_Some)
  then show ?thesis
    unfolding sqlite_get_def sqlite_create_def id_ok [OF assms(2)]
    by (auto simp: getQuery_def sqlite_createSync_def insertQuery_def map_has_def split: option.split)
qed

lemma sqlite_ids_collide_witness:
  "guid (IdStr ''user1'') = guid (IdStr ''user2'')
   \<and> sqlite_get (Some (IdStr ''user2'')) (snd (sqlite_create (\<lambda>_. []) (Some (IdStr ''user1'')) (JNum 1) [])) = Inr (Some (JNum 1))"
proof -
  have g: "guid (IdStr ''user1'') = guid (IdStr ''user2'')"
    by (simp add: guid_def hex_digit_def Let_def)
  obtain t' where c: "sqlite_create (\<lambda>_. []) (Some (IdStr ''user1'')) (JNum 1) [] = (Inr (), t')"
    by (simp add: sqlite_create_def sqlite_createSync_def insertQuery_def map_has_def assert_id_defined_def)
  from sqlite_ids_collide [OF _ _ g c] g c show ?thesis by simp
qed

end
