(* ===== verification/EventLockers.thy ===== *)
theory EventLockers
  imports DbObjectStorage
begin

text \<open>
  Event lockers: \<open>src/sqlite/SqliteEventLocker.ts\<close>, \<open>src/mongodb/MongoEventLocker.ts\<close>,
  \<open>src/redis/RedisEventLocker.ts\<close> against the contract of \<open>src/interfaces/IEventLocker.ts\<close>, the
  locale \<open>event_locker\<close>. A database holds the tables of the event lockers and of the view
  lockers; \<open>now\<close> is the clock in milliseconds, of the database where it keeps the time itself.
\<close>

section \<open>Ids and stored events\<close>

text \<open>\<open>digest e\<close> is the md5 of the event's JSON text, in hexadecimal.\<close>

definition getEventId :: "(event \<Rightarrow> string) \<Rightarrow> event \<Rightarrow> string" where
  "getEventId digest e = (case event_id e of Some (IdStr s) \<Rightarrow> s | _ \<Rightarrow> digest e)"

definition getEventId_guid :: "(event \<Rightarrow> string) \<Rightarrow> event \<Rightarrow> nat list" where
  "getEventId_guid digest e = guid (case event_id e of Some (IdStr s) \<Rightarrow> IdStr s | _ \<Rightarrow> IdStr (digest e))"

text \<open>
  \<open>JSON.parse(JSON.stringify(event))\<close>: an object that serves as an id is written as its text.
\<close>

fun json_id :: "ident \<Rightarrow> ident" where
  "json_id (IdObj _ t) = IdStr t"
| "json_id i = i"

definition json_event :: "(int \<Rightarrow> string) \<Rightarrow> event \<Rightarrow> event" where
  "json_event dt e = e\<lparr>aggregateId := map_option json_id (aggregateId e),
     payload := (case json dt (payload e) of None \<Rightarrow> JUndef | Some v \<Rightarrow> v),
     msg_context := Option.bind (msg_context e) (json dt),
     event_id := map_option json_id (event_id e)\<rparr>"

definition not_marked :: "event \<Rightarrow> js_error" where
  "not_marked e = GenericError (''Event '' @ (case event_id e of None \<Rightarrow> ''undefined'' | Some i \<Rightarrow> String_of i)
     @ '' could not be marked as processed'')"

record locker_cfg =
  projectionName :: string
  schemaVersion :: string
  lock_ttl :: int
  keyPrefix :: string

text \<open>
  The constructors: both names are non-empty strings, the time to live has a default. \<open>pre\<close> is
  how the error names the option. The names of the tables are left out.
\<close>

definition new_locker :: "string \<Rightarrow> jsval \<Rightarrow> jsval \<Rightarrow> int option \<Rightarrow> int \<Rightarrow> string option \<Rightarrow> locker_cfg result" where
  "new_locker pre pn sv ttl dflt kp =
     res_bind (assertString pn (pre @ ''projectionName'')) (\<lambda>_.
     res_bind (assertString sv (pre @ ''schemaVersion'')) (\<lambda>_.
       Inr \<lparr>projectionName = (case pn of JStr s \<Rightarrow> s | _ \<Rightarrow> []),
            schemaVersion = (case sv of JStr s \<Rightarrow> s | _ \<Rightarrow> []),
            lock_ttl = (case ttl of None \<Rightarrow> dflt | Some t \<Rightarrow> t),
            keyPrefix = (case kp of None \<Rightarrow> ''ncqrs'' | Some k \<Rightarrow> k)\<rparr>))"

definition new_sqlite_event_locker :: "jsval \<Rightarrow> jsval \<Rightarrow> int option \<Rightarrow> locker_cfg result" where
  "new_sqlite_event_locker pn sv ttl = new_locker ''o.'' pn sv ttl 15000 None"

definition new_mongo_event_locker :: "jsval \<Rightarrow> jsval \<Rightarrow> jsval \<Rightarrow> locker_cfg result" where
  "new_mongo_event_locker pn sv ttl =
     res_bind (new_locker [] pn sv (case ttl of JNum t \<Rightarrow> Some t | _ \<Rightarrow> None) 15000 None) (\<lambda>c.
     res_bind (if ttl = JUndef then Inr () else assertNonNegativeInteger ttl ''eventLockTtl'') (\<lambda>_. Inr c))"

definition new_redis_event_locker :: "jsval \<Rightarrow> jsval \<Rightarrow> int option \<Rightarrow> string option \<Rightarrow> locker_cfg result" where
  "new_redis_event_locker pn sv ttl kp = new_locker ''o.'' pn sv ttl 15000 kp"

section \<open>SQLite\<close>

text \<open>
  A row of \<open>tbl_event_lock\<close> has \<open>processing_at\<close> and \<open>processed_at\<close>, one of \<open>tbl_view_lock\<close>
  has \<open>locked_till\<close> and \<open>last_event\<close>.
\<close>

record sqlite_db =
  event_rows :: "(string \<times> string \<times> nat list, int \<times> int option) jsmap"
  view_rows :: "(string \<times> string, int option \<times> event option) jsmap"

definition sqlite_event_key :: "locker_cfg \<Rightarrow> (event \<Rightarrow> string) \<Rightarrow> event \<Rightarrow> string \<times> string \<times> nat list" where
  "sqlite_event_key c digest e = (projectionName c, schemaVersion c, getEventId_guid digest e)"

text \<open>The prepared statements; a write gives the number of rows it changed.\<close>

definition lockEventQuery :: "int \<Rightarrow> int \<Rightarrow> string \<times> string \<times> nat list \<Rightarrow> sqlite_db \<Rightarrow> nat \<times> sqlite_db" where
  "lockEventQuery ttl now key db = (case map_of (event_rows db) key of
       None \<Rightarrow> (1, db\<lparr>event_rows := AList.update key (now, None) (event_rows db)\<rparr>)
     | Some (processing_at, processed_at) \<Rightarrow>
         if processed_at = None \<and> processing_at \<le> now - ttl
         then (1, db\<lparr>event_rows := AList.update key (now, processed_at) (event_rows db)\<rparr>)
         else (0, db))"

definition finalizeEventLockQuery :: "int \<Rightarrow> string \<times> string \<times> nat list \<Rightarrow> sqlite_db \<Rightarrow> nat \<times> sqlite_db" where
  "finalizeEventLockQuery now key db = (case map_of (event_rows db) key of
       None \<Rightarrow> (0, db)
     | Some (processing_at, processed_at) \<Rightarrow>
         if processed_at = None
         then (1, db\<lparr>event_rows := AList.update key (processing_at, Some now) (event_rows db)\<rparr>)
         else (0, db))"

definition upsertLastEventQuery :: "string \<times> string \<Rightarrow> event \<Rightarrow> sqlite_db \<Rightarrow> sqlite_db" where
  "upsertLastEventQuery key ev db = db\<lparr>view_rows := AList.update key
     (case map_of (view_rows db) key of None \<Rightarrow> None | Some (till, _) \<Rightarrow> till, Some ev) (view_rows db)\<rparr>"

definition getLastEventQuery :: "string \<times> string \<Rightarrow> sqlite_db \<Rightarrow> event option option" where
  "getLastEventQuery key db = map_option snd (map_of (view_rows db) key)"

definition sqlite_tryMarkAsProjecting ::
  "locker_cfg \<Rightarrow> (event \<Rightarrow> string) \<Rightarrow> int \<Rightarrow> event \<Rightarrow> (sqlite_db, bool) act" where
  "sqlite_tryMarkAsProjecting c digest now e db =
     (case lockEventQuery (lock_ttl c) now (sqlite_event_key c digest e) db of (changes, db') \<Rightarrow> (Inr (changes \<noteq> 0), db'))"

definition sqlite_markAsProjected ::
  "locker_cfg \<Rightarrow> (event \<Rightarrow> string) \<Rightarrow> int \<Rightarrow> event \<Rightarrow> (sqlite_db, unit) act" where
  "sqlite_markAsProjected c digest now e db =
     (case finalizeEventLockQuery now (sqlite_event_key c digest e) db of (changes, db') \<Rightarrow>
        if changes = 0 then (Inl (not_marked e), db') else (Inr (), db'))"

definition sqlite_markAsLastEvent :: "locker_cfg \<Rightarrow> (int \<Rightarrow> string) \<Rightarrow> event \<Rightarrow> (sqlite_db, unit) act" where
  "sqlite_markAsLastEvent c dt e db =
     (Inr (), upsertLastEventQuery (projectionName c, schemaVersion c) (json_event dt e) db)"

definition sqlite_getLastEvent :: "locker_cfg \<Rightarrow> sqlite_db \<Rightarrow> event option" where
  "sqlite_getLastEvent c db = (case getLastEventQuery (projectionName c, schemaVersion c) db of
       Some (Some e) \<Rightarrow> Some e | _ \<Rightarrow> None)"

lemmas sqlite_locker_defs = lockEventQuery_def finalizeEventLockQuery_def upsertLastEventQuery_def
  getLastEventQuery_def sqlite_tryMarkAsProjecting_def sqlite_markAsProjected_def sqlite_markAsLastEvent_def
  sqlite_getLastEvent_def

section \<open>MongoDB\<close>

text \<open>A missing field and \<open>null\<close> are both \<open>None\<close>: every query that reads one accepts both.\<close>

record mongo_view_doc =
  lockedTill :: "int option"
  token :: "string option"
  lastEvent :: "event option"

record mongo_db =
  event_docs :: "(string, int option \<times> int option) jsmap"
  view_docs :: "(string, mongo_view_doc) jsmap"

definition mongo_view_id :: "locker_cfg \<Rightarrow> string" where
  "mongo_view_id c = projectionName c @ '':'' @ schemaVersion c"

definition mongo_event_id :: "locker_cfg \<Rightarrow> (event \<Rightarrow> string) \<Rightarrow> event \<Rightarrow> string" where
  "mongo_event_id c digest e = mongo_view_id c @ '':'' @ getEventId digest e"

text \<open>The \<open>updateOne\<close> that claims a lock left behind, and the \<open>insertOne\<close> of a new one.\<close>

definition mongo_claim_event :: "int \<Rightarrow> int \<Rightarrow> string \<Rightarrow> mongo_db \<Rightarrow> bool \<times> mongo_db" where
  "mongo_claim_event ttl now key db = (case map_of (event_docs db) key of
       Some (processingAt, processedAt) \<Rightarrow>
         if processedAt = None \<and> (case processingAt of None \<Rightarrow> True | Some p \<Rightarrow> p < now - ttl)
         then (processingAt \<noteq> Some now, db\<lparr>event_docs := AList.update key (Some now, None) (event_docs db)\<rparr>)
         else (False, db)
     | None \<Rightarrow> (False, db))"

definition mongo_insert_event :: "int \<Rightarrow> string \<Rightarrow> mongo_db \<Rightarrow> bool \<times> mongo_db" where
  "mongo_insert_event now key db = (if map_has (event_docs db) key then (False, db)
     else (True, db\<lparr>event_docs := AList.update key (Some now, None) (event_docs db)\<rparr>))"

text \<open>\<open>env\<close> is what other processes do between the two requests.\<close>

definition mongo_tryMarkAsProjecting ::
  "locker_cfg \<Rightarrow> (event \<Rightarrow> string) \<Rightarrow> (mongo_db \<Rightarrow> mongo_db) \<Rightarrow> int \<Rightarrow> event \<Rightarrow> (mongo_db, bool) act" where
  "mongo_tryMarkAsProjecting c digest env now e db = (let key = mongo_event_id c digest e in
     case mongo_claim_event (lock_ttl c) now key db of
       (True, db1) \<Rightarrow> (Inr True, db1)
     | (False, db1) \<Rightarrow> (case mongo_insert_event now key (env db1) of (b, db2) \<Rightarrow> (Inr b, db2)))"

definition mongo_markAsProjected ::
  "locker_cfg \<Rightarrow> (event \<Rightarrow> string) \<Rightarrow> int \<Rightarrow> event \<Rightarrow> (mongo_db, unit) act" where
  "mongo_markAsProjected c digest now e db = (let key = mongo_event_id c digest e in
     case map_of (event_docs db) key of
       Some (processingAt, None) \<Rightarrow>
         (Inr (), db\<lparr>event_docs := AList.update key (processingAt, Some now) (event_docs db)\<rparr>)
     | _ \<Rightarrow> (Inl (not_marked e), db))"

definition mongo_markAsLastEvent :: "locker_cfg \<Rightarrow> (int \<Rightarrow> string) \<Rightarrow> event \<Rightarrow> (mongo_db, unit) act" where
  "mongo_markAsLastEvent c dt e db =
     (Inr (), db\<lparr>view_docs := AList.update (mongo_view_id c)
        (case map_of (view_docs db) (mongo_view_id c) of
           None \<Rightarrow> \<lparr>lockedTill = None, token = None, lastEvent = Some (json_event dt e)\<rparr>
         | Some d \<Rightarrow> d\<lparr>lastEvent := Some (json_event dt e)\<rparr>) (view_docs db)\<rparr>)"

definition mongo_getLastEvent :: "locker_cfg \<Rightarrow> mongo_db \<Rightarrow> event option" where
  "mongo_getLastEvent c db = Option.bind (map_of (view_docs db) (mongo_view_id c)) lastEvent"

section \<open>Redis\<close>

text \<open>A key has a value and perhaps the time at which it expires.\<close>

datatype redis_value = RText string | RJson event

type_synonym redis_db = "(string, redis_value \<times> int option) jsmap"

definition redis_GET :: "int \<Rightarrow> string \<Rightarrow> redis_db \<Rightarrow> redis_value option" where
  "redis_GET now key db = (case map_of db key of
       Some (v, Some till) \<Rightarrow> if till \<le> now then None else Some v
     | Some (v, None) \<Rightarrow> Some v
     | None \<Rightarrow> None)"

text \<open>\<open>SET key v PX ttl\<close> rejects a time to live that is not positive.\<close>

definition redis_SET_PX :: "int \<Rightarrow> string \<Rightarrow> redis_value \<Rightarrow> int \<Rightarrow> (redis_db, unit) act" where
  "redis_SET_PX now key v ttl db = (if ttl \<le> 0 then (Inl (GenericError ''ERR invalid expire time''), db)
     else (Inr (), AList.update key (v, Some (now + ttl)) db))"

definition redis_event_key :: "locker_cfg \<Rightarrow> (event \<Rightarrow> string) \<Rightarrow> event \<Rightarrow> string" where
  "redis_event_key c digest e = keyPrefix c @ '':evtlock:'' @ projectionName c @ '':'' @ schemaVersion c @ '':''
     @ getEventId digest e"

definition redis_last_key :: "locker_cfg \<Rightarrow> string" where
  "redis_last_key c = keyPrefix c @ '':lastevent:'' @ projectionName c @ '':'' @ schemaVersion c"

definition redis_tryMarkAsProjecting ::
  "locker_cfg \<Rightarrow> (event \<Rightarrow> string) \<Rightarrow> int \<Rightarrow> event \<Rightarrow> (redis_db, bool) act" where
  "redis_tryMarkAsProjecting c digest now e db = (let key = redis_event_key c digest e in
     if redis_GET now key db \<noteq> None then (Inr False, db)
     else (case redis_SET_PX now key (RText ''processing'') (lock_ttl c) db of
         (Inl err, db1) \<Rightarrow> (Inl err, db1) | (Inr _, db1) \<Rightarrow> (Inr True, db1)))"

definition redis_markAsProjected ::
  "locker_cfg \<Rightarrow> (event \<Rightarrow> string) \<Rightarrow> int \<Rightarrow> event \<Rightarrow> (redis_db, unit) act" where
  "redis_markAsProjected c digest now e db = (let key = redis_event_key c digest e in
     if redis_GET now key db \<noteq> Some (RText ''processing'') then (Inl (not_marked e), db)
     else (Inr (), AList.update key (RText ''processed'', None) db))"

definition redis_markAsLastEvent :: "locker_cfg \<Rightarrow> (int \<Rightarrow> string) \<Rightarrow> event \<Rightarrow> (redis_db, unit) act" where
  "redis_markAsLastEvent c dt e db = (Inr (), AList.update (redis_last_key c) (RJson (json_event dt e), None) db)"

definition redis_getLastEvent :: "locker_cfg \<Rightarrow> redis_db \<Rightarrow> event option" where
  "redis_getLastEvent c db = (case map_of db (redis_last_key c) of
       Some (RJson e, _) \<Rightarrow> Some e | _ \<Rightarrow> None)"

section \<open>The contract\<close>

datatype event_status = Unseen | Processing int | Processed

datatype locker_op = TryMark event | MarkProjected event | MarkLast event

text \<open>
  A run of operations of any processes: the times of the granted claims of \<open>e\<close>, how often it was
  finalized, and the state after it.
\<close>

fun locker_run ::
  "(int \<Rightarrow> event \<Rightarrow> ('s, bool) act) \<Rightarrow> (int \<Rightarrow> event \<Rightarrow> ('s, unit) act) \<Rightarrow> (event \<Rightarrow> ('s, unit) act) \<Rightarrow>
   (event \<Rightarrow> bool) \<Rightarrow> (int \<times> locker_op) list \<Rightarrow> 's \<Rightarrow> int list \<times> nat \<times> 's" where
  "locker_run claim mark lst is [] s = ([], 0, s)"
| "locker_run claim mark lst is ((now, TryMark f) # ops) s = (case claim now f s of (r, s1) \<Rightarrow>
     (case locker_run claim mark lst is ops s1 of (cs, n, s2) \<Rightarrow> (if r = Inr True \<and> is f then now # cs else cs, n, s2)))"
| "locker_run claim mark lst is ((now, MarkProjected f) # ops) s = (case mark now f s of (r, s1) \<Rightarrow>
     (case locker_run claim mark lst is ops s1 of (cs, n, s2) \<Rightarrow> (cs, if r = Inr () \<and> is f then n + 1 else n, s2)))"
| "locker_run claim mark lst is ((now, MarkLast f) # ops) s = locker_run claim mark lst is ops (snd (lst f s))"

text \<open>
  A lock in state \<open>Processing t\<close> was taken at \<open>t\<close>. At the exact end of its life the lockers
  differ; before it nobody else gets the event, after it anybody may.
\<close>

locale event_locker =
  fixes try_mark :: "int \<Rightarrow> event \<Rightarrow> ('s, bool) act"
    and mark :: "int \<Rightarrow> event \<Rightarrow> ('s, unit) act"
    and mark_last :: "event \<Rightarrow> ('s, unit) act"
    and get_last :: "'s \<Rightarrow> event option"
    and status :: "'s \<Rightarrow> event \<Rightarrow> event_status"
    and same :: "event \<Rightarrow> event \<Rightarrow> bool"
    and saved :: "event \<Rightarrow> event"
    and ttl :: int
    and ok :: "'s \<Rightarrow> bool"
  assumes try_processed: "ok s \<Longrightarrow> status s e = Processed \<Longrightarrow> try_mark now e s = (Inr False, s)"
    and try_held: "ok s \<Longrightarrow> status s e = Processing t \<Longrightarrow> now < t + ttl \<Longrightarrow> try_mark now e s = (Inr False, s)"
    and try_free: "ok s \<Longrightarrow> 0 < ttl \<Longrightarrow> status s e = Unseen \<or> (\<exists>t. status s e = Processing t \<and> t + ttl < now) \<Longrightarrow>
        fst (try_mark now e s) = Inr True"
    and try_effect: "ok s \<Longrightarrow> try_mark now e s = (r, s') \<Longrightarrow> ok s' \<and> get_last s' = get_last s \<and>
        (\<forall>f. status s' f = (if r = Inr True \<and> same e f then Processing now else status s f))"
    and mark_held: "ok s \<Longrightarrow> status s e = Processing t \<Longrightarrow> now < t + ttl \<Longrightarrow> fst (mark now e s) = Inr ()"
    and mark_effect: "ok s \<Longrightarrow> mark now e s = (q, s') \<Longrightarrow> ok s' \<and> get_last s' = get_last s \<and>
        (q = Inr () \<longrightarrow> (\<exists>t. status s e = Processing t)) \<and>
        (\<forall>f. status s' f = (if q = Inr () \<and> same e f then Processed else status s f))"
    and last_effect: "ok s \<Longrightarrow> \<exists>s'. mark_last e s = (Inr (), s') \<and> ok s' \<and> get_last s' = Some (saved e) \<and>
        (\<forall>f. status s' f = status s f)"
    and same_status: "same e f \<Longrightarrow> status s e = status s f"
    and same_refl: "same e e"
begin

abbreviation run :: "event \<Rightarrow> (int \<times> locker_op) list \<Rightarrow> 's \<Rightarrow> int list \<times> nat \<times> 's" where
  "run e \<equiv> locker_run try_mark mark mark_last (\<lambda>f. same f e)"

lemma run_processed:
  "ok s \<Longrightarrow> status s e = Processed \<Longrightarrow> run e ops s = (cs, n, s') \<Longrightarrow> cs = [] \<and> n = 0 \<and> status s' e = Processed"
proof (induction ops arbitrary: s cs n s')
  case (Cons op ops)
  obtain now o' where op: "op = (now, o')" by fastforce
  show ?case
  proof (cases o')
    case (TryMark f)
    obtain r s1 where m: "try_mark now f s = (r, s1)" by fastforce
    have no: "\<not> (r = Inr True \<and> same f e)"
      using try_processed [OF Cons.prems(1), of f now] m same_status [of f e s] Cons.prems(2) by auto
    with try_effect [OF Cons.prems(1) m] Cons.prems(2) have s1: "ok s1" "status s1 e = Processed" by auto
    obtain cs1 n1 s2 where rest: "run e ops s1 = (cs1, n1, s2)" by (cases "run e ops s1")
    from Cons.IH [OF s1 rest] no rest m op TryMark Cons.prems(3) show ?thesis by auto
  next
    case (MarkProjected f)
    obtain r s1 where m: "mark now f s = (r, s1)" by fastforce
    have no: "\<not> (r = Inr () \<and> same f e)"
      using mark_effect [OF Cons.prems(1) m] same_status [of f e s] Cons.prems(2) by auto
    with mark_effect [OF Cons.prems(1) m] Cons.prems(2) have s1: "ok s1" "status s1 e = Processed" by auto
    obtain cs1 n1 s2 where rest: "run e ops s1 = (cs1, n1, s2)" by (cases "run e ops s1")
    from Cons.IH [OF s1 rest] no rest m op MarkProjected Cons.prems(3) show ?thesis by auto
  next
    case (MarkLast f)
    obtain s1 where "mark_last f s = (Inr (), s1)" "ok s1" "\<And>g. status s1 g = status s g"
      using last_effect [OF Cons.prems(1)] by blast
    with Cons.IH [of s1] Cons.prems op MarkLast show ?thesis by simp
  qed
qed simp

definition spaced :: "event \<Rightarrow> 's \<Rightarrow> int list \<Rightarrow> bool" where
  "spaced e s cs \<longleftrightarrow> sorted_wrt (\<lambda>t u. t + ttl \<le> u) cs \<and> (\<forall>t. status s e = Processing t \<longrightarrow> (\<forall>c \<in> set cs. t + ttl \<le> c))"

lemma spaced_Cons:
  assumes "0 \<le> ttl" "status s1 e = Processing now" "spaced e s1 cs" "\<And>t. status s e = Processing t \<Longrightarrow> t + ttl \<le> now"
  shows "spaced e s (now # cs)"
  using assms unfolding spaced_def by fastforce

text \<open>Claims of an event lie a time to live apart, and it is finalized at most once.\<close>

lemma claims_spaced:
  assumes "0 \<le> ttl"
  shows "ok s \<Longrightarrow> run e ops s = (cs, n, s') \<Longrightarrow> spaced e s cs \<and> n \<le> 1 \<and> (n = 1 \<longrightarrow> status s' e = Processed)"
proof (induction ops arbitrary: s cs n s')
  case Nil
  then show ?case by (simp add: spaced_def)
next
  case (Cons op ops)
  obtain now o' where op: "op = (now, o')" by fastforce
  show ?case
  proof (cases o')
    case (TryMark f)
    obtain r s1 where m: "try_mark now f s = (r, s1)" by fastforce
    obtain cs1 n1 s2 where rest: "run e ops s1 = (cs1, n1, s2)" by (cases "run e ops s1")
    note eff = try_effect [OF Cons.prems(1) m]
    from Cons.IH [OF _ rest] eff have IH: "spaced e s1 cs1 \<and> n1 \<le> 1 \<and> (n1 = 1 \<longrightarrow> status s2 e = Processed)" by blast
    show ?thesis
    proof (cases "r = Inr True \<and> same f e")
      case True
      have "status s e = Processing t \<Longrightarrow> t + ttl \<le> now" for t
        using try_held [OF Cons.prems(1), of f t now] m True same_status [of f e s] by fastforce
      moreover have "status s1 e = Processing now" using eff True by simp
      ultimately have "spaced e s (now # cs1)" using IH assms by (intro spaced_Cons) auto
      with True IH m rest op TryMark Cons.prems show ?thesis by auto
    next
      case False
      with eff have "status s1 e = status s e" by auto
      with False IH m rest op TryMark Cons.prems show ?thesis by (auto simp: spaced_def)
    qed
  next
    case (MarkProjected f)
    obtain r s1 where m: "mark now f s = (r, s1)" by fastforce
    obtain cs1 n1 s2 where rest: "run e ops s1 = (cs1, n1, s2)" by (cases "run e ops s1")
    note eff = mark_effect [OF Cons.prems(1) m]
    show ?thesis
    proof (cases "r = Inr () \<and> same f e")
      case True
      with eff have "status s1 e = Processed" "ok s1" by auto
      from run_processed [OF this(2,1) rest] True m rest op MarkProjected Cons.prems show ?thesis
        by (auto simp: spaced_def)
    next
      case False
      with eff have "status s1 e = status s e" by auto
      with False Cons.IH [OF _ rest] eff m rest op MarkProjected Cons.prems show ?thesis by (auto simp: spaced_def)
    qed
  next
    case (MarkLast f)
    obtain s1 where "mark_last f s = (Inr (), s1)" "ok s1" "\<And>g. status s1 g = status s g"
      using last_effect [OF Cons.prems(1)] by blast
    with Cons.IH [of s1] Cons.prems op MarkLast show ?thesis by (simp add: spaced_def)
  qed
qed

end

section \<open>The three lockers keep it\<close>

definition sqlite_status :: "locker_cfg \<Rightarrow> (event \<Rightarrow> string) \<Rightarrow> sqlite_db \<Rightarrow> event \<Rightarrow> event_status" where
  "sqlite_status c digest db e = (case map_of (event_rows db) (sqlite_event_key c digest e) of
       None \<Rightarrow> Unseen | Some (t, None) \<Rightarrow> Processing t | Some (_, Some _) \<Rightarrow> Processed)"

interpretation sqlite_lk: event_locker
  "sqlite_tryMarkAsProjecting c digest" "sqlite_markAsProjected c digest" "sqlite_markAsLastEvent c dt"
  "sqlite_getLastEvent c" "sqlite_status c digest" "\<lambda>e f. getEventId_guid digest e = getEventId_guid digest f"
  "json_event dt" "lock_ttl c" "\<lambda>_. True"
  for c digest dt
proof
  fix s :: sqlite_db and e now t r s' and q :: "unit result"
  let ?st = "sqlite_status c digest" and ?key = "sqlite_event_key c digest e"
  note defs = sqlite_status_def sqlite_locker_defs
  show "?st s e = Processed \<Longrightarrow> sqlite_tryMarkAsProjecting c digest now e s = (Inr False, s)"
    by (auto simp: defs split: option.splits)
  show "?st s e = Processing t \<Longrightarrow> now < t + lock_ttl c \<Longrightarrow> sqlite_tryMarkAsProjecting c digest now e s = (Inr False, s)"
    by (auto simp: defs split: option.splits)
  show "?st s e = Unseen \<or> (\<exists>t. ?st s e = Processing t \<and> t + lock_ttl c < now) \<Longrightarrow>
      fst (sqlite_tryMarkAsProjecting c digest now e s) = Inr True"
    by (auto simp: defs split: option.splits)
  show "sqlite_tryMarkAsProjecting c digest now e s = (r, s') \<Longrightarrow> True \<and> sqlite_getLastEvent c s' = sqlite_getLastEvent c s \<and>
      (\<forall>f. ?st s' f = (if r = Inr True \<and> getEventId_guid digest e = getEventId_guid digest f then Processing now else ?st s f))"
    by (auto simp: defs sqlite_event_key_def split: option.splits if_splits)
  show "?st s e = Processing t \<Longrightarrow> fst (sqlite_markAsProjected c digest now e s) = Inr ()"
    by (auto simp: defs split: option.splits)
  show "sqlite_markAsProjected c digest now e s = (q, s') \<Longrightarrow> True \<and> sqlite_getLastEvent c s' = sqlite_getLastEvent c s \<and>
      (q = Inr () \<longrightarrow> (\<exists>t. ?st s e = Processing t)) \<and>
      (\<forall>f. ?st s' f = (if q = Inr () \<and> getEventId_guid digest e = getEventId_guid digest f then Processed else ?st s f))"
    by (auto simp: defs sqlite_event_key_def split: option.splits if_splits)
  show "\<exists>s'. sqlite_markAsLastEvent c dt e s = (Inr (), s') \<and> True \<and> sqlite_getLastEvent c s' = Some (json_event dt e) \<and>
      (\<forall>f. ?st s' f = ?st s f)"
    by (auto simp: defs)
qed (auto simp: sqlite_status_def sqlite_event_key_def)

text \<open>A document without \<open>processingAt\<close> can be claimed at any time.\<close>

definition mongo_status :: "locker_cfg \<Rightarrow> (event \<Rightarrow> string) \<Rightarrow> mongo_db \<Rightarrow> event \<Rightarrow> event_status" where
  "mongo_status c digest db e = (case map_of (event_docs db) (mongo_event_id c digest e) of
       None \<Rightarrow> Unseen | Some (Some t, None) \<Rightarrow> Processing t | Some (None, None) \<Rightarrow> Unseen | Some (_, Some _) \<Rightarrow> Processed)"

definition mongo_ok :: "mongo_db \<Rightarrow> bool" where
  "mongo_ok db \<longleftrightarrow> (\<forall>k x. map_of (event_docs db) k \<noteq> Some (None, x))"

text \<open>Two ids have the same document exactly if they are equal.\<close>

lemma mongo_event_id_inject [simp]:
  "mongo_event_id c digest e = mongo_event_id c digest f \<longleftrightarrow> getEventId digest e = getEventId digest f"
  by (simp add: mongo_event_id_def)

text \<open>Undisturbed, the two requests are one test and set.\<close>

lemma mongo_try_quiet:
  "mongo_tryMarkAsProjecting c digest (\<lambda>x. x) now e db = (let key = mongo_event_id c digest e;
      db1 = db\<lparr>event_docs := AList.update key (Some now, None) (event_docs db)\<rparr>
    in case map_of (event_docs db) key of
      None \<Rightarrow> (Inr True, db1)
    | Some (p, x) \<Rightarrow> if x = None \<and> (case p of None \<Rightarrow> True | Some q \<Rightarrow> q < now - lock_ttl c)
        then (Inr (p \<noteq> Some now), db1) else (Inr False, db))"
proof (cases "map_of (event_docs db) (mongo_event_id c digest e)")
  case None
  then show ?thesis
    by (simp add: mongo_tryMarkAsProjecting_def mongo_claim_event_def mongo_insert_event_def map_has_def Let_def)
next
  case (Some d)
  obtain p x where d: "d = (p, x)" by fastforce
  show ?thesis
  proof (cases "p = Some now")
    case True
    with Some d show ?thesis
      by (auto simp: mongo_tryMarkAsProjecting_def mongo_claim_event_def mongo_insert_event_def map_has_def Let_def)
  next
    case False
    with Some d show ?thesis
      by (auto simp: mongo_tryMarkAsProjecting_def mongo_claim_event_def mongo_insert_event_def map_has_def Let_def)
  qed
qed

interpretation mongo_lk: event_locker
  "mongo_tryMarkAsProjecting c digest (\<lambda>db. db)" "mongo_markAsProjected c digest" "mongo_markAsLastEvent c dt"
  "mongo_getLastEvent c" "mongo_status c digest" "\<lambda>e f. getEventId digest e = getEventId digest f"
  "json_event dt" "lock_ttl c" mongo_ok
  for c digest dt
proof
  fix s :: mongo_db and e now t r s' and q :: "unit result"
  assume ok: "mongo_ok s"
  let ?st = "mongo_status c digest"
  let ?clm = "mongo_tryMarkAsProjecting c digest (\<lambda>db. db)"
  note defs = mongo_status_def mongo_try_quiet mongo_markAsProjected_def Let_def
  show "?st s e = Processed \<Longrightarrow> ?clm now e s = (Inr False, s)"
    by (auto simp: defs split: option.splits)
  show "?st s e = Processing t \<Longrightarrow> now < t + lock_ttl c \<Longrightarrow> ?clm now e s = (Inr False, s)"
    by (auto simp: defs split: option.splits)
  show "0 < lock_ttl c \<Longrightarrow> ?st s e = Unseen \<or> (\<exists>t. ?st s e = Processing t \<and> t + lock_ttl c < now) \<Longrightarrow>
      fst (?clm now e s) = Inr True"
    by (auto simp: defs split: option.splits)
  show "?clm now e s = (r, s') \<Longrightarrow> mongo_ok s' \<and> mongo_getLastEvent c s' = mongo_getLastEvent c s \<and>
      (\<forall>f. ?st s' f = (if r = Inr True \<and> getEventId digest e = getEventId digest f then Processing now else ?st s f))"
    using ok by (auto simp: defs mongo_ok_def mongo_event_id_def mongo_getLastEvent_def split: option.splits if_splits)
  show "?st s e = Processing t \<Longrightarrow> fst (mongo_markAsProjected c digest now e s) = Inr ()"
    by (auto simp: defs split: option.splits)
  show "mongo_markAsProjected c digest now e s = (q, s') \<Longrightarrow> mongo_ok s' \<and> mongo_getLastEvent c s' = mongo_getLastEvent c s \<and>
      (q = Inr () \<longrightarrow> (\<exists>t. ?st s e = Processing t)) \<and>
      (\<forall>f. ?st s' f = (if q = Inr () \<and> getEventId digest e = getEventId digest f then Processed else ?st s f))"
    using ok by (auto simp: defs mongo_ok_def mongo_event_id_def mongo_getLastEvent_def split: option.splits if_splits)
  show "\<exists>s'. mongo_markAsLastEvent c dt e s = (Inr (), s') \<and> mongo_ok s' \<and> mongo_getLastEvent c s' = Some (json_event dt e) \<and>
      (\<forall>f. ?st s' f = ?st s f)"
    using ok by (auto simp: mongo_markAsLastEvent_def mongo_getLastEvent_def mongo_status_def mongo_ok_def split: option.splits)
qed (auto simp: mongo_status_def mongo_event_id_def)

text \<open>
  The keys of a Redis locker hold \<open>processing\<close> until it expires or \<open>processed\<close> for ever. Every
  time of taking is derived from the expiry.
\<close>

definition redis_ok :: "locker_cfg \<Rightarrow> (event \<Rightarrow> string) \<Rightarrow> redis_db \<Rightarrow> bool" where
  "redis_ok c digest db \<longleftrightarrow> (\<forall>e. case map_of db (redis_event_key c digest e) of
       None \<Rightarrow> True | Some (v, till) \<Rightarrow> v = RText ''processing'' \<and> till \<noteq> None \<or> v = RText ''processed'' \<and> till = None)"

definition redis_status :: "locker_cfg \<Rightarrow> (event \<Rightarrow> string) \<Rightarrow> redis_db \<Rightarrow> event \<Rightarrow> event_status" where
  "redis_status c digest db e = (case map_of db (redis_event_key c digest e) of
       None \<Rightarrow> Unseen | Some (_, Some till) \<Rightarrow> Processing (till - lock_ttl c) | Some (_, None) \<Rightarrow> Processed)"

lemma redis_keys [simp]:
  "redis_event_key c digest e = redis_event_key c digest f \<longleftrightarrow> getEventId digest e = getEventId digest f"
  "redis_event_key c digest e \<noteq> redis_last_key c"
  "redis_last_key c \<noteq> redis_event_key c digest e"
  by (simp_all add: redis_event_key_def redis_last_key_def)

lemma redis_okD:
  "redis_ok c digest db \<Longrightarrow> map_of db (redis_event_key c digest e) = Some (v, till) \<Longrightarrow>
     v = RText ''processing'' \<and> till \<noteq> None \<or> v = RText ''processed'' \<and> till = None"
  unfolding redis_ok_def by (drule spec [of _ e]) simp

lemma redis_ok_update:
  assumes "redis_ok c digest db" and "v = RText ''processing'' \<and> till \<noteq> None \<or> v = RText ''processed'' \<and> till = None"
  shows "redis_ok c digest (AList.update (redis_event_key c digest e) (v, till) db)"
  using assms by (simp add: redis_ok_def)

interpretation redis_lk: event_locker
  "redis_tryMarkAsProjecting c digest" "redis_markAsProjected c digest" "redis_markAsLastEvent c dt"
  "redis_getLastEvent c" "redis_status c digest" "\<lambda>e f. getEventId digest e = getEventId digest f"
  "json_event dt" "lock_ttl c" "redis_ok c digest"
  for c digest dt
proof
  fix s :: redis_db and e now t r s' and q :: "unit result"
  assume ok: "redis_ok c digest s"
  let ?st = "redis_status c digest" and ?clm = "redis_tryMarkAsProjecting c digest"
  note okD = redis_okD [OF ok, of e]
  note defs = redis_status_def redis_tryMarkAsProjecting_def redis_markAsProjected_def redis_GET_def redis_SET_PX_def Let_def
  show "?st s e = Processed \<Longrightarrow> ?clm now e s = (Inr False, s)"
    by (auto simp: defs split: option.splits)
  show "?st s e = Processing t \<Longrightarrow> now < t + lock_ttl c \<Longrightarrow> ?clm now e s = (Inr False, s)"
    by (auto simp: defs split: option.splits)
  show "0 < lock_ttl c \<Longrightarrow> ?st s e = Unseen \<or> (\<exists>t. ?st s e = Processing t \<and> t + lock_ttl c < now) \<Longrightarrow>
      fst (?clm now e s) = Inr True"
    by (auto simp: defs split: option.splits)
  show "?clm now e s = (r, s') \<Longrightarrow> redis_ok c digest s' \<and> redis_getLastEvent c s' = redis_getLastEvent c s \<and>
      (\<forall>f. ?st s' f = (if r = Inr True \<and> getEventId digest e = getEventId digest f then Processing now else ?st s f))"
    using ok by (auto simp: defs redis_getLastEvent_def redis_ok_update split: option.splits if_splits)
  show "?st s e = Processing t \<Longrightarrow> now < t + lock_ttl c \<Longrightarrow> fst (redis_markAsProjected c digest now e s) = Inr ()"
    using okD by (auto simp: defs split: option.splits)
  show "redis_markAsProjected c digest now e s = (q, s') \<Longrightarrow> redis_ok c digest s' \<and> redis_getLastEvent c s' = redis_getLastEvent c s \<and>
      (q = Inr () \<longrightarrow> (\<exists>t. ?st s e = Processing t)) \<and>
      (\<forall>f. ?st s' f = (if q = Inr () \<and> getEventId digest e = getEventId digest f then Processed else ?st s f))"
    using ok okD by (auto simp: defs redis_getLastEvent_def redis_ok_update split: option.splits if_splits)
  show "\<exists>s'. redis_markAsLastEvent c dt e s = (Inr (), s') \<and> redis_ok c digest s' \<and> redis_getLastEvent c s' = Some (json_event dt e) \<and>
      (\<forall>f. ?st s' f = ?st s f)"
    using ok by (auto simp: redis_markAsLastEvent_def redis_getLastEvent_def redis_status_def redis_ok_def)
qed (auto simp: redis_status_def redis_event_key_def)

section \<open>Properties\<close>

definition demo_cfg :: locker_cfg where
  "demo_cfg = \<lparr>projectionName = ''p'', schemaVersion = ''1'', lock_ttl = 10, keyPrefix = ''ncqrs''\<rparr>"

text \<open>
  C35: any number of processes share a Redis event locker and try, finalize and checkpoint events in
  any order and at any times. The times at which an event was granted lie at least a time to live
  apart, and it is finalized at most once, after which it is never granted again.
\<close>

theorem redis_claims_spaced:
  assumes "redis_ok c digest db" and "0 \<le> lock_ttl c"
    and "locker_run (redis_tryMarkAsProjecting c digest) (redis_markAsProjected c digest) (redis_markAsLastEvent c dt)
      (\<lambda>f. getEventId digest f = getEventId digest e) ops db = (claims, n, db')"
  shows "sorted_wrt (\<lambda>t u. t + lock_ttl c \<le> u) claims \<and> n \<le> 1 \<and> (n = 1 \<longrightarrow> redis_status c digest db' e = Processed)"
  using redis_lk.claims_spaced [OF assms(2,1), of dt e ops claims n db'] assms(3)
  by (simp add: redis_lk.spaced_def)

lemma redis_claims_spaced_witness:
  "\<exists>db'. locker_run (redis_tryMarkAsProjecting demo_cfg (\<lambda>_. ''d'')) (redis_markAsProjected demo_cfg (\<lambda>_. ''d''))
      (redis_markAsLastEvent demo_cfg (\<lambda>_. [])) (\<lambda>f. getEventId (\<lambda>_. ''d'') f = ''e1'')
      [(0, TryMark (demo_event ''T'' ''a'' 0 ''e1'')), (9, TryMark (demo_event ''T'' ''a'' 0 ''e1'')),
       (12, TryMark (demo_event ''T'' ''a'' 0 ''e1'')), (13, MarkProjected (demo_event ''T'' ''a'' 0 ''e1''))] [] = ([0, 12], 1, db')
    \<and> redis_status demo_cfg (\<lambda>_. ''d'') db' (demo_event ''T'' ''a'' 0 ''e1'') = Processed"
proof -
  let ?e = "demo_event ''T'' ''a'' 0 ''e1''"
  have e: "getEventId (\<lambda>_. ''d'') ?e = ''e1''" by (simp add: getEventId_def)
  obtain db' where run: "locker_run (redis_tryMarkAsProjecting demo_cfg (\<lambda>_. ''d'')) (redis_markAsProjected demo_cfg (\<lambda>_. ''d''))
      (redis_markAsLastEvent demo_cfg (\<lambda>_. [])) (\<lambda>f. getEventId (\<lambda>_. ''d'') f = getEventId (\<lambda>_. ''d'') ?e)
      [(0, TryMark ?e), (9, TryMark ?e), (12, TryMark ?e), (13, MarkProjected ?e)] [] = ([0, 12], 1, db')"
    by (simp add: redis_tryMarkAsProjecting_def redis_markAsProjected_def redis_GET_def redis_SET_PX_def demo_cfg_def Let_def)
  have "redis_ok demo_cfg (\<lambda>_. ''d'') []" "0 \<le> lock_ttl demo_cfg" by (simp_all add: redis_ok_def demo_cfg_def)
  from redis_claims_spaced [OF this run] run e show ?thesis by auto
qed

text \<open>
  MongoDB needs two requests to claim an event. Whatever other processes do in between - a claim,
  a finalization, a claim that ran out and was taken over - the outcome is that of one indivisible
  claim before or after what they did.
\<close>

theorem mongo_claim_atomic:
  assumes "0 \<le> lock_ttl c"
    and "\<And>d. map_of (event_docs db) (mongo_event_id c digest e) = Some d \<Longrightarrow>
        map_of (event_docs (env db)) (mongo_event_id c digest e) \<in> {Some d} \<union> {Some (Some p, x) | p x. now - lock_ttl c \<le> p \<or> x \<noteq> None}"
    and "\<And>p. map_of (event_docs (env db)) (mongo_event_id c digest e) = Some (p, None) \<Longrightarrow>
        map_of (event_docs db) (mongo_event_id c digest e) = None \<Longrightarrow> \<exists>q. p = Some q \<and> now - lock_ttl c \<le> q"
  shows "mongo_tryMarkAsProjecting c digest env now e db \<in>
     {mongo_tryMarkAsProjecting c digest (\<lambda>x. x) now e db, mongo_tryMarkAsProjecting c digest (\<lambda>x. x) now e (env db)}"
proof (cases "fst (mongo_claim_event (lock_ttl c) now (mongo_event_id c digest e) db)")
  case True
  then show ?thesis by (auto simp: mongo_tryMarkAsProjecting_def Let_def split: prod.splits bool.splits)
next
  case False
  then have same: "mongo_claim_event (lock_ttl c) now (mongo_event_id c digest e) db = (False, db)"
    using assms(1) by (auto simp: mongo_claim_event_def split: option.splits if_splits)
  have "fst (mongo_claim_event (lock_ttl c) now (mongo_event_id c digest e) (env db)) = False"
    using False assms(2,3) assms(1) by (auto simp: mongo_claim_event_def split: option.splits if_splits)
  then have "mongo_claim_event (lock_ttl c) now (mongo_event_id c digest e) (env db) = (False, env db)"
    using assms(1) by (auto simp: mongo_claim_event_def split: option.splits if_splits)
  with same show ?thesis by (simp add: mongo_tryMarkAsProjecting_def Let_def)
qed

lemma mongo_claim_atomic_witness:
  "mongo_tryMarkAsProjecting demo_cfg (\<lambda>_. ''d'') (\<lambda>db. db\<lparr>event_docs := [(mongo_event_id demo_cfg (\<lambda>_. ''d'')
        (demo_event ''T'' ''a'' 0 ''e1''), (Some 4, None))]\<rparr>) 5 (demo_event ''T'' ''a'' 0 ''e1'') \<lparr>event_docs = [], view_docs = []\<rparr>
    = (Inr False, \<lparr>event_docs = [(mongo_event_id demo_cfg (\<lambda>_. ''d'') (demo_event ''T'' ''a'' 0 ''e1''), (Some 4, None))], view_docs = []\<rparr>)"
proof -
  let ?e = "demo_event ''T'' ''a'' 0 ''e1''"
  let ?env = "\<lambda>db. db\<lparr>event_docs := [(mongo_event_id demo_cfg (\<lambda>_. ''d'') ?e, (Some (4::int), None))]\<rparr>"
  have "mongo_tryMarkAsProjecting demo_cfg (\<lambda>_. ''d'') ?env 5 ?e \<lparr>event_docs = [], view_docs = []\<rparr> \<in>
     {mongo_tryMarkAsProjecting demo_cfg (\<lambda>_. ''d'') (\<lambda>x. x) 5 ?e \<lparr>event_docs = [], view_docs = []\<rparr>,
      mongo_tryMarkAsProjecting demo_cfg (\<lambda>_. ''d'') (\<lambda>x. x) 5 ?e (?env \<lparr>event_docs = [], view_docs = []\<rparr>)}"
    by (rule mongo_claim_atomic) (simp_all add: demo_cfg_def)
  moreover have "mongo_tryMarkAsProjecting demo_cfg (\<lambda>_. ''d'') ?env 5 ?e \<lparr>event_docs = [], view_docs = []\<rparr>
      \<noteq> mongo_tryMarkAsProjecting demo_cfg (\<lambda>_. ''d'') (\<lambda>x. x) 5 ?e \<lparr>event_docs = [], view_docs = []\<rparr>"
    by (simp add: mongo_tryMarkAsProjecting_def mongo_claim_event_def mongo_insert_event_def map_has_def Let_def)
  ultimately show ?thesis
    by (simp add: mongo_tryMarkAsProjecting_def mongo_claim_event_def mongo_insert_event_def map_has_def demo_cfg_def Let_def)
qed

end
