(* ===== verification/ViewLockers.thy ===== *)
theory ViewLockers
  imports EventLockers
begin

text \<open>
  View lockers: \<open>src/sqlite/SqliteViewLocker.ts\<close>, \<open>src/mongodb/MongoViewLocker.ts\<close>,
  \<open>src/redis/RedisViewLocker.ts\<close> (\<open>src/interfaces/IViewLocker.ts\<close>). Each has a part in the
  process, \<open>view_locker\<close>, and one in the database. The locale \<open>view_lock\<close> is what makes
  restoring a view exclusive; the MongoDB and the Redis lockers keep it, the SQLite locker does
  not.
\<close>

section \<open>The part in the process\<close>

text \<open>
  The marker that readers wait for, the token of the lock, and whether a prolongation is
  scheduled.
\<close>

record view_locker =
  vl_marker :: bool
  vl_token :: "string option"
  vl_timer :: bool

definition new_view_locker :: view_locker where
  "new_view_locker = \<lparr>vl_marker = False, vl_token = None, vl_timer = False\<rparr>"

text \<open>The constructors; a view stays locked for two minutes if nothing else is said.\<close>

definition new_sqlite_view_locker :: "jsval \<Rightarrow> jsval \<Rightarrow> int option \<Rightarrow> (locker_cfg \<times> view_locker) result" where
  "new_sqlite_view_locker pn sv ttl =
     res_bind (new_locker ''o.'' pn sv ttl 120000 None) (\<lambda>c. Inr (c, new_view_locker))"

definition new_mongo_view_locker :: "jsval \<Rightarrow> jsval \<Rightarrow> int option \<Rightarrow> (locker_cfg \<times> view_locker) result" where
  "new_mongo_view_locker pn sv ttl =
     res_bind (new_locker [] pn sv ttl 120000 None) (\<lambda>c. Inr (c, new_view_locker))"

definition new_redis_view_locker ::
  "jsval \<Rightarrow> jsval \<Rightarrow> int option \<Rightarrow> string option \<Rightarrow> (locker_cfg \<times> view_locker) result" where
  "new_redis_view_locker pn sv ttl kp =
     res_bind (new_locker ''o.'' pn sv ttl 120000 kp) (\<lambda>c. Inr (c, new_view_locker))"

definition view_ready :: "view_locker \<Rightarrow> bool" where
  "view_ready l = (\<not> vl_marker l)"

definition view_once :: "string \<Rightarrow> view_locker \<Rightarrow> bool result" where
  "view_once ev l = (if ev \<noteq> ''ready'' then Inl (TypeError (''Unexpected event: '' @ ev)) else Inr (\<not> vl_marker l))"

definition lock_enter :: "string option \<Rightarrow> view_locker \<Rightarrow> view_locker" where
  "lock_enter tok l = l\<lparr>vl_marker := True, vl_token := tok\<rparr>"

definition scheduleLockProlongation :: "view_locker \<Rightarrow> view_locker" where
  "scheduleLockProlongation l = l\<lparr>vl_timer := True\<rparr>"

definition cancelLockProlongation :: "view_locker \<Rightarrow> view_locker" where
  "cancelLockProlongation l = l\<lparr>vl_timer := False\<rparr>"

text \<open>
  The loop of \<open>lock()\<close>: an attempt at each of the times \<open>clock n\<close>, \<open>clock (n + 1)\<close>, \<open>\<dots>\<close>, half a
  time to live apart; before each of them others act. \<open>None\<close>: after so many attempts it still
  waits.
\<close>

primrec lock_loop ::
  "(int \<Rightarrow> ('s, bool) act) \<Rightarrow> (nat \<Rightarrow> 's \<Rightarrow> 's) \<Rightarrow> (nat \<Rightarrow> int) \<Rightarrow> nat \<Rightarrow> nat \<Rightarrow> 's \<Rightarrow> (unit result \<times> 's) option" where
  "lock_loop claim env clock n 0 s = None"
| "lock_loop claim env clock n (Suc fuel) s = (case claim (clock n) (env n s) of
       (Inl e, s1) \<Rightarrow> Some (Inl e, s1)
     | (Inr True, s1) \<Rightarrow> Some (Inr (), s1)
     | (Inr False, s1) \<Rightarrow> lock_loop claim env clock (Suc n) fuel s1)"

definition view_lock_lock ::
  "(string \<Rightarrow> int \<Rightarrow> ('s, bool) act) \<Rightarrow> string \<Rightarrow> (nat \<Rightarrow> 's \<Rightarrow> 's) \<Rightarrow> (nat \<Rightarrow> int) \<Rightarrow> nat \<Rightarrow> view_locker \<times> 's \<Rightarrow>
   (bool result \<times> view_locker \<times> 's) option" where
  "view_lock_lock claim uuid env clock fuel p = (case p of (l, s) \<Rightarrow>
     let l1 = lock_enter (Some uuid) l
     in map_option (\<lambda>(r, s1). case r of
          Inl e \<Rightarrow> (Inl e, l1, s1)
        | Inr _ \<Rightarrow> (Inr True, scheduleLockProlongation l1, s1)) (lock_loop (claim uuid) env clock 0 fuel s))"

definition not_prolonged :: "locker_cfg \<Rightarrow> js_error" where
  "not_prolonged c = GenericError (''\"'' @ projectionName c @ ''\" lock could not be prolonged'')"

section \<open>MongoDB\<close>

definition mongo_claim_view :: "locker_cfg \<Rightarrow> int \<Rightarrow> string \<Rightarrow> mongo_db \<Rightarrow> bool \<times> mongo_db" where
  "mongo_claim_view c now tok db = (case map_of (view_docs db) (mongo_view_id c) of
       Some d \<Rightarrow>
         if (case lockedTill d of None \<Rightarrow> True | Some till \<Rightarrow> till < now)
         then (lockedTill d \<noteq> Some (now + lock_ttl c) \<or> token d \<noteq> Some tok,
               db\<lparr>view_docs := AList.update (mongo_view_id c)
                 (d\<lparr>lockedTill := Some (now + lock_ttl c), token := Some tok\<rparr>) (view_docs db)\<rparr>)
         else (False, db)
     | None \<Rightarrow> (False, db))"

definition mongo_insert_view :: "locker_cfg \<Rightarrow> int \<Rightarrow> string \<Rightarrow> mongo_db \<Rightarrow> bool \<times> mongo_db" where
  "mongo_insert_view c now tok db = (if map_has (view_docs db) (mongo_view_id c) then (False, db)
     else (True, db\<lparr>view_docs := AList.update (mongo_view_id c)
       \<lparr>lockedTill = Some (now + lock_ttl c), token = Some tok, lastEvent = None\<rparr> (view_docs db)\<rparr>))"

text \<open>One round of the loop; \<open>env\<close> acts between the two requests.\<close>

definition mongo_lock_attempt ::
  "locker_cfg \<Rightarrow> (mongo_db \<Rightarrow> mongo_db) \<Rightarrow> string \<Rightarrow> int \<Rightarrow> (mongo_db, bool) act" where
  "mongo_lock_attempt c env tok now db = (case mongo_claim_view c now tok db of
       (True, db1) \<Rightarrow> (Inr True, db1)
     | (False, db1) \<Rightarrow> (case mongo_insert_view c now tok (env db1) of (b, db2) \<Rightarrow> (Inr b, db2)))"

definition mongo_lock ::
  "locker_cfg \<Rightarrow> string \<Rightarrow> (nat \<Rightarrow> mongo_db \<Rightarrow> mongo_db) \<Rightarrow> (nat \<Rightarrow> int) \<Rightarrow> nat \<Rightarrow> view_locker \<times> mongo_db \<Rightarrow>
   (bool result \<times> view_locker \<times> mongo_db) option" where
  "mongo_lock c = view_lock_lock (mongo_lock_attempt c (\<lambda>db. db))"

text \<open>\<open>findOneAndUpdate({ _id, token })\<close>: whether a document matched.\<close>

definition mongo_with_token ::
  "locker_cfg \<Rightarrow> string option \<Rightarrow> (mongo_view_doc \<Rightarrow> mongo_view_doc) \<Rightarrow> mongo_db \<Rightarrow> bool \<times> mongo_db" where
  "mongo_with_token c tok f db = (case map_of (view_docs db) (mongo_view_id c) of
       Some d \<Rightarrow> if token d = tok
         then (True, db\<lparr>view_docs := AList.update (mongo_view_id c) (f d) (view_docs db)\<rparr>) else (False, db)
     | None \<Rightarrow> (False, db))"

definition mongo_prolong :: "locker_cfg \<Rightarrow> string option \<Rightarrow> int \<Rightarrow> (mongo_db, unit) act" where
  "mongo_prolong c tok now db = (case mongo_with_token c tok (\<lambda>d. d\<lparr>lockedTill := Some (now + lock_ttl c)\<rparr>) db of
       (True, db1) \<Rightarrow> (Inr (), db1) | (False, db1) \<Rightarrow> (Inl (not_prolonged c), db1))"

text \<open>The timer has fired when this runs.\<close>

definition mongo_prolongLock :: "locker_cfg \<Rightarrow> int \<Rightarrow> (view_locker \<times> mongo_db, unit) act" where
  "mongo_prolongLock c now p = (case p of (l, db) \<Rightarrow> case mongo_prolong c (vl_token l) now db of
       (Inl e, db1) \<Rightarrow> (Inl e, cancelLockProlongation l, db1)
     | (Inr _, db1) \<Rightarrow> (Inr (), scheduleLockProlongation l, db1))"

definition mongo_release :: "locker_cfg \<Rightarrow> string option \<Rightarrow> mongo_db \<Rightarrow> mongo_db" where
  "mongo_release c tok db = snd (mongo_with_token c tok (\<lambda>d. d\<lparr>lockedTill := None, token := None\<rparr>) db)"

definition mongo_unlock :: "locker_cfg \<Rightarrow> view_locker \<times> mongo_db \<Rightarrow> view_locker \<times> mongo_db" where
  "mongo_unlock c p = (case p of (l, db) \<Rightarrow>
     (cancelLockProlongation (l\<lparr>vl_marker := False\<rparr>)\<lparr>vl_token := None\<rparr>, mongo_release c (vl_token l) db))"

section \<open>Redis\<close>

definition redis_lock_key :: "locker_cfg \<Rightarrow> string" where
  "redis_lock_key c = keyPrefix c @ '':viewlock:'' @ projectionName c @ '':'' @ schemaVersion c"

text \<open>\<open>SET key token PX ttl NX\<close>.\<close>

definition redis_lock_attempt :: "locker_cfg \<Rightarrow> string \<Rightarrow> int \<Rightarrow> (redis_db, bool) act" where
  "redis_lock_attempt c tok now db =
     (if lock_ttl c \<le> 0 then (Inl (GenericError ''ERR invalid expire time''), db)
      else if redis_GET now (redis_lock_key c) db \<noteq> None then (Inr False, db)
      else case redis_SET_PX now (redis_lock_key c) (RText tok) (lock_ttl c) db of
          (Inl e, db1) \<Rightarrow> (Inl e, db1) | (Inr _, db1) \<Rightarrow> (Inr True, db1))"

definition redis_lock ::
  "locker_cfg \<Rightarrow> string \<Rightarrow> (nat \<Rightarrow> redis_db \<Rightarrow> redis_db) \<Rightarrow> (nat \<Rightarrow> int) \<Rightarrow> nat \<Rightarrow> view_locker \<times> redis_db \<Rightarrow>
   (bool result \<times> view_locker \<times> redis_db) option" where
  "redis_lock c = view_lock_lock (redis_lock_attempt c)"

text \<open>\<open>PEXPIRE\<close> with a time to live that is not positive deletes the key.\<close>

definition script_prolong_lock :: "locker_cfg \<Rightarrow> string \<Rightarrow> int \<Rightarrow> redis_db \<Rightarrow> int \<times> redis_db" where
  "script_prolong_lock c tok now db =
     (if redis_GET now (redis_lock_key c) db \<noteq> Some (RText tok) then (0, db)
      else if lock_ttl c \<le> 0 then (1, AList.delete (redis_lock_key c) db)
      else (1, AList.update (redis_lock_key c) (RText tok, Some (now + lock_ttl c)) db))"

definition script_release_lock :: "locker_cfg \<Rightarrow> string \<Rightarrow> int \<Rightarrow> redis_db \<Rightarrow> int \<times> redis_db" where
  "script_release_lock c tok now db =
     (if redis_GET now (redis_lock_key c) db \<noteq> Some (RText tok) then (0, db)
      else (1, AList.delete (redis_lock_key c) db))"

text \<open>An undefined argument is sent as the empty string.\<close>

definition redis_arg :: "string option \<Rightarrow> string" where
  "redis_arg tok = (case tok of None \<Rightarrow> [] | Some t \<Rightarrow> t)"

definition redis_prolong :: "locker_cfg \<Rightarrow> string option \<Rightarrow> int \<Rightarrow> (redis_db, unit) act" where
  "redis_prolong c tok now db = (case script_prolong_lock c (redis_arg tok) now db of
       (n, db1) \<Rightarrow> if n \<noteq> 1 then (Inl (not_prolonged c), db1) else (Inr (), db1))"

definition redis_prolongLock :: "locker_cfg \<Rightarrow> int \<Rightarrow> (view_locker \<times> redis_db, unit) act" where
  "redis_prolongLock c now p = (case p of (l, db) \<Rightarrow> case redis_prolong c (vl_token l) now db of
       (Inl e, db1) \<Rightarrow> (Inl e, cancelLockProlongation l, db1)
     | (Inr _, db1) \<Rightarrow> (Inr (), scheduleLockProlongation l, db1))"

definition redis_unlock :: "locker_cfg \<Rightarrow> int \<Rightarrow> view_locker \<times> redis_db \<Rightarrow> view_locker \<times> redis_db" where
  "redis_unlock c now p = (case p of (l, db) \<Rightarrow>
     (cancelLockProlongation (l\<lparr>vl_marker := False\<rparr>)\<lparr>vl_token := None\<rparr>,
      snd (script_release_lock c (redis_arg (vl_token l)) now db)))"

section \<open>SQLite\<close>

text \<open>\<open>lock\<close> compares the stored expiry with the new one, and there is no token.\<close>

definition upsertTableLockQuery :: "string \<times> string \<Rightarrow> int \<Rightarrow> sqlite_db \<Rightarrow> nat \<times> sqlite_db" where
  "upsertTableLockQuery key expiry db = (case map_of (view_rows db) key of
       None \<Rightarrow> (1, db\<lparr>view_rows := AList.update key (Some expiry, None) (view_rows db)\<rparr>)
     | Some (till, last_event) \<Rightarrow>
         if (case till of None \<Rightarrow> True | Some x \<Rightarrow> x < expiry)
         then (1, db\<lparr>view_rows := AList.update key (Some expiry, last_event) (view_rows db)\<rparr>)
         else (0, db))"

text \<open>Both of the other statements change a row that has an expiry.\<close>

definition setTableLockQuery :: "string \<times> string \<Rightarrow> int option \<Rightarrow> sqlite_db \<Rightarrow> nat \<times> sqlite_db" where
  "setTableLockQuery key till db = (case map_of (view_rows db) key of
       Some (Some _, last_event) \<Rightarrow> (1, db\<lparr>view_rows := AList.update key (till, last_event) (view_rows db)\<rparr>)
     | _ \<Rightarrow> (0, db))"

definition sqlite_lock_attempt :: "locker_cfg \<Rightarrow> int \<Rightarrow> (sqlite_db, bool) act" where
  "sqlite_lock_attempt c now db =
     (case upsertTableLockQuery (projectionName c, schemaVersion c) (now + lock_ttl c) db of (changes, db') \<Rightarrow>
        (Inr (changes = 1), db'))"

definition sqlite_lock ::
  "locker_cfg \<Rightarrow> (nat \<Rightarrow> sqlite_db \<Rightarrow> sqlite_db) \<Rightarrow> (nat \<Rightarrow> int) \<Rightarrow> nat \<Rightarrow> view_locker \<times> sqlite_db \<Rightarrow>
   (bool result \<times> view_locker \<times> sqlite_db) option" where
  "sqlite_lock c env clock fuel p = (case p of (l, db) \<Rightarrow>
     let l1 = lock_enter (vl_token l) l
     in map_option (\<lambda>(r, db1). case r of
          Inl e \<Rightarrow> (Inl e, l1, db1)
        | Inr _ \<Rightarrow> (Inr True, scheduleLockProlongation l1, db1)) (lock_loop (sqlite_lock_attempt c) env clock 0 fuel db))"

text \<open>The new expiry is written whoever holds the lock, and no further prolongation is scheduled.\<close>

definition sqlite_prolongLock :: "locker_cfg \<Rightarrow> int \<Rightarrow> (view_locker \<times> sqlite_db, unit) act" where
  "sqlite_prolongLock c now p = (case p of (l, db) \<Rightarrow>
     case setTableLockQuery (projectionName c, schemaVersion c) (Some (now + lock_ttl c)) db of (changes, db') \<Rightarrow>
       (if changes \<noteq> 1 then Inl (not_prolonged c) else Inr (), cancelLockProlongation l, db'))"

definition sqlite_unlock :: "locker_cfg \<Rightarrow> view_locker \<times> sqlite_db \<Rightarrow> view_locker \<times> sqlite_db" where
  "sqlite_unlock c p = (case p of (l, db) \<Rightarrow>
     (cancelLockProlongation (l\<lparr>vl_marker := False\<rparr>),
      snd (setTableLockQuery (projectionName c, schemaVersion c) None db)))"

section \<open>Exclusive leases\<close>

datatype 'k lease_op = TryLock 'k | Prolong 'k | Unlock 'k

text \<open>
  A run of requests of any processes, with the lease that the answers amount to: who was last
  told that the lock is his, until when, unless he has given it back. The run is exclusive if
  nobody is told so during another's lease.
\<close>

definition in_lease :: "('k \<times> int) option \<Rightarrow> 'k \<Rightarrow> int \<Rightarrow> bool" where
  "in_lease lease k now = (case lease of None \<Rightarrow> False | Some (h, till) \<Rightarrow> h \<noteq> k \<and> now < till)"

fun exclusive ::
  "('k \<Rightarrow> int \<Rightarrow> ('s, bool) act) \<Rightarrow> ('k \<Rightarrow> int \<Rightarrow> ('s, unit) act) \<Rightarrow> ('k \<Rightarrow> int \<Rightarrow> 's \<Rightarrow> 's) \<Rightarrow> int \<Rightarrow>
   ('k \<times> int) option \<Rightarrow> (int \<times> 'k lease_op) list \<Rightarrow> 's \<Rightarrow> bool" where
  "exclusive claim prolong unlock ttl lease [] s = True"
| "exclusive claim prolong unlock ttl lease ((now, TryLock k) # ops) s = (case claim k now s of
       (Inr True, s1) \<Rightarrow> \<not> in_lease lease k now \<and> exclusive claim prolong unlock ttl (Some (k, now + ttl)) ops s1
     | (_, s1) \<Rightarrow> exclusive claim prolong unlock ttl lease ops s1)"
| "exclusive claim prolong unlock ttl lease ((now, Prolong k) # ops) s = (case prolong k now s of
       (Inr _, s1) \<Rightarrow> \<not> in_lease lease k now \<and> exclusive claim prolong unlock ttl (Some (k, now + ttl)) ops s1
     | (_, s1) \<Rightarrow> exclusive claim prolong unlock ttl lease ops s1)"
| "exclusive claim prolong unlock ttl lease ((now, Unlock k) # ops) s =
     exclusive claim prolong unlock ttl
       (case lease of None \<Rightarrow> None | Some (h, till) \<Rightarrow> if h = k then None else Some (h, till)) ops (unlock k now s)"

locale view_lock =
  fixes claim :: "'k \<Rightarrow> int \<Rightarrow> ('s, bool) act"
    and prolong :: "'k \<Rightarrow> int \<Rightarrow> ('s, unit) act"
    and unlock :: "'k \<Rightarrow> int \<Rightarrow> 's \<Rightarrow> 's"
    and holder :: "'s \<Rightarrow> ('k \<times> int) option"
    and get_last :: "'s \<Rightarrow> event option"
    and ttl :: int
    and ok :: "'s \<Rightarrow> bool"
  assumes try_held: "ok s \<Longrightarrow> holder s = Some (h, till) \<Longrightarrow> now < till \<Longrightarrow> claim k now s = (Inr False, s)"
    and try_free: "ok s \<Longrightarrow> (\<And>h till. holder s = Some (h, till) \<Longrightarrow> till < now) \<Longrightarrow> fst (claim k now s) = Inr True"
    and try_total: "ok s \<Longrightarrow> \<exists>b s'. claim k now s = (Inr b, s')"
    and try_effect: "ok s \<Longrightarrow> claim k now s = (r, s') \<Longrightarrow> ok s' \<and> get_last s' = get_last s \<and>
        holder s' = (if r = Inr True then Some (k, now + ttl) else holder s)"
    and prolong_effect: "ok s \<Longrightarrow> prolong k now s = (q, s') \<Longrightarrow> ok s' \<and> get_last s' = get_last s \<and>
        (q = Inr () \<longrightarrow> (\<forall>h till. holder s = Some (h, till) \<longrightarrow> h = k)) \<and>
        holder s' = (if q = Inr () then Some (k, now + ttl) else holder s)"
    and prolong_held: "ok s \<Longrightarrow> holder s = Some (k, till) \<Longrightarrow> now < till \<Longrightarrow> fst (prolong k now s) = Inr ()"
    and unlock_effect: "ok s \<Longrightarrow> ok (unlock k now s) \<and> get_last (unlock k now s) = get_last s"
    and unlock_other: "ok s \<Longrightarrow> holder s = Some (h, till) \<Longrightarrow> h \<noteq> k \<Longrightarrow> holder (unlock k now s) = holder s"
    and unlock_own: "ok s \<Longrightarrow> holder s = Some (k, till) \<Longrightarrow> now < till \<Longrightarrow> holder (unlock k now s) = None"
begin

text \<open>Every run is exclusive: the lease is what the database says.\<close>

lemma run_exclusive:
  "ok s \<Longrightarrow> lease = None \<or> lease = holder s \<Longrightarrow> exclusive claim prolong unlock ttl lease ops s"
proof (induction ops arbitrary: lease s)
  case (Cons op ops)
  obtain now o' where op: "op = (now, o')" by fastforce
  have not_leased: "\<not> in_lease lease k t" if granted: "claim k t s = (Inr True, u)" for k t u
  proof
    assume "in_lease lease k t"
    then obtain h till where "lease = Some (h, till)" "t < till" by (auto simp: in_lease_def split: option.splits)
    with Cons.prems(2) try_held [OF Cons.prems(1), of h till t k] granted show False by simp
  qed
  show ?case
  proof (cases o')
    case (TryLock k)
    obtain r s1 where m: "claim k now s = (r, s1)" by fastforce
    note eff = try_effect [OF Cons.prems(1) m]
    have "r = Inr True \<Longrightarrow> \<not> in_lease lease k now"
      using not_leased [of k now] m by auto
    with eff m op TryLock Cons show ?thesis by (auto split: sum.splits bool.splits)
  next
    case (Prolong k)
    obtain r s1 where m: "prolong k now s = (r, s1)" by fastforce
    note eff = prolong_effect [OF Cons.prems(1) m]
    have "r = Inr () \<Longrightarrow> \<not> in_lease lease k now"
      using eff Cons.prems(2) by (auto simp: in_lease_def dest: sym split: option.splits)
    with eff m op Prolong Cons show ?thesis by (auto split: sum.splits)
  next
    case (Unlock k)
    have "\<And>h till. lease = Some (h, till) \<Longrightarrow> h \<noteq> k \<Longrightarrow> holder (unlock k now s) = lease"
      using unlock_other [OF Cons.prems(1)] Cons.prems(2) by (metis option.distinct(1))
    then show ?thesis
      using unlock_effect [OF Cons.prems(1), of k now] op Unlock
      by (cases lease) (auto intro!: Cons.IH split: if_splits)
  qed
qed simp

text \<open>\<open>lock()\<close> returns: undisturbed, some attempt comes after the lease it found.\<close>

lemma lock_returns:
  assumes "ok s" and mono: "\<And>n. clock n < clock (Suc n)"
  shows "\<exists>fuel s1. lock_loop (claim k) (\<lambda>_ x. x) clock n fuel s = Some (Inr (), s1)"
proof -
  have "\<exists>fuel s1. lock_loop (claim k) (\<lambda>_ x. x) clock n fuel s = Some (Inr (), s1)"
    if "\<And>h till. holder s = Some (h, till) \<Longrightarrow> till < clock (n + d)" for d
    using that assms(1)
  proof (induction d arbitrary: n s)
    case 0
    obtain r s1 where m: "claim k (clock n) s = (r, s1)" by fastforce
    with try_free [OF 0(2), of "clock n" k] 0 have "r = Inr True" by auto
    with m have "lock_loop (claim k) (\<lambda>_ x. x) clock n (Suc 0) s = Some (Inr (), s1)" by simp
    then show ?case by blast
  next
    case (Suc d)
    obtain r s1 where m: "claim k (clock n) s = (r, s1)" by fastforce
    show ?case
    proof (cases "r = Inr True")
      case True
      with m have "lock_loop (claim k) (\<lambda>_ x. x) clock n (Suc 0) s = Some (Inr (), s1)" by simp
      then show ?thesis by blast
    next
      case False
      have eff: "ok s1" "holder s1 = holder s" using try_effect [OF Suc.prems(2) m] False by auto
      have "\<exists>fuel s2. lock_loop (claim k) (\<lambda>_ x. x) clock (Suc n) fuel s1 = Some (Inr (), s2)"
        by (rule Suc.IH [OF _ eff(1)]) (use eff Suc.prems(1) in simp)
      then obtain fuel s2 where
        "lock_loop (claim k) (\<lambda>_ x. x) clock (Suc n) fuel s1 = Some (Inr (), s2)" by blast
      moreover have "r = Inr False"
        using try_total [OF Suc.prems(2), of k "clock n"] m False by auto
      ultimately have "lock_loop (claim k) (\<lambda>_ x. x) clock n (Suc fuel) s = Some (Inr (), s2)" using m by simp
      then show ?thesis by blast
    qed
  qed
  moreover have grow: "clock n + int d \<le> clock (n + d)" for d
  proof (induction d)
    case (Suc d) with mono [of "n + d"] show ?case by simp
  qed simp
  have late: "till < clock (n + nat (till - clock n + 1))" for till
  proof -
    have "till < clock n + int (nat (till - clock n + 1))" by simp
    with grow show ?thesis by (rule order.strict_trans2 [rotated])
  qed
  have "\<exists>d. \<forall>h till. holder s = Some (h, till) \<longrightarrow> till < clock (n + d)"
    using late by (cases "holder s") (auto intro: exI [of _ "nat (snd (the (holder s)) - clock n + 1)"])
  ultimately show ?thesis by blast
qed

end

section \<open>The MongoDB and the Redis locker keep it\<close>

text \<open>A locked document names its holder.\<close>

definition mongo_holder :: "locker_cfg \<Rightarrow> mongo_db \<Rightarrow> (string \<times> int) option" where
  "mongo_holder c db = Option.bind (map_of (view_docs db) (mongo_view_id c))
     (\<lambda>d. map_option (Pair (redis_arg (token d))) (lockedTill d))"

definition mongo_view_ok :: "locker_cfg \<Rightarrow> mongo_db \<Rightarrow> bool" where
  "mongo_view_ok c db \<longleftrightarrow> 0 \<le> lock_ttl c \<and> (case map_of (view_docs db) (mongo_view_id c) of
       None \<Rightarrow> True | Some d \<Rightarrow> lockedTill d \<noteq> None \<longrightarrow> token d \<noteq> None)"

text \<open>Undisturbed, the two requests are one test and set.\<close>

lemma mongo_lock_attempt_quiet:
  assumes "0 \<le> lock_ttl c"
  shows "mongo_lock_attempt c (\<lambda>x. x) tok now db = (case map_of (view_docs db) (mongo_view_id c) of
      None \<Rightarrow> (Inr True, db\<lparr>view_docs := AList.update (mongo_view_id c)
         \<lparr>lockedTill = Some (now + lock_ttl c), token = Some tok, lastEvent = None\<rparr> (view_docs db)\<rparr>)
    | Some d \<Rightarrow> if (case lockedTill d of None \<Rightarrow> True | Some till \<Rightarrow> till < now)
        then (Inr True, db\<lparr>view_docs := AList.update (mongo_view_id c)
          (d\<lparr>lockedTill := Some (now + lock_ttl c), token := Some tok\<rparr>) (view_docs db)\<rparr>)
        else (Inr False, db))"
  using assms
  by (auto simp: mongo_lock_attempt_def mongo_claim_view_def mongo_insert_view_def map_has_def split: option.splits)

interpretation mongo_vl: view_lock
  "mongo_lock_attempt c (\<lambda>x. x)" "\<lambda>k. mongo_prolong c (Some k)" "\<lambda>k now. mongo_release c (Some k)"
  "mongo_holder c" "mongo_getLastEvent c" "lock_ttl c" "mongo_view_ok c"
  for c
proof
  fix s s' :: mongo_db and h k till now r and q :: "unit result"
  assume ok: "mongo_view_ok c s"
  then have ttl: "0 \<le> lock_ttl c" by (simp add: mongo_view_ok_def)
  note defs = mongo_holder_def mongo_view_ok_def mongo_getLastEvent_def mongo_lock_attempt_quiet [OF ttl]
    mongo_prolong_def mongo_release_def mongo_with_token_def redis_arg_def
  let ?clm = "mongo_lock_attempt c (\<lambda>x. x)"
  show "mongo_holder c s = Some (h, till) \<Longrightarrow> now < till \<Longrightarrow> ?clm k now s = (Inr False, s)"
    by (auto simp: defs split: option.splits bind_splits)
  show "(\<And>h till. mongo_holder c s = Some (h, till) \<Longrightarrow> till < now) \<Longrightarrow> fst (?clm k now s) = Inr True"
    by (auto simp: defs split: option.splits bind_splits)
  show "\<exists>b s'. ?clm k now s = (Inr b, s')"
    by (auto simp: defs split: option.splits)
  show "?clm k now s = (r, s') \<Longrightarrow> mongo_view_ok c s' \<and> mongo_getLastEvent c s' = mongo_getLastEvent c s \<and>
      mongo_holder c s' = (if r = Inr True then Some (k, now + lock_ttl c) else mongo_holder c s)"
    using ok by (auto simp: defs split: option.splits if_splits)
  show "mongo_prolong c (Some k) now s = (q, s') \<Longrightarrow> mongo_view_ok c s' \<and> mongo_getLastEvent c s' = mongo_getLastEvent c s \<and>
      (q = Inr () \<longrightarrow> (\<forall>h till. mongo_holder c s = Some (h, till) \<longrightarrow> h = k)) \<and>
      mongo_holder c s' = (if q = Inr () then Some (k, now + lock_ttl c) else mongo_holder c s)"
    using ok by (auto simp: defs split: option.splits if_splits)
  show "mongo_holder c s = Some (k, till) \<Longrightarrow> now < till \<Longrightarrow> fst (mongo_prolong c (Some k) now s) = Inr ()"
    using ok by (auto simp: defs split: option.splits bind_splits)
  show "mongo_view_ok c (mongo_release c (Some k) s) \<and> mongo_getLastEvent c (mongo_release c (Some k) s) = mongo_getLastEvent c s"
    using ok by (auto simp: defs split: option.splits)
  show "mongo_holder c s = Some (h, till) \<Longrightarrow> h \<noteq> k \<Longrightarrow> mongo_holder c (mongo_release c (Some k) s) = mongo_holder c s"
    by (auto simp: defs split: option.splits bind_splits)
  show "mongo_holder c s = Some (k, till) \<Longrightarrow> now < till \<Longrightarrow> mongo_holder c (mongo_release c (Some k) s) = None"
    using ok by (auto simp: defs split: option.splits bind_splits)
qed

definition redis_holder :: "locker_cfg \<Rightarrow> redis_db \<Rightarrow> (string \<times> int) option" where
  "redis_holder c db = (case map_of db (redis_lock_key c) of
       Some (RText tok, Some till) \<Rightarrow> Some (tok, till) | _ \<Rightarrow> None)"

definition redis_view_ok :: "locker_cfg \<Rightarrow> redis_db \<Rightarrow> bool" where
  "redis_view_ok c db \<longleftrightarrow> 0 < lock_ttl c \<and> (case map_of db (redis_lock_key c) of
       None \<Rightarrow> True | Some (RText _, Some _) \<Rightarrow> True | _ \<Rightarrow> False)"

lemma redis_lock_key_other [simp]:
  "redis_lock_key c \<noteq> redis_last_key c" "redis_last_key c \<noteq> redis_lock_key c"
  by (simp_all add: redis_lock_key_def redis_last_key_def)

interpretation redis_vl: view_lock
  "redis_lock_attempt c" "\<lambda>k. redis_prolong c (Some k)" "\<lambda>k now db. snd (script_release_lock c k now db)"
  "redis_holder c" "redis_getLastEvent c" "lock_ttl c" "redis_view_ok c"
  for c
proof
  fix s s' :: redis_db and h k till now r and q :: "unit result"
  assume ok: "redis_view_ok c s"
  then have ttl: "0 < lock_ttl c" by (simp add: redis_view_ok_def)
  note defs = redis_holder_def redis_view_ok_def redis_getLastEvent_def redis_lock_attempt_def redis_GET_def redis_SET_PX_def
    redis_prolong_def script_prolong_lock_def script_release_lock_def redis_arg_def
  show "redis_holder c s = Some (h, till) \<Longrightarrow> now < till \<Longrightarrow> redis_lock_attempt c k now s = (Inr False, s)"
    using ttl by (auto simp: defs split: option.splits redis_value.splits)
  show "(\<And>h till. redis_holder c s = Some (h, till) \<Longrightarrow> till < now) \<Longrightarrow> fst (redis_lock_attempt c k now s) = Inr True"
    using ok by (auto simp: defs split: option.splits redis_value.splits)
  show "\<exists>b s'. redis_lock_attempt c k now s = (Inr b, s')"
    using ttl by (auto simp: defs split: option.splits)
  show "redis_lock_attempt c k now s = (r, s') \<Longrightarrow> redis_view_ok c s' \<and> redis_getLastEvent c s' = redis_getLastEvent c s \<and>
      redis_holder c s' = (if r = Inr True then Some (k, now + lock_ttl c) else redis_holder c s)"
    using ok by (auto simp: defs split: option.splits if_splits redis_value.splits)
  show "redis_prolong c (Some k) now s = (q, s') \<Longrightarrow> redis_view_ok c s' \<and> redis_getLastEvent c s' = redis_getLastEvent c s \<and>
      (q = Inr () \<longrightarrow> (\<forall>h till. redis_holder c s = Some (h, till) \<longrightarrow> h = k)) \<and>
      redis_holder c s' = (if q = Inr () then Some (k, now + lock_ttl c) else redis_holder c s)"
    using ok by (auto simp: defs split: option.splits if_splits redis_value.splits)
  show "redis_holder c s = Some (k, till) \<Longrightarrow> now < till \<Longrightarrow> fst (redis_prolong c (Some k) now s) = Inr ()"
    using ttl by (auto simp: defs split: option.splits redis_value.splits)
  show "redis_view_ok c (snd (script_release_lock c k now s)) \<and> redis_getLastEvent c (snd (script_release_lock c k now s)) = redis_getLastEvent c s"
    using ok by (auto simp: defs split: option.splits redis_value.splits)
  show "redis_holder c s = Some (h, till) \<Longrightarrow> h \<noteq> k \<Longrightarrow> redis_holder c (snd (script_release_lock c k now s)) = redis_holder c s"
    by (auto simp: defs split: option.splits redis_value.splits)
  show "redis_holder c s = Some (k, till) \<Longrightarrow> now < till \<Longrightarrow> redis_holder c (snd (script_release_lock c k now s)) = None"
    by (auto simp: defs split: option.splits redis_value.splits)
qed

section \<open>Properties\<close>

text \<open>
  C32: whatever lock, prolongation and unlock requests any processes send to a MongoDB view locker, in
  any order and at any times: nobody is told that the lock is his, or still his, during another's
  lease.
\<close>

theorem mongo_view_lock_exclusive:
  assumes "mongo_view_ok c db"
  shows "exclusive (mongo_lock_attempt c (\<lambda>x. x)) (\<lambda>k. mongo_prolong c (Some k)) (\<lambda>k now. mongo_release c (Some k))
    (lock_ttl c) None ops db"
  by (rule mongo_vl.run_exclusive [OF assms]) simp

lemma mongo_view_lock_exclusive_witness:
  "exclusive (mongo_lock_attempt demo_cfg (\<lambda>x. x)) (\<lambda>k. mongo_prolong demo_cfg (Some k)) (\<lambda>k now. mongo_release demo_cfg (Some k))
    (lock_ttl demo_cfg) None [(0, TryLock ''p''), (5, TryLock ''q''), (8, Prolong ''p''), (20, TryLock ''q''), (21, Unlock ''p'')]
    \<lparr>event_docs = [], view_docs = []\<rparr>"
  by (rule mongo_view_lock_exclusive) (simp add: mongo_view_ok_def demo_cfg_def)

text \<open>
  The SQLite view locker does not exclude: a process that asks for the lock later than another got
  it gets it too, at any time during the other's lease, and the other's prolongation then succeeds
  as well.
\<close>

theorem sqlite_lock_stolen:
  assumes "map_of (view_rows db) (projectionName c, schemaVersion c) = None" and "t < now" and "now < t + lock_ttl c"
  shows "\<exists>db1 db2. sqlite_lock_attempt c t db = (Inr True, db1) \<and> sqlite_lock_attempt c now db1 = (Inr True, db2)
    \<and> fst (sqlite_prolongLock c now (new_view_locker, db2)) = Inr ()"
proof -
  let ?key = "(projectionName c, schemaVersion c)"
  obtain db1 where db1: "sqlite_lock_attempt c t db = (Inr True, db1)"
    "map_of (view_rows db1) ?key = Some (Some (t + lock_ttl c), None)"
    using assms(1) by (simp add: sqlite_lock_attempt_def upsertTableLockQuery_def)
  obtain db2 where "sqlite_lock_attempt c now db1 = (Inr True, db2)"
    "map_of (view_rows db2) ?key = Some (Some (now + lock_ttl c), None)"
    using db1(2) assms(2) by (simp add: sqlite_lock_attempt_def upsertTableLockQuery_def)
  with db1(1) show ?thesis by (auto simp: sqlite_prolongLock_def setTableLockQuery_def)
qed

lemma sqlite_lock_stolen_witness:
  "\<exists>db1 db2. sqlite_lock_attempt demo_cfg 0 \<lparr>event_rows = [], view_rows = []\<rparr> = (Inr True, db1)
    \<and> sqlite_lock_attempt demo_cfg 1 db1 = (Inr True, db2)"
  using sqlite_lock_stolen [of "\<lparr>event_rows = [], view_rows = []\<rparr>" demo_cfg 0 1] by (auto simp: demo_cfg_def)

text \<open>
  \<open>lock()\<close> of a Redis view locker returns if nobody else acts: with attempts at growing times, some
  number of them is enough, whatever lease it finds.
\<close>

theorem redis_lock_returns:
  assumes "redis_view_ok c db" and "\<And>n. clock n < clock (Suc n)"
  shows "\<exists>fuel l' db'. redis_lock c tok (\<lambda>_ x. x) clock fuel (l, db) = Some (Inr True, l', db')"
proof -
  obtain fuel s1 where "lock_loop (redis_lock_attempt c tok) (\<lambda>_ x. x) clock 0 fuel db = Some (Inr (), s1)"
    using redis_vl.lock_returns [where clock = clock, OF assms] by blast
  then show ?thesis by (auto simp: redis_lock_def view_lock_lock_def Let_def intro!: exI [of _ fuel])
qed

lemma redis_lock_returns_witness:
  "\<exists>fuel l' db'. redis_lock demo_cfg ''t'' (\<lambda>_ x. x) (\<lambda>n. 5 * int n) fuel
    (new_view_locker, [(redis_lock_key demo_cfg, RText ''other'', Some 17)]) = Some (Inr True, l', db')"
proof -
  have "redis_view_ok demo_cfg [(redis_lock_key demo_cfg, RText ''other'', Some 17)]"
    by (simp add: redis_view_ok_def demo_cfg_def)
  from redis_lock_returns [where clock = "\<lambda>n. 5 * int n", OF this _, of "''t''" new_view_locker] show ?thesis by simp
qed

end
