(* ===== verification/Prolongation.thy ===== *)
theory Prolongation
  imports ViewLockers
begin

text \<open>
  How a view locker keeps its lock (\<open>src/mongodb/MongoViewLocker.ts\<close>, \<open>src/redis/RedisViewLocker.ts\<close>,
  \<open>src/sqlite/SqliteViewLocker.ts\<close>): the timer, the calls of \<open>prolongLock\<close> and \<open>unlock\<close> that wait for the
  database, and other processes, from one await to the next. The requests are those of \<open>ViewLockers\<close>.
\<close>

section \<open>A locker between its awaits\<close>

text \<open>
  The requests of a locker; whether a prolongation that succeeded schedules the next. A token is
  undefined before the first lock and after an unlock.
\<close>

record 'd lease_requests =
  lr_claim :: "string option \<Rightarrow> int \<Rightarrow> ('d, bool) act"
  lr_prolong :: "string option \<Rightarrow> int \<Rightarrow> ('d, unit) act"
  lr_release :: "string option \<Rightarrow> int \<Rightarrow> 'd \<Rightarrow> 'd"
  lr_repeats :: bool

definition mongo_requests :: "locker_cfg \<Rightarrow> mongo_db lease_requests" where
  "mongo_requests c = \<lparr>lr_claim = (\<lambda>tok. mongo_lock_attempt c (\<lambda>db. db) (redis_arg tok)), lr_prolong = mongo_prolong c,
     lr_release = (\<lambda>tok now. mongo_release c tok), lr_repeats = True\<rparr>"

definition redis_requests :: "locker_cfg \<Rightarrow> redis_db lease_requests" where
  "redis_requests c = \<lparr>lr_claim = (\<lambda>tok. redis_lock_attempt c (redis_arg tok)), lr_prolong = redis_prolong c,
     lr_release = (\<lambda>tok now db. snd (script_release_lock c (redis_arg tok) now db)), lr_repeats = True\<rparr>"

definition sqlite_requests :: "locker_cfg \<Rightarrow> sqlite_db lease_requests" where
  "sqlite_requests c = \<lparr>lr_claim = (\<lambda>tok. sqlite_lock_attempt c),
     lr_prolong = (\<lambda>tok now db. case setTableLockQuery (projectionName c, schemaVersion c) (Some (now + lock_ttl c)) db of
       (changes, db') \<Rightarrow> (if changes \<noteq> 1 then Inl (not_prolonged c) else Inr (), db')),
     lr_release = (\<lambda>tok now db. snd (setTableLockQuery (projectionName c, schemaVersion c) None db)), lr_repeats = False\<rparr>"

text \<open>
  The timers that are set and have neither fired nor been cleared, by number, and the one that
  \<open>#lockProlongationTimeout\<close> names; the calls of \<open>lock\<close> in their loop; the calls of \<open>prolongLock\<close>, before
  the request (\<open>None\<close>) or answered; the calls of \<open>unlock\<close>, before the request (\<open>False\<close>) or answered.
  The last two count the calls of \<open>lock\<close> and the requests for a prolongation.
\<close>

record 'd lock_client =
  pc_marker :: bool
  pc_token :: "string option"
  pc_timers :: "nat list"
  pc_timeout :: "nat option"
  pc_made :: nat
  pc_lockings :: nat
  pc_prolongs :: "bool option list"
  pc_unlocks :: "bool list"
  pc_db :: 'd
  pc_locks :: nat
  pc_sends :: nat

definition new_lock_client :: "'d \<Rightarrow> 'd lock_client" where
  "new_lock_client d = \<lparr>pc_marker = False, pc_token = None, pc_timers = [], pc_timeout = None, pc_made = 0, pc_lockings = 0,
     pc_prolongs = [], pc_unlocks = [], pc_db = d, pc_locks = 0, pc_sends = 0\<rparr>"

definition without :: "nat \<Rightarrow> 'a list \<Rightarrow> 'a list" where
  "without i xs = take i xs @ drop (Suc i) xs"

definition pc_schedule :: "'d lock_client \<Rightarrow> 'd lock_client" where
  "pc_schedule s = s\<lparr>pc_timers := pc_timers s @ [pc_made s], pc_timeout := Some (pc_made s), pc_made := Suc (pc_made s)\<rparr>"

definition pc_cancel :: "'d lock_client \<Rightarrow> 'd lock_client" where
  "pc_cancel s = s\<lparr>pc_timers := (case pc_timeout s of None \<Rightarrow> pc_timers s | Some n \<Rightarrow> remove1 n (pc_timers s))\<rparr>"

definition pc_lock :: "string option \<Rightarrow> 'd lock_client \<Rightarrow> 'd lock_client" where
  "pc_lock tok s = s\<lparr>pc_marker := True, pc_token := tok, pc_lockings := Suc (pc_lockings s), pc_locks := Suc (pc_locks s)\<rparr>"

definition pc_attempt :: "'d lease_requests \<Rightarrow> int \<Rightarrow> 'd lock_client \<Rightarrow> 'd lock_client" where
  "pc_attempt rq now s = (case lr_claim rq (pc_token s) now (pc_db s) of
       (Inl e, d) \<Rightarrow> s\<lparr>pc_lockings := pc_lockings s - 1, pc_db := d\<rparr>
     | (Inr b, d) \<Rightarrow> if b then pc_schedule (s\<lparr>pc_lockings := pc_lockings s - 1, pc_db := d\<rparr>) else s\<lparr>pc_db := d\<rparr>)"

definition pc_fire :: "nat \<Rightarrow> 'd lock_client \<Rightarrow> 'd lock_client" where
  "pc_fire n s = s\<lparr>pc_timers := remove1 n (pc_timers s), pc_prolongs := pc_prolongs s @ [None]\<rparr>"

text \<open>The token is read when the request is made.\<close>

definition pc_send :: "'d lease_requests \<Rightarrow> int \<Rightarrow> nat \<Rightarrow> 'd lock_client \<Rightarrow> 'd lock_client" where
  "pc_send rq now i s = (case lr_prolong rq (pc_token s) now (pc_db s) of (r, d) \<Rightarrow>
     s\<lparr>pc_prolongs := (pc_prolongs s)[i := Some (r = Inr ())], pc_db := d, pc_sends := Suc (pc_sends s)\<rparr>)"

definition pc_answered :: "'d lease_requests \<Rightarrow> nat \<Rightarrow> 'd lock_client \<Rightarrow> 'd lock_client" where
  "pc_answered rq i s = (let s1 = s\<lparr>pc_prolongs := without i (pc_prolongs s)\<rparr>
     in if pc_prolongs s ! i = Some True \<and> lr_repeats rq then pc_schedule s1 else s1)"

definition pc_unlock :: "'d lock_client \<Rightarrow> 'd lock_client" where
  "pc_unlock s = pc_cancel (s\<lparr>pc_marker := False, pc_unlocks := pc_unlocks s @ [False]\<rparr>)"

definition pc_release :: "'d lease_requests \<Rightarrow> int \<Rightarrow> nat \<Rightarrow> 'd lock_client \<Rightarrow> 'd lock_client" where
  "pc_release rq now i s = s\<lparr>pc_unlocks := (pc_unlocks s)[i := True], pc_db := lr_release rq (pc_token s) now (pc_db s)\<rparr>"

definition pc_unlocked :: "nat \<Rightarrow> 'd lock_client \<Rightarrow> 'd lock_client" where
  "pc_unlocked i s = s\<lparr>pc_unlocks := without i (pc_unlocks s), pc_token := None\<rparr>"

text \<open>
  \<open>lock\<close> is called with tokens of \<open>toks\<close> and, as a projection does it, when nothing of an earlier lock is
  under way. Others change the database as \<open>R\<close> allows.
\<close>

definition pc_silent :: "'d lock_client \<Rightarrow> bool" where
  "pc_silent s \<longleftrightarrow> pc_timers s = [] \<and> pc_lockings s = 0 \<and> pc_prolongs s = []"

inductive pc_step :: "'d lease_requests \<Rightarrow> ('d \<Rightarrow> 'd \<Rightarrow> bool) \<Rightarrow> string option set \<Rightarrow> 'd lock_client \<Rightarrow> 'd lock_client \<Rightarrow> bool"
  for rq R toks where
  pc_locks: "tok \<in> toks \<Longrightarrow> pc_silent s \<Longrightarrow> pc_step rq R toks s (pc_lock tok s)"
| pc_attempts: "0 < pc_lockings s \<Longrightarrow> pc_step rq R toks s (pc_attempt rq now s)"
| pc_fires: "n \<in> set (pc_timers s) \<Longrightarrow> pc_step rq R toks s (pc_fire n s)"
| pc_sends: "i < length (pc_prolongs s) \<Longrightarrow> pc_prolongs s ! i = None \<Longrightarrow> pc_step rq R toks s (pc_send rq now i s)"
| pc_answers: "i < length (pc_prolongs s) \<Longrightarrow> pc_prolongs s ! i \<noteq> None \<Longrightarrow> pc_step rq R toks s (pc_answered rq i s)"
| pc_unlocks: "pc_step rq R toks s (pc_unlock s)"
| pc_releases: "i < length (pc_unlocks s) \<Longrightarrow> \<not> pc_unlocks s ! i \<Longrightarrow> pc_step rq R toks s (pc_release rq now i s)"
| pc_unlocks_done: "i < length (pc_unlocks s) \<Longrightarrow> pc_unlocks s ! i \<Longrightarrow> pc_step rq R toks s (pc_unlocked i s)"
| pc_others: "R (pc_db s) d \<Longrightarrow> pc_step rq R toks s (s\<lparr>pc_db := d\<rparr>)"

inductive pc_run :: "'d lease_requests \<Rightarrow> ('d \<Rightarrow> 'd \<Rightarrow> bool) \<Rightarrow> string option set \<Rightarrow> 'd lock_client \<Rightarrow> 'd lock_client \<Rightarrow> bool"
  for rq R toks s where
  pc_none: "pc_run rq R toks s s"
| pc_more: "pc_run rq R toks s t \<Longrightarrow> pc_step rq R toks t u \<Longrightarrow> pc_run rq R toks s u"

lemma pc_run_keeps:
  assumes "pc_run rq R toks s t" "P s" "\<And>t u. pc_step rq R toks t u \<Longrightarrow> P t \<Longrightarrow> P u"
  shows "P t"
  using assms by (induction rule: pc_run.induct) blast+

lemma length_without [simp]: "i < length xs \<Longrightarrow> length (without i xs) = length xs - 1"
  by (simp add: without_def)

text \<open>What removing and replacing an element does to a count.\<close>

lemma filter_without: "i < length xs \<Longrightarrow> length (filter P xs) = length (filter P (without i xs)) + (if P (xs ! i) then 1 else 0)"
  by (subst id_take_nth_drop [of i xs]) (simp_all add: without_def)

lemma filter_update: "i < length xs \<Longrightarrow> length (filter P (xs[i := x])) = length (filter P (without i xs)) + (if P x then 1 else 0)"
  by (simp add: upd_conv_take_nth_drop without_def)

lemmas pc_defs = pc_lock_def pc_attempt_def pc_fire_def pc_send_def pc_answered_def pc_unlock_def pc_release_def pc_unlocked_def
  pc_schedule_def pc_cancel_def Let_def

section \<open>One chain of prolongations\<close>

text \<open>At most one of: a lock being waited for, a timer, a prolongation; the timer is the one that can be cleared.\<close>

definition one_chain :: "'d lock_client \<Rightarrow> bool" where
  "one_chain s \<longleftrightarrow> pc_lockings s + length (pc_timers s) + length (pc_prolongs s) \<le> 1
     \<and> (\<forall>n \<in> set (pc_timers s). pc_timeout s = Some n)"

lemma one_chain_schedule:
  "pc_lockings s + length (pc_timers s) + length (pc_prolongs s) = 0 \<Longrightarrow> one_chain (pc_schedule s)"
  by (simp add: one_chain_def pc_schedule_def)

lemma one_chain_step:
  assumes "pc_step rq R toks s t" and inv: "one_chain s"
  shows "one_chain t"
  using assms(1)
proof cases
  case (pc_locks tok)
  with inv show ?thesis by (simp add: one_chain_def pc_silent_def pc_lock_def)
next
  case (pc_attempts now)
  with inv have "pc_lockings s = 1 \<and> length (pc_timers s) = 0 \<and> length (pc_prolongs s) = 0"
    unfolding one_chain_def by linarith
  then have z: "pc_lockings s = 1" "pc_timers s = []" "pc_prolongs s = []" by simp_all
  show ?thesis unfolding pc_attempts(1) pc_attempt_def
    using z inv by (auto simp: one_chain_def pc_schedule_def split: prod.split sum.split)
next
  case (pc_fires n)
  then have "pc_timers s = [n]" using inv by (cases "pc_timers s") (auto simp: one_chain_def)
  with inv pc_fires(1) show ?thesis by (simp add: one_chain_def pc_fire_def)
next
  case (pc_sends i now)
  with inv show ?thesis by (simp add: one_chain_def pc_send_def split: prod.split)
next
  case (pc_answers i)
  with inv have "pc_lockings s = 0 \<and> length (pc_timers s) = 0 \<and> length (pc_prolongs s) = 1"
    unfolding one_chain_def by linarith
  then have z: "pc_lockings s = 0" "pc_timers s = []" "length (pc_prolongs s) = 1" by simp_all
  with pc_answers show ?thesis by (auto simp: one_chain_def pc_answered_def pc_schedule_def Let_def)
next
  case pc_unlocks
  have "length (remove1 n xs) \<le> length xs \<and> set (remove1 n xs) \<subseteq> set xs" for n and xs :: "nat list"
    by (simp add: length_remove1 set_remove1_subset)
  then have "length (pc_timers t) \<le> length (pc_timers s)" "set (pc_timers t) \<subseteq> set (pc_timers s)"
    by (simp_all add: pc_unlocks pc_unlock_def pc_cancel_def split: option.split)
  moreover have "pc_lockings t = pc_lockings s" "pc_prolongs t = pc_prolongs s" "pc_timeout t = pc_timeout s"
    by (simp_all add: pc_unlocks pc_unlock_def pc_cancel_def)
  ultimately show ?thesis using inv unfolding one_chain_def by fastforce
qed (use inv in \<open>simp_all add: one_chain_def pc_release_def pc_unlocked_def\<close>)

lemma one_chain_run: "pc_run rq R toks (new_lock_client d) s \<Longrightarrow> one_chain s"
  by (erule pc_run_keeps [where P = one_chain], simp add: one_chain_def new_lock_client_def, rule one_chain_step)

lemma silent_step:
  assumes "pc_step rq R {} s t" "pc_silent s"
  shows "pc_silent t"
  using assms by cases (auto simp: pc_silent_def pc_unlock_def pc_cancel_def pc_release_def pc_unlocked_def split: option.split)

lemma silent_run: "pc_run rq R {} s t \<Longrightarrow> pc_silent s \<Longrightarrow> pc_silent t"
  by (erule pc_run_keeps [where P = pc_silent], assumption, rule silent_step)

text \<open>
  C34: when the lock is given back while no prolongation is under way, its timer is cleared and nothing of
  the lock is left: until the next \<open>lock\<close> there is no timer and no prolongation.
\<close>

theorem unlock_ends_prolongation:
  assumes "pc_run rq R toks (new_lock_client d) s" "pc_lockings s = 0" "pc_prolongs s = []" "pc_run rq R {} (pc_unlock s) t"
  shows "pc_timers t = [] \<and> pc_prolongs t = []"
proof -
  have c: "one_chain s" by (rule one_chain_run [OF assms(1)])
  have "pc_timers (pc_unlock s) = []"
  proof (cases "pc_timers s")
    case (Cons n ns)
    with c assms(2,3) have "ns = []" "pc_timeout s = Some n" by (auto simp: one_chain_def)
    with Cons show ?thesis by (simp add: pc_unlock_def pc_cancel_def)
  qed (simp add: pc_unlock_def pc_cancel_def split: option.split)
  then have "pc_silent (pc_unlock s)" using assms(2,3) by (simp add: pc_silent_def pc_unlock_def pc_cancel_def)
  from silent_run [OF assms(4) this] show ?thesis by (simp add: pc_silent_def)
qed

text \<open>Locked and unlocked.\<close>

definition demo_lock_cfg :: locker_cfg where
  "demo_lock_cfg = \<lparr>projectionName = ''p'', schemaVersion = ''1'', lock_ttl = 10, keyPrefix = ''ncqrs''\<rparr>"

lemma unlock_ends_prolongation_witness:
  "pc_timers (pc_attempt (redis_requests demo_lock_cfg) 0 (pc_lock (Some ''t'') (new_lock_client []))) = [0]
    \<and> pc_timers (pc_unlock (pc_attempt (redis_requests demo_lock_cfg) 0 (pc_lock (Some ''t'') (new_lock_client [])))) = []"
proof -
  let ?rq = "redis_requests demo_lock_cfg"
  let ?l = "pc_lock (Some ''t'') (new_lock_client [])" and ?R = "\<lambda>d d' :: redis_db. False"
  have "pc_run ?rq ?R UNIV (new_lock_client []) ?l"
    by (rule pc_more [OF pc_none pc_locks]) (simp_all add: pc_silent_def new_lock_client_def)
  moreover have "0 < pc_lockings ?l" by (simp add: pc_lock_def)
  ultimately have run: "pc_run ?rq ?R UNIV (new_lock_client []) (pc_attempt ?rq 0 ?l)" by (rule pc_more [OF _ pc_attempts])
  have s: "pc_timers (pc_attempt ?rq 0 ?l) = [0]" "pc_lockings (pc_attempt ?rq 0 ?l) = 0" "pc_prolongs (pc_attempt ?rq 0 ?l) = []"
    by (simp_all add: pc_attempt_def redis_requests_def redis_lock_attempt_def demo_lock_cfg_def redis_GET_def redis_SET_PX_def
        pc_lock_def new_lock_client_def pc_schedule_def)
  from unlock_ends_prolongation [OF run s(2,3) pc_none] s(1) show ?thesis by simp
qed

section \<open>SQLite: the lock is prolonged once\<close>

definition unsent :: "'d lock_client \<Rightarrow> nat" where
  "unsent s = length (filter (\<lambda>p. p = None) (pc_prolongs s))"

definition prolonged_once :: "'d lock_client \<Rightarrow> bool" where
  "prolonged_once s \<longleftrightarrow> pc_sends s + pc_lockings s + length (pc_timers s) + unsent s \<le> pc_locks s"

lemma prolonged_once_step:
  assumes "pc_step rq R toks s t" "\<not> lr_repeats rq" and inv: "prolonged_once s"
  shows "prolonged_once t"
  using assms(1)
proof cases
  case (pc_attempts now)
  with inv show ?thesis
    by (auto simp: prolonged_once_def unsent_def pc_attempt_def pc_schedule_def split: prod.split sum.split)
next
  case (pc_fires n)
  then obtain m where "length (pc_timers s) = Suc m" by (cases "pc_timers s") auto
  with inv pc_fires show ?thesis by (simp add: prolonged_once_def unsent_def pc_fire_def length_remove1)
next
  case (pc_sends i now)
  then have "unsent (pc_send rq now i s) + 1 = unsent s"
    using filter_without [of i "pc_prolongs s" "\<lambda>p. p = None"] filter_update [of i "pc_prolongs s" "\<lambda>p. p = None"]
    by (simp add: unsent_def pc_send_def split: prod.split)
  with inv pc_sends(1) show ?thesis by (simp add: prolonged_once_def pc_send_def split: prod.splits)
next
  case (pc_answers i)
  then have "unsent t = unsent s" using assms(2) filter_without [of i "pc_prolongs s" "\<lambda>p. p = None"]
    by (simp add: unsent_def pc_answered_def Let_def)
  with inv pc_answers(1) assms(2) show ?thesis by (simp add: prolonged_once_def pc_answered_def Let_def)
next
  case pc_unlocks
  have "length (pc_timers t) \<le> length (pc_timers s)"
    by (simp add: pc_unlocks pc_unlock_def pc_cancel_def length_remove1 split: option.split)
  with inv show ?thesis by (simp add: pc_unlocks prolonged_once_def unsent_def pc_unlock_def pc_cancel_def)
qed (use inv in \<open>simp_all add: prolonged_once_def unsent_def pc_lock_def pc_release_def pc_unlocked_def\<close>)

text \<open>
  The SQLite locker asks for at most one prolongation for each lock, so that a lock that is held for
  longer than one and a half times its time to live has run out; the other two ask again and again.
\<close>

theorem sqlite_prolongs_once:
  "pc_run (sqlite_requests c) R toks (new_lock_client d) s \<Longrightarrow> pc_sends s \<le> pc_locks s"
proof -
  assume "pc_run (sqlite_requests c) R toks (new_lock_client d) s"
  then have "prolonged_once s"
  proof (rule pc_run_keeps)
    show "prolonged_once (new_lock_client d)" by (simp add: prolonged_once_def unsent_def new_lock_client_def)
    show "prolonged_once u" if "pc_step (sqlite_requests c) R toks t u" "prolonged_once t" for t u
      using prolonged_once_step [OF that(1) _ that(2)] by (simp add: sqlite_requests_def)
  qed
  then show ?thesis by (simp add: prolonged_once_def)
qed

section \<open>Redis: a request without a token does nothing\<close>

text \<open>What ends a chain of prolongations that has survived its lock.\<close>

locale token_lock =
  fixes rq :: "'d lease_requests" and ok :: "'d \<Rightarrow> bool"
  assumes prolong_without: "ok d \<Longrightarrow> \<exists>e. lr_prolong rq None now d = (Inl e, d)"
    and release_without: "ok d \<Longrightarrow> lr_release rq None now d = d"
begin

definition ending :: "'d lock_client \<Rightarrow> bool" where
  "ending s \<longleftrightarrow> pc_token s = None \<and> pc_lockings s = 0 \<and> ok (pc_db s)"

definition to_send :: "'d lock_client \<Rightarrow> nat" where
  "to_send s = length (pc_timers s) + length (filter (\<lambda>p. p \<noteq> Some False) (pc_prolongs s))"

lemma ending_step:
  assumes "pc_step rq (\<lambda>d d'. ok d \<longrightarrow> ok d' \<and> R d d') {} s t" and inv: "ending s"
  shows "ending t \<and> pc_sends t + to_send t \<le> pc_sends s + to_send s \<and> (pc_db t = pc_db s \<or> R (pc_db s) (pc_db t))"
  using assms(1)
proof cases
  case (pc_fires n)
  then obtain m where "length (pc_timers s) = Suc m" by (cases "pc_timers s") auto
  with inv pc_fires show ?thesis by (auto simp: ending_def to_send_def pc_fire_def length_remove1)
next
  case (pc_sends i now)
  from inv prolong_without obtain e where "lr_prolong rq (pc_token s) now (pc_db s) = (Inl e, pc_db s)"
    unfolding ending_def by metis
  then have t: "t = s\<lparr>pc_prolongs := (pc_prolongs s)[i := Some False], pc_sends := Suc (pc_sends s)\<rparr>"
    using pc_sends(1) by (simp add: pc_send_def)
  show ?thesis unfolding t using inv pc_sends(2,3)
      filter_without [of i "pc_prolongs s" "\<lambda>p. p \<noteq> Some False"] filter_update [of i "pc_prolongs s" "\<lambda>p. p \<noteq> Some False"]
    by (simp add: ending_def to_send_def)
next
  case (pc_answers i)
  with inv show ?thesis using filter_without [of i "pc_prolongs s" "\<lambda>p. p \<noteq> Some False"]
    by (auto simp: ending_def to_send_def pc_answered_def pc_schedule_def Let_def)
next
  case pc_unlocks
  have "length (pc_timers t) \<le> length (pc_timers s)"
    by (simp add: pc_unlocks pc_unlock_def pc_cancel_def length_remove1 split: option.split)
  with inv show ?thesis by (simp add: pc_unlocks ending_def to_send_def pc_unlock_def pc_cancel_def)
next
  case (pc_releases i now)
  with inv release_without show ?thesis by (simp add: ending_def to_send_def pc_release_def)
qed (use inv in \<open>auto simp: ending_def to_send_def pc_unlocked_def\<close>)

lemma chain_ends:
  assumes "pc_run rq (\<lambda>d d'. ok d \<longrightarrow> ok d' \<and> R d d') {} s t" and "ending s"
  shows "ending t \<and> pc_sends t + to_send t \<le> pc_sends s + to_send s \<and> R\<^sup>*\<^sup>* (pc_db s) (pc_db t)"
  using assms(1)
proof (induction rule: pc_run.induct)
  case (pc_more t u)
  with ending_step [of R t u] show ?case by (fastforce intro: rtranclp.rtrancl_into_rtrancl)
qed (use assms(2) in simp)

end

definition redis_named :: "locker_cfg \<Rightarrow> redis_db \<Rightarrow> bool" where
  "redis_named c d \<longleftrightarrow> (\<forall>v x. map_of d (redis_lock_key c) = Some (v, x) \<longrightarrow> v \<noteq> RText [])"

lemma redis_named_get: "redis_named c d \<Longrightarrow> redis_GET now (redis_lock_key c) d \<noteq> Some (RText [])"
  by (auto simp: redis_named_def redis_GET_def split: option.splits if_splits)

interpretation redis_token: token_lock "redis_requests c" "redis_named c" for c
  by unfold_locales (simp_all add: redis_requests_def redis_prolong_def script_prolong_lock_def script_release_lock_def redis_arg_def
      redis_named_get)

text \<open>
  Once an unlock of the Redis locker is over, whatever prolongations are still under way change nothing:
  the database changes as the others change it, and no more requests are made than timers and calls
  were left.
\<close>

theorem redis_prolongation_ends:
  assumes "pc_run (redis_requests c) (\<lambda>d d'. redis_named c d \<longrightarrow> redis_named c d' \<and> R d d') {} s t"
    and "pc_token s = None" "pc_lockings s = 0" "redis_named c (pc_db s)"
  shows "R\<^sup>*\<^sup>* (pc_db s) (pc_db t) \<and> pc_sends t \<le> pc_sends s + length (pc_timers s) + length (pc_prolongs s)"
proof -
  have "redis_token.ending c s" using assms(2-4) by (simp add: redis_token.ending_def)
  from redis_token.chain_ends [OF assms(1) this] have "R\<^sup>*\<^sup>* (pc_db s) (pc_db t)"
    and "pc_sends t + redis_token.to_send t \<le> pc_sends s + redis_token.to_send s" by auto
  moreover have "redis_token.to_send s \<le> length (pc_timers s) + length (pc_prolongs s)"
    by (simp add: redis_token.to_send_def)
  ultimately show ?thesis by simp
qed

section \<open>MongoDB: a lock that was given back\<close>

text \<open>
  The driver sends the token \<open>undefined\<close> as \<open>null\<close> (told to ignore undefined values, it would not compare
  the token at all): the request matches the document of a lock that was given back. What it takes: \<open>unlock\<close> is called while the request for a
  prolongation is being answered.
\<close>

definition unlock_race :: "locker_cfg \<Rightarrow> string \<Rightarrow> int \<Rightarrow> mongo_db \<Rightarrow> mongo_db lock_client" where
  "unlock_race c tok t db = (let rq = mongo_requests c in
     pc_answered rq 0 (pc_unlocked 0 (pc_release rq t 0 (pc_unlock
       (pc_send rq t 0 (pc_fire 0 (pc_attempt rq t (pc_lock (Some tok) (new_lock_client db)))))))))"

text \<open>The timer fires, its request is made and answered.\<close>

definition prolong_round :: "locker_cfg \<Rightarrow> int \<Rightarrow> mongo_db lock_client \<Rightarrow> mongo_db lock_client" where
  "prolong_round c now s = pc_answered (mongo_requests c) 0 (pc_send (mongo_requests c) now 0 (pc_fire (hd (pc_timers s)) s))"

definition haunted :: "locker_cfg \<Rightarrow> int option \<Rightarrow> mongo_db lock_client \<Rightarrow> bool" where
  "haunted c till s \<longleftrightarrow> \<not> pc_marker s \<and> pc_token s = None \<and> pc_lockings s = 0 \<and> pc_unlocks s = [] \<and> pc_prolongs s = []
     \<and> (\<exists>n. pc_timers s = [n]) \<and> (\<exists>d. map_of (view_docs (pc_db s)) (mongo_view_id c) = Some d \<and> token d = None \<and> lockedTill d = till)"

lemma race_haunted:
  assumes "map_of (view_docs db) (mongo_view_id c) = None"
  shows "haunted c None (unlock_race c tok t db)"
  using assms by (simp add: haunted_def unlock_race_def pc_defs mongo_requests_def new_lock_client_def mongo_lock_attempt_def
      mongo_claim_view_def mongo_insert_view_def map_has_def redis_arg_def mongo_prolong_def mongo_with_token_def mongo_release_def
      without_def)

lemma race_run:
  assumes "map_of (view_docs db) (mongo_view_id c) = None"
  shows "pc_run (mongo_requests c) R {Some tok} (new_lock_client db) (unlock_race c tok t db)"
proof -
  let ?rq = "mongo_requests c"
  define s0 where "s0 = pc_lock (Some tok) (new_lock_client db)"
  define s1 where "s1 = pc_attempt ?rq t s0"
  define s2 where "s2 = pc_fire 0 s1"
  define s3 where "s3 = pc_send ?rq t 0 s2"
  define s4 where "s4 = pc_unlock s3"
  define s5 where "s5 = pc_release ?rq t 0 s4"
  define s6 where "s6 = pc_unlocked 0 s5"
  note d = s6_def s5_def s4_def s3_def s2_def s1_def s0_def pc_defs new_lock_client_def mongo_requests_def mongo_lock_attempt_def
    mongo_claim_view_def mongo_insert_view_def map_has_def redis_arg_def mongo_prolong_def mongo_with_token_def without_def
  let ?run = "pc_run ?rq R {Some tok} (new_lock_client db)"
  have "?run s0" unfolding s0_def by (rule pc_more [OF pc_none pc_locks]) (simp_all add: pc_silent_def new_lock_client_def)
  then have "?run s1" unfolding s1_def by (rule pc_more [OF _ pc_attempts]) (simp add: d)
  then have "?run s2" unfolding s2_def by (rule pc_more [OF _ pc_fires]) (simp add: d assms)
  then have "?run s3" unfolding s3_def by (rule pc_more [OF _ pc_sends]) (simp_all add: d assms)
  then have "?run s4" unfolding s4_def by (rule pc_more [OF _ pc_unlocks])
  then have "?run s5" unfolding s5_def by (rule pc_more [OF _ pc_releases]) (simp_all add: d assms)
  then have "?run s6" unfolding s6_def by (rule pc_more [OF _ pc_unlocks_done]) (simp_all add: d assms)
  then have "?run (pc_answered ?rq 0 s6)" by (rule pc_more [OF _ pc_answers]) (simp_all add: d assms)
  then show ?thesis by (simp add: unlock_race_def s6_def s5_def s4_def s3_def s2_def s1_def s0_def Let_def)
qed

lemma haunted_round:
  assumes "haunted c till s"
  shows "haunted c (Some (now + lock_ttl c)) (prolong_round c now s)"
  using assms by (auto simp: haunted_def prolong_round_def pc_defs mongo_requests_def mongo_prolong_def mongo_with_token_def without_def)

lemma round_run:
  assumes "haunted c till s"
  shows "pc_run (mongo_requests c) R toks s (prolong_round c now s)"
proof -
  let ?rq = "mongo_requests c"
  from assms obtain n where n: "pc_timers s = [n]" "pc_prolongs s = []" by (auto simp: haunted_def)
  have "pc_run ?rq R toks s (pc_fire n s)" by (rule pc_more [OF pc_none pc_fires]) (simp add: n)
  then have "pc_run ?rq R toks s (pc_send ?rq now 0 (pc_fire n s))"
    by (rule pc_more [OF _ pc_sends]) (simp_all add: pc_fire_def n)
  then have "pc_run ?rq R toks s (pc_answered ?rq 0 (pc_send ?rq now 0 (pc_fire n s)))"
    by (rule pc_more [OF _ pc_answers]) (simp_all add: pc_fire_def pc_send_def n split: prod.split)
  then show ?thesis by (simp add: prolong_round_def n)
qed

lemma haunted_refuses:
  assumes "haunted c (Some till) s" "now \<le> till"
  shows "mongo_lock_attempt c (\<lambda>db. db) tok now (pc_db s) = (Inr False, pc_db s)"
  using assms by (auto simp: haunted_def mongo_lock_attempt_def mongo_claim_view_def mongo_insert_view_def map_has_def)

text \<open>The timer goes on firing, every half time to live from \<open>t\<close>.\<close>

definition haunting :: "locker_cfg \<Rightarrow> int \<Rightarrow> nat \<Rightarrow> mongo_db lock_client \<Rightarrow> mongo_db lock_client" where
  "haunting c t n s = fold (\<lambda>k. prolong_round c (t + int k * (lock_ttl c div 2))) [0..<n] s"

lemma haunting_Suc: "haunting c t (Suc n) s = prolong_round c (t + int n * (lock_ttl c div 2)) (haunting c t n s)"
  by (simp add: haunting_def)

lemma haunting_haunted:
  assumes "haunted c None s"
  shows "haunted c (if n = 0 then None else Some (t + int (n - 1) * (lock_ttl c div 2) + lock_ttl c)) (haunting c t n s)"
proof (induction n)
  case (Suc n)
  from haunted_round [OF this] show ?case by (simp add: haunting_Suc)
qed (use assms in \<open>simp add: haunting_def\<close>)

lemma pc_run_trans: "pc_run rq R toks t u \<Longrightarrow> pc_run rq R toks s t \<Longrightarrow> pc_run rq R toks s u"
  by (induction rule: pc_run.induct) (auto intro: pc_more)

lemma haunting_run:
  assumes "haunted c None s"
  shows "pc_run (mongo_requests c) R toks s (haunting c t n s)"
proof (induction n)
  case 0
  show ?case unfolding haunting_def by (simp add: pc_none)
next
  case (Suc n)
  from pc_run_trans [OF round_run [OF haunting_haunted [OF assms]] this] show ?case by (simp add: haunting_Suc)
qed

text \<open>
  C33: a MongoDB view lock can stay locked for ever after it was given back. When \<open>unlock\<close> is called
  while a prolongation is being answered, the answer schedules another one, whose request without a
  token matches the free document and locks it; so does the next, every half time to live. The view
  is ready in its own process, and every attempt of any other process to lock it is refused.
\<close>

theorem unlocked_view_stays_locked:
  assumes "map_of (view_docs db) (mongo_view_id c) = None" "0 \<le> lock_ttl c"
  shows "pc_run (mongo_requests c) R {Some tok} (new_lock_client db) (haunting c t n (unlock_race c tok t0 db))
    \<and> \<not> pc_marker (haunting c t n (unlock_race c tok t0 db)) \<and> pc_unlocks (haunting c t n (unlock_race c tok t0 db)) = []
    \<and> (0 < n \<longrightarrow> now \<le> t + int n * (lock_ttl c div 2) \<longrightarrow>
        mongo_lock_attempt c (\<lambda>d. d) tok' now (pc_db (haunting c t n (unlock_race c tok t0 db)))
          = (Inr False, pc_db (haunting c t n (unlock_race c tok t0 db))))"
proof -
  note r = race_haunted [OF assms(1), of tok t0]
  have run: "pc_run (mongo_requests c) R {Some tok} (new_lock_client db) (haunting c t n (unlock_race c tok t0 db))"
    by (rule pc_run_trans [OF haunting_run [OF r] race_run [OF assms(1)]])
  note h = haunting_haunted [OF r, of n t]
  have "mongo_lock_attempt c (\<lambda>d. d) tok' now (pc_db (haunting c t n (unlock_race c tok t0 db)))
      = (Inr False, pc_db (haunting c t n (unlock_race c tok t0 db)))"
    if "0 < n" "now \<le> t + int n * (lock_ttl c div 2)"
  proof (rule haunted_refuses)
    show "haunted c (Some (t + int (n - 1) * (lock_ttl c div 2) + lock_ttl c)) (haunting c t n (unlock_race c tok t0 db))"
      using h that(1) by simp
    have "int n * (lock_ttl c div 2) = int (n - 1) * (lock_ttl c div 2) + lock_ttl c div 2"
      using that(1) by (simp add: of_nat_diff algebra_simps)
    moreover have "lock_ttl c div 2 \<le> lock_ttl c" using assms(2) by linarith
    ultimately show "now \<le> t + int (n - 1) * (lock_ttl c div 2) + lock_ttl c" using that(2) by linarith
  qed
  with run h show ?thesis by (auto simp: haunted_def)
qed

text \<open>The lock was given back at time 5; at time 105 another process still cannot get it.\<close>

lemma unlocked_view_stays_locked_witness:
  "mongo_lock_attempt demo_lock_cfg (\<lambda>d. d) ''other'' 105
     (pc_db (haunting demo_lock_cfg 10 20 (unlock_race demo_lock_cfg ''t'' 5 \<lparr>event_docs = [], view_docs = []\<rparr>)))
   = (Inr False, pc_db (haunting demo_lock_cfg 10 20 (unlock_race demo_lock_cfg ''t'' 5 \<lparr>event_docs = [], view_docs = []\<rparr>)))"
proof -
  have "map_of (view_docs \<lparr>event_docs = [], view_docs = []\<rparr>) (mongo_view_id demo_lock_cfg) = None" "0 \<le> lock_ttl demo_lock_cfg"
    by (simp_all add: demo_lock_cfg_def)
  from unlocked_view_stays_locked [OF this, of "\<lambda>d d'. False" "''t''" 10 20 5 105 "''other''"]
  show ?thesis by (simp add: demo_lock_cfg_def)
qed

end
