(* ===== verification/EventStorage.thy ===== *)
theory EventStorage
  imports Messages
begin

text \<open>
  The in-memory event storage (\<open>src/in-memory/InMemoryEventStorage.ts\<close>): an append-only list of
  events with optimistic concurrency on \<open>(aggregateId, aggregateVersion)\<close>, and the three ways of
  reading it. Each method's body runs in one turn of the event loop between its \<open>nextCycle\<close>
  awaits, so a check and the append after it are one step of the model. What clients of any
  event storage rely on is the locale \<open>event_log\<close>.
\<close>

section \<open>State and commit\<close>

record mem_storage =
  nextId :: nat
  events :: "event list"

definition new_mem_storage :: mem_storage where
  "new_mem_storage = \<lparr>nextId = 0, events = []\<rparr>"

definition getNewId :: "mem_storage \<Rightarrow> string \<times> mem_storage" where
  "getNewId s = (let s' = s\<lparr>nextId := nextId s + 1\<rparr> in (show_nat (nextId s'), s'))"

definition duplicate_error :: "ident \<Rightarrow> int \<Rightarrow> js_error" where
  "duplicate_error a v = ConcurrencyError
     (''Duplicate aggregateVersion '' @ show_int v @ '' for aggregate '' @ String_of a)"

text \<open>The loop that looks for a conflict of the batch with the stored events.\<close>

primrec check_conflicts :: "event list \<Rightarrow> event list \<Rightarrow> unit result" where
  "check_conflicts stored [] = Inr ()"
| "check_conflicts stored (ev # evs) =
     (case version_key ev of
        None \<Rightarrow> check_conflicts stored evs
      | Some (a, v) \<Rightarrow>
          (case find (\<lambda>e. aggregateId e = aggregateId ev \<and> aggregateVersion e = aggregateVersion ev) stored of
             Some conflict \<Rightarrow> Inl (duplicate_error a v)
           | None \<Rightarrow> check_conflicts stored evs))"

definition commitEvents :: "event list \<Rightarrow> bool \<Rightarrow> (mem_storage, event list) act" where
  "commitEvents evs ignoreConc s =
     (case (if ignoreConc then Inr () else check_conflicts (events s) evs) of
        Inl e \<Rightarrow> (Inl e, s)
      | Inr _ \<Rightarrow> (Inr evs, s\<lparr>events := events s @ evs\<rparr>))"

section \<open>Reading\<close>

definition after_snapshot :: "ident \<Rightarrow> event option \<Rightarrow> event list \<Rightarrow> (nat \<times> event) list" where
  "after_snapshot aid snap evs =
     (let afterVersion = Option.bind snap aggregateVersion
      in case afterVersion of
           Some v \<Rightarrow> if v = 0
             then filter (\<lambda>(i, e). aggregateId e = Some aid) (enumerate 0 evs)
             else filter (\<lambda>(i, e). aggregateId e = Some aid
                \<and> (case aggregateVersion e of None \<Rightarrow> False | Some w \<Rightarrow> w > v)) (enumerate 0 evs)
         | None \<Rightarrow> filter (\<lambda>(i, e). aggregateId e = Some aid) (enumerate 0 evs))"

text \<open>
  The yielded sequence. Stored objects are told apart by their place in the list; the tail
  event is yielded again unless it is the last one yielded already.
\<close>

definition getAggregateEvents :: "ident \<Rightarrow> aggregate_query \<Rightarrow> mem_storage \<Rightarrow> event list" where
  "getAggregateEvents aid q s =
     (let allAfterSnapshot = after_snapshot aid (q_snapshot q) (events s);
          results = (case q_eventTypes q of None \<Rightarrow> allAfterSnapshot
            | Some ts \<Rightarrow> filter (\<lambda>(i, e). msg_type e \<in> set ts) allAfterSnapshot)
      in map snd results @
         (if tail_last q \<and> allAfterSnapshot \<noteq> [] \<and>
             \<not> (results \<noteq> [] \<and> fst (last results) = fst (last allAfterSnapshot))
          then [snd (last allAfterSnapshot)] else []))"

fun findIndex :: "('a \<Rightarrow> bool) \<Rightarrow> 'a list \<Rightarrow> nat option" where
  "findIndex P [] = None"
| "findIndex P (x # xs) = (if P x then Some 0 else map_option Suc (findIndex P xs))"

definition getSagaEvents :: "ident \<Rightarrow> event \<Rightarrow> mem_storage \<Rightarrow> event list result" where
  "getSagaEvents sagaId beforeEvent s =
     res_bind (assert_id_string (event_id beforeEvent) ''beforeEvent.id'') (\<lambda>_.
     res_bind (parseSagaId sagaId) (\<lambda>(sagaDescriptor, originEventId).
       if saga_origin beforeEvent sagaDescriptor \<noteq> Some originEventId
       then Inl (TypeError ''beforeEvent.sagaOrigins does not match sagaId'')
       else (case findIndex (\<lambda>e. event_id e = Some (IdStr originEventId)) (events s) of
           None \<Rightarrow> Inl (GenericError (''origin event '' @ originEventId @ '' not found''))
         | Some originOffset \<Rightarrow>
           (case findIndex (\<lambda>e. event_id e = event_id beforeEvent) (events s) of
              None \<Rightarrow> Inl (GenericError (''beforeEvent '' @
                (case event_id beforeEvent of None \<Rightarrow> [] | Some i \<Rightarrow> String_of i) @ '' not found''))
            | Some beforeEventOffset \<Rightarrow>
                Inr (filter (\<lambda>e. saga_origin e sagaDescriptor = Some originEventId)
                  (take (beforeEventOffset - originOffset) (drop originOffset (events s))))))))"

fun scan_after :: "ident option \<Rightarrow> string list \<Rightarrow> bool \<Rightarrow> event list \<Rightarrow> event list" where
  "scan_after lastId ts offsetFound [] = []"
| "scan_after lastId ts offsetFound (e # es) =
     (if \<not> offsetFound then scan_after lastId ts (event_id e = lastId) es
      else if msg_type e \<in> set ts then e # scan_after lastId ts True es
      else scan_after lastId ts True es)"

definition getEventsByTypes :: "string list \<Rightarrow> event option \<Rightarrow> mem_storage \<Rightarrow> event list result" where
  "getEventsByTypes eventTypes afterEvent s =
     (let lastEventId = Option.bind afterEvent event_id
      in res_bind (case afterEvent of None \<Rightarrow> Inr []
           | Some ev \<Rightarrow> assert_id_string (event_id ev) ''options.afterEvent.id'') (\<lambda>_.
         Inr (scan_after lastEventId eventTypes (\<not> opt_id_truthy lastEventId) (events s))))"

section \<open>The storage in the dispatch pipeline\<close>

primrec batch_events :: "batch \<Rightarrow> event list result" where
  "batch_events [] = Inr []"
| "batch_events (b # bs) = (case env_event b of
       None \<Rightarrow> Inl (GenericError (''Event batch does not contain `event`''))
     | Some e \<Rightarrow> res_bind (batch_events bs) (\<lambda>es. Inr (e # es)))"

definition storage_process :: "batch \<Rightarrow> (mem_storage, batch) act" where
  "storage_process bt s = (case batch_events bt of
       Inl e \<Rightarrow> (Inl e, s)
     | Inr evs \<Rightarrow> act_bind (commitEvents evs (case bt of [] \<Rightarrow> False | b # _ \<Rightarrow> ignoreConcurrencyError b))
         (\<lambda>_. act_return bt) s)"

section \<open>Facts about commits\<close>

lemma find_conflict:
  assumes "version_key e = Some k"
  shows "find (\<lambda>x. aggregateId x = aggregateId e \<and> aggregateVersion x = aggregateVersion e) stored = None
    \<longleftrightarrow> k \<notin> set (version_keys stored)"
  using assms by (cases k) (auto simp: find_None_iff set_version_keys version_key_iff)

lemma check_conflicts_ok:
  "check_conflicts stored evs = Inr () \<longleftrightarrow> set (version_keys stored) \<inter> set (version_keys evs) = {}"
proof (induction evs)
  case (Cons e evs)
  show ?case
  proof (cases "version_key e")
    case None
    with Cons show ?thesis by simp
  next
    case (Some k)
    have "check_conflicts stored (e # evs) = Inr () \<longleftrightarrow>
        k \<notin> set (version_keys stored) \<and> check_conflicts stored evs = Inr ()"
      unfolding find_conflict [OF Some, symmetric] using Some
      by (simp split: option.splits prod.splits)
    with Cons Some show ?thesis by auto
  qed
qed simp

lemma check_conflicts_Inl: "check_conflicts stored evs = Inl e \<Longrightarrow> is_concurrency_error e"
  by (induction evs) (auto simp: duplicate_error_def split: option.splits)

lemma commitEvents_ok:
  "commitEvents evs ig s = (Inr r, s') \<longleftrightarrow>
     (\<not> ig \<longrightarrow> set (version_keys (events s)) \<inter> set (version_keys evs) = {})
     \<and> r = evs \<and> s' = s\<lparr>events := events s @ evs\<rparr>"
  using check_conflicts_ok [of "events s" evs]
  by (auto simp: commitEvents_def split: sum.splits)

lemma commitEvents_Inl:
  "commitEvents evs ig s = (Inl e, s') \<Longrightarrow> s' = s \<and> is_concurrency_error e \<and> \<not> ig"
  by (auto simp: commitEvents_def dest: check_conflicts_Inl split: sum.splits if_splits)

lemma commitEvents_conflict:
  assumes "set (version_keys (events s)) \<inter> set (version_keys evs) \<noteq> {}"
  shows "\<exists>e. commitEvents evs False s = (Inl e, s) \<and> is_concurrency_error e"
proof (cases "commitEvents evs False s")
  case (Pair r t)
  with assms commitEvents_ok [of evs False s] commitEvents_Inl [of evs False s] show ?thesis
    by (cases r) auto
qed

lemma getNewId_fresh:
  "getNewId s = (i, s') \<Longrightarrow> getNewId t = (i, t') \<Longrightarrow> nextId t = nextId s"
  by (auto simp: getNewId_def Let_def dest: show_nat_inject)

section \<open>Event logs\<close>

text \<open>A run of commits, whatever their outcome.\<close>

primrec commit_run ::
  "(event list \<Rightarrow> bool \<Rightarrow> ('s, event list) act) \<Rightarrow> (event list \<times> bool) list \<Rightarrow> 's \<Rightarrow> 's" where
  "commit_run commit [] s = s"
| "commit_run commit (c # cs) s = commit_run commit cs (snd (commit (fst c) (snd c) s))"

text \<open>
  What the writers of events rely on. A storage knows an aggregate by a key of its id, \<open>key_of\<close>, and
  holds the keys with the versions stored for them, in the order of the commits; \<open>valid\<close> are the
  ids it can store. A commit appends the versions of its whole batch or none; a checked commit
  succeeds only on versions that are free.
\<close>

definition keyed :: "(ident \<Rightarrow> 'k) \<Rightarrow> event list \<Rightarrow> ('k \<times> int) list" where
  "keyed key_of es = map (\<lambda>(i, v). (key_of i, v)) (version_keys es)"

definition fits :: "(ident \<Rightarrow> bool) \<Rightarrow> event list \<Rightarrow> bool" where
  "fits valid es \<longleftrightarrow> (\<forall>e \<in> set es. \<forall>i. aggregateId e = Some i \<longrightarrow> valid i)"

lemma keyed_same [simp]: "keyed (\<lambda>i. i) es = version_keys es"
  by (simp add: keyed_def)

lemma keyed_simps [simp]:
  "keyed f [] = []"
  "keyed f (e # es) = (case version_key e of None \<Rightarrow> keyed f es | Some (i, v) \<Rightarrow> (f i, v) # keyed f es)"
  "keyed f (es @ fs) = keyed f es @ keyed f fs"
  by (auto simp: keyed_def split: option.split)

lemma fits_simps [simp]:
  "fits valid []"
  "fits valid (e # es) \<longleftrightarrow> (\<forall>i. aggregateId e = Some i \<longrightarrow> valid i) \<and> fits valid es"
  "fits (\<lambda>_. True) es"
  by (auto simp: fits_def)

locale event_log =
  fixes commit :: "event list \<Rightarrow> bool \<Rightarrow> ('s, event list) act"
    and stored :: "'s \<Rightarrow> ('k \<times> int) list"
    and key_of :: "ident \<Rightarrow> 'k"
    and valid :: "ident \<Rightarrow> bool"
  assumes commit_appends: "fits valid es \<Longrightarrow> commit es ig s = (Inr r, s') \<Longrightarrow> stored s' = stored s @ keyed key_of es"
    and commit_fails: "commit es ig s = (Inl e, s') \<Longrightarrow> stored s' = stored s"
    and commit_guarded: "fits valid es \<Longrightarrow> commit es False s = (Inr r, s') \<Longrightarrow>
        set (stored s) \<inter> set (keyed key_of es) = {}"
begin

lemma log_grows: "\<forall>c \<in> set cs. fits valid (fst c) \<Longrightarrow> \<exists>ks. stored (commit_run commit cs s) = stored s @ ks"
proof (induction cs arbitrary: s)
  case (Cons c cs)
  obtain r s' where c: "commit (fst c) (snd c) s = (r, s')" by (cases "commit (fst c) (snd c) s")
  then have "\<exists>ks. stored s' = stored s @ ks"
    using Cons.prems by (cases r) (auto dest: commit_appends commit_fails)
  with Cons.IH [of s'] Cons.prems c show ?case by auto
qed simp

text \<open>Of two batches that claim the same version of an aggregate, the later one is refused.\<close>

lemma one_winner:
  assumes "commit es ig s = (Inr r, s1)" and "s2 = commit_run commit cs s1"
    and "fits valid es" "fits valid fs" "\<forall>c \<in> set cs. fits valid (fst c)"
    and "k \<in> set (keyed key_of es)" and "k \<in> set (keyed key_of fs)"
  shows "\<exists>e s3. commit fs False s2 = (Inl e, s3) \<and> stored s3 = stored s2"
proof -
  from log_grows [OF assms(5), of s1] obtain ks where "stored s2 = stored s @ keyed key_of es @ ks"
    using commit_appends [OF assms(3,1)] assms(2) by auto
  then have clash: "set (stored s2) \<inter> set (keyed key_of fs) \<noteq> {}" using assms(6,7) by auto
  obtain r' s3 where c: "commit fs False s2 = (r', s3)" by (cases "commit fs False s2")
  show ?thesis
  proof (cases r')
    case (Inl e)
    with c commit_fails show ?thesis by blast
  next
    case (Inr x)
    with c clash commit_guarded [OF assms(4)] show ?thesis by blast
  qed
qed

text \<open>The versions of the log stay distinct under checked commits of batches that are distinct.\<close>

lemma versions_stay_distinct:
  "distinct (stored s) \<Longrightarrow> \<forall>(es, ig) \<in> set cs. \<not> ig \<and> fits valid es \<and> distinct (keyed key_of es) \<Longrightarrow>
     distinct (stored (commit_run commit cs s))"
proof (induction cs arbitrary: s)
  case (Cons c cs)
  obtain es where c: "c = (es, False)" and d: "fits valid es" "distinct (keyed key_of es)"
    using Cons.prems(2) by (cases c) auto
  obtain r s' where step: "commit es False s = (r, s')" by (cases "commit es False s")
  have "distinct (stored s')"
  proof (cases r)
    case (Inl e)
    with step Cons.prems(1) show ?thesis by (auto dest: commit_fails)
  next
    case (Inr x)
    with step commit_appends [OF d(1)] commit_guarded [OF d(1)] Cons.prems(1) d(2) show ?thesis by fastforce
  qed
  with Cons c step show ?case by simp
qed simp

end

text \<open>A log whose only reason to refuse is a conflict.\<close>

locale strict_event_log = event_log +
  assumes commit_refuses: "commit es False s = (Inl e, s') \<Longrightarrow> is_concurrency_error e"
begin

lemma one_winner_conflict:
  assumes "commit es ig s = (Inr r, s1)" and "s2 = commit_run commit cs s1"
    and "fits valid es" "fits valid fs" "\<forall>c \<in> set cs. fits valid (fst c)"
    and "k \<in> set (keyed key_of es)" and "k \<in> set (keyed key_of fs)"
  shows "\<exists>e s3. commit fs False s2 = (Inl e, s3) \<and> is_concurrency_error e \<and> stored s3 = stored s2"
  using one_winner [OF assms] commit_refuses by blast

end

interpretation mem: strict_event_log commitEvents "\<lambda>s. version_keys (events s)" "\<lambda>i. i" "\<lambda>_. True"
proof
  fix es ig s r s' e
  show "commitEvents es ig s = (Inr r, s') \<Longrightarrow> version_keys (events s') = version_keys (events s) @ keyed (\<lambda>i. i) es"
    by (auto simp: commitEvents_ok)
  show "commitEvents es ig s = (Inl e, s') \<Longrightarrow> version_keys (events s') = version_keys (events s)"
    by (drule commitEvents_Inl) simp
  show "commitEvents es False s = (Inr r, s') \<Longrightarrow>
      set (version_keys (events s)) \<inter> set (keyed (\<lambda>i. i) es) = {}"
    by (simp add: commitEvents_ok)
  show "commitEvents es False s = (Inl e, s') \<Longrightarrow> is_concurrency_error e"
    using commitEvents_Inl by blast
qed

section \<open>What reading returns\<close>

text \<open>The specification: a plain filter of the log, with the last event of the aggregate appended.\<close>

definition newer_than :: "event option \<Rightarrow> event \<Rightarrow> bool" where
  "newer_than snap e = (case Option.bind snap aggregateVersion of
       None \<Rightarrow> True
     | Some v \<Rightarrow> v = 0 \<or> (\<exists>w. aggregateVersion e = Some w \<and> v < w))"

definition of_types :: "string list option \<Rightarrow> event \<Rightarrow> bool" where
  "of_types ts e = (case ts of None \<Rightarrow> True | Some l \<Rightarrow> msg_type e \<in> set l)"

definition aggregate_stream :: "ident \<Rightarrow> aggregate_query \<Rightarrow> event list \<Rightarrow> event list" where
  "aggregate_stream aid q log =
     (let own = filter (\<lambda>e. aggregateId e = Some aid \<and> newer_than (q_snapshot q) e) log
      in filter (of_types (q_eventTypes q)) own @
         (if tail_last q \<and> own \<noteq> [] \<and> \<not> of_types (q_eventTypes q) (last own) then [last own] else []))"

lemma after_snapshot_eq:
  "after_snapshot aid snap evs =
     filter (\<lambda>(i, e). aggregateId e = Some aid \<and> newer_than snap e) (enumerate 0 evs)"
  by (auto simp: after_snapshot_def newer_than_def Let_def split: option.splits intro!: filter_cong)

lemma map_snd_filter_enumerate:
  "map snd (filter (\<lambda>(i, e). P e) (enumerate n xs)) = filter P xs"
  by (induction xs arbitrary: n) auto

lemma last_filter_indexed:
  assumes "distinct (map fst xs)" and "xs \<noteq> []"
  shows "filter P xs \<noteq> [] \<and> fst (last (filter P xs)) = fst (last xs) \<longleftrightarrow> P (last xs)"
proof -
  obtain ys y where xs: "xs = ys @ [y]" using assms(2) by (cases xs rule: rev_cases) auto
  show ?thesis
  proof (cases "P y")
    case False
    have "filter P ys \<noteq> [] \<Longrightarrow> fst (last (filter P ys)) \<in> fst ` set ys"
      using last_in_set [of "filter P ys"] by auto
    with False assms(1) xs show ?thesis by auto
  qed (simp add: xs)
qed

lemma getAggregateEvents_eq:
  "getAggregateEvents aid q s = aggregate_stream aid q (events s)"
proof -
  define own where "own = after_snapshot aid (q_snapshot q) (events s)"
  define F where "F = (\<lambda>(i :: nat, e). of_types (q_eventTypes q) e)"
  have results: "(case q_eventTypes q of None \<Rightarrow> own | Some ts \<Rightarrow> filter (\<lambda>(i, e). msg_type e \<in> set ts) own)
      = filter F own"
    by (simp add: F_def of_types_def split: option.splits)
  have snd_own: "map snd own = filter (\<lambda>e. aggregateId e = Some aid \<and> newer_than (q_snapshot q) e) (events s)"
    unfolding own_def after_snapshot_eq by (rule map_snd_filter_enumerate)
  have snd_F: "map snd (filter F own) = filter (of_types (q_eventTypes q)) (map snd own)"
    by (induction own) (auto simp: F_def)
  have "distinct (map fst own)"
    unfolding own_def after_snapshot_eq by (rule distinct_map_filter) simp
  note idx = last_filter_indexed [OF this, of F]
  show ?thesis
  proof (cases "own = []")
    case True
    then show ?thesis
      unfolding getAggregateEvents_def aggregate_stream_def own_def [symmetric] Let_def
        snd_own [symmetric] by (simp split: option.splits)
  next
    case False
    then have "F (last own) = of_types (q_eventTypes q) (last (map snd own))"
      by (simp add: F_def last_map split: prod.splits)
    with idx [OF False] False
    have again: "filter F own \<noteq> [] \<and> fst (last (filter F own)) = fst (last own) \<longleftrightarrow>
        of_types (q_eventTypes q) (last (map snd own))" by blast
    show ?thesis
      unfolding getAggregateEvents_def aggregate_stream_def own_def [symmetric] Let_def results
        snd_F snd_own [symmetric] again using False by (simp add: last_map)
  qed
qed

text \<open>With unique ids, the events after one are those behind it in the log.\<close>

lemma scan_found: "scan_after i ts True es = filter (\<lambda>e. msg_type e \<in> set ts) es"
  by (induction es) auto

lemma scan_after_split:
  "i \<notin> set (map event_id pre) \<Longrightarrow> event_id e = i \<Longrightarrow>
     scan_after i ts False (pre @ e # post) = filter (\<lambda>e. msg_type e \<in> set ts) post"
  by (induction pre) (auto simp: scan_found)

lemma scan_after_absent: "i \<notin> set (map event_id es) \<Longrightarrow> scan_after i ts False es = []"
  by (induction es) auto

lemma getEventsByTypes_all:
  "getEventsByTypes ts None s = Inr (filter (\<lambda>e. msg_type e \<in> set ts) (events s))"
  by (simp add: getEventsByTypes_def opt_id_truthy_def scan_found)

lemma getEventsByTypes_after:
  assumes "events s = pre @ e # post" and "event_id e = Some (IdStr i)" and "i \<noteq> []"
    and "Some (IdStr i) \<notin> set (map event_id pre)" and "event_id last_seen = Some (IdStr i)"
  shows "getEventsByTypes ts (Some last_seen) s = Inr (filter (\<lambda>e. msg_type e \<in> set ts) post)"
  using assms scan_after_split [of "Some (IdStr i)" pre e ts post]
  by (simp add: getEventsByTypes_def opt_id_truthy_def assert_id_string_def)

section \<open>The events of a saga\<close>

lemma findIndex_Some:
  "findIndex P xs = Some n \<Longrightarrow> n < length xs \<and> P (xs ! n) \<and> (\<forall>m < n. \<not> P (xs ! m))"
proof (induction xs arbitrary: n)
  case (Cons x xs)
  show ?case
  proof (cases "P x")
    case True
    with Cons.prems show ?thesis by auto
  next
    case False
    with Cons.prems obtain k where "n = Suc k" "findIndex P xs = Some k" by auto
    with Cons.IH [of k] False show ?thesis by (auto simp: less_Suc_eq_0_disj)
  qed
qed simp

lemma findIndex_append:
  "findIndex P (pre @ x # post) = Some (length pre) \<longleftrightarrow> (\<forall>y \<in> set pre. \<not> P y) \<and> P x"
  by (induction pre) auto

lemma batch_events_ok:
  "batch_events bt = Inr evs \<longleftrightarrow> map env_event bt = map Some evs"
  by (induction bt arbitrary: evs) (auto split: option.splits)

definition batch_ignores :: "batch \<Rightarrow> bool" where
  "batch_ignores bt = (case bt of [] \<Rightarrow> False | b # _ \<Rightarrow> ignoreConcurrencyError b)"

lemma storage_process_eq:
  "storage_process bt s = (case batch_events bt of Inl e \<Rightarrow> (Inl e, s)
     | Inr evs \<Rightarrow> (case commitEvents evs (batch_ignores bt) s of
         (Inl e, t) \<Rightarrow> (Inl e, t) | (Inr _, t) \<Rightarrow> (Inr bt, t)))"
  by (simp add: storage_process_def act_bind_def act_return_def batch_ignores_def split: sum.split)

lemma storage_process_Inr:
  "storage_process bt s = (Inr bt', s') \<longleftrightarrow> bt' = bt \<and> (\<exists>evs. batch_events bt = Inr evs \<and>
     commitEvents evs (batch_ignores bt) s = (Inr evs, s'))"
proof (cases "batch_events bt")
  case (Inr evs)
  obtain r t where c: "commitEvents evs (batch_ignores bt) s = (r, t)"
    by (cases "commitEvents evs (batch_ignores bt) s")
  have "r = Inr x \<Longrightarrow> x = evs" for x using c commitEvents_ok by blast
  with c Inr show ?thesis by (cases r) (auto simp: storage_process_eq)
qed (simp add: storage_process_eq)

lemma storage_process_Inl:
  assumes "storage_process bt s = (Inl e, s')"
  shows "s' = s"
proof (cases "batch_events bt")
  case (Inr evs)
  obtain r t where c: "commitEvents evs (batch_ignores bt) s = (r, t)"
    by (cases "commitEvents evs (batch_ignores bt) s")
  with Inr assms have "r = Inl e" "t = s'" by (auto simp: storage_process_eq split: sum.splits)
  with c commitEvents_Inl show ?thesis by blast
qed (use assms in \<open>simp add: storage_process_eq\<close>)

text \<open>
  The events of a saga before one of its events, in a log where event ids are not repeated: from
  the origin event on, up to but without that event, those that carry the saga's origin.
\<close>

theorem getSagaEvents_between:
  assumes "parseSagaId sid = Inr (d, oid)" and "saga_origin b d = Some oid"
    and "event_id b = Some (IdStr i)" and "i \<noteq> []"
    and log: "events s = pre @ org # mid @ b' # post" and ids: "distinct (map event_id (events s))"
    and "event_id org = Some (IdStr oid)" and "event_id b' = Some (IdStr i)"
  shows "getSagaEvents sid b s = Inr (filter (\<lambda>e. saga_origin e d = Some oid) (org # mid))"
proof -
  have d: "distinct (map event_id (pre @ org # mid @ b' # post))" using ids log by metis
  then have "event_id org \<notin> event_id ` set pre" by simp
  then have o1: "findIndex (\<lambda>e. event_id e = Some (IdStr oid)) (events s) = Some (length pre)"
    unfolding log findIndex_append using assms(7) by (metis imageI)
  have "event_id b' \<notin> event_id ` set (pre @ org # mid)" using d by auto
  then have "findIndex (\<lambda>e. event_id e = Some (IdStr i)) ((pre @ org # mid) @ b' # post)
      = Some (length (pre @ org # mid))"
    unfolding findIndex_append using assms(8) by (metis imageI)
  then have o2: "findIndex (\<lambda>e. event_id e = Some (IdStr i)) (events s) = Some (length pre + Suc (length mid))"
    by (simp add: log)
  show ?thesis
    using assms(1-4) o1 o2 by (simp add: getSagaEvents_def assert_id_string_def) (simp add: log)
qed

lemma getSagaEvents_between_witness:
  "getSagaEvents (IdStr ''S:e1'') ((demo_event ''T'' ''b'' 0 ''e3'')\<lparr>sagaOrigins := Some [(''S'', ''e1'')]\<rparr>)
     (new_mem_storage\<lparr>events := [demo_event ''T'' ''x'' 0 ''e0'', (demo_event ''T'' ''a'' 0 ''e1'')\<lparr>sagaOrigins := Some [(''S'', ''e1'')]\<rparr>,
        demo_event ''T'' ''x'' 1 ''e2'', (demo_event ''T'' ''b'' 0 ''e3'')\<lparr>sagaOrigins := Some [(''S'', ''e1'')]\<rparr>]\<rparr>)
   = Inr [(demo_event ''T'' ''a'' 0 ''e1'')\<lparr>sagaOrigins := Some [(''S'', ''e1'')]\<rparr>]"
  using getSagaEvents_between [of "IdStr ''S:e1''" "''S''" "''e1''" "(demo_event ''T'' ''b'' 0 ''e3'')\<lparr>sagaOrigins := Some [(''S'', ''e1'')]\<rparr>"
      "''e3''" "new_mem_storage\<lparr>events := [demo_event ''T'' ''x'' 0 ''e0'', (demo_event ''T'' ''a'' 0 ''e1'')\<lparr>sagaOrigins := Some [(''S'', ''e1'')]\<rparr>,
        demo_event ''T'' ''x'' 1 ''e2'', (demo_event ''T'' ''b'' 0 ''e3'')\<lparr>sagaOrigins := Some [(''S'', ''e1'')]\<rparr>]\<rparr>"
      "[demo_event ''T'' ''x'' 0 ''e0'']" "(demo_event ''T'' ''a'' 0 ''e1'')\<lparr>sagaOrigins := Some [(''S'', ''e1'')]\<rparr>"
      "[demo_event ''T'' ''x'' 1 ''e2'']" "(demo_event ''T'' ''b'' 0 ''e3'')\<lparr>sagaOrigins := Some [(''S'', ''e1'')]\<rparr>" "[]"]
  by (simp add: parseSagaId_ok saga_origin_def)

section \<open>Properties\<close>

text \<open>
  Of two batches that claim a common version of an aggregate, only the first can be committed:
  whatever is committed in between, with or without concurrency checks, the second is refused
  with a concurrency error and leaves the log as it is.
\<close>

theorem one_batch_wins:
  assumes "commitEvents es ig s = (Inr r, s1)" and "s2 = commit_run commitEvents cs s1"
    and "k \<in> set (version_keys es)" and "k \<in> set (version_keys fs)"
  shows "\<exists>e s3. commitEvents fs False s2 = (Inl e, s3) \<and> is_concurrency_error e \<and> events s3 = events s2"
  using mem.one_winner_conflict [OF assms(1,2), of fs k] assms(3,4) commitEvents_Inl by fastforce

lemma one_batch_wins_witness:
  "\<exists>e s3. commitEvents [demo_event ''T'' ''a'' 0 ''e2''] False (new_mem_storage\<lparr>events := [demo_event ''T'' ''a'' 0 ''e1'']\<rparr>)
     = (Inl e, s3) \<and> is_concurrency_error e \<and> events s3 = [demo_event ''T'' ''a'' 0 ''e1'']"
proof -
  have "commitEvents [demo_event ''T'' ''a'' 0 ''e1''] False new_mem_storage
      = (Inr [demo_event ''T'' ''a'' 0 ''e1''], new_mem_storage\<lparr>events := [demo_event ''T'' ''a'' 0 ''e1'']\<rparr>)"
    by (simp add: commitEvents_def new_mem_storage_def)
  from one_batch_wins [OF this, of _ "[]" "(IdStr ''a'', 0)" "[demo_event ''T'' ''a'' 0 ''e2'']"]
  show ?thesis by simp
qed

text \<open>
  Reading an aggregate returns exactly its events newer than the snapshot that are of the
  wanted types, in the order of the log; with \<open>tail: 'last'\<close> the newest event of the aggregate
  follows unless it is already the last one.
\<close>

theorem reading_an_aggregate:
  "getAggregateEvents aid q s = aggregate_stream aid q (events s)"
  by (rule getAggregateEvents_eq)

end
