(* ===== verification/SnapshotStorage.thy ===== *)
theory SnapshotStorage
  imports Messages
begin

text \<open>
  The in-memory snapshot storage (\<open>src/in-memory/InMemorySnapshotStorage.ts\<close>): a map from
  aggregate ids to their latest snapshot event, filled by the dispatch pipeline.
\<close>

type_synonym snapshots = "(ident, event) jsmap"

definition getAggregateSnapshot :: "ident \<Rightarrow> snapshots \<Rightarrow> event option" where
  "getAggregateSnapshot aid s = map_of s aid"

definition saveAggregateSnapshot :: "event \<Rightarrow> (snapshots, unit) act" where
  "saveAggregateSnapshot snapshotEvent s =
     (case assert_id_defined (aggregateId snapshotEvent) ''snapshotEvent.aggregateId'' of
        Inl e \<Rightarrow> (Inl e, s)
      | Inr aid \<Rightarrow> (Inr (), AList.update aid snapshotEvent s))"

definition deleteAggregateSnapshot :: "event \<Rightarrow> (snapshots, unit) act" where
  "deleteAggregateSnapshot snapshotEvent s =
     (case assert_id_defined (aggregateId snapshotEvent) ''snapshotEvent.aggregateId'' of
        Inl e \<Rightarrow> (Inl e, s)
      | Inr aid \<Rightarrow> (Inr (), AList.delete aid s))"

text \<open>\<open>isSnapshotEvent(e.event)\<close> and the snapshot events of a batch.\<close>

definition env_is_snapshot :: "envelope \<Rightarrow> bool" where
  "env_is_snapshot b = (case env_event b of None \<Rightarrow> False | Some e \<Rightarrow> isSnapshotEvent e)"

definition snapshot_events :: "batch \<Rightarrow> event list" where
  "snapshot_events bt = filter isSnapshotEvent (List.map_filter env_event bt)"

primrec for_events :: "(event \<Rightarrow> ('s, unit) act) \<Rightarrow> event list \<Rightarrow> ('s, unit) act" where
  "for_events f [] = act_return ()"
| "for_events f (e # es) = act_bind (f e) (\<lambda>_. for_events f es)"

definition snapshot_process :: "batch \<Rightarrow> (snapshots, batch) act" where
  "snapshot_process bt =
     act_bind (for_events saveAggregateSnapshot (snapshot_events bt))
       (\<lambda>_. act_return (filter (\<lambda>b. \<not> env_is_snapshot b) bt))"

definition snapshot_revert :: "batch \<Rightarrow> (snapshots, unit) act" where
  "snapshot_revert bt = for_events deleteAggregateSnapshot (snapshot_events bt)"

section \<open>What a batch leaves behind\<close>

lemma save_ok:
  "saveAggregateSnapshot e s = (Inr u, s') \<longleftrightarrow>
     (\<exists>a. aggregateId e = Some a \<and> id_truthy a \<and> s' = AList.update a e s)"
  by (auto simp: saveAggregateSnapshot_def assert_id_defined_def split: option.splits)

lemma delete_ok:
  "deleteAggregateSnapshot e s = (Inr u, s') \<longleftrightarrow>
     (\<exists>a. aggregateId e = Some a \<and> id_truthy a \<and> s' = AList.delete a s)"
  by (auto simp: deleteAggregateSnapshot_def assert_id_defined_def split: option.splits)

text \<open>The last event of a list that belongs to an aggregate.\<close>

definition last_of :: "ident \<Rightarrow> event list \<Rightarrow> event option" where
  "last_of a es = (let own = filter (\<lambda>e. aggregateId e = Some a) es
     in if own = [] then None else Some (last own))"

lemma last_of_Cons:
  "last_of a (e # es) = (case last_of a es of Some x \<Rightarrow> Some x
     | None \<Rightarrow> if aggregateId e = Some a then Some e else None)"
  by (auto simp: last_of_def Let_def)

lemma save_all_get:
  "for_events saveAggregateSnapshot es s = (Inr u, s') \<Longrightarrow>
     getAggregateSnapshot a s' = (case last_of a es of Some x \<Rightarrow> Some x | None \<Rightarrow> getAggregateSnapshot a s)"
proof (induction es arbitrary: s)
  case Nil
  then show ?case by (simp add: act_simps last_of_def)
next
  case (Cons e es)
  then obtain b where b: "aggregateId e = Some b"
    "for_events saveAggregateSnapshot es (AList.update b e s) = (Inr u, s')"
    by (auto simp: act_bind_Inr_iff save_ok)
  from Cons.IH [OF b(2)] b(1) show ?case
    by (auto simp: last_of_Cons getAggregateSnapshot_def split: option.split)
qed

lemma delete_all_get:
  "for_events deleteAggregateSnapshot es s = (Inr u, s') \<Longrightarrow>
     getAggregateSnapshot a s' = (if last_of a es = None then getAggregateSnapshot a s else None)"
proof (induction es arbitrary: s)
  case Nil
  then show ?case by (simp add: act_simps last_of_def)
next
  case (Cons e es)
  then obtain b where b: "aggregateId e = Some b"
    "for_events deleteAggregateSnapshot es (AList.delete b s) = (Inr u, s')"
    by (auto simp: act_bind_Inr_iff delete_ok)
  from Cons.IH [OF b(2)] b(1) show ?case
    by (auto simp: last_of_Cons getAggregateSnapshot_def split: option.split)
qed

lemma for_events_total:
  "\<forall>e \<in> set es. \<forall>s. \<exists>s'. f e s = (Inr (), s') \<Longrightarrow> \<exists>s'. for_events f es s = (Inr (), s')"
proof (induction es arbitrary: s)
  case (Cons e es)
  from Cons.prems obtain s1 where "f e s = (Inr (), s1)" by (meson list.set_intros(1))
  with Cons show ?case by simp
qed (simp add: act_simps)

lemma snapshot_process_Inr:
  "snapshot_process bt s = (Inr bt', s') \<longleftrightarrow>
     for_events saveAggregateSnapshot (snapshot_events bt) s = (Inr (), s')
     \<and> bt' = filter (\<lambda>b. \<not> env_is_snapshot b) bt"
  by (auto simp: snapshot_process_def act_bind_Inr_iff act_simps)

text \<open>
  Processing a batch stores, for every aggregate, its last snapshot of the batch, and keeps
  the stored one where the batch has none; no snapshot is passed on, and no other event dropped.
\<close>

lemma snapshot_process_stores:
  assumes "snapshot_process bt s = (Inr bt', s')"
  shows "getAggregateSnapshot a s' =
      (case last_of a (snapshot_events bt) of Some x \<Rightarrow> Some x | None \<Rightarrow> getAggregateSnapshot a s)
    \<and> snapshot_events bt' = []
    \<and> List.map_filter env_event bt' = filter (\<lambda>e. \<not> isSnapshotEvent e) (List.map_filter env_event bt)"
proof -
  have "snapshot_events (filter (\<lambda>b. \<not> env_is_snapshot b) bt) = []"
    by (induction bt) (auto simp: snapshot_events_def env_is_snapshot_def List.map_filter_def)
  moreover have "List.map_filter env_event (filter (\<lambda>b. \<not> env_is_snapshot b) bt)
      = filter (\<lambda>e. \<not> isSnapshotEvent e) (List.map_filter env_event bt)"
    by (induction bt) (auto simp: env_is_snapshot_def List.map_filter_def split: option.splits)
  ultimately show ?thesis using assms save_all_get by (simp add: snapshot_process_Inr)
qed

text \<open>
  Reverting a batch removes the snapshots of its aggregates: those the batch stored, and an
  older one of the same aggregate that the batch replaced is not brought back.
\<close>

lemma snapshot_revert_removes:
  assumes "snapshot_process bt s = (Inr bt', s1)"
  shows "\<exists>s2. snapshot_revert bt s1 = (Inr (), s2) \<and> (\<forall>a. getAggregateSnapshot a s2 =
      (if last_of a (snapshot_events bt) = None then getAggregateSnapshot a s else None))"
proof -
  have saved: "for_events saveAggregateSnapshot (snapshot_events bt) s = (Inr (), s1)"
    using assms by (simp add: snapshot_process_Inr)
  have ids: "\<forall>e \<in> set es. \<exists>a. aggregateId e = Some a \<and> id_truthy a"
    if "for_events saveAggregateSnapshot es s = (Inr (), s1)" for es s
    using that by (induction es arbitrary: s) (auto simp: act_bind_Inr_iff save_ok)
  have "\<exists>s2. for_events deleteAggregateSnapshot (snapshot_events bt) s1 = (Inr (), s2)"
    using ids [OF saved] by (intro for_events_total) (auto simp: delete_ok)
  then obtain s2 where s2: "for_events deleteAggregateSnapshot (snapshot_events bt) s1 = (Inr (), s2)"
    by blast
  have "getAggregateSnapshot a s2 =
      (if last_of a (snapshot_events bt) = None then getAggregateSnapshot a s else None)" for a
    using delete_all_get [OF s2, of a] save_all_get [OF saved, of a] by auto
  with s2 show ?thesis unfolding snapshot_revert_def by blast
qed

end
