(* ===== verification/Pipeline.thy ===== *)
theory Pipeline
  imports Messages
begin

text \<open>
  The event dispatch pipeline: \<open>src/EventDispatchPipeline.ts\<close>, \<open>src/EventDispatcher.ts\<close> and
  \<open>src/EventIdAugmentor.ts\<close>. Processors act on a world of type \<open>'w\<close>. The package
  \<open>async-parallel-pipe\<close>, not part of the repository, runs up to \<open>concurrentLimit\<close> envelopes of a
  stage at a time and hands them on in the order they came; one envelope's way through the stages
  is \<open>run_stages\<close>, the consumer loop's body \<open>consume\<close>, and \<open>consume_all\<close> takes the envelopes one by
  one in the order they were pushed.
\<close>

section \<open>Processors and envelopes\<close>

record 'w processor =
  proc_process :: "batch \<Rightarrow> ('w, batch) act"
  proc_revert :: "(batch \<Rightarrow> ('w, unit) act) option"

record batch_envelope =
  env_data :: batch
  env_error :: "js_error option"

record 'w pipeline =
  processors :: "'w processor list"
  processing :: bool
  concurrentLimit :: int

definition new_pipeline :: "int \<Rightarrow> 'w pipeline" where
  "new_pipeline limit = \<lparr>processors = [], processing = False, concurrentLimit = limit\<rparr>"

text \<open>\<open>is_proc\<close> is the outcome of \<open>isDispatchPipelineProcessor(preprocessor)\<close>.\<close>

definition addProcessor :: "bool \<Rightarrow> string \<Rightarrow> 'w processor \<Rightarrow> 'w pipeline \<Rightarrow> 'w pipeline result" where
  "addProcessor is_proc class_name p pl =
     (if \<not> is_proc then Inl (TypeError (''preprocessor '' @ class_name @ '' does not implement IDispatchPipelineProcessor''))
      else if processing pl then Inl (GenericError ''pipeline processing already started'')
      else Inr (pl\<lparr>processors := processors pl @ [p]\<rparr>))"

section \<open>One envelope\<close>

text \<open>One stage: an envelope that failed before passes through untouched.\<close>

definition stage :: "'w processor \<Rightarrow> batch_envelope \<times> 'w \<Rightarrow> batch_envelope \<times> 'w" where
  "stage p ew = (case ew of (env, w) \<Rightarrow>
     (case env_error env of
        Some _ \<Rightarrow> (env, w)
      | None \<Rightarrow> (case proc_process p (env_data env) w of
            (Inr d, w') \<Rightarrow> (env\<lparr>env_data := d\<rparr>, w')
          | (Inl e, w') \<Rightarrow> (env\<lparr>env_error := Some e\<rparr>, w'))))"

definition run_stages :: "'w processor list \<Rightarrow> batch_envelope \<times> 'w \<Rightarrow> batch_envelope \<times> 'w" where
  "run_stages ps ew = fold stage ps ew"

primrec revert_all :: "'w processor list \<Rightarrow> batch \<Rightarrow> ('w, unit) act" where
  "revert_all [] bt = act_return ()"
| "revert_all (p # ps) bt = act_bind (case proc_revert p of None \<Rightarrow> act_return () | Some f \<Rightarrow> f bt)
     (\<lambda>_. revert_all ps bt)"

text \<open>
  The publish loop. \<open>pub\<close> tells what \<open>eventBus.publish\<close> throws before it returns its promise, which
  the buses of this repository never do; the result is the events published, and the error.
\<close>

fun publish_loop :: "(event \<Rightarrow> unit result) \<Rightarrow> batch \<Rightarrow> event list \<Rightarrow> event list \<times> js_error option" where
  "publish_loop pub [] evs = (evs, None)"
| "publish_loop pub (b # bs) evs = (case env_event b of
       None \<Rightarrow> publish_loop pub bs evs
     | Some e \<Rightarrow> if isSnapshotEvent e then publish_loop pub bs evs
         else (case pub e of
             Inl err \<Rightarrow> (evs, Some err)
           | Inr _ \<Rightarrow> publish_loop pub bs (evs @ [e])))"

datatype outcome = Resolved "event list" | Rejected js_error

text \<open>The body of \<open>for await\<close>: how the caller's promise settles, what was published.\<close>

definition consume ::
  "(event \<Rightarrow> unit result) \<Rightarrow> 'w processor list \<Rightarrow> batch_envelope \<times> 'w \<Rightarrow> outcome \<times> event list \<times> 'w" where
  "consume pub ps ew = (case ew of (env, w) \<Rightarrow>
     (case env_error env of
        Some err \<Rightarrow> (case revert_all ps (env_data env) w of
            (Inl e, w') \<Rightarrow> (Rejected e, [], w')
          | (Inr _, w') \<Rightarrow> (Rejected err, [], w'))
      | None \<Rightarrow> (case publish_loop pub (env_data env) [] of
            (evs, None) \<Rightarrow> (Resolved evs, evs, w)
          | (evs, Some err) \<Rightarrow> (Rejected err, evs, w))))"

definition dispatch_one ::
  "(event \<Rightarrow> unit result) \<Rightarrow> 'w processor list \<Rightarrow> batch \<Rightarrow> 'w \<Rightarrow> outcome \<times> event list \<times> 'w" where
  "dispatch_one pub ps bt w =
     consume pub ps (run_stages ps (\<lparr>env_data = bt, env_error = None\<rparr>, w))"

text \<open>The pushed batches in order: their outcomes and everything published.\<close>

primrec consume_all ::
  "(event \<Rightarrow> unit result) \<Rightarrow> 'w processor list \<Rightarrow> batch list \<Rightarrow> 'w \<Rightarrow> outcome list \<times> event list \<times> 'w" where
  "consume_all pub ps [] w = ([], [], w)"
| "consume_all pub ps (bt # bts) w = (case dispatch_one pub ps bt w of
     (out, evs, w1) \<Rightarrow> (case consume_all pub ps bts w1 of (outs, evs', w2) \<Rightarrow> (out # outs, evs @ evs', w2)))"

text \<open>
  \<open>p = publish(...).catch(this.#onError)\<close>: what \<open>p\<close> settles to. Without an error handler
  \<open>catch(undefined)\<close> passes the rejection on, and \<open>p.finally(...)\<close> rejects with nobody to
  handle it.
\<close>

definition fire_and_forget :: "(js_error \<Rightarrow> unit result) option \<Rightarrow> unit result \<Rightarrow> unit result" where
  "fire_and_forget onError r = (case r of Inr _ \<Rightarrow> Inr ()
     | Inl e \<Rightarrow> (case onError of None \<Rightarrow> Inl e | Some f \<Rightarrow> f e))"

definition unhandled_rejections :: "(js_error \<Rightarrow> unit result) option \<Rightarrow> unit result list \<Rightarrow> js_error list" where
  "unhandled_rejections onError rs =
     List.map_filter (\<lambda>r. case fire_and_forget onError r of Inl e \<Rightarrow> Some e | Inr _ \<Rightarrow> None) rs"

section \<open>What a dispatch does\<close>

lemma stage_error: "env_error env = Some e \<Longrightarrow> stage p (env, w) = (env, w)"
  by (simp add: stage_def)

lemma run_stages_error: "env_error env = Some e \<Longrightarrow> run_stages ps (env, w) = (env, w)"
  by (induction ps) (simp_all add: run_stages_def stage_error)

text \<open>The processors chained as actions, stopping at the first that throws.\<close>

primrec chain_process :: "'w processor list \<Rightarrow> batch \<Rightarrow> 'w \<Rightarrow> (js_error \<times> batch + batch) \<times> 'w" where
  "chain_process [] bt w = (Inr bt, w)"
| "chain_process (p # ps) bt w = (case proc_process p bt w of
       (Inl e, w') \<Rightarrow> (Inl (e, bt), w')
     | (Inr d, w') \<Rightarrow> chain_process ps d w')"

lemma run_stages_eq:
  "run_stages ps (\<lparr>env_data = bt, env_error = None\<rparr>, w) =
     (case chain_process ps bt w of
        (Inr d, w') \<Rightarrow> (\<lparr>env_data = d, env_error = None\<rparr>, w')
      | (Inl (e, d), w') \<Rightarrow> (\<lparr>env_data = d, env_error = Some e\<rparr>, w'))"
proof (induction ps arbitrary: bt w)
  case (Cons p ps)
  have fold: "run_stages (p # ps) (\<lparr>env_data = bt, env_error = None\<rparr>, w) =
      run_stages ps (stage p (\<lparr>env_data = bt, env_error = None\<rparr>, w))" by (simp add: run_stages_def)
  obtain r w' where p: "proc_process p bt w = (r, w')" by (cases "proc_process p bt w")
  show ?case
  proof (cases r)
    case (Inl e)
    with p fold show ?thesis by (simp add: stage_def run_stages_error)
  next
    case (Inr d)
    with p fold Cons [of d w'] show ?thesis by (simp add: stage_def)
  qed
qed (simp add: run_stages_def)

definition publishable :: "batch \<Rightarrow> event list" where
  "publishable bt = filter (\<lambda>e. \<not> isSnapshotEvent e) (List.map_filter env_event bt)"

lemma publishable_simps [simp]:
  "publishable [] = []"
  "publishable (b # bs) = (case env_event b of None \<Rightarrow> publishable bs
     | Some e \<Rightarrow> if isSnapshotEvent e then publishable bs else e # publishable bs)"
  by (auto simp: publishable_def List.map_filter_def split: option.splits)

lemma publish_loop_all:
  "\<forall>e. pub e = Inr () \<Longrightarrow> publish_loop pub bt evs = (evs @ publishable bt, None)"
  by (induction bt arbitrary: evs) (auto split: option.splits)

text \<open>What one dispatch amounts to, for a bus whose \<open>publish\<close> does not throw.\<close>

lemma dispatch_one_eq:
  assumes "\<forall>e. pub e = Inr ()"
  shows "dispatch_one pub ps bt w = (case chain_process ps bt w of
      (Inr d, w') \<Rightarrow> (Resolved (publishable d), publishable d, w')
    | (Inl (err, d), w') \<Rightarrow> (case revert_all ps d w' of
          (Inl e, w2) \<Rightarrow> (Rejected e, [], w2)
        | (Inr _, w2) \<Rightarrow> (Rejected err, [], w2)))"
  unfolding dispatch_one_def run_stages_eq consume_def
  by (auto simp: publish_loop_all [OF assms] split: prod.splits sum.splits)

fun resolved_events :: "outcome \<Rightarrow> event list" where
  "resolved_events (Resolved evs) = evs"
| "resolved_events (Rejected _) = []"

text \<open>Everything published is what the resolved dispatches resolve with, in the order pushed.\<close>

lemma dispatch_one_published:
  assumes "\<forall>e. pub e = Inr ()" and "dispatch_one pub ps bt w = (out, evs, w')"
  shows "evs = resolved_events out \<and> (\<forall>e \<in> set evs. \<not> isSnapshotEvent e)"
  using assms(2) unfolding dispatch_one_eq [OF assms(1)]
  by (auto simp: publishable_def split: prod.splits sum.splits)

lemma consume_all_published:
  "\<forall>e. pub e = Inr () \<Longrightarrow> consume_all pub ps bts w = (outs, evs, w') \<Longrightarrow>
     evs = concat (map resolved_events outs) \<and> length outs = length bts"
proof (induction bts arbitrary: w outs evs)
  case (Cons bt bts)
  from Cons.prems(2) obtain out es w1 outs' es' where
    one: "dispatch_one pub ps bt w = (out, es, w1)"
    and rest: "consume_all pub ps bts w1 = (outs', es', w')"
    and eq: "outs = out # outs'" "evs = es @ es'"
    by (auto split: prod.splits)
  from Cons.IH [OF Cons.prems(1) rest] dispatch_one_published [OF Cons.prems(1) one] eq
  show ?case by simp
qed simp

text \<open>
  An event bus whose \<open>publish\<close> rejects: without an error handler every such rejection is an
  unhandled one, though the dispatcher's documentation says they are discarded in silence.
\<close>

theorem unhandled_none:
  "unhandled_rejections None rs = [e. Inl e \<leftarrow> rs]"
  by (induction rs) (auto simp: unhandled_rejections_def fire_and_forget_def List.map_filter_def split: sum.splits)

lemma unhandled_with_handler:
  "\<forall>e. f e = Inr () \<Longrightarrow> unhandled_rejections (Some f) rs = []"
  by (induction rs) (auto simp: unhandled_rejections_def fire_and_forget_def List.map_filter_def split: sum.splits)

section \<open>The dispatcher\<close>

definition DEFAULT_PIPELINE :: string where "DEFAULT_PIPELINE = ''default''"

definition DEFAULT_CONCURRENT_LIMIT :: int where "DEFAULT_CONCURRENT_LIMIT = 100"

record dispatch_meta =
  meta_origin :: "string option"
  meta_ignoreConc :: bool

definition DEFAULT_ROUTER :: "event list \<Rightarrow> dispatch_meta option \<Rightarrow> string option" where
  "DEFAULT_ROUTER evs meta = Option.bind meta meta_origin"

record 'w dispatcher =
  pipelines :: "(string, 'w pipeline) jsmap"
  defaultLimit :: int
  eventDispatchRouter :: "event list \<Rightarrow> dispatch_meta option \<Rightarrow> string option"

primrec add_each :: "(bool \<times> string \<times> 'w processor) list \<Rightarrow> 'w pipeline \<Rightarrow> 'w pipeline result" where
  "add_each [] pl = Inr pl"
| "add_each (p # ps) pl = (case p of (is_proc, n, f) \<Rightarrow> res_bind (addProcessor is_proc n f pl) (add_each ps))"

definition addPipeline ::
  "string \<Rightarrow> (bool \<times> string \<times> 'w processor) list \<Rightarrow> int option \<Rightarrow> 'w dispatcher \<Rightarrow> 'w dispatcher result" where
  "addPipeline name ps limit d =
     (if name = [] then Inl (TypeError (''pipeline name is required''))
      else if map_has (pipelines d) name
      then Inl (GenericError (''pipeline '' @ [CHR 0x22] @ name @ [CHR 0x22] @ '' already exists''))
      else res_bind (add_each ps (new_pipeline (case limit of None \<Rightarrow> defaultLimit d | Some l \<Rightarrow> l)))
        (\<lambda>pl. Inr (d\<lparr>pipelines := AList.update name pl (pipelines d)\<rparr>)))"

definition addPipelineProcessor ::
  "bool \<times> string \<times> 'w processor \<Rightarrow> string option \<Rightarrow> 'w dispatcher \<Rightarrow> 'w dispatcher result" where
  "addPipelineProcessor p name d =
     (let n = (case name of None \<Rightarrow> DEFAULT_PIPELINE | Some m \<Rightarrow> m)
      in case map_of (pipelines d) n of
           None \<Rightarrow> Inl (GenericError (''Pipeline '' @ [CHR 0x22] @ n @ [CHR 0x22] @ '' does not exist''))
         | Some pl \<Rightarrow> (case p of (is_proc, c, f) \<Rightarrow>
             res_bind (addProcessor is_proc c f pl)
               (\<lambda>pl'. Inr (d\<lparr>pipelines := AList.update n pl' (pipelines d)\<rparr>))))"

primrec addPipelineProcessors ::
  "(bool \<times> string \<times> 'w processor) list \<Rightarrow> string option \<Rightarrow> ('w dispatcher, unit) act" where
  "addPipelineProcessors [] name d = (Inr (), d)"
| "addPipelineProcessors (p # ps) name d = (case addPipelineProcessor p name d of
     Inl e \<Rightarrow> (Inl e, d) | Inr d' \<Rightarrow> addPipelineProcessors ps name d')"

text \<open>The constructor: named pipelines, else a single one, else an empty default one.\<close>

primrec add_pipelines ::
  "(string \<times> (bool \<times> string \<times> 'w processor) list) list \<Rightarrow> 'w dispatcher \<Rightarrow> 'w dispatcher result" where
  "add_pipelines [] d = Inr d"
| "add_pipelines (np # nps) d = res_bind (addPipeline (fst np) (snd np) None d) (add_pipelines nps)"

definition new_dispatcher ::
  "jsval \<Rightarrow> (event list \<Rightarrow> dispatch_meta option \<Rightarrow> string option) option \<Rightarrow>
   (string \<times> (bool \<times> string \<times> 'w processor) list) list option \<Rightarrow>
   (bool \<times> string \<times> 'w processor) list option \<Rightarrow> 'w dispatcher result" where
  "new_dispatcher limit router named single =
     res_bind (if limit = JUndef then Inr () else assertNonNegativeInteger limit ''eventDispatcherConfig.concurrentLimit'') (\<lambda>_.
       let d = \<lparr>pipelines = [],
                defaultLimit = (case limit of JNum n \<Rightarrow> n | _ \<Rightarrow> DEFAULT_CONCURRENT_LIMIT),
                eventDispatchRouter = (case router of None \<Rightarrow> DEFAULT_ROUTER | Some r \<Rightarrow> r)\<rparr>
       in case named of
            Some nps \<Rightarrow> add_pipelines nps d
          | None \<Rightarrow> (case single of
              Some ps \<Rightarrow> addPipeline DEFAULT_PIPELINE ps None d
            | None \<Rightarrow> addPipeline DEFAULT_PIPELINE [] None d))"

definition make_envelope :: "dispatch_meta option \<Rightarrow> event \<Rightarrow> envelope" where
  "make_envelope meta e = \<lparr>origin = Option.bind meta meta_origin,
     ignoreConcurrencyError = (case meta of None \<Rightarrow> False | Some m \<Rightarrow> meta_ignoreConc m),
     env_event = Some e\<rparr>"

text \<open>The pipeline a batch is routed to: an unknown name falls back to the default one.\<close>

definition route :: "event list \<Rightarrow> dispatch_meta option \<Rightarrow> 'w dispatcher \<Rightarrow> (string \<times> 'w pipeline) result" where
  "route evs meta d =
     (let desired = (case eventDispatchRouter d evs meta of None \<Rightarrow> DEFAULT_PIPELINE | Some n \<Rightarrow> n)
      in case map_of (pipelines d) desired of
           Some pl \<Rightarrow> Inr (desired, pl)
         | None \<Rightarrow> (case map_of (pipelines d) DEFAULT_PIPELINE of
             Some pl \<Rightarrow> Inr (DEFAULT_PIPELINE, pl)
           | None \<Rightarrow> Inl (GenericError (''No '' @ [CHR 0x22] @ desired @ [CHR 0x22] @ '' pipeline configured''))))"

definition dispatch ::
  "(event \<Rightarrow> unit result) \<Rightarrow> event list \<Rightarrow> dispatch_meta option \<Rightarrow> 'w dispatcher \<times> 'w \<Rightarrow>
   outcome \<times> event list \<times> 'w dispatcher \<times> 'w" where
  "dispatch pub evs meta dw = (case dw of (d, w) \<Rightarrow>
     (if evs = [] \<or> \<not> list_all message_ok evs
      then (Rejected (TypeError ''dispatch requires a non-empty array of events''), [], d, w)
      else (case route evs meta d of
          Inl e \<Rightarrow> (Rejected e, [], d, w)
        | Inr (name, pl) \<Rightarrow>
            (case dispatch_one pub (processors pl) (map (make_envelope meta) evs) w of
               (out, published, w') \<Rightarrow>
                 (out, published,
                  d\<lparr>pipelines := AList.update name (pl\<lparr>processing := True\<rparr>) (pipelines d)\<rparr>, w')))))"

section \<open>Facts about the dispatcher\<close>

text \<open>The default pipeline is there: then every batch finds a pipeline.\<close>

definition has_default :: "'w dispatcher \<Rightarrow> bool" where
  "has_default d = map_has (pipelines d) DEFAULT_PIPELINE"

lemma route_total: "has_default d \<Longrightarrow> \<exists>name pl. route evs meta d = Inr (name, pl) \<and> map_of (pipelines d) name = Some pl"
  by (auto simp: route_def has_default_def map_has_def Let_def split: option.splits)

lemma DEFAULT_PIPELINE_nonempty [simp]: "DEFAULT_PIPELINE \<noteq> []"
  by (simp add: DEFAULT_PIPELINE_def)

lemma addPipeline_keys:
  "addPipeline n ps l d = Inr d' \<Longrightarrow>
     (\<forall>k. map_has (pipelines d') k \<longleftrightarrow> k = n \<or> map_has (pipelines d) k)"
  by (auto simp: addPipeline_def split: if_splits)

lemma addPipelineProcessor_keys:
  "addPipelineProcessor p n d = Inr d' \<Longrightarrow> map_has (pipelines d') k \<longleftrightarrow> map_has (pipelines d) k"
  by (auto simp: addPipelineProcessor_def Let_def map_has_def split: option.splits prod.splits if_splits)

lemma has_default_new:
  "named = None \<Longrightarrow> new_dispatcher lim router named single = Inr d \<Longrightarrow> has_default d"
  by (auto simp: new_dispatcher_def has_default_def Let_def split: option.splits
      dest!: addPipeline_keys)

lemma has_default_addPipelineProcessor:
  "addPipelineProcessor p n d = Inr d' \<Longrightarrow> has_default d' = has_default d"
  by (simp add: has_default_def addPipelineProcessor_keys)

lemma has_default_dispatch:
  "dispatch pub evs meta (d, w) = (out, published, d', w') \<Longrightarrow> has_default d \<Longrightarrow> has_default d'"
  by (auto simp: dispatch_def has_default_def split: if_splits sum.splits prod.splits)

text \<open>
  The processors of a pipeline are settled once a batch has been routed to it: a later
  \<open>addPipelineProcessor\<close> on it is refused, so all batches go through the same stages.
\<close>

theorem dispatch_freezes_pipeline:
  assumes "dispatch pub evs meta (d, w) = (out, published, d', w')"
    and "evs \<noteq> []" and "list_all message_ok evs" and "route evs meta d = Inr (n, pl)"
  shows "\<exists>e. addPipelineProcessor p (Some n) d' = Inl e"
proof -
  from assms have "map_of (pipelines d') n = Some (pl\<lparr>processing := True\<rparr>)"
    by (auto simp: dispatch_def split: prod.splits if_splits)
  then show ?thesis
    by (cases p) (auto simp: addPipelineProcessor_def addProcessor_def Let_def)
qed

lemma dispatch_freezes_pipeline_witness:
  "\<exists>d e. snd (snd (dispatch (\<lambda>_. Inr ()) [demo_event ''T'' ''a'' 0 ''e1''] None
        (\<lparr>pipelines = [(''default'', new_pipeline 1)], defaultLimit = 1, eventDispatchRouter = DEFAULT_ROUTER\<rparr>, ()))) = (d, ())
    \<and> addPipelineProcessor (True, ''P'', \<lparr>proc_process = \<lambda>bt w. (Inr bt, w), proc_revert = None\<rparr>) (Some ''default'') d = Inl e"
proof -
  let ?d = "\<lparr>pipelines = [(''default'', new_pipeline 1)], defaultLimit = 1, eventDispatchRouter = DEFAULT_ROUTER\<rparr> :: unit dispatcher"
  have r: "route [demo_event ''T'' ''a'' 0 ''e1''] None ?d = Inr (''default'', new_pipeline 1)"
    by (simp add: route_def DEFAULT_ROUTER_def DEFAULT_PIPELINE_def)
  have ok: "[demo_event ''T'' ''a'' 0 ''e1''] \<noteq> []" "list_all message_ok [demo_event ''T'' ''a'' 0 ''e1'']"
    by (simp_all add: message_ok_def)
  obtain out published d w where "dispatch (\<lambda>_. Inr ()) [demo_event ''T'' ''a'' 0 ''e1''] None (?d, ()) = (out, published, d, w)"
    by (cases "dispatch (\<lambda>_. Inr ()) [demo_event ''T'' ''a'' 0 ''e1''] None (?d, ())" rule: prod_cases4)
  from dispatch_freezes_pipeline [OF this ok r] this show ?thesis by auto
qed

section \<open>Assigning event ids\<close>

definition has_string_id :: "event \<Rightarrow> bool" where
  "has_string_id e = (case event_id e of Some (IdStr s) \<Rightarrow> s \<noteq> [] | _ \<Rightarrow> False)"

text \<open>
  \<open>EventIdAugmentor.process\<close>. The event objects are changed in place, so the model's batch is
  what the array holds afterwards.
\<close>

primrec augment :: "('w, ident) act \<Rightarrow> batch \<Rightarrow> ('w, batch) act" where
  "augment newId [] = act_return []"
| "augment newId (b # bs) =
     (case env_event b of
        None \<Rightarrow> act_bind (augment newId bs) (\<lambda>bs'. act_return (b # bs'))
      | Some e \<Rightarrow>
          (if has_string_id e
           then act_bind (augment newId bs) (\<lambda>bs'. act_return (b # bs'))
           else act_bind newId (\<lambda>i. act_bind (augment newId bs)
             (\<lambda>bs'. act_return (b\<lparr>env_event := Some (e\<lparr>event_id := Some (IdStr (String_of i))\<rparr>)\<rparr> # bs')))))"

definition forget_id :: "envelope \<Rightarrow> envelope" where
  "forget_id b = b\<lparr>env_event := map_option (\<lambda>e. e\<lparr>event_id := None\<rparr>) (env_event b)\<rparr>"

text \<open>Ids aside nothing changes; ids that were there stay, every event ends up with one.\<close>

lemma augment_frame:
  "augment newId bt w = (Inr bt', w') \<Longrightarrow>
     map forget_id bt' = map forget_id bt
     \<and> list_all2 (\<lambda>b b'. (case env_event b of Some e \<Rightarrow> has_string_id e | None \<Rightarrow> True) \<longrightarrow> b' = b) bt bt'"
proof (induction bt arbitrary: w bt')
  case Nil
  then show ?case by (simp add: act_simps)
next
  case (Cons b bs)
  show ?case
  proof (cases "env_event b")
    case None
    with Cons show ?thesis by (auto simp: act_bind_Inr_iff act_simps)
  next
    case (Some e)
    with Cons show ?thesis
      by (auto simp: act_bind_Inr_iff act_simps forget_id_def split: if_splits)
  qed
qed

text \<open>
  After \<open>EventIdAugmentor\<close> every event of the batch has an id that is a non-empty string, if the
  generator's ids print as one.
\<close>

theorem augment_assigns:
  assumes "\<And>w i w'. newId w = (Inr i, w') \<Longrightarrow> String_of i \<noteq> []"
  shows "augment newId bt w = (Inr bt', w') \<Longrightarrow>
     \<forall>b \<in> set bt'. \<forall>e. env_event b = Some e \<longrightarrow> has_string_id e"
proof (induction bt arbitrary: w bt')
  case Nil
  then show ?case by (simp add: act_simps)
next
  case (Cons b bs)
  show ?case
  proof (cases "env_event b")
    case None
    with Cons show ?thesis by (auto simp: act_bind_Inr_iff act_simps)
  next
    case (Some e)
    show ?thesis
    proof (cases "has_string_id e")
      case True
      with Some Cons show ?thesis by (auto simp: act_bind_Inr_iff act_simps)
    next
      case False
      with Some Cons.prems obtain i w1 bs' where
        "newId w = (Inr i, w1)" and rest: "augment newId bs w1 = (Inr bs', w')"
        and bt': "bt' = b\<lparr>env_event := Some (e\<lparr>event_id := Some (IdStr (String_of i))\<rparr>)\<rparr> # bs'"
        by (auto simp: act_bind_Inr_iff act_simps)
      with assms have "String_of i \<noteq> []" by blast
      with Cons.IH [OF rest] bt' show ?thesis by (simp add: has_string_id_def)
    qed
  qed
qed

lemma augment_assigns_witness:
  "\<exists>bt'. augment (\<lambda>n. (Inr (IdStr ''x''), n + 1)) [make_envelope None ((demo_event ''T'' ''a'' 0 [])\<lparr>event_id := None\<rparr>)] (7 :: int) = (Inr bt', 8)
    \<and> (\<forall>b \<in> set bt'. \<exists>e. env_event b = Some e \<and> has_string_id e)"
proof -
  have id: "String_of i \<noteq> []" if "(\<lambda>n. (Inr (IdStr ''x''), n + 1)) w = (Inr i, w')" for w w' :: int and i
    using that by auto
  obtain b where b: "augment (\<lambda>n. (Inr (IdStr ''x''), n + 1)) [make_envelope None ((demo_event ''T'' ''a'' 0 [])\<lparr>event_id := None\<rparr>)] (7 :: int)
      = (Inr [b], 8)" "env_event b \<noteq> None"
    by (simp add: make_envelope_def has_string_id_def act_bind_def act_return_def)
  have "\<forall>c \<in> set [b]. \<forall>e. env_event c = Some e \<longrightarrow> has_string_id e" by (rule augment_assigns [OF id b(1)])
  with b show ?thesis by (auto simp del: augment.simps)
qed

end
