(* ===== verification/Handlers.thy ===== *)
theory Handlers
  imports Guards
begin

text \<open>
  How a class's methods become message handlers: \<open>src/utils/getHandler.ts\<close>,
  \<open>getMessageHandlerNames.ts\<close>, \<open>validateHandlers.ts\<close> and the type list of
  \<open>subscribe.ts\<close>. An instance is its own properties followed by its prototype chain.
\<close>

section \<open>Prototype chains\<close>

text \<open>
  A property descriptor holds a value, or a getter (the model keeps the value the getter
  returns). A layer is one object's own properties; a chain starts at the object itself.
\<close>

datatype pdesc = DataProp jsval | AccessorProp jsval

fun prop_value :: "pdesc \<Rightarrow> jsval" where
  "prop_value (DataProp v) = v"
| "prop_value (AccessorProp v) = v"

text \<open>\<open>propDescriptors[key].value\<close>: \<open>undefined\<close> for an accessor.\<close>

fun descriptor_value :: "pdesc \<Rightarrow> jsval" where
  "descriptor_value (DataProp v) = v"
| "descriptor_value (AccessorProp _) = JUndef"

type_synonym layer = "(string \<times> pdesc) list"
type_synonym chain = "layer list"

primrec chain_lookup :: "chain \<Rightarrow> string \<Rightarrow> pdesc option" where
  "chain_lookup [] k = None"
| "chain_lookup (l # ls) k = (case map_of l k of Some p \<Rightarrow> Some p | None \<Rightarrow> chain_lookup ls k)"

text \<open>\<open>k in instance && typeof instance[k] === 'function'\<close>.\<close>

definition method_of :: "chain \<Rightarrow> string \<Rightarrow> jsval option" where
  "method_of c k = (case chain_lookup c k of
       Some p \<Rightarrow> if is_function (prop_value p) then Some (prop_value p) else None
     | None \<Rightarrow> None)"

section \<open>Handler lookup\<close>

definition getOptionalHandler :: "chain \<Rightarrow> string \<Rightarrow> jsval option result" where
  "getOptionalHandler inst messageType =
     res_bind (assertString (JStr messageType) ''messageType'') (\<lambda>_.
       case method_of inst messageType of
         Some h \<Rightarrow> Inr (Some h)
       | None \<Rightarrow> (case method_of inst (''_'' @ messageType) of
           Some h \<Rightarrow> Inr (Some h)
         | None \<Rightarrow> Inr None))"

definition getHandler :: "chain \<Rightarrow> string \<Rightarrow> jsval result" where
  "getHandler inst messageType =
     res_bind (getOptionalHandler inst messageType) (\<lambda>h.
       res_bind (assertFunction (case h of None \<Rightarrow> JNull | Some f \<Rightarrow> f) messageType) (\<lambda>_.
         Inr (case h of None \<Rightarrow> JNull | Some f \<Rightarrow> f)))"

primrec validate_each :: "chain \<Rightarrow> jsval list \<Rightarrow> unit result" where
  "validate_each inst [] = Inr ()"
| "validate_each inst (t # ts) =
     (case t of
        JStr type \<Rightarrow>
          res_bind (assertString t ''type'') (\<lambda>_.
          res_bind (getOptionalHandler inst type) (\<lambda>h.
            if h = None
            then Inl (GenericError ([CHR 0x27] @ type @ [CHR 0x27] @ '' handler is not defined or not a function''))
            else validate_each inst ts))
      | _ \<Rightarrow> (case assertString t ''type'' of Inl e \<Rightarrow> Inl e | Inr _ \<Rightarrow> Inr ()))"

text \<open>\<open>messageTypes\<close> is the static field of the instance's constructor that is checked.\<close>

definition validateHandlers :: "chain \<Rightarrow> jsval \<Rightarrow> string \<Rightarrow> unit result" where
  "validateHandlers inst messageTypes handlesFieldName =
     (if messageTypes = JUndef then Inr ()
      else res_bind (assertOptionalArray messageTypes handlesFieldName) (\<lambda>_.
        validate_each inst (case array_items messageTypes of None \<Rightarrow> [] | Some ts \<Rightarrow> ts)))"

section \<open>Handler names of a class\<close>

fun getInheritedPropertyNames :: "chain \<Rightarrow> string list" where
  "getInheritedPropertyNames [] = []"
| "getInheritedPropertyNames [_] = []"
| "getInheritedPropertyNames (_ # parent # rest) =
     map fst parent @ getInheritedPropertyNames (parent # rest)"

text \<open>
  \<open>protos\<close> is the prototype of the class and its parents, \<open>Object.prototype\<close> last. An empty
  chain is a value whose prototype cannot be resolved.
\<close>

definition getMessageHandlerNames :: "chain \<Rightarrow> string list result" where
  "getMessageHandlerNames protos = (case protos of
       [] \<Rightarrow> Inl (TypeError ''prototype cannot be resolved'')
     | own # _ \<Rightarrow> Inr (filter (\<lambda>key. take 1 key \<noteq> ''_''
          \<and> key \<notin> set (getInheritedPropertyNames protos)
          \<and> is_function (case map_of own key of None \<Rightarrow> JUndef | Some p \<Rightarrow> descriptor_value p))
          (map fst own)))"

text \<open>\<open>[...new Set(arr)]\<close>: the first occurrence of each element.\<close>

definition unique :: "'a list \<Rightarrow> 'a list" where
  "unique arr = fold set_add arr []"

section \<open>Properties of the lookup\<close>

lemma getInheritedPropertyNames_eq:
  "set (getInheritedPropertyNames protos) = (\<Union>l \<in> set (tl protos). fst ` set l)"
  by (induction protos rule: getInheritedPropertyNames.induct) auto

lemma method_of_function: "method_of c k = Some h \<Longrightarrow> is_function h"
  by (auto simp: method_of_def split: option.splits if_splits)

lemma getOptionalHandler_ok:
  "t \<noteq> [] \<Longrightarrow> getOptionalHandler c t =
     Inr (case method_of c t of Some h \<Rightarrow> Some h | None \<Rightarrow> method_of c (''_'' @ t))"
  by (simp add: getOptionalHandler_def assertString_def split: option.splits)

lemma getHandler_iff:
  "getHandler c t = Inr h \<longleftrightarrow> getOptionalHandler c t = Inr (Some h)"
proof
  assume "getHandler c t = Inr h"
  then show "getOptionalHandler c t = Inr (Some h)"
    by (auto simp: getHandler_def assert_simps split: option.splits)
next
  assume opt: "getOptionalHandler c t = Inr (Some h)"
  then have "is_function h"
    by (auto simp: getOptionalHandler_def dest: method_of_function split: option.splits)
  with opt show "getHandler c t = Inr h"
    by (cases h) (auto simp: getHandler_def assertFunction_def)
qed

lemma validate_each_ok:
  "validate_each c ts = Inr () \<longleftrightarrow>
     (\<forall>t \<in> set ts. \<exists>s h. t = JStr s \<and> s \<noteq> [] \<and> getOptionalHandler c s = Inr (Some h))"
proof (induction ts)
  case (Cons t ts)
  show ?case
    by (cases t) (auto simp: Cons assertString_def split: if_splits)
qed simp

text \<open>
  C40: every message type that \<open>validateHandlers\<close> accepted has a handler that \<open>getHandler\<close> finds, and
  the handler is a function: dispatching a declared type never fails for want of a method.
\<close>

theorem validated_types_have_handlers:
  assumes "validateHandlers c (JArr (map JStr ts)) f = Inr ()" and "t \<in> set ts"
  shows "\<exists>h. getHandler c t = Inr h \<and> is_function h"
proof -
  from assms obtain h where "getOptionalHandler c t = Inr (Some h)"
    by (fastforce simp: validateHandlers_def validate_each_ok)
  then show ?thesis
    by (auto simp: getHandler_iff getOptionalHandler_def dest: method_of_function split: option.splits)
qed

lemma validated_types_have_handlers_witness:
  "\<exists>h. getHandler [[], [(''_changed'', DataProp (JFun ''f'' []))]] ''changed'' = Inr h \<and> is_function h"
  using validated_types_have_handlers [of "[[], [(''_changed'', DataProp (JFun ''f'' []))]]" "[''changed'']" "''handles''" "''changed''"]
  by (simp add: validateHandlers_def assertOptionalArray_def assertString_def getOptionalHandler_def method_of_def)

lemma descriptor_function: "is_function (descriptor_value p) \<Longrightarrow> \<exists>v. p = DataProp v \<and> is_function v"
  by (cases p) auto

lemma handler_names_found:
  assumes "getMessageHandlerNames protos = Inr names" and "k \<in> set names" and "k \<noteq> []"
    and data: "\<forall>k'. map_of inst k' = None"
  shows "\<exists>h. getHandler (inst # protos) k = Inr h \<and> is_function h"
proof -
  from assms(1,2) obtain own rest where protos: "protos = own # rest"
    and fn: "is_function (case map_of own k of None \<Rightarrow> JUndef | Some p \<Rightarrow> descriptor_value p)"
    by (auto simp: getMessageHandlerNames_def split: list.splits)
  then obtain v where "map_of own k = Some (DataProp v)" "is_function v"
    by (cases "map_of own k") (auto dest: descriptor_function)
  with data protos have "method_of (inst # protos) k = Some v"
    by (simp add: method_of_def)
  with assms(3) \<open>is_function v\<close> show ?thesis
    by (auto simp: getHandler_iff getOptionalHandler_ok)
qed

lemma set_fold_set_add [simp]: "set (fold set_add xs ys) = set xs \<union> set ys"
  by (induction xs arbitrary: ys) auto

lemma distinct_fold_set_add: "distinct ys \<Longrightarrow> distinct (fold set_add xs ys)"
  by (induction xs arbitrary: ys) auto

lemma set_unique [simp]: "set (unique xs) = set xs" and distinct_unique [simp]: "distinct (unique xs)"
  by (simp_all add: unique_def distinct_fold_set_add)

end
