(* ===== verification/MessageBus.thy ===== *)
theory MessageBus
  imports Messages Handlers
begin

text \<open>
  The in-memory command and event bus (\<open>src/in-memory/InMemoryMessageBus.ts\<close>), the two ways
  of subscribing to it (\<open>src/utils/subscribe.ts\<close>, \<open>setupOneTimeEmitterSubscription.ts\<close>) and
  the \<open>IObservable\<close> interface between them as a locale. A handler is a value of type \<open>'h\<close>,
  compared by identity as a JavaScript function is; what it does when called is a parameter.
\<close>

section \<open>The bus\<close>

datatype 'h bus = Bus
  (handlers: "(string, 'h list) jsmap")
  (uniqueEventHandlers: bool)
  (queueName: "string option")
  (queues: "(string \<times> 'h bus) list")

text \<open>\<open>new InMemoryMessageBus({ queueName, uniqueEventHandlers })\<close>.\<close>

definition new_bus :: "string option \<Rightarrow> bool option \<Rightarrow> 'h bus" where
  "new_bus qn uniq = Bus []
     (case uniq of Some u \<Rightarrow> u | None \<Rightarrow> (case qn of None \<Rightarrow> False | Some s \<Rightarrow> s \<noteq> [])) qn []"

definition handlers_for :: "'h bus \<Rightarrow> string \<Rightarrow> 'h list" where
  "handlers_for b t = (case map_of (handlers b) t of None \<Rightarrow> [] | Some hs \<Rightarrow> hs)"

definition with_handlers :: "(string, 'h list) jsmap \<Rightarrow> 'h bus \<Rightarrow> 'h bus" where
  "with_handlers hs b = Bus hs (uniqueEventHandlers b) (queueName b) (queues b)"

definition quoted :: "string \<Rightarrow> string" where
  "quoted s = CHR 0x22 # s @ [CHR 0x22]"

definition on :: "string \<Rightarrow> 'h \<Rightarrow> 'h bus \<Rightarrow> 'h bus result" where
  "on messageType handler b =
     res_bind (assertString (JStr messageType) ''messageType'') (\<lambda>_.
       if \<not> map_has (handlers b) messageType
       then Inr (with_handlers (AList.update messageType [handler] (handlers b)) b)
       else if uniqueEventHandlers b
       then Inl (GenericError (quoted messageType @ '' handler is already set up on the ''
              @ quoted (case queueName b of None \<Rightarrow> ''undefined'' | Some q \<Rightarrow> q) @ '' queue''))
       else Inr (with_handlers
              (AList.update messageType (set_add handler (handlers_for b messageType)) (handlers b)) b))"

definition off :: "string \<Rightarrow> 'h \<Rightarrow> 'h bus \<Rightarrow> 'h bus result" where
  "off messageType handler b =
     res_bind (assertString (JStr messageType) ''messageType'') (\<lambda>_.
       if \<not> map_has (handlers b) messageType
       then Inl (GenericError (''No '' @ messageType @ '' subscribers found''))
       else Inr (with_handlers
              (AList.update messageType (remove1 handler (handlers_for b messageType)) (handlers b)) b))"

text \<open>\<open>queue(name)\<close>: the named queue and the bus that now has it.\<close>

definition queue :: "string \<Rightarrow> 'h bus \<Rightarrow> 'h bus \<times> 'h bus" where
  "queue qn b = (case map_of (queues b) qn of
       Some q \<Rightarrow> (q, b)
     | None \<Rightarrow> (let q = new_bus (Some qn) (Some True)
         in (q, Bus (handlers b) (uniqueEventHandlers b) (queueName b) (AList.update qn q (queues b)))))"

definition set_queue :: "string \<Rightarrow> 'h bus \<Rightarrow> 'h bus \<Rightarrow> 'h bus" where
  "set_queue qn q b = Bus (handlers b) (uniqueEventHandlers b) (queueName b) (AList.update qn q (queues b))"

section \<open>Sending a command\<close>

record command_options =
  opt_payload :: "jsval option"
  opt_context :: "jsval option"
  opt_sagaOrigins :: "(string, string) jsmap option"

text \<open>\<open>{ type, aggregateId, payload: undefined, ...options }\<close>.\<close>

definition build_command :: "string \<Rightarrow> ident option \<Rightarrow> command_options option \<Rightarrow> command" where
  "build_command t aid options = \<lparr>msg_type = t, aggregateId = aid, aggregateVersion = None,
     sagaOrigins = Option.bind options opt_sagaOrigins,
     payload = (case Option.bind options opt_payload of None \<Rightarrow> JUndef | Some p \<Rightarrow> p),
     msg_context = Option.bind options opt_context\<rparr>"

definition apostrophed :: "string \<Rightarrow> string" where
  "apostrophed s = CHR 0x27 # s @ [CHR 0x27]"

text \<open>The handler a command is delivered to, or why it is not delivered.\<close>

definition send :: "command \<Rightarrow> 'h bus \<Rightarrow> 'h result" where
  "send command b =
     (if \<not> message_ok command then Inl (TypeError ''command must be a valid IMessage'')
      else (case handlers_for b (msg_type command) of
          [] \<Rightarrow> Inl (GenericError (''No '' @ apostrophed (msg_type command) @ '' subscribers found''))
        | [h] \<Rightarrow> Inr h
        | _ \<Rightarrow> Inl (GenericError (''More than one '' @ apostrophed (msg_type command) @ '' subscriber found''))))"

section \<open>Publishing an event\<close>

text \<open>
  Every handler of the type is called, in subscription order, and then those of the named
  queues; one that throws becomes a rejected promise and the rest are called all the same.
\<close>

fun publish_calls :: "string \<Rightarrow> 'h bus \<Rightarrow> 'h list" where
  "publish_calls t (Bus hs u qn qs) =
     (case map_of hs t of None \<Rightarrow> [] | Some l \<Rightarrow> l) @ concat (map (\<lambda>q. publish_calls t (snd q)) qs)"

text \<open>The promises: \<open>run h\<close> is how the call of \<open>h\<close> on this event settles.\<close>

definition publish ::
  "('h \<Rightarrow> event \<Rightarrow> unit result) \<Rightarrow> event \<Rightarrow> 'h bus \<Rightarrow> ('h \<times> unit result) list result" where
  "publish run e b =
     (if \<not> message_ok e then Inl (TypeError ''event must be a valid IEvent'')
      else Inr (map (\<lambda>h. (h, run h e)) (publish_calls (msg_type e) b)))"

text \<open>\<open>Promise.all\<close> fulfils exactly when every promise does.\<close>

definition all_fulfilled :: "('h \<times> unit result) list \<Rightarrow> bool" where
  "all_fulfilled ps = list_all (\<lambda>(h, r). r = Inr ()) ps"

section \<open>The invariant: handlers are sets, queues keep one subscriber\<close>

definition sets_ok :: "(string, 'h list) jsmap \<Rightarrow> bool \<Rightarrow> bool" where
  "sets_ok hs u \<longleftrightarrow> (\<forall>t l. map_of hs t = Some l \<longrightarrow> t \<noteq> [] \<and> distinct l \<and> (u \<longrightarrow> length l \<le> 1))"

fun bus_ok :: "'h bus \<Rightarrow> bool" where
  "bus_ok (Bus hs u qn qs) \<longleftrightarrow> sets_ok hs u
     \<and> (\<forall>q \<in> set qs. uniqueEventHandlers (snd q) \<and> bus_ok (snd q))"

lemma bus_ok_iff:
  "bus_ok b \<longleftrightarrow> sets_ok (handlers b) (uniqueEventHandlers b)
     \<and> (\<forall>q \<in> set (queues b). uniqueEventHandlers (snd q) \<and> bus_ok (snd q))"
  using bus_ok.simps [of "handlers b" "uniqueEventHandlers b" "queueName b" "queues b"]
  unfolding bus.collapse .

lemma sets_ok_update:
  "sets_ok hs u \<Longrightarrow> t \<noteq> [] \<Longrightarrow> distinct l \<Longrightarrow> u \<longrightarrow> length l \<le> 1 \<Longrightarrow> sets_ok (AList.update t l hs) u"
  by (simp add: sets_ok_def)

lemma with_handlers_sel [simp]:
  "handlers (with_handlers hs b) = hs" "queues (with_handlers hs b) = queues b"
  "uniqueEventHandlers (with_handlers hs b) = uniqueEventHandlers b"
  "queueName (with_handlers hs b) = queueName b" "with_handlers hs (with_handlers hs' b) = with_handlers hs b"
  by (simp_all add: with_handlers_def)

lemma bus_ok_with_handlers:
  "bus_ok (with_handlers hs b) \<longleftrightarrow> sets_ok hs (uniqueEventHandlers b)
     \<and> (\<forall>q \<in> set (queues b). uniqueEventHandlers (snd q) \<and> bus_ok (snd q))"
  by (simp add: bus_ok_iff [of "with_handlers hs b"])

lemma handlers_for_ok:
  "bus_ok b \<Longrightarrow> distinct (handlers_for b t) \<and> (uniqueEventHandlers b \<longrightarrow> length (handlers_for b t) \<le> 1)"
  by (auto simp: bus_ok_iff [of b] sets_ok_def handlers_for_def split: option.splits)

lemma handlers_for_mem:
  assumes "bus_ok b" and "h \<in> set (handlers_for b t)"
  shows "t \<noteq> [] \<and> map_has (handlers b) t"
proof -
  from assms(2) obtain l where "map_of (handlers b) t = Some l"
    by (cases "map_of (handlers b) t") (auto simp: handlers_for_def)
  with assms(1) show ?thesis by (auto simp: bus_ok_iff [of b] sets_ok_def map_has_def)
qed

lemma handlers_for_with [simp]:
  "handlers_for (with_handlers (AList.update t l hs) b) u =
     (if u = t then l else handlers_for (with_handlers hs b) u)"
  "handlers_for (with_handlers (handlers b) b) u = handlers_for b u"
  by (simp_all add: handlers_for_def)

lemma on_ok_iff:
  "on t h b = Inr b' \<longleftrightarrow> t \<noteq> [] \<and> (map_has (handlers b) t \<longrightarrow> \<not> uniqueEventHandlers b)
     \<and> b' = with_handlers (AList.update t (set_add h (handlers_for b t)) (handlers b)) b"
  by (auto simp: on_def assert_simps handlers_for_def map_has_def set_add_def split: if_splits)

lemma off_ok_iff:
  "off t h b = Inr b' \<longleftrightarrow> t \<noteq> [] \<and> map_has (handlers b) t
     \<and> b' = with_handlers (AList.update t (remove1 h (handlers_for b t)) (handlers b)) b"
  by (auto simp: off_def assert_simps split: if_splits)

lemma bus_ok_update:
  assumes "bus_ok b" and "t \<noteq> []" and "distinct l" and "uniqueEventHandlers b \<longrightarrow> length l \<le> 1"
  shows "bus_ok (with_handlers (AList.update t l (handlers b)) b)"
  using assms by (simp add: bus_ok_with_handlers bus_ok_iff [of b] sets_ok_update)

lemma bus_ok_on:
  assumes "bus_ok b" and "on t h b = Inr b'"
  shows "bus_ok b'"
proof -
  have *: "b' = with_handlers (AList.update t (set_add h (handlers_for b t)) (handlers b)) b" "t \<noteq> []"
    and "uniqueEventHandlers b \<longrightarrow> handlers_for b t = []"
    using assms(2) by (auto simp: on_ok_iff handlers_for_def map_has_def)
  then have "uniqueEventHandlers b \<longrightarrow> length (set_add h (handlers_for b t)) \<le> 1"
    by (auto simp: set_add_def)
  with * handlers_for_ok [OF assms(1), of t] show ?thesis by (simp add: bus_ok_update assms(1))
qed

lemma bus_ok_off:
  assumes "bus_ok b" and "off t h b = Inr b'"
  shows "bus_ok b'"
proof -
  have *: "b' = with_handlers (AList.update t (remove1 h (handlers_for b t)) (handlers b)) b" "t \<noteq> []"
    using assms(2) by (auto simp: off_ok_iff)
  have "length (remove1 h (handlers_for b t)) \<le> length (handlers_for b t)"
    by (simp add: length_remove1)
  with handlers_for_ok [OF assms(1), of t]
  have "uniqueEventHandlers b \<longrightarrow> length (remove1 h (handlers_for b t)) \<le> 1" by linarith
  with * handlers_for_ok [OF assms(1), of t] show ?thesis
    by (simp add: bus_ok_update assms(1) distinct_remove1)
qed

lemma bus_ok_new: "bus_ok (new_bus qn u)"
  by (simp add: new_bus_def sets_ok_def)

lemma bus_ok_queue:
  assumes "bus_ok b" and "queue qn b = (q, b')"
  shows "bus_ok q \<and> uniqueEventHandlers q \<and> map_of (queues b') qn = Some q"
proof (cases "map_of (queues b) qn")
  case None
  with assms show ?thesis by (auto simp: queue_def Let_def new_bus_def sets_ok_def)
next
  case (Some q')
  with assms(2) have "(qn, q) \<in> set (queues b)" by (auto simp: queue_def dest: map_of_SomeD)
  with assms Some show ?thesis by (auto simp: queue_def bus_ok_iff [of b])
qed

section \<open>Observables\<close>

text \<open>
  What a subscriber relies on (\<open>IObservable\<close>): \<open>on\<close> adds a handler to those of a type, \<open>off\<close>
  removes it, and neither touches another type.
\<close>

locale observable =
  fixes listen :: "string \<Rightarrow> 'h \<Rightarrow> 'b \<Rightarrow> 'b result"
    and unlisten :: "string \<Rightarrow> 'h \<Rightarrow> 'b \<Rightarrow> 'b result"
    and subs :: "'b \<Rightarrow> string \<Rightarrow> 'h list"
    and obs_ok :: "'b \<Rightarrow> bool"
  assumes ok_listen: "obs_ok b \<Longrightarrow> listen t h b = Inr b' \<Longrightarrow> obs_ok b'"
    and ok_unlisten: "obs_ok b \<Longrightarrow> unlisten t h b = Inr b' \<Longrightarrow> obs_ok b'"
    and subs_listen: "obs_ok b \<Longrightarrow> listen t h b = Inr b' \<Longrightarrow>
        set (subs b' u) = (if u = t then insert h (set (subs b u)) else set (subs b u))"
    and subs_unlisten: "obs_ok b \<Longrightarrow> unlisten t h b = Inr b' \<Longrightarrow>
        set (subs b' u) = (if u = t then set (subs b u) - {h} else set (subs b u))"
    and unlisten_total: "obs_ok b \<Longrightarrow> h \<in> set (subs b t) \<Longrightarrow> \<exists>b'. unlisten t h b = Inr b'"

text \<open>
  The loops \<open>for (const messageType of messageTypes) emitter.on(...)\<close> and \<open>emitter.off(...)\<close>,
  over any observable.
\<close>

primrec on_each :: "(string \<Rightarrow> 'h \<Rightarrow> 'b \<Rightarrow> 'b result) \<Rightarrow> string list \<Rightarrow> 'h \<Rightarrow> ('b, unit) act" where
  "on_each f [] h b = (Inr (), b)"
| "on_each f (t # ts) h b = (case f t h b of Inl e \<Rightarrow> (Inl e, b) | Inr b' \<Rightarrow> on_each f ts h b')"

context observable begin

lemma listen_each:
  "obs_ok b \<Longrightarrow> on_each listen ts h b = (Inr (), b') \<Longrightarrow>
     obs_ok b' \<and> (\<forall>u. set (subs b' u) = (if u \<in> set ts then insert h (set (subs b u)) else set (subs b u)))"
proof (induction ts arbitrary: b)
  case (Cons t ts)
  from Cons.prems obtain b1 where b1: "listen t h b = Inr b1" "on_each listen ts h b1 = (Inr (), b')"
    by (auto split: sum.splits)
  with Cons.IH [OF ok_listen [OF Cons.prems(1) b1(1)] b1(2)] subs_listen [OF Cons.prems(1) b1(1)]
  show ?case by auto
qed simp

text \<open>Unsubscribing from distinct types to which the handler is subscribed never fails.\<close>

lemma unlisten_each:
  "obs_ok b \<Longrightarrow> distinct ts \<Longrightarrow> \<forall>t \<in> set ts. h \<in> set (subs b t) \<Longrightarrow>
     \<exists>b'. on_each unlisten ts h b = (Inr (), b') \<and> obs_ok b' \<and>
       (\<forall>u. set (subs b' u) = (if u \<in> set ts then set (subs b u) - {h} else set (subs b u)))"
proof (induction ts arbitrary: b)
  case (Cons t ts)
  from Cons.prems unlisten_total [of b h t] obtain b1 where b1: "unlisten t h b = Inr b1" by auto
  note sub1 = subs_unlisten [OF Cons.prems(1) b1]
  have "obs_ok b1" using ok_unlisten [OF Cons.prems(1) b1] .
  moreover have "\<forall>u \<in> set ts. h \<in> set (subs b1 u)" using Cons.prems sub1 by auto
  ultimately obtain b' where "on_each unlisten ts h b1 = (Inr (), b')" "obs_ok b'"
    "\<forall>u. set (subs b' u) = (if u \<in> set ts then set (subs b1 u) - {h} else set (subs b1 u))"
    using Cons.IH [of b1] Cons.prems(2) by auto
  with b1 sub1 Cons.prems(2) show ?case by auto
qed simp

lemma listen_unlisten_each:
  assumes "obs_ok b" and "distinct ts" and "\<forall>t. h \<notin> set (subs b t)"
    and "on_each listen ts h b = (Inr (), b1)"
  shows "\<exists>b2. on_each unlisten ts h b1 = (Inr (), b2) \<and> obs_ok b2 \<and> (\<forall>u. set (subs b2 u) = set (subs b u))"
proof -
  note l = listen_each [OF assms(1,4)]
  have "\<forall>t \<in> set ts. h \<in> set (subs b1 t)" using l by auto
  from unlisten_each [OF _ assms(2) this] l assms(3) show ?thesis by fastforce
qed

end

interpretation bus: observable on off handlers_for bus_ok
proof
  fix b b' :: "'h bus" and t u h
  assume ok: "bus_ok b"
  show "on t h b = Inr b' \<Longrightarrow> bus_ok b'" using ok by (rule bus_ok_on)
  show "off t h b = Inr b' \<Longrightarrow> bus_ok b'" using ok by (rule bus_ok_off)
  show "on t h b = Inr b' \<Longrightarrow>
      set (handlers_for b' u) = (if u = t then insert h (set (handlers_for b u)) else set (handlers_for b u))"
    by (auto simp: on_ok_iff)
  show "off t h b = Inr b' \<Longrightarrow>
      set (handlers_for b' u) = (if u = t then set (handlers_for b u) - {h} else set (handlers_for b u))"
    using handlers_for_ok [OF ok, of t] by (auto simp: off_ok_iff)
  show "h \<in> set (handlers_for b t) \<Longrightarrow> \<exists>b'. off t h b = Inr b'"
    using handlers_for_mem [OF ok, of h t] by (simp add: off_ok_iff)
qed

section \<open>One-time subscriptions\<close>

text \<open>
  The closure of \<open>setupOneTimeEmitterSubscription\<close>: its \<open>handled\<close> flag, the emitter, the calls
  of the user's handler so far and the event its promise was resolved with. The emitter's two
  operations and the subscribed closure itself are parameters.
\<close>

record 'b one_time =
  handled :: bool
  emitter :: 'b
  handler_calls :: "event list"
  resolved :: "event option"

definition filteredHandler ::
  "(string \<Rightarrow> 'h \<Rightarrow> 'b \<Rightarrow> 'b result) \<Rightarrow> string list \<Rightarrow> 'h \<Rightarrow> (event \<Rightarrow> bool) option \<Rightarrow>
   (event \<Rightarrow> unit result) option \<Rightarrow> event \<Rightarrow> ('b one_time, unit) act" where
  "filteredHandler unlisten messageTypes self filt handler e s =
     (if (case filt of None \<Rightarrow> False | Some f \<Rightarrow> \<not> f e) then (Inr (), s)
      else if handled s then (Inr (), s)
      else (case on_each unlisten messageTypes self (emitter s) of
          (Inl err, b) \<Rightarrow> (Inl err, s\<lparr>handled := True, emitter := b\<rparr>)
        | (Inr _, b) \<Rightarrow>
            (let s1 = s\<lparr>handled := True, emitter := b\<rparr>
             in case handler of
                 None \<Rightarrow> (Inr (), s1\<lparr>resolved := Some e\<rparr>)
               | Some h \<Rightarrow> (let s2 = s1\<lparr>handler_calls := handler_calls s1 @ [e]\<rparr>
                   in case h e of Inl err \<Rightarrow> (Inl err, s2) | Inr _ \<Rightarrow> (Inr (), s2\<lparr>resolved := Some e\<rparr>)))))"

definition setupOneTimeEmitterSubscription ::
  "(string \<Rightarrow> 'h \<Rightarrow> 'b \<Rightarrow> 'b result) \<Rightarrow> string list \<Rightarrow> 'h \<Rightarrow> 'b \<Rightarrow> unit result \<times> 'b one_time" where
  "setupOneTimeEmitterSubscription listen messageTypes self em =
     (let s = \<lparr>handled = False, emitter = em, handler_calls = [], resolved = None\<rparr>
      in case assertStringArray (JArr (map JStr messageTypes)) ''messageTypes'' of
          Inl err \<Rightarrow> (Inl err, s)
        | Inr _ \<Rightarrow> (case on_each listen messageTypes self em of
            (r, b) \<Rightarrow> (r, s\<lparr>emitter := b\<rparr>)))"

text \<open>A run of deliveries; a delivery that throws does not stop the next one.\<close>

definition deliver_all ::
  "(string \<Rightarrow> 'h \<Rightarrow> 'b \<Rightarrow> 'b result) \<Rightarrow> string list \<Rightarrow> 'h \<Rightarrow> (event \<Rightarrow> bool) option \<Rightarrow>
   (event \<Rightarrow> unit result) option \<Rightarrow> event list \<Rightarrow> 'b one_time \<Rightarrow> 'b one_time" where
  "deliver_all unlisten ts self filt handler es s =
     fold (\<lambda>e s. snd (filteredHandler unlisten ts self filt handler e s)) es s"

definition passes :: "(event \<Rightarrow> bool) option \<Rightarrow> event \<Rightarrow> bool" where
  "passes filt e = (case filt of None \<Rightarrow> True | Some f \<Rightarrow> f e)"

lemma filteredHandler_handled:
  "handled s \<Longrightarrow> filteredHandler ul ts self filt h e s = (Inr (), s)"
  by (simp add: filteredHandler_def)

lemma filteredHandler_fails_filter:
  "\<not> passes filt e \<Longrightarrow> filteredHandler ul ts self filt h e s = (Inr (), s)"
  by (simp add: filteredHandler_def passes_def split: option.splits)

lemma deliver_all_handled: "handled s \<Longrightarrow> deliver_all ul ts self filt h es s = s"
  by (induction es) (simp_all add: deliver_all_def filteredHandler_handled)

lemma deliver_all_Cons:
  "deliver_all ul ts self filt h (e # es) s =
     deliver_all ul ts self filt h es (snd (filteredHandler ul ts self filt h e s))"
  by (simp add: deliver_all_def)

lemma filteredHandler_fires:
  assumes "passes filt e" and "\<not> handled s" and "on_each ul ts self (emitter s) = (Inr (), b)"
  shows "snd (filteredHandler ul ts self filt h e s) =
     s\<lparr>handled := True, emitter := b,
       handler_calls := handler_calls s @ (if h = None then [] else [e]),
       resolved := (if (case h of None \<Rightarrow> True | Some f \<Rightarrow> f e = Inr ()) then Some e else resolved s)\<rparr>"
  using assms by (auto simp: filteredHandler_def passes_def Let_def split: option.splits sum.splits)

text \<open>Over any observable: the user's handler runs for the first event that passes, and only for it.\<close>

context observable begin

lemma one_time_fires_once:
  assumes "obs_ok b" and "distinct ts" and "\<forall>t. self \<notin> set (subs b t)"
    and "setupOneTimeEmitterSubscription listen ts self b = (Inr (), s)"
    and "s' = deliver_all unlisten ts self filt (Some h) es s"
  shows "handler_calls s' = (case find (passes filt) es of None \<Rightarrow> [] | Some e \<Rightarrow> [e])
    \<and> (find (passes filt) es \<noteq> None \<longrightarrow> (\<forall>u. set (subs (emitter s') u) = set (subs b u)))"
proof -
  from assms(4) obtain b1 where on: "on_each listen ts self b = (Inr (), b1)"
    and s: "s = \<lparr>handled = False, emitter = b1, handler_calls = [], resolved = None\<rparr>"
    by (auto simp: setupOneTimeEmitterSubscription_def Let_def split: sum.splits prod.splits)
  from listen_unlisten_each [OF assms(1-3) on] obtain b2
    where off: "on_each unlisten ts self b1 = (Inr (), b2)" "\<forall>u. set (subs b2 u) = set (subs b u)"
    by blast
  have "handler_calls (deliver_all unlisten ts self filt (Some h) es s)
        = (case find (passes filt) es of None \<Rightarrow> [] | Some e \<Rightarrow> [e])
    \<and> (find (passes filt) es \<noteq> None \<longrightarrow> emitter (deliver_all unlisten ts self filt (Some h) es s) = b2)"
  proof (induction es)
    case Nil
    then show ?case by (simp add: deliver_all_def s)
  next
    case (Cons e es)
    show ?case
    proof (cases "passes filt e")
      case True
      have "\<not> handled s" "on_each unlisten ts self (emitter s) = (Inr (), b2)"
        using off(1) s by simp_all
      from filteredHandler_fires [OF True this, of "Some h"] True s
      show ?thesis by (simp add: deliver_all_Cons deliver_all_handled)
    next
      case False
      with Cons show ?thesis by (simp add: deliver_all_Cons filteredHandler_fails_filter)
    qed
  qed
  with off(2) assms(5) show ?thesis by auto
qed

end

section \<open>Subscribing an observer\<close>

text \<open>
  The arrow functions \<open>subscribe\<close> registers are fresh objects: \<open>Closure n h\<close> is the \<open>n\<close>-th one
  made and forwards to the handler \<open>h\<close>. The counter is threaded through.
\<close>

datatype closure = Closure nat jsval

fun forwards_to :: "closure \<Rightarrow> jsval" where
  "forwards_to (Closure _ h) = h"

definition getHandledMessageTypes :: "jsval list option \<Rightarrow> chain \<Rightarrow> jsval list result" where
  "getHandledMessageTypes handles protos = (case handles of
       Some ts \<Rightarrow> Inr ts
     | None \<Rightarrow> res_bind (getMessageHandlerNames protos) (\<lambda>ns. Inr (map JStr ns)))"

text \<open>One round of the loop; \<open>provider\<close> is \<open>isObservableQueueProvider(observable)\<close>.\<close>

definition subscribe_one ::
  "chain \<Rightarrow> jsval option \<Rightarrow> string option \<Rightarrow> bool \<Rightarrow> string \<Rightarrow> (closure bus \<times> nat, unit) act" where
  "subscribe_one observer masterHandler qn provider messageType bn =
     (case bn of (b, n) \<Rightarrow>
       (case (case masterHandler of Some m \<Rightarrow> Inr m | None \<Rightarrow> getHandler observer messageType) of
          Inl e \<Rightarrow> (Inl e, b, n)
        | Inr handler \<Rightarrow>
            (case qn of
               Some q \<Rightarrow>
                 (if \<not> provider then (Inl (TypeError ''Observer does not support named queues''), b, n)
                  else (case queue q b of (named, b1) \<Rightarrow>
                    (case on messageType (Closure n handler) named of
                       Inl e \<Rightarrow> (Inl e, b1, Suc n)
                     | Inr named' \<Rightarrow> (Inr (), set_queue q named' b1, Suc n))))
             | None \<Rightarrow>
                 (case on messageType (Closure n handler) b of
                    Inl e \<Rightarrow> (Inl e, b, Suc n)
                  | Inr b' \<Rightarrow> (Inr (), b', Suc n)))))"

primrec subscribe_each ::
  "chain \<Rightarrow> jsval option \<Rightarrow> string option \<Rightarrow> bool \<Rightarrow> string list \<Rightarrow> (closure bus \<times> nat, unit) act" where
  "subscribe_each observer m qn provider [] = act_return ()"
| "subscribe_each observer m qn provider (t # ts) =
     act_bind (subscribe_one observer m qn provider t) (\<lambda>_. subscribe_each observer m qn provider ts)"

fun js_string :: "jsval \<Rightarrow> string" where
  "js_string (JStr s) = s"
| "js_string _ = []"

text \<open>
  \<open>handles\<close> is the static field of the observer's class where it has one. A master handler
  that is given is truthy; an empty queue name is no queue name.
\<close>

definition subscribe ::
  "chain \<Rightarrow> jsval list option \<Rightarrow> jsval list option \<Rightarrow> jsval option \<Rightarrow> string option \<Rightarrow> bool \<Rightarrow>
   (closure bus \<times> nat, unit) act" where
  "subscribe observer handles messageTypes masterHandler qn provider =
     act_check (case masterHandler of None \<Rightarrow> Inr () | Some m \<Rightarrow> assertFunction m ''masterHandler'')
     (\<lambda>bn. case (case messageTypes of Some ts \<Rightarrow> Inr ts | None \<Rightarrow> getHandledMessageTypes handles (tl observer)) of
          Inl e \<Rightarrow> (Inl e, bn)
        | Inr subscribeTo \<Rightarrow>
            act_check (assertStringArray (JArr subscribeTo)
                ''either options.messageTypes, observer.handles or ObserverType.handles'')
              (subscribe_each observer masterHandler (if qn = Some [] then None else qn) provider
                (unique (map js_string subscribeTo))) bn)"

text \<open>What is registered where, for a subscription without a queue.\<close>

lemma subscribe_one_plain:
  "subscribe_one obs m None p t (b, n) = (Inr (), b', n') \<longleftrightarrow>
     n' = Suc n \<and> (\<exists>h. (case m of Some f \<Rightarrow> Inr f | None \<Rightarrow> getHandler obs t) = Inr h
        \<and> on t (Closure n h) b = Inr b')"
  by (auto simp: subscribe_one_def split: sum.splits option.splits)

lemma subscribe_each_plain:
  "subscribe_each obs m None p ts (b, n) = (Inr (), b', n') \<Longrightarrow> bus_ok b \<Longrightarrow> distinct ts \<Longrightarrow>
     bus_ok b' \<and> (\<forall>u. u \<notin> set ts \<longrightarrow> set (handlers_for b' u) = set (handlers_for b u))
     \<and> (\<forall>t \<in> set ts. \<exists>k h. (case m of Some f \<Rightarrow> Inr f | None \<Rightarrow> getHandler obs t) = Inr h
          \<and> n \<le> k \<and> set (handlers_for b' t) = insert (Closure k h) (set (handlers_for b t)))"
proof (induction ts arbitrary: b n)
  case (Cons t ts)
  from Cons.prems(1) obtain b1 n1 where one: "subscribe_one obs m None p t (b, n) = (Inr (), b1, n1)"
    and rest: "subscribe_each obs m None p ts (b1, n1) = (Inr (), b', n')"
    by (auto simp: act_bind_Inr_iff)
  from one obtain h where h: "(case m of Some f \<Rightarrow> Inr f | None \<Rightarrow> getHandler obs t) = Inr h"
    and on: "on t (Closure n h) b = Inr b1" and n1: "n1 = Suc n"
    by (auto simp: subscribe_one_plain)
  note s1 = bus.subs_listen [OF Cons.prems(2) on]
  have ih: "bus_ok b' \<and> (\<forall>u. u \<notin> set ts \<longrightarrow> set (handlers_for b' u) = set (handlers_for b1 u))
     \<and> (\<forall>t \<in> set ts. \<exists>k h. (case m of Some f \<Rightarrow> Inr f | None \<Rightarrow> getHandler obs t) = Inr h
          \<and> n1 \<le> k \<and> set (handlers_for b' t) = insert (Closure k h) (set (handlers_for b1 t)))"
    using Cons.IH [OF rest bus_ok_on [OF Cons.prems(2) on]] Cons.prems(3) by simp
  have "set (handlers_for b' t) = insert (Closure n h) (set (handlers_for b t))"
    using ih s1 Cons.prems(3) by simp
  moreover have "\<exists>k h. (case m of Some f \<Rightarrow> Inr f | None \<Rightarrow> getHandler obs u) = Inr h
      \<and> n \<le> k \<and> set (handlers_for b' u) = insert (Closure k h) (set (handlers_for b u))" if "u \<in> set ts" for u
  proof -
    have "u \<noteq> t" using that Cons.prems(3) by auto
    with ih that n1 s1 [of u] show ?thesis by (metis Suc_leD)
  qed
  ultimately show ?case using ih h s1 by auto
qed (simp add: act_simps)

lemma publish_calls_eq:
  "publish_calls t b = handlers_for b t @ concat (map (\<lambda>q. publish_calls t (snd q)) (queues b))"
  by (cases b) (simp add: handlers_for_def)

text \<open>What \<open>send\<close> promises: one handler, whichever way it was subscribed.\<close>

lemma send_iff:
  "send c b = Inr h \<longleftrightarrow> message_ok c \<and> handlers_for b (msg_type c) = [h]"
  by (auto simp: send_def split: list.splits)

lemma send_after_on:
  assumes "bus_ok b" and "handlers_for b t = []" and "on t h b = Inr b'" and "msg_type c = t"
  shows "send c b' = Inr h"
  using assms by (auto simp: send_iff on_ok_iff message_ok_def set_add_def)

text \<open>
  A one-time subscription on the in-memory bus. Whatever events are delivered to it, the
  handler runs for the first one that passes the filter and for no other, and from then on the
  bus has the handlers it had before.
\<close>

theorem bus_one_time_fires_once:
  assumes "bus_ok b" and "distinct ts" and "\<forall>t. self \<notin> set (handlers_for b t)"
    and "setupOneTimeEmitterSubscription on ts self b = (Inr (), s)"
    and "s' = deliver_all off ts self filt (Some h) es s"
  shows "handler_calls s' = (case find (passes filt) es of None \<Rightarrow> [] | Some e \<Rightarrow> [e])
    \<and> (find (passes filt) es \<noteq> None \<longrightarrow> (\<forall>u. set (handlers_for (emitter s') u) = set (handlers_for b u)))"
  by (rule bus.one_time_fires_once [OF assms])

lemma bus_one_time_fires_once_witness:
  "\<exists>s. setupOneTimeEmitterSubscription on [''T'', ''U''] (0 :: nat) (new_bus None None) = (Inr (), s) \<and>
     handler_calls (deliver_all off [''T'', ''U''] 0 (Some (\<lambda>e. event_id e = Some (IdStr ''2''))) (Some (\<lambda>_. Inr ()))
       [demo_event ''T'' ''a'' 0 ''1'', demo_event ''U'' ''a'' 1 ''2'', demo_event ''T'' ''a'' 2 ''2''] s) = [demo_event ''U'' ''a'' 1 ''2'']"
proof -
  have ok: "bus_ok (new_bus None None :: nat bus)" by (rule bus_ok_new)
  have none: "\<forall>t. 0 \<notin> set (handlers_for (new_bus None None :: nat bus) t)" by (simp add: new_bus_def handlers_for_def)
  obtain s where s: "setupOneTimeEmitterSubscription on [''T'', ''U''] (0 :: nat) (new_bus None None) = (Inr (), s)"
    by (simp add: setupOneTimeEmitterSubscription_def new_bus_def on_def handlers_for_def with_handlers_def
        assertStringArray_def assertString_def map_has_def Let_def)
  from bus_one_time_fires_once [OF ok _ none s refl, of "Some (\<lambda>e. event_id e = Some (IdStr ''2''))" "\<lambda>_. Inr ()"
      "[demo_event ''T'' ''a'' 0 ''1'', demo_event ''U'' ''a'' 1 ''2'', demo_event ''T'' ''a'' 2 ''2'']"] s
  show ?thesis by (simp add: passes_def)
qed

end
