(* ===== verification/EventStore.thy ===== *)
theory EventStore
  imports EventStorage SnapshotStorage Pipeline MessageBus
begin

text \<open>
  The event store facade (\<open>src/EventStore.ts\<close>) over a storage reader, an optional snapshot
  storage, a dispatcher and a bus, and its in-memory composition: the pipeline
  \<open>[eventStorage, snapshotStorage]\<close> that \<open>src/CqrsContainerBuilder.ts\<close> registers, on a world that
  holds both storages.
\<close>

section \<open>Reading through the store\<close>

text \<open>A storage reader on a world \<open>'w\<close>.\<close>

record 'w reader =
  read_aggregate :: "ident \<Rightarrow> aggregate_query \<Rightarrow> 'w \<Rightarrow> event list"
  read_saga :: "ident \<Rightarrow> event \<Rightarrow> 'w \<Rightarrow> event list result"
  read_types :: "string list \<Rightarrow> event option \<Rightarrow> 'w \<Rightarrow> event list result"

text \<open>The stream of an aggregate: its snapshot, from the query or the snapshot storage, first.\<close>

definition store_getAggregateEvents ::
  "'w reader \<Rightarrow> (ident \<Rightarrow> 'w \<Rightarrow> event option) option \<Rightarrow> ident option \<Rightarrow> aggregate_query \<Rightarrow> 'w \<Rightarrow>
   event list result" where
  "store_getAggregateEvents rd snaps aid options w =
     res_bind (assert_id_defined aid ''aggregateId'') (\<lambda>a.
       let snapshot = (case q_snapshot options of
             Some e \<Rightarrow> Some e
           | None \<Rightarrow> (case snaps of None \<Rightarrow> None | Some get \<Rightarrow> get a w))
       in Inr ((case snapshot of None \<Rightarrow> [] | Some e \<Rightarrow> [e])
            @ read_aggregate rd a (options\<lparr>q_snapshot := snapshot\<rparr>) w))"

definition store_getSagaEvents ::
  "'w reader \<Rightarrow> ident option \<Rightarrow> event \<Rightarrow> 'w \<Rightarrow> event list result" where
  "store_getSagaEvents rd sagaId beforeEvent w =
     res_bind (assert_id_defined sagaId ''sagaId'') (\<lambda>sid.
     res_bind (assert_id_defined (event_id beforeEvent) ''filter.beforeEvent.id'') (\<lambda>_.
     res_bind (parseSagaId sid) (\<lambda>(sagaDescriptor, originEventId).
       if saga_origin beforeEvent sagaDescriptor \<noteq> Some originEventId
       then Inl (TypeError ''filter.beforeEvent.sagaOrigins does not match sagaId'')
       else read_saga rd sid beforeEvent w)))"

definition store_getEventsByTypes ::
  "'w reader \<Rightarrow> string list \<Rightarrow> event option \<Rightarrow> 'w \<Rightarrow> event list result" where
  "store_getEventsByTypes rd eventTypes afterEvent w =
     res_bind (assertStringArray (JArr (map JStr eventTypes)) ''eventTypes'')
       (\<lambda>_. read_types rd eventTypes afterEvent w)"

text \<open>\<open>dispatch\<close>: the meta data says \<open>origin: 'internal'\<close> unless the caller says otherwise.\<close>

definition store_meta :: "dispatch_meta option \<Rightarrow> dispatch_meta" where
  "store_meta meta = \<lparr>meta_origin = (case Option.bind meta meta_origin of None \<Rightarrow> Some ''internal'' | o1 \<Rightarrow> o1),
     meta_ignoreConc = (case meta of None \<Rightarrow> False | Some m \<Rightarrow> meta_ignoreConc m)\<rparr>"

definition store_dispatch ::
  "(event \<Rightarrow> unit result) \<Rightarrow> event list \<Rightarrow> dispatch_meta option \<Rightarrow> 'w dispatcher \<times> 'w \<Rightarrow>
   outcome \<times> event list \<times> 'w dispatcher \<times> 'w" where
  "store_dispatch pub evs meta dw = dispatch pub evs (Some (store_meta meta)) dw"

text \<open>\<open>once\<close> for one type or several, on the store's bus.\<close>

definition store_once :: "string list \<Rightarrow> 'h \<Rightarrow> 'h bus \<Rightarrow> unit result \<times> 'h bus one_time" where
  "store_once messageTypes self b = setupOneTimeEmitterSubscription on messageTypes self b"

section \<open>The in-memory world\<close>

record mem_world =
  w_storage :: mem_storage
  w_snaps :: snapshots

definition on_storage :: "(mem_storage, 'a) act \<Rightarrow> (mem_world, 'a) act" where
  "on_storage f w = (case f (w_storage w) of (r, s) \<Rightarrow> (r, w\<lparr>w_storage := s\<rparr>))"

definition on_snaps :: "(snapshots, 'a) act \<Rightarrow> (mem_world, 'a) act" where
  "on_snaps f w = (case f (w_snaps w) of (r, s) \<Rightarrow> (r, w\<lparr>w_snaps := s\<rparr>))"

definition storage_processor :: "mem_world processor" where
  "storage_processor = \<lparr>proc_process = \<lambda>bt. on_storage (storage_process bt), proc_revert = None\<rparr>"

definition snapshot_processor :: "mem_world processor" where
  "snapshot_processor = \<lparr>proc_process = \<lambda>bt. on_snaps (snapshot_process bt),
     proc_revert = Some (\<lambda>bt. on_snaps (snapshot_revert bt))\<rparr>"

definition default_processors :: "mem_world processor list" where
  "default_processors = [storage_processor, snapshot_processor]"

definition mem_reader :: "mem_world reader" where
  "mem_reader = \<lparr>read_aggregate = \<lambda>a q w. getAggregateEvents a q (w_storage w),
     read_saga = \<lambda>sid e w. getSagaEvents sid e (w_storage w),
     read_types = \<lambda>ts e w. getEventsByTypes ts e (w_storage w)\<rparr>"

definition mem_snapshot_lookup :: "ident \<Rightarrow> mem_world \<Rightarrow> event option" where
  "mem_snapshot_lookup a w = getAggregateSnapshot a (w_snaps w)"

section \<open>Dispatching to the in-memory world\<close>

lemma batch_events_envelopes [simp]: "batch_events (map (make_envelope m) evs) = Inr evs"
  by (induction evs) (simp_all add: make_envelope_def)

lemma publishable_envelopes [simp]:
  "publishable (map (make_envelope m) evs) = filter (\<lambda>e. \<not> isSnapshotEvent e) evs"
  by (induction evs) (simp_all add: make_envelope_def)

lemma snapshot_events_envelopes [simp]:
  "snapshot_events (map (make_envelope m) evs) = filter isSnapshotEvent evs"
  by (induction evs) (simp_all add: make_envelope_def snapshot_events_def List.map_filter_def)

lemma batch_ignores_envelopes [simp]:
  "evs \<noteq> [] \<Longrightarrow> batch_ignores (map (make_envelope m) evs) = (case m of None \<Rightarrow> False | Some x \<Rightarrow> meta_ignoreConc x)"
  by (cases evs) (simp_all add: batch_ignores_def make_envelope_def)

lemma publishable_non_snapshots:
  "publishable (filter (\<lambda>b. \<not> env_is_snapshot b) bt) = publishable bt"
  by (induction bt) (auto simp: env_is_snapshot_def split: option.splits)

lemma storage_process_refused:
  assumes "evs \<noteq> []" and "set (version_keys (events s)) \<inter> set (version_keys evs) \<noteq> {}"
    and "case m of None \<Rightarrow> True | Some x \<Rightarrow> \<not> meta_ignoreConc x"
  shows "\<exists>e. storage_process (map (make_envelope m) evs) s = (Inl e, s) \<and> is_concurrency_error e"
proof -
  have "batch_ignores (map (make_envelope m) evs) = False"
    using assms(1,3) by (simp split: option.splits)
  with commitEvents_conflict [OF assms(2)] show ?thesis
    by (auto simp: storage_process_eq)
qed

lemma storage_process_accepts:
  assumes "evs \<noteq> []" and "set (version_keys (events s)) \<inter> set (version_keys evs) = {}"
  shows "storage_process (map (make_envelope m) evs) s =
     (Inr (map (make_envelope m) evs), s\<lparr>events := events s @ evs\<rparr>)"
  using assms by (simp add: storage_process_Inr commitEvents_ok)

text \<open>
  A batch with a conflict is refused as a whole: nothing stored, nothing published, the caller
  gets the \<open>ConcurrencyError\<close> - but the stored snapshots of aggregates for which the batch has a
  snapshot are removed, although the batch never stored one.
\<close>

lemma revert_default:
  "revert_all default_processors bt w = on_snaps (snapshot_revert bt) w"
  by (auto simp: default_processors_def storage_processor_def snapshot_processor_def act_simps
      act_bind_def split: prod.splits sum.splits)


text \<open>Without a conflict the storage appends the batch, then the snapshot storage takes its snapshots out.\<close>

lemma dispatch_accepted:
  assumes pub: "\<forall>e. pub e = Inr ()" and ne: "evs \<noteq> []"
    and free: "set (version_keys (events (w_storage w))) \<inter> set (version_keys evs) = {}"
    and ids: "\<forall>e \<in> set evs. isSnapshotEvent e \<longrightarrow> opt_id_truthy (aggregateId e)"
  shows "\<exists>w'. dispatch_one pub default_processors (map (make_envelope m) evs) w =
      (Resolved (filter (\<lambda>e. \<not> isSnapshotEvent e) evs), filter (\<lambda>e. \<not> isSnapshotEvent e) evs, w')
    \<and> events (w_storage w') = events (w_storage w) @ evs
    \<and> (\<forall>a. getAggregateSnapshot a (w_snaps w') =
        (case last_of a (filter isSnapshotEvent evs) of Some x \<Rightarrow> Some x
          | None \<Rightarrow> getAggregateSnapshot a (w_snaps w)))"
proof -
  define bt where "bt = map (make_envelope m) evs"
  define w1 where "w1 = w\<lparr>w_storage := (w_storage w)\<lparr>events := events (w_storage w) @ evs\<rparr>\<rparr>"
  have "\<forall>e \<in> set (filter isSnapshotEvent evs). \<forall>s. \<exists>s'. saveAggregateSnapshot e s = (Inr (), s')"
    using ids by (auto simp: save_ok opt_id_truthy_def split: option.splits)
  from for_events_total [OF this, of "w_snaps w"] obtain s2 where
    s2: "for_events saveAggregateSnapshot (filter isSnapshotEvent evs) (w_snaps w) = (Inr (), s2)" by (elim exE)
  have snap: "snapshot_process bt (w_snaps w) = (Inr (filter (\<lambda>b. \<not> env_is_snapshot b) bt), s2)"
    using s2 by (simp add: snapshot_process_Inr bt_def)
  have chain: "chain_process default_processors bt w = (Inr (filter (\<lambda>b. \<not> env_is_snapshot b) bt), w1\<lparr>w_snaps := s2\<rparr>)"
    using storage_process_accepts [OF ne free, of m] snap
    by (simp add: default_processors_def storage_processor_def snapshot_processor_def on_storage_def
        on_snaps_def bt_def w1_def)
  show ?thesis
    unfolding dispatch_one_eq [OF pub] bt_def [symmetric] chain
    using save_all_get [OF s2] by (simp add: publishable_non_snapshots w1_def) (simp add: bt_def)
qed

text \<open>
  A batch without a conflict, dispatched through the default pipeline, is appended to the log as it
  is, its snapshots become the latest ones of their aggregates, and all its events but the
  snapshots are published, in order.
\<close>

theorem default_accepts:
  assumes pub: "\<forall>e. pub e = Inr ()" and ne: "evs \<noteq> []"
    and free: "set (version_keys (events (w_storage w))) \<inter> set (version_keys evs) = {}"
    and ids: "\<forall>e \<in> set evs. isSnapshotEvent e \<longrightarrow> opt_id_truthy (aggregateId e)"
  shows "\<exists>w'. dispatch_one pub default_processors (map (make_envelope m) evs) w =
      (Resolved (filter (\<lambda>e. \<not> isSnapshotEvent e) evs), filter (\<lambda>e. \<not> isSnapshotEvent e) evs, w')
    \<and> events (w_storage w') = events (w_storage w) @ evs
    \<and> (\<forall>a. getAggregateSnapshot a (w_snaps w') =
        (case last_of a (filter isSnapshotEvent evs) of Some x \<Rightarrow> Some x
          | None \<Rightarrow> getAggregateSnapshot a (w_snaps w)))"
  using dispatch_accepted [OF assms] .

text \<open>An in-memory event store with one event.\<close>

definition demo_world :: mem_world where
  "demo_world = \<lparr>w_storage = \<lparr>nextId = 0, events = [demo_event ''T'' ''a'' 0 ''e1'']\<rparr>, w_snaps = []\<rparr>"

lemma default_accepts_witness:
  "\<exists>w'. dispatch_one (\<lambda>_. Inr ()) default_processors (map (make_envelope None) [demo_event ''T'' ''a'' 1 ''e2'']) demo_world
      = (Resolved [demo_event ''T'' ''a'' 1 ''e2''], [demo_event ''T'' ''a'' 1 ''e2''], w')
    \<and> events (w_storage w') = [demo_event ''T'' ''a'' 0 ''e1'', demo_event ''T'' ''a'' 1 ''e2'']"
  using default_accepts [of "\<lambda>_. Inr ()" "[demo_event ''T'' ''a'' 1 ''e2'']" demo_world None]
  by (auto simp: demo_world_def isSnapshotEvent_def SNAPSHOT_EVENT_TYPE_def)


end
