(* ===== verification/Aggregate.thy ===== *)
theory Aggregate
  imports Messages Handlers
begin

text \<open>
  \<open>src/AbstractAggregate.ts\<close> and \<open>src/utils/clone.ts\<close>: an aggregate rebuilt from its events,
  handling commands and emitting events. A class derived from \<open>AbstractAggregate\<close> is a record
  of its methods; the bodies the user writes are parameters: what a state's method does to the
  state's properties, and a command handler as a \<open>script\<close> that emits events and goes on with
  what \<open>emit\<close> returned or threw and with the state it sees then.
\<close>

section \<open>State and classes\<close>

text \<open>The own data properties of the state object; \<open>Object.assign\<close> overlays properties.\<close>

type_synonym props = "(string, jsval) jsmap"

definition object_assign :: "props \<Rightarrow> props \<Rightarrow> props" where
  "object_assign target source = fold (\<lambda>(k, v) t. AList.update k v t) source target"

text \<open>\<open>structuredClone\<close>: a copy, unless the value holds a function.\<close>

fun holds_function :: "jsval \<Rightarrow> bool" where
  "holds_function (JFun _ _) = True"
| "holds_function (JArr vs) = list_ex holds_function vs"
| "holds_function (JObj ps) = list_ex (\<lambda>p. holds_function (snd p)) ps"
| "holds_function _ = False"

definition clone :: "jsval \<Rightarrow> jsval result" where
  "clone v = (if holds_function v then Inl (GenericError ''DataCloneError'') else Inr v)"

record aggregate =
  agg_id :: ident
  version :: int
  snapshotVersion :: "int option"
  changes :: "event list"
  agg_state :: "props option"
  agg_command :: "command option"

type_synonym emitted = "event result \<times> props option"

datatype script =
    Finish
  | Fail js_error
  | Emit string jsval "emitted \<Rightarrow> script"

text \<open>
  What classes with a \<open>state\<close> object share: \<open>state_proto\<close> are the methods of the state's class,
  \<open>run_state_fn\<close> runs the one it is given on the state. An aggregate class adds its own methods
  \<open>agg_chain\<close>, the static \<open>handles\<close>, and \<open>run_command_fn\<close>, which runs the command handler it is given
  on payload, context, the command's meta data and the instance.
\<close>

record state_class =
  state_proto :: chain
  run_state_fn :: "jsval \<Rightarrow> event \<Rightarrow> (props, unit) act"

record aggregate_class = state_class +
  agg_chain :: chain
  agg_handles :: jsval
  run_command_fn :: "jsval \<Rightarrow> jsval \<Rightarrow> jsval option \<Rightarrow> command \<Rightarrow> aggregate \<Rightarrow> script"
  shouldTakeSnapshot :: "aggregate \<Rightarrow> bool"

definition state_chain :: "'a state_class_scheme \<Rightarrow> props \<Rightarrow> chain" where
  "state_chain cls st = map (\<lambda>(k, v). (k, DataProp v)) st # state_proto cls"

section \<open>Mutation\<close>

text \<open>The handler of the state: its \<open>mutate\<close> where it has one, else the one of the event type.\<close>

definition state_handler :: "'a state_class_scheme \<Rightarrow> props \<Rightarrow> string \<Rightarrow> jsval option result" where
  "state_handler cls st t = (case chain_lookup (state_chain cls st) ''mutate'' of
       Some p \<Rightarrow> Inr (if truthy (prop_value p) then Some (prop_value p) else None)
     | None \<Rightarrow> getOptionalHandler (state_chain cls st) t)"

definition call_state_handler :: "'a state_class_scheme \<Rightarrow> event \<Rightarrow> (props, unit) act" where
  "call_state_handler cls e st = (case state_handler cls st (msg_type e) of
       Inl err \<Rightarrow> (Inl err, st)
     | Inr None \<Rightarrow> (Inr (), st)
     | Inr (Some h) \<Rightarrow> if is_function h then run_state_fn cls h e st
         else (Inl (TypeError ''handler.call is not a function''), st))"

definition restoreSnapshot :: "event \<Rightarrow> (aggregate, unit) act" where
  "restoreSnapshot e a =
     (if \<not> isSnapshotEvent e then (Inl (TypeError ''snapshotEvent must be a valid ISnapshotEvent''), a)
      else (case agg_state a of
          None \<Rightarrow> (Inl (GenericError ''state property is empty, either defined state or override restoreSnapshot method''), a)
        | Some st \<Rightarrow> (case clone (payload e) of
            Inl err \<Rightarrow> (Inl err, a)
          | Inr p \<Rightarrow> (Inr (), a\<lparr>agg_state := Some (object_assign st (js_props p))\<rparr>))))"

definition apply_event :: "aggregate_class \<Rightarrow> event \<Rightarrow> (aggregate, unit) act" where
  "apply_event cls e a =
     (if msg_type e = SNAPSHOT_EVENT_TYPE
      then restoreSnapshot e (a\<lparr>snapshotVersion := aggregateVersion e\<rparr>)
      else (case agg_state a of
          None \<Rightarrow> (Inr (), a)
        | Some st \<Rightarrow> (case call_state_handler cls e st of
            (r, st') \<Rightarrow> (r, a\<lparr>agg_state := Some st'\<rparr>))))"

definition mutate :: "aggregate_class \<Rightarrow> event \<Rightarrow> (aggregate, unit) act" where
  "mutate cls e a =
     (let a1 = (case aggregateVersion e of None \<Rightarrow> a | Some v \<Rightarrow> a\<lparr>version := v\<rparr>)
      in case apply_event cls e a1 of
           (Inl err, a2) \<Rightarrow> (Inl err, a2)
         | (Inr _, a2) \<Rightarrow> (Inr (), a2\<lparr>version := version a2 + 1\<rparr>))"

primrec mutate_all :: "aggregate_class \<Rightarrow> event list \<Rightarrow> (aggregate, unit) act" where
  "mutate_all cls [] = act_return ()"
| "mutate_all cls (e # es) = act_bind (mutate cls e) (\<lambda>_. mutate_all cls es)"

text \<open>The constructor. A state given is an object, so it is truthy and passes its check.\<close>

definition blank_aggregate :: "ident \<Rightarrow> props option \<Rightarrow> aggregate" where
  "blank_aggregate i st = \<lparr>agg_id = i, version = 0, snapshotVersion = None, changes = [],
     agg_state = st, agg_command = None\<rparr>"

definition new_aggregate ::
  "aggregate_class \<Rightarrow> ident option \<Rightarrow> props option \<Rightarrow> event list \<Rightarrow> aggregate result" where
  "new_aggregate cls i st evs =
     res_bind (assert_id_defined i ''id'') (\<lambda>aid.
     res_bind (validateHandlers (agg_chain cls) (agg_handles cls) ''handles'') (\<lambda>_.
       case mutate_all cls evs (blank_aggregate aid st) of
         (Inl e, _) \<Rightarrow> Inl e
       | (Inr _, a) \<Rightarrow> Inr a))"

section \<open>Emitting\<close>

definition makeEvent :: "string \<Rightarrow> jsval \<Rightarrow> command option \<Rightarrow> aggregate \<Rightarrow> event" where
  "makeEvent t p source a = \<lparr>msg_type = t, aggregateId = Some (agg_id a), aggregateVersion = Some (version a),
     sagaOrigins = Option.bind source sagaOrigins, payload = p, msg_context = Option.bind source msg_context,
     event_id = None\<rparr>"

definition emitRaw :: "aggregate_class \<Rightarrow> event \<Rightarrow> (aggregate, unit) act" where
  "emitRaw cls e a =
     (case assert_id_defined (aggregateId e) ''event.aggregateId'' of
        Inl err \<Rightarrow> (Inl err, a)
      | Inr _ \<Rightarrow> (case aggregateVersion e of
          None \<Rightarrow> (Inl (TypeError ''event.aggregateVersion must be a number''), a)
        | Some _ \<Rightarrow> (case mutate cls e a of
            (Inl err, a') \<Rightarrow> (Inl err, a')
          | (Inr _, a') \<Rightarrow> (Inr (), a'\<lparr>changes := changes a' @ [e]\<rparr>))))"

definition emit :: "aggregate_class \<Rightarrow> string \<Rightarrow> jsval \<Rightarrow> (aggregate, event) act" where
  "emit cls t p a =
     (case assertString (JStr t) ''type'' of
        Inl err \<Rightarrow> (Inl err, a)
      | Inr _ \<Rightarrow> (let e = makeEvent t p (agg_command a) a
          in case emitRaw cls e a of (Inl err, a') \<Rightarrow> (Inl err, a') | (Inr _, a') \<Rightarrow> (Inr e, a')))"

definition makeSnapshot :: "aggregate \<Rightarrow> jsval result" where
  "makeSnapshot a = (case agg_state a of
       None \<Rightarrow> Inl (GenericError ''state property is empty, either define state or override makeSnapshot method'')
     | Some st \<Rightarrow> clone (JObj st))"

definition takeSnapshot :: "aggregate_class \<Rightarrow> (aggregate, unit) act" where
  "takeSnapshot cls a = (case makeSnapshot a of
       Inl err \<Rightarrow> (Inl err, a)
     | Inr p \<Rightarrow> (case emit cls SNAPSHOT_EVENT_TYPE p a of
           (Inl err, a') \<Rightarrow> (Inl err, a')
         | (Inr e, a') \<Rightarrow> (Inr (), a'\<lparr>snapshotVersion := aggregateVersion e\<rparr>)))"

definition getUncommittedEvents :: "aggregate_class \<Rightarrow> nat \<Rightarrow> (aggregate, event list) act" where
  "getUncommittedEvents cls offset a =
     (case (if shouldTakeSnapshot cls a then takeSnapshot cls a else (Inr (), a)) of
        (Inl err, a') \<Rightarrow> (Inl err, a')
      | (Inr _, a') \<Rightarrow> (Inr (drop offset (changes a')), a'))"

section \<open>Handling a command\<close>

primrec run_script :: "aggregate_class \<Rightarrow> script \<Rightarrow> (aggregate, unit) act" where
  "run_script cls Finish a = (Inr (), a)"
| "run_script cls (Fail e) a = (Inl e, a)"
| "run_script cls (Emit t p k) a =
     (case emit cls t p a of (r, a') \<Rightarrow> run_script cls (k (r, agg_state a')) a')"

definition handle :: "aggregate_class \<Rightarrow> command \<Rightarrow> (aggregate, event list) act" where
  "handle cls cmd a =
     (if \<not> message_ok cmd then (Inl (TypeError ''command must be a valid IMessage''), a)
      else (case getHandler (agg_chain cls) (msg_type cmd) of
          Inl err \<Rightarrow> (Inl err, a)
        | Inr h \<Rightarrow>
            if agg_command a \<noteq> None then (Inl (GenericError ''Another command is being processed''), a)
            else
              (let a1 = a\<lparr>agg_command := Some cmd\<rparr>; eventsOffset = length (changes a1)
               in case (case run_script cls (run_command_fn cls h (payload cmd) (msg_context cmd) cmd a1) a1 of
                      (Inl err, a2) \<Rightarrow> (Inl err, a2)
                    | (Inr _, a2) \<Rightarrow> getUncommittedEvents cls eventsOffset a2)
                  of (r, a3) \<Rightarrow> (r, a3\<lparr>agg_command := None\<rparr>))))"

section \<open>A counter\<close>

text \<open>A small class: the command \<open>increment\<close> emits \<open>incremented\<close>, whose method counts.\<close>

definition demo_class :: aggregate_class where
  "demo_class = \<lparr>state_proto = [[(''incremented'', DataProp (JFun ''incremented'' []))]],
     run_state_fn = \<lambda>f e st. (Inr (), AList.update ''n'' (case assoc_get st ''n'' of JNum n \<Rightarrow> JNum (n + 1) | v \<Rightarrow> v) st),
     agg_chain = [[], [(''increment'', DataProp (JFun ''increment'' []))]], agg_handles = JArr [JStr ''increment''],
     run_command_fn = \<lambda>h p c cmd a. Emit ''incremented'' JUndef (\<lambda>_. Finish), shouldTakeSnapshot = \<lambda>_. False\<rparr>"

definition demo_command :: "string \<Rightarrow> command" where
  "demo_command i = \<lparr>msg_type = ''increment'', aggregateId = Some (IdStr i), aggregateVersion = None,
     sagaOrigins = None, payload = JUndef, msg_context = None\<rparr>"

lemmas demo_defs = demo_class_def demo_command_def mutate_def apply_event_def call_state_handler_def state_handler_def
  state_chain_def getOptionalHandler_def getHandler_def method_of_def assertString_def assertFunction_def assoc_get_def
  blank_aggregate_def SNAPSHOT_EVENT_TYPE_def new_aggregate_def validateHandlers_def assertOptionalArray_def
  restoreSnapshot_def isSnapshotEvent_def message_ok_def clone_def object_assign_def assert_id_defined_def
  handle_def emit_def emitRaw_def makeEvent_def getUncommittedEvents_def act_return_def

section \<open>Versions\<close>

lemma apply_event_frame:
  "apply_event cls e a = (r, a') \<Longrightarrow> agg_id a' = agg_id a \<and> changes a' = changes a
     \<and> agg_command a' = agg_command a \<and> version a' = version a"
  by (auto simp: apply_event_def restoreSnapshot_def split: if_splits option.splits sum.splits prod.splits)

lemma mutate_frame:
  assumes "mutate cls e a = (r, a')"
  shows "agg_id a' = agg_id a \<and> changes a' = changes a \<and> agg_command a' = agg_command a
    \<and> version a' = (case aggregateVersion e of None \<Rightarrow> version a | Some v \<Rightarrow> v) + (case r of Inr _ \<Rightarrow> 1 | Inl _ \<Rightarrow> 0)"
proof -
  define a1 where "a1 = (case aggregateVersion e of None \<Rightarrow> a | Some v \<Rightarrow> a\<lparr>version := v\<rparr>)"
  have a1: "agg_id a1 = agg_id a" "changes a1 = changes a" "agg_command a1 = agg_command a"
    "version a1 = (case aggregateVersion e of None \<Rightarrow> version a | Some v \<Rightarrow> v)"
    by (simp_all add: a1_def split: option.split)
  obtain r1 a2 where ap: "apply_event cls e a1 = (r1, a2)" by (cases "apply_event cls e a1")
  have "mutate cls e a = (case r1 of Inl err \<Rightarrow> (Inl err, a2) | Inr _ \<Rightarrow> (Inr (), a2\<lparr>version := version a2 + 1\<rparr>))"
    using ap by (simp add: mutate_def a1_def [symmetric] split: sum.split)
  with assms apply_event_frame [OF ap] a1 show ?thesis by (auto split: sum.splits)
qed

text \<open>Events of one aggregate with consecutive versions.\<close>

primrec versions_from :: "ident \<Rightarrow> int \<Rightarrow> event list \<Rightarrow> bool" where
  "versions_from i v [] = True"
| "versions_from i v (e # es) \<longleftrightarrow> aggregateId e = Some i \<and> aggregateVersion e = Some v \<and> versions_from i (v + 1) es"

lemma versions_from_append:
  "versions_from i v (es @ fs) \<longleftrightarrow> versions_from i v es \<and> versions_from i (v + int (length es)) fs"
  by (induction es arbitrary: v) (auto simp: algebra_simps)

lemma versions_from_keys:
  "versions_from i v es \<Longrightarrow> k \<in> set (version_keys es) \<longleftrightarrow> fst k = i \<and> v \<le> snd k \<and> snd k < v + int (length es)"
proof (induction es arbitrary: v)
  case (Cons e es)
  from Cons.prems have "version_key e = Some (i, v)" by (simp add: version_key_iff)
  with Cons.IH [of "v + 1"] Cons.prems show ?case by (cases k) auto
qed simp

lemma versions_from_distinct: "versions_from i v es \<Longrightarrow> distinct (version_keys es)"
proof (induction es arbitrary: v)
  case (Cons e es)
  from Cons.prems have "version_key e = Some (i, v)" by (simp add: version_key_iff)
  with Cons.IH [of "v + 1"] Cons.prems versions_from_keys [of i "v + 1" es "(i, v)"] show ?case by simp
qed simp

text \<open>One \<open>emit\<close> that succeeds, and one that fails.\<close>

lemma emit_Inr:
  assumes "emit cls t p a = (Inr e, a')"
  shows "e = makeEvent t p (agg_command a) a \<and>
    (\<exists>a1. mutate cls e a = (Inr (), a1) \<and> a' = a1\<lparr>changes := changes a1 @ [e]\<rparr>)"
  using assms by (auto simp: emit_def emitRaw_def Let_def split: sum.splits option.splits prod.splits)

lemma emit_Inl:
  assumes "emit cls t p a = (Inl err, a')"
  shows "a' = a \<or> mutate cls (makeEvent t p (agg_command a) a) a = (Inl err, a')"
  using assms by (auto simp: emit_def emitRaw_def Let_def split: sum.splits option.splits prod.splits)

lemma makeEvent_sel [simp]:
  "aggregateId (makeEvent t p c a) = Some (agg_id a)" "aggregateVersion (makeEvent t p c a) = Some (version a)"
  "msg_type (makeEvent t p c a) = t" "payload (makeEvent t p c a) = p"
  by (simp_all add: makeEvent_def)

text \<open>What an aggregate went through: it emitted \<open>es\<close>, and kept its identity and its command.\<close>

definition emitted :: "event list \<Rightarrow> aggregate \<Rightarrow> aggregate \<Rightarrow> bool" where
  "emitted es a a' \<longleftrightarrow> agg_id a' = agg_id a \<and> agg_command a' = agg_command a
     \<and> changes a' = changes a @ es \<and> versions_from (agg_id a) (version a) es
     \<and> version a' = version a + int (length es)"

lemma emitted_refl [simp]: "emitted [] a a"
  by (simp add: emitted_def)

lemma emitted_trans: "emitted es a b \<Longrightarrow> emitted fs b c \<Longrightarrow> emitted (es @ fs) a c"
  by (simp add: emitted_def versions_from_append)

lemma emit_emitted:
  assumes "emit cls t p a = (r, a')"
  shows "emitted (case r of Inr e \<Rightarrow> [e] | Inl _ \<Rightarrow> []) a a'"
proof (cases r)
  case (Inr e)
  with emit_Inr assms obtain a1 where e: "e = makeEvent t p (agg_command a) a"
    and m: "mutate cls e a = (Inr (), a1)" and a': "a' = a1\<lparr>changes := changes a1 @ [e]\<rparr>" by blast
  from mutate_frame [OF m] e a' Inr show ?thesis by (simp add: emitted_def)
next
  case (Inl err)
  with emit_Inl assms have "a' = a \<or> mutate cls (makeEvent t p (agg_command a) a) a = (Inl err, a')" by blast
  with Inl mutate_frame [of cls "makeEvent t p (agg_command a) a" a "Inl err" a'] show ?thesis
    by (auto simp: emitted_def)
qed

lemma run_script_emitted: "run_script cls sc a = (r, a') \<Longrightarrow> \<exists>es. emitted es a a'"
proof (induction sc arbitrary: a)
  case (Emit t p k)
  obtain r1 a1 where e: "emit cls t p a = (r1, a1)" by (cases "emit cls t p a")
  with Emit obtain es where "emitted es a1 a'" by fastforce
  with emitted_trans [OF emit_emitted [OF e]] show ?case by blast
qed (auto intro: exI [of _ "[]"])

lemma emitted_snapshotVersion [simp]: "emitted es a (b\<lparr>snapshotVersion := v\<rparr>) = emitted es a b"
  by (simp add: emitted_def)

lemma takeSnapshot_emitted: "takeSnapshot cls a = (r, a') \<Longrightarrow> \<exists>es. emitted es a a'"
proof -
  assume take: "takeSnapshot cls a = (r, a')"
  show ?thesis
  proof (cases "makeSnapshot a")
    case (Inl e)
    with take show ?thesis by (auto simp: takeSnapshot_def intro: exI [of _ "[]"])
  next
    case (Inr p)
    obtain r1 a1 where e: "emit cls SNAPSHOT_EVENT_TYPE p a = (r1, a1)" by (cases "emit cls SNAPSHOT_EVENT_TYPE p a")
    with Inr take have "a' = a1 \<or> (\<exists>v. a' = a1\<lparr>snapshotVersion := v\<rparr>)"
      by (auto simp: takeSnapshot_def split: sum.splits)
    with emit_emitted [OF e] show ?thesis by auto
  qed
qed

lemma getUncommittedEvents_emitted:
  assumes "getUncommittedEvents cls n a = (r, a')"
  shows "\<exists>es. emitted es a a' \<and> (\<forall>us. r = Inr us \<longrightarrow> us = drop n (changes a'))"
proof (cases "shouldTakeSnapshot cls a")
  case True
  obtain r1 a1 where t: "takeSnapshot cls a = (r1, a1)" by (cases "takeSnapshot cls a")
  with True assms have "a' = a1" "\<forall>us. r = Inr us \<longrightarrow> us = drop n (changes a')"
    by (auto simp: getUncommittedEvents_def split: sum.splits)
  with takeSnapshot_emitted [OF t] show ?thesis by blast
next
  case False
  with assms show ?thesis by (auto simp: getUncommittedEvents_def intro: exI [of _ "[]"])
qed

text \<open>A command is refused, or runs between setting and clearing \<open>command\<close>.\<close>

lemma handle_cases:
  assumes "handle cls cmd a = (r, a')"
  obtains (refused) e where "a' = a" and "r = Inl e"
  | (runs) a1 sc r2 a2 a3 where "a1 = a\<lparr>agg_command := Some cmd\<rparr>" and "run_script cls sc a1 = (r2, a2)"
      and "(\<exists>e. r2 = Inl e \<and> r = Inl e \<and> a3 = a2) \<or> getUncommittedEvents cls (length (changes a)) a2 = (r, a3)"
      and "a' = a3\<lparr>agg_command := None\<rparr>"
proof (cases "message_ok cmd \<and> agg_command a = None \<and> (\<exists>h. getHandler (agg_chain cls) (msg_type cmd) = Inr h)")
  case False
  with assms have "a' = a \<and> (\<exists>e. r = Inl e)"
    by (auto simp: handle_def split: if_splits sum.splits)
  with refused show thesis by blast
next
  case True
  then obtain h where ok: "message_ok cmd" "agg_command a = None" "getHandler (agg_chain cls) (msg_type cmd) = Inr h"
    by blast
  define a1 where "a1 = a\<lparr>agg_command := Some cmd\<rparr>"
  define sc where "sc = run_command_fn cls h (payload cmd) (msg_context cmd) cmd a1"
  have len: "length (changes a1) = length (changes a)" by (simp add: a1_def)
  obtain r2 a2 where run: "run_script cls sc a1 = (r2, a2)" by (cases "run_script cls sc a1")
  have eq: "handle cls cmd a = (case (case r2 of Inl err \<Rightarrow> (Inl err, a2)
        | Inr _ \<Rightarrow> getUncommittedEvents cls (length (changes a1)) a2) of (r, a3) \<Rightarrow> (r, a3\<lparr>agg_command := None\<rparr>))"
    using ok run by (simp add: handle_def a1_def [symmetric] Let_def sc_def)
  show thesis
  proof (cases r2)
    case (Inl e)
    with eq assms have "r = Inl e" "a' = a2\<lparr>agg_command := None\<rparr>" by simp_all
    with runs [OF a1_def run] Inl show thesis by blast
  next
    case (Inr u)
    obtain r3 a3 where unc: "getUncommittedEvents cls (length (changes a1)) a2 = (r3, a3)"
      by (cases "getUncommittedEvents cls (length (changes a1)) a2")
    with Inr eq assms have "r3 = r" "a' = a3\<lparr>agg_command := None\<rparr>" by simp_all
    with runs [OF a1_def run, of a3] unc len show thesis by simp
  qed
qed

text \<open>
  Whatever a command handler does, failing half way included, the aggregate keeps its identity,
  what it emitted are events of this aggregate with consecutive versions from the one it had,
  and its version moves on by their number. A command that succeeds returns just these events.
\<close>

theorem handle_emits:
  assumes "handle cls cmd a = (r, a')"
  shows "\<exists>es. agg_id a' = agg_id a \<and> changes a' = changes a @ es \<and> versions_from (agg_id a) (version a) es
    \<and> version a' = version a + int (length es) \<and> (\<forall>us. r = Inr us \<longrightarrow> us = es)"
  using assms
proof (cases rule: handle_cases)
  case refused
  then show ?thesis by (auto intro: exI [of _ "[]"])
next
  case (runs a1 sc r2 a2 a3)
  obtain es1 where es1: "emitted es1 a1 a2" using run_script_emitted [OF runs(2)] by blast
  from runs(3) obtain es2 where es2: "emitted es2 a2 a3" "\<forall>us. r = Inr us \<longrightarrow> us = drop (length (changes a)) (changes a3)"
  proof
    assume "\<exists>e. r2 = Inl e \<and> r = Inl e \<and> a3 = a2"
    then show thesis using that [of "[]"] by auto
  next
    assume "getUncommittedEvents cls (length (changes a)) a2 = (r, a3)"
    from getUncommittedEvents_emitted [OF this] that show thesis by blast
  qed
  from emitted_trans [OF es1 es2(1)] es2(2) runs(1,4) show ?thesis
    by (auto simp: emitted_def intro!: exI [of _ "es1 @ es2"])
qed

lemma handle_emits_witness:
  "\<exists>e a'. handle demo_class (demo_command ''a'') (blank_aggregate (IdStr ''a'') (Some [(''n'', JNum 0)])) = (Inr [e], a')
     \<and> changes a' = [e] \<and> versions_from (IdStr ''a'') 0 [e] \<and> version a' = 1"
proof -
  obtain e a' where h: "handle demo_class (demo_command ''a'') (blank_aggregate (IdStr ''a'') (Some [(''n'', JNum 0)]))
      = (Inr [e], a')"
    by (simp add: demo_defs Let_def)
  from handle_emits [OF h] obtain es where "changes a' = es" "versions_from (IdStr ''a'') 0 es"
    "version a' = int (length es)" "es = [e]"
    by (auto dest: sym simp: blank_aggregate_def)
  then have "changes a' = [e] \<and> versions_from (IdStr ''a'') 0 [e] \<and> version a' = 1" by simp
  with h show ?thesis by blast
qed

section \<open>Rehydration\<close>

text \<open>
  What replaying events restores: version and state. The state's methods must not leave half a
  change behind when they throw; else an emit that failed and was caught changes the live
  state and no event says so.
\<close>

definition core :: "aggregate \<Rightarrow> int \<times> props option" where
  "core a = (version a, agg_state a)"

definition atomic_state :: "'a state_class_scheme \<Rightarrow> bool" where
  "atomic_state cls \<longleftrightarrow> (\<forall>f e st err st'. run_state_fn cls f e st = (Inl err, st') \<longrightarrow> st' = st)"

lemma apply_event_state:
  "agg_state (snd (apply_event cls e a)) = agg_state (snd (apply_event cls e b))
   \<and> fst (apply_event cls e a) = fst (apply_event cls e b)" if "agg_state a = agg_state b"
  using that by (auto simp: apply_event_def restoreSnapshot_def split: option.splits sum.splits prod.splits)

lemma mutate_core:
  assumes "core a = core b" and "mutate cls e a = (Inr (), a')"
  shows "\<exists>b'. mutate cls e b = (Inr (), b') \<and> core b' = core a'"
proof -
  define f where "f x = (case aggregateVersion e of None \<Rightarrow> x | Some v \<Rightarrow> x\<lparr>version := v\<rparr>)" for x :: aggregate
  have st: "agg_state (f a) = agg_state (f b)" "version (f a) = version (f b)"
    using assms(1) by (simp_all add: f_def core_def split: option.split)
  obtain r a2 where ra: "apply_event cls e (f a) = (r, a2)" by (cases "apply_event cls e (f a)")
  obtain rb b2 where rb: "apply_event cls e (f b) = (rb, b2)" by (cases "apply_event cls e (f b)")
  from ra assms(2) have "r = Inr ()" "a' = a2\<lparr>version := version a2 + 1\<rparr>"
    by (auto simp: mutate_def f_def [symmetric] split: sum.splits)
  with apply_event_state [OF st(1), of cls e] apply_event_frame [OF ra] apply_event_frame [OF rb] ra rb st(2)
  show ?thesis by (auto simp: mutate_def f_def [symmetric] core_def)
qed

lemma mutate_all_core:
  "core a = core b \<Longrightarrow> mutate_all cls es a = (Inr (), a') \<Longrightarrow>
     \<exists>b'. mutate_all cls es b = (Inr (), b') \<and> core b' = core a'"
proof (induction es arbitrary: a b)
  case (Cons e es)
  from Cons.prems(2) obtain a1 where "mutate cls e a = (Inr (), a1)" and rest: "mutate_all cls es a1 = (Inr (), a')"
    by (auto simp: act_bind_Inr_iff)
  with mutate_core [OF Cons.prems(1)] obtain b1 where b1: "mutate cls e b = (Inr (), b1)" "core b1 = core a1"
    by blast
  from Cons.IH [OF b1(2) [symmetric] rest] b1(1) show ?case by simp
qed (simp add: act_simps)

lemma mutate_all_append:
  "mutate_all cls es a = (Inr (), b) \<Longrightarrow> mutate_all cls (es @ fs) a = mutate_all cls fs b"
proof (induction es arbitrary: a)
  case (Cons e es)
  then obtain a1 where "mutate cls e a = (Inr (), a1)" "mutate_all cls es a1 = (Inr (), b)"
    by (auto simp: act_bind_Inr_iff)
  with Cons.IH show ?case by simp
qed (simp add: act_simps)

text \<open>\<open>replays es a a'\<close>: from what \<open>a\<close> is, replaying \<open>es\<close> leads to what \<open>a'\<close> is.\<close>

definition replays :: "aggregate_class \<Rightarrow> event list \<Rightarrow> aggregate \<Rightarrow> aggregate \<Rightarrow> bool" where
  "replays cls es a a' \<longleftrightarrow> changes a' = changes a @ es \<and>
     (\<exists>b. mutate_all cls es a = (Inr (), b) \<and> core b = core a')"

lemma replays_refl: "core a' = core a \<Longrightarrow> changes a' = changes a \<Longrightarrow> replays cls [] a a'"
  by (simp add: replays_def act_simps)

lemma replays_trans: "replays cls es a b \<Longrightarrow> replays cls fs b c \<Longrightarrow> replays cls (es @ fs) a c"
proof -
  assume 1: "replays cls es a b" and 2: "replays cls fs b c"
  from 1 obtain b1 where b1: "mutate_all cls es a = (Inr (), b1)" "core b1 = core b" by (auto simp: replays_def)
  from 2 obtain c1 where c1: "mutate_all cls fs b = (Inr (), c1)" "core c1 = core c" by (auto simp: replays_def)
  from mutate_all_core [OF b1(2) [symmetric] c1(1)] obtain c2
    where "mutate_all cls fs b1 = (Inr (), c2)" "core c2 = core c1" by blast
  with 1 2 b1 c1 mutate_all_append [OF b1(1)] show ?thesis by (auto simp: replays_def)
qed

lemma replays_core:
  "core b = core a \<Longrightarrow> changes b = changes a \<Longrightarrow> replays cls es a c \<Longrightarrow> replays cls es b c"
  using mutate_all_core [of a b cls es] by (fastforce simp: replays_def)

lemma apply_event_fails:
  "atomic_state cls \<Longrightarrow> apply_event cls e a = (Inl err, a') \<Longrightarrow> agg_state a' = agg_state a"
  unfolding apply_event_def restoreSnapshot_def call_state_handler_def atomic_state_def
  by (auto split: if_splits option.splits sum.splits prod.splits)

lemma emit_replays:
  assumes "atomic_state cls" and "emit cls t p a = (r, a')"
  shows "\<exists>es. replays cls es a a'"
proof (cases r)
  case (Inr e)
  with emit_Inr assms(2) obtain a1 where e: "e = makeEvent t p (agg_command a) a"
    and m: "mutate cls e a = (Inr (), a1)" and a': "a' = a1\<lparr>changes := changes a1 @ [e]\<rparr>" by blast
  from m a' mutate_frame [OF m] have "replays cls [e] a a'" by (simp add: replays_def act_simps core_def)
  then show ?thesis ..
next
  case (Inl err)
  define e where "e = makeEvent t p (agg_command a) a"
  have "core a' = core a \<and> changes a' = changes a"
  proof (cases "a' = a")
    case False
    with Inl emit_Inl assms(2) have m: "mutate cls e a = (Inl err, a')" unfolding e_def by blast
    have "a\<lparr>version := version a\<rparr> = a" by simp
    with m have "apply_event cls e a = (Inl err, a')"
      by (auto simp: mutate_def e_def split: sum.splits prod.splits)
    with apply_event_fails [OF assms(1) this] apply_event_frame [OF this] show ?thesis by (simp add: core_def)
  qed simp
  then show ?thesis using replays_refl by blast
qed

lemma run_script_replays:
  "atomic_state cls \<Longrightarrow> run_script cls sc a = (r, a') \<Longrightarrow> \<exists>es. replays cls es a a'"
proof (induction sc arbitrary: a)
  case (Emit t p k)
  obtain r1 a1 where e: "emit cls t p a = (r1, a1)" by (cases "emit cls t p a")
  with Emit obtain es where "replays cls es a1 a'" by fastforce
  with replays_trans emit_replays [OF Emit.prems(1) e] show ?case by blast
qed (auto intro: exI [of _ "[]"] replays_refl)

lemma core_upd [simp]:
  "core (a\<lparr>snapshotVersion := v\<rparr>) = core a" "core (a\<lparr>agg_command := c\<rparr>) = core a" "core (a\<lparr>changes := es\<rparr>) = core a"
  by (simp_all add: core_def)

lemma replays_upd:
  "replays cls es a b \<Longrightarrow> core b' = core b \<Longrightarrow> changes b' = changes b \<Longrightarrow> replays cls es a b'"
  by (simp add: replays_def)

lemma getUncommittedEvents_replays:
  assumes "atomic_state cls" and "getUncommittedEvents cls n a = (r, a')"
  shows "\<exists>es. replays cls es a a'"
proof (cases "shouldTakeSnapshot cls a \<and> (\<exists>p. makeSnapshot a = Inr p)")
  case True
  then obtain p where p: "makeSnapshot a = Inr p" "shouldTakeSnapshot cls a" by blast
  obtain r1 a1 where e: "emit cls SNAPSHOT_EVENT_TYPE p a = (r1, a1)" by (cases "emit cls SNAPSHOT_EVENT_TYPE p a")
  with p assms(2) have "core a' = core a1 \<and> changes a' = changes a1"
    by (auto simp: getUncommittedEvents_def takeSnapshot_def split: sum.splits)
  with emit_replays [OF assms(1) e] replays_upd show ?thesis by blast
next
  case False
  then have "a' = a" using assms(2)
    by (cases "makeSnapshot a") (auto simp: getUncommittedEvents_def takeSnapshot_def split: if_splits)
  then show ?thesis using replays_refl by blast
qed

lemma handle_replays:
  assumes at: "atomic_state cls" and "handle cls cmd a = (r, a')"
  shows "\<exists>es. replays cls es a a'"
  using assms(2)
proof (cases rule: handle_cases)
  case refused
  then show ?thesis using replays_refl by blast
next
  case (runs a1 sc r2 a2 a3)
  obtain es1 where es1: "replays cls es1 a1 a2" using run_script_replays [OF at runs(2)] by blast
  have "\<exists>es2. replays cls es2 a2 a3"
    using runs(3) getUncommittedEvents_replays [OF at] replays_refl [of a2 a2 cls] by blast
  then obtain es2 where es2: "replays cls es2 a2 a3" by blast
  have a1: "core a = core a1" "changes a = changes a1" by (simp_all add: runs(1))
  have a': "core a' = core a3" "changes a' = changes a3" by (simp_all add: runs(4))
  from replays_upd [OF replays_core [OF a1 replays_trans [OF es1 es2]] a'] show ?thesis ..
qed

lemma run_result_iff:
  "(case m of (Inl e, x) \<Rightarrow> Inl e | (Inr u, x) \<Rightarrow> Inr x) = Inr b \<longleftrightarrow> m = (Inr (), b)"
  by (cases m; cases "fst m") auto

lemma new_aggregate_ok:
  "new_aggregate cls i st evs = Inr a \<longleftrightarrow> (\<exists>aid. assert_id_defined i ''id'' = Inr aid
     \<and> validateHandlers (agg_chain cls) (agg_handles cls) ''handles'' = Inr ()
     \<and> mutate_all cls evs (blank_aggregate aid st) = (Inr (), a))"
  by (auto simp: new_aggregate_def run_result_iff)



section \<open>Snapshots\<close>

lemma update_append:
  "k \<notin> fst ` set pre \<Longrightarrow> AList.update k v (pre @ xs) = pre @ AList.update k v xs"
  by (induction pre) auto

lemma object_assign_suffix:
  "map fst src = map fst old @ ks \<Longrightarrow> distinct (map fst pre @ map fst src) \<Longrightarrow>
     object_assign (pre @ old) src = pre @ src"
proof (induction src arbitrary: pre old ks)
  case (Cons kv src)
  obtain k v where kv: "kv = (k, v)" by (cases kv)
  have k: "k \<notin> fst ` set pre" using Cons.prems(2) kv by auto
  show ?case
  proof (cases old)
    case Nil
    have "object_assign ((pre @ [(k, v)]) @ []) src = (pre @ [(k, v)]) @ src"
      using Cons.prems kv Nil by (intro Cons.IH) auto
    with Nil kv update_append [OF k, of v "[]"] show ?thesis by (simp add: object_assign_def)
  next
    case (Cons o1 old')
    with Cons.prems(1) kv obtain u where o1: "o1 = (k, u)" by (cases o1) auto
    have "object_assign ((pre @ [(k, v)]) @ old') src = (pre @ [(k, v)]) @ src"
      using Cons.prems kv \<open>old = o1 # old'\<close> by (intro Cons.IH) auto
    with \<open>old = o1 # old'\<close> o1 kv update_append [OF k, of v old] show ?thesis by (simp add: object_assign_def)
  qed
qed (simp add: object_assign_def)

text \<open>
  Overlaying a snapshot on a state whose properties it has, in their order, gives the
  snapshot: in particular on the initial state of the same class, and on the state itself.
\<close>

lemma object_assign_snapshot:
  "map fst st = map fst st0 @ ks \<Longrightarrow> distinct (map fst st) \<Longrightarrow> object_assign st0 st = st"
  using object_assign_suffix [of st st0 ks "[]"] by simp

lemma mutate_snapshot:
  assumes "msg_type e = SNAPSHOT_EVENT_TYPE" and "payload e = JObj st" and "aggregateVersion e = Some v"
    and "\<not> holds_function (JObj st)" and "agg_state a = Some st0"
    and "map fst st = map fst st0 @ ks" and "distinct (map fst st)"
  shows "\<exists>b. mutate cls e a = (Inr (), b) \<and> core b = (v + 1, Some st)"
proof -
  have "SNAPSHOT_EVENT_TYPE \<noteq> []" by (simp add: SNAPSHOT_EVENT_TYPE_def)
  with assms object_assign_snapshot [OF assms(6,7)] show ?thesis
    by (simp add: mutate_def apply_event_def restoreSnapshot_def isSnapshotEvent_def message_ok_def
        clone_def core_def Let_def del: holds_function.simps)
qed

text \<open>
  Restoring from a snapshot and the events after it gives the version and the state that the whole
  history gives, if the snapshot is of the state at that point, is plain data, and has the
  properties of the initial state first.
\<close>

theorem snapshot_shortcut:
  assumes "mutate_all cls pre (blank_aggregate i (Some st0)) = (Inr (), a)" and "agg_state a = Some st"
    and "msg_type e = SNAPSHOT_EVENT_TYPE" and "payload e = JObj st" and "aggregateVersion e = Some (version a)"
    and "\<not> holds_function (JObj st)" and "map fst st = map fst st0 @ ks" and "distinct (map fst st)"
    and "mutate_all cls (pre @ e # tail) (blank_aggregate i (Some st0)) = (Inr (), full)"
  shows "\<exists>short. mutate_all cls (e # tail) (blank_aggregate i (Some st0)) = (Inr (), short) \<and> core short = core full"
proof -
  obtain b where b: "mutate cls e a = (Inr (), b)" "core b = (version a + 1, Some st)"
    using mutate_snapshot [OF assms(3-6) assms(2), of "[]"] assms(8) by auto
  obtain c where c: "mutate cls e (blank_aggregate i (Some st0)) = (Inr (), c)" "core c = (version a + 1, Some st)"
    using mutate_snapshot [OF assms(3-6) _ assms(7,8), of "blank_aggregate i (Some st0)"]
    by (auto simp: blank_aggregate_def)
  have "mutate_all cls tail b = (Inr (), full)"
    using assms(9) mutate_all_append [OF assms(1), of "e # tail"] b(1) by simp
  from mutate_all_core [OF _ this, of c] b c show ?thesis by simp
qed

lemma snapshot_shortcut_witness:
  "\<exists>short. mutate_all demo_class [(demo_event SNAPSHOT_EVENT_TYPE ''a'' 1 ''s'')\<lparr>payload := JObj [(''n'', JNum 1)]\<rparr>,
        demo_event ''incremented'' ''a'' 2 ''f''] (blank_aggregate (IdStr ''a'') (Some [(''n'', JNum 0)])) = (Inr (), short)
     \<and> core short = (3, Some [(''n'', JNum 2)])"
proof -
  let ?e = "(demo_event SNAPSHOT_EVENT_TYPE ''a'' 1 ''s'')\<lparr>payload := JObj [(''n'', JNum 1)]\<rparr>"
  let ?blank = "blank_aggregate (IdStr ''a'') (Some [(''n'', JNum 0)])"
  obtain a where a: "mutate_all demo_class [demo_event ''incremented'' ''a'' 0 ''e''] ?blank = (Inr (), a)"
    "agg_state a = Some [(''n'', JNum 1)]" "version a = 1"
    by (simp add: demo_defs act_bind_def)
  obtain full where full: "mutate_all demo_class ([demo_event ''incremented'' ''a'' 0 ''e''] @ ?e # [demo_event ''incremented'' ''a'' 2 ''f'']) ?blank
      = (Inr (), full)" "core full = (3, Some [(''n'', JNum 2)])"
    by (simp add: demo_defs act_bind_def core_def)
  from snapshot_shortcut [OF a(1,2) _ _ _ _ _ _ full(1), of "[]"] a(3) full(2) show ?thesis by simp
qed

end
