(* ===== verification/UsageCache.thy ===== *)
theory UsageCache
  imports Prelude
begin

text \<open>
  \<open>src/utils/MapAssertable.ts\<close>: the map with usage counters and lazy factories in which the
  command handler and the saga handler keep the instances being worked on. A factory is a
  state-passing action on the world \<open>'w\<close> outside the map (for the handlers: it reads the event
  store), so that calling it once more or once less is visible. Also the interface the two
  handlers rely on, as a locale, with its interpretation on this map.
\<close>

section \<open>The map\<close>

record ('k, 'v, 'w) map_assertable =
  entries :: "('k, 'v) jsmap"
  usageCounter :: "('k, int) jsmap"
  factories :: "('k, 'w \<Rightarrow> 'v \<times> 'w) jsmap"

definition new_map_assertable :: "('k, 'v, 'w) map_assertable" where
  "new_map_assertable = \<lparr>entries = [], usageCounter = [], factories = []\<rparr>"

definition ma_has :: "('k, 'v, 'w) map_assertable \<Rightarrow> 'k \<Rightarrow> bool" where
  "ma_has m key = (map_has (entries m) key \<or> map_has (factories m) key)"

text \<open>\<open>get\<close> runs a pending factory first, after taking it off the list.\<close>

definition ma_get ::
  "'k \<Rightarrow> ('k, 'v, 'w) map_assertable \<times> 'w \<Rightarrow> 'v option \<times> ('k, 'v, 'w) map_assertable \<times> 'w" where
  "ma_get key s = (case s of (m, w) \<Rightarrow>
     (case map_of (factories m) key of
        Some factory \<Rightarrow>
          (let m1 = m\<lparr>factories := AList.delete key (factories m)\<rparr>;
               (v, w') = factory w;
               m2 = m1\<lparr>entries := AList.update key v (entries m1)\<rparr>
           in (map_of (entries m2) key, m2, w'))
      | None \<Rightarrow> (map_of (entries m) key, m, w)))"

definition ma_delete :: "'k \<Rightarrow> ('k, 'v, 'w) map_assertable \<Rightarrow> ('k, 'v, 'w) map_assertable" where
  "ma_delete key m = m\<lparr>factories := AList.delete key (factories m),
     entries := AList.delete key (entries m)\<rparr>"

definition usage :: "('k, 'v, 'w) map_assertable \<Rightarrow> 'k \<Rightarrow> int" where
  "usage m key = (case map_of (usageCounter m) key of None \<Rightarrow> 0 | Some n \<Rightarrow> n)"

definition ma_assert ::
  "'k \<Rightarrow> ('w \<Rightarrow> 'v \<times> 'w) \<Rightarrow> ('k, 'v, 'w) map_assertable \<times> 'w
     \<Rightarrow> 'v option \<times> ('k, 'v, 'w) map_assertable \<times> 'w" where
  "ma_assert key factory s = (case s of (m, w) \<Rightarrow>
     let (m1, w1) = (if \<not> ma_has m key \<and> \<not> map_has (factories m) key
                     then (case factory w of (v, w') \<Rightarrow> (m\<lparr>entries := AList.update key v (entries m)\<rparr>, w'))
                     else (m, w));
         m2 = m1\<lparr>usageCounter := AList.update key (usage m1 key + 1) (usageCounter m1)\<rparr>
     in ma_get key (m2, w1))"

definition ma_setLazy ::
  "'k \<Rightarrow> ('w \<Rightarrow> 'v \<times> 'w) \<Rightarrow> ('k, 'v, 'w) map_assertable \<Rightarrow> ('k, 'v, 'w) map_assertable" where
  "ma_setLazy key factory m =
     (let m1 = ma_delete key m in m1\<lparr>factories := AList.update key factory (factories m1)\<rparr>)"

definition ma_release :: "'k \<Rightarrow> ('k, 'v, 'w) map_assertable \<Rightarrow> ('k, 'v, 'w) map_assertable" where
  "ma_release key m =
     (let count = usage m key - 1
      in if count > 0 then m\<lparr>usageCounter := AList.update key count (usageCounter m)\<rparr>
         else ma_delete key (m\<lparr>usageCounter := AList.delete key (usageCounter m)\<rparr>))"

section \<open>What each operation does to a key\<close>

text \<open>The invariant: a key is in use exactly while it has an entry, and counters are positive.\<close>

definition ma_inv :: "('k, 'v, 'w) map_assertable \<Rightarrow> bool" where
  "ma_inv m \<longleftrightarrow> (\<forall>k. ma_has m k \<longleftrightarrow> 0 < usage m k) \<and> (\<forall>k. 0 \<le> usage m k)
     \<and> (\<forall>k. \<not> (map_has (entries m) k \<and> map_has (factories m) k))"

named_theorems ma_defs \<open>the operations of the usage-counted map\<close>

declare ma_has_def [ma_defs] ma_get_def [ma_defs] ma_assert_def [ma_defs] ma_setLazy_def [ma_defs]
  ma_delete_def [ma_defs] ma_release_def [ma_defs] usage_def [ma_defs]

lemma ma_inv_new: "ma_inv new_map_assertable"
  by (simp add: ma_inv_def new_map_assertable_def ma_defs map_has_def)

lemma ma_has_get [simp]: "ma_has (fst (snd (ma_get k (m, w)))) j = ma_has m j"
  by (auto simp: ma_defs Let_def map_has_def split: option.splits prod.splits)

lemma usage_get [simp]: "usage (fst (snd (ma_get k (m, w)))) j = usage m j"
  by (auto simp: ma_defs Let_def split: option.splits prod.splits)

lemma usage_upd [simp]:
  "usage (m\<lparr>entries := e\<rparr>) j = usage m j"
  "usage (m\<lparr>usageCounter := AList.update k n u\<rparr>) j =
     (if j = k then n else usage (m\<lparr>usageCounter := u\<rparr>) j)"
  "usage (m\<lparr>entries := e, usageCounter := AList.update k n u\<rparr>) j =
     (if j = k then n else usage (m\<lparr>usageCounter := u\<rparr>) j)"
  "usage (m\<lparr>usageCounter := usageCounter m\<rparr>) j = usage m j"
  by (simp_all add: usage_def)

lemma usage_assert: "usage (fst (snd (ma_assert k f (m, w)))) j = usage m j + (if j = k then 1 else 0)"
  by (cases "f w") (simp add: ma_assert_def Let_def del: map_assertable.simps)

lemma usage_setLazy [simp]: "usage (ma_setLazy k f m) j = usage m j"
  by (simp add: ma_defs Let_def)

lemma usage_release:
  "ma_inv m \<Longrightarrow> 0 < usage m k \<Longrightarrow> usage (ma_release k m) j = usage m j - (if j = k then 1 else 0)"
  by (auto simp: ma_release_def usage_def ma_delete_def Let_def ma_inv_def split: option.splits)

lemma ma_has_upd [simp]:
  "ma_has (m\<lparr>usageCounter := u\<rparr>) j = ma_has m j"
  "ma_has (m\<lparr>entries := AList.update k v (entries m)\<rparr>) j \<longleftrightarrow> j = k \<or> ma_has m j"
  "ma_has (m\<lparr>entries := AList.update k v (entries m), usageCounter := u\<rparr>) j \<longleftrightarrow> j = k \<or> ma_has m j"
  by (auto simp: ma_has_def)

lemma ma_has_assert: "ma_has (fst (snd (ma_assert k f (m, w)))) j \<longleftrightarrow> j = k \<or> ma_has m j"
  by (cases "f w") (auto simp: ma_assert_def Let_def, auto simp: ma_has_def)

lemma ma_has_setLazy: "ma_has (ma_setLazy k f m) j \<longleftrightarrow> j = k \<or> ma_has m j"
  by (auto simp: ma_defs Let_def)

lemma ma_has_release:
  "ma_has (ma_release k m) j \<longleftrightarrow> ma_has m j \<and> (j = k \<longrightarrow> 1 < usage m k)"
  by (auto simp: ma_release_def ma_delete_def ma_has_def Let_def)

text \<open>Entries and pending factories stay disjoint.\<close>

definition ma_disjoint :: "('k, 'v, 'w) map_assertable \<Rightarrow> bool" where
  "ma_disjoint m \<longleftrightarrow> (\<forall>k. \<not> (map_has (entries m) k \<and> map_has (factories m) k))"

lemma ma_disjoint_get: "ma_disjoint m \<Longrightarrow> ma_disjoint (fst (snd (ma_get k (m, w))))"
  by (auto simp: ma_disjoint_def ma_get_def Let_def split: option.splits prod.splits)

lemma ma_disjoint_assert: "ma_disjoint m \<Longrightarrow> ma_disjoint (fst (snd (ma_assert k f (m, w))))"
  unfolding ma_assert_def
  by (cases "f w") (auto simp: Let_def ma_has_def intro!: ma_disjoint_get, auto simp: ma_disjoint_def)

lemma ma_disjoint_setLazy: "ma_disjoint m \<Longrightarrow> ma_disjoint (ma_setLazy k f m)"
  by (auto simp: ma_disjoint_def ma_setLazy_def ma_delete_def Let_def)

lemma ma_disjoint_release: "ma_disjoint m \<Longrightarrow> ma_disjoint (ma_release k m)"
  by (auto simp: ma_disjoint_def ma_release_def ma_delete_def Let_def)

lemma ma_inv_iff:
  "ma_inv m \<longleftrightarrow> (\<forall>k. ma_has m k \<longleftrightarrow> 0 < usage m k) \<and> (\<forall>k. 0 \<le> usage m k) \<and> ma_disjoint m"
  by (auto simp: ma_inv_def ma_disjoint_def)

lemma ma_inv_get: "ma_inv m \<Longrightarrow> ma_inv (fst (snd (ma_get k (m, w))))"
  by (simp add: ma_inv_iff ma_disjoint_get)

lemma ma_inv_assert: "ma_inv m \<Longrightarrow> ma_inv (fst (snd (ma_assert k f (m, w))))"
  by (auto simp: ma_inv_iff ma_disjoint_assert ma_has_assert usage_assert
      intro: add_nonneg_pos add_nonneg_nonneg)

lemma ma_inv_setLazy: "ma_inv m \<Longrightarrow> 0 < usage m k \<Longrightarrow> ma_inv (ma_setLazy k f m)"
  by (auto simp: ma_inv_iff ma_disjoint_setLazy ma_has_setLazy)

lemma ma_inv_release:
  assumes "ma_inv m" and "0 < usage m k"
  shows "ma_inv (ma_release k m)"
  using assms by (auto simp: ma_inv_iff ma_disjoint_release ma_has_release usage_release
      [OF assms])

text \<open>The value under a key that has already been made.\<close>

definition made :: "('k, 'v, 'w) map_assertable \<Rightarrow> 'k \<Rightarrow> 'v option" where
  "made m key = (if map_has (factories m) key then None else map_of (entries m) key)"

lemma ma_get_made: "made m k = Some v \<Longrightarrow> ma_get k (m, w) = (Some v, m, w)"
  by (auto simp: made_def ma_get_def map_has_def split: if_splits option.splits)

lemma made_after_get:
  "ma_get k (m, w) = (Some v, m', w') \<Longrightarrow> made m' k = Some v"
  by (auto simp: made_def ma_get_def map_has_def Let_def split: option.splits prod.splits if_splits)

lemma ma_get_cached: "ma_has m k \<Longrightarrow> \<exists>v m' w'. ma_get k (m, w) = (Some v, m', w')"
  by (auto simp: ma_get_def ma_has_def map_has_def Let_def split: option.splits prod.splits)

lemma ma_assert_made:
  "made m k = Some v \<Longrightarrow> ma_assert k f (m, w) =
     (Some v, m\<lparr>usageCounter := AList.update k (usage m k + 1) (usageCounter m)\<rparr>, w)"
  by (auto simp: made_def ma_assert_def ma_get_def ma_has_def map_has_def Let_def
      split: if_splits option.splits)

lemma ma_assert_returns: "\<exists>v m' w'. ma_assert k f (m, w) = (Some v, m', w') \<and> made m' k = Some v"
proof -
  obtain a b where f: "f w = (a, b)" by (cases "f w")
  have "\<exists>m2 w1. ma_assert k f (m, w) = ma_get k (m2, w1) \<and> ma_has m2 k"
  proof (cases "ma_has m k")
    case True
    then show ?thesis
      by (intro exI [of _ "m\<lparr>usageCounter := AList.update k (usage m k + 1) (usageCounter m)\<rparr>"] exI [of _ w])
        (simp add: ma_assert_def Let_def)
  next
    case False
    then have "\<not> map_has (factories m) k" by (simp add: ma_has_def)
    with False f show ?thesis
      by (intro exI [of _ "m\<lparr>entries := AList.update k a (entries m),
            usageCounter := AList.update k (usage m k + 1) (usageCounter m)\<rparr>"] exI [of _ b])
        (simp add: ma_assert_def Let_def)
  qed
  then obtain m2 w1 where eq: "ma_assert k f (m, w) = ma_get k (m2, w1)" and has: "ma_has m2 k"
    by blast
  from ma_get_cached [OF has] obtain v m' w' where "ma_get k (m2, w1) = (Some v, m', w')" by blast
  with eq made_after_get show ?thesis by metis
qed

lemma made_frame:
  "j \<noteq> k \<Longrightarrow> made (fst (snd (ma_get k (m, w)))) j = made m j"
  "j \<noteq> k \<Longrightarrow> made (ma_setLazy k f m) j = made m j"
  "j \<noteq> k \<Longrightarrow> made (ma_release k m) j = made m j"
  by (auto simp: made_def ma_defs map_has_def Let_def split: option.splits prod.splits)

lemma made_release: "1 < usage m k \<Longrightarrow> made (ma_release k m) k = made m k"
  by (simp add: made_def ma_release_def Let_def)

section \<open>The cache as its users see it\<close>

text \<open>
  \<open>acq\<close> registers a user and returns the cached value, \<open>fetch\<close> reads it, \<open>reset\<close> marks it to
  be made afresh, \<open>rel\<close> unregisters a user.
\<close>

locale usage_cache =
  fixes acq :: "'k \<Rightarrow> ('w \<Rightarrow> 'v \<times> 'w) \<Rightarrow> 'c \<times> 'w \<Rightarrow> 'v option \<times> 'c \<times> 'w"
    and fetch :: "'k \<Rightarrow> 'c \<times> 'w \<Rightarrow> 'v option \<times> 'c \<times> 'w"
    and reset :: "'k \<Rightarrow> ('w \<Rightarrow> 'v \<times> 'w) \<Rightarrow> 'c \<Rightarrow> 'c"
    and rel :: "'k \<Rightarrow> 'c \<Rightarrow> 'c"
    and users :: "'c \<Rightarrow> 'k \<Rightarrow> int"
    and cached :: "'c \<Rightarrow> 'k \<Rightarrow> bool"
    and known :: "'c \<Rightarrow> 'k \<Rightarrow> 'v option"
    and ok :: "'c \<Rightarrow> bool"
  assumes ok_acq: "ok c \<Longrightarrow> ok (fst (snd (acq k f (c, w))))"
    and ok_fetch: "ok c \<Longrightarrow> ok (fst (snd (fetch k (c, w))))"
    and ok_reset: "ok c \<Longrightarrow> 0 < users c k \<Longrightarrow> ok (reset k f c)"
    and ok_rel: "ok c \<Longrightarrow> 0 < users c k \<Longrightarrow> ok (rel k c)"
    and cached_iff: "ok c \<Longrightarrow> cached c k \<longleftrightarrow> 0 < users c k"
    and users_nonneg: "ok c \<Longrightarrow> 0 \<le> users c k"
    and users_acq: "users (fst (snd (acq k f (c, w)))) j = users c j + (if j = k then 1 else 0)"
    and users_fetch: "users (fst (snd (fetch k (c, w)))) j = users c j"
    and users_reset: "users (reset k f c) j = users c j"
    and users_rel: "ok c \<Longrightarrow> 0 < users c k \<Longrightarrow> users (rel k c) j = users c j - (if j = k then 1 else 0)"
    and acq_returns: "\<exists>v c' w'. acq k f (c, w) = (Some v, c', w') \<and> known c' k = Some v"
    and acq_known: "known c k = Some v \<Longrightarrow> fst (acq k f (c, w)) = Some v \<and> snd (snd (acq k f (c, w))) = w"
    and fetch_known: "known c k = Some v \<Longrightarrow> fetch k (c, w) = (Some v, c, w)"
    and known_rel: "1 < users c k \<Longrightarrow> known (rel k c) k = known c k"
begin

text \<open>
  Two users that overlap share one value, and only the first of them ran a factory: the
  second registration leaves the world alone.
\<close>

lemma overlapping_users_share:
  assumes "acq k f (c, w) = (v1, c1, w1)" and "acq k g (c1, w1) = (v2, c2, w2)"
  shows "v2 = v1 \<and> w2 = w1 \<and> v1 \<noteq> None"
proof -
  from acq_returns [of k f c w] assms(1) obtain v where "v1 = Some v" "known c1 k = Some v" by auto
  with acq_known [of c1 k v g w1] assms(2) show ?thesis by simp
qed

text \<open>A user that registers and leaves takes its registration along: nothing leaks.\<close>

lemma bracket_restores_users:
  assumes "ok c" and "acq k f (c, w) = (v, c1, w1)"
  shows "users (rel k c1) j = users c j \<and> ok (rel k c1) \<and> cached (rel k c1) j = cached c j"
proof -
  have c1: "c1 = fst (snd (acq k f (c, w)))" using assms(2) by simp
  have ok1: "ok c1" using ok_acq [OF assms(1)] c1 by simp
  have pos: "0 < users c1 k" using users_acq [of k f c w k] users_nonneg [OF assms(1), of k] c1 by simp
  have us: "users (rel k c1) i = users c i" for i
    using users_rel [OF ok1 pos, of i] users_acq [of k f c w i] c1 by simp
  with ok_rel [OF ok1 pos] cached_iff assms(1) show ?thesis by simp
qed

text \<open>A reset that is released before anybody reads it never runs its factory.\<close>

lemma last_release_forgets:
  assumes "ok c" and "users c k = 1"
  shows "\<not> cached (rel k (reset k f c)) k"
proof -
  have "ok (reset k f c)" using ok_reset [OF assms(1), of k f] assms(2) by simp
  moreover have "users (reset k f c) k = 1" using users_reset assms(2) by simp
  ultimately show ?thesis
    using users_rel [of "reset k f c" k k] ok_rel [of "reset k f c" k] cached_iff [of "rel k (reset k f c)" k]
    by simp
qed

end

interpretation ma: usage_cache ma_assert ma_get ma_setLazy ma_release usage ma_has made ma_inv
proof
  fix m :: "('k, 'v, 'w) map_assertable" and k v f and w :: 'w
  show "\<exists>v c' w'. ma_assert k f (m, w) = (Some v, c', w') \<and> made c' k = Some v"
    by (rule ma_assert_returns)
  show "made m k = Some v \<Longrightarrow> fst (ma_assert k f (m, w)) = Some v \<and> snd (snd (ma_assert k f (m, w))) = w"
    by (simp add: ma_assert_made)
qed (simp_all add: ma_inv_get ma_inv_assert ma_inv_setLazy ma_inv_release usage_assert usage_release
    ma_get_made made_release, auto simp: ma_inv_iff)

text \<open>
  Callers of \<open>assert\<close> that overlap share one value: the second caller gets what the first one
  got, its factory is not run, and the world is what it was.
\<close>

theorem overlapping_callers_share:
  assumes "ma_assert k f (c, w) = (v1, c1, w1)" and "ma_assert k g (c1, w1) = (v2, c2, w2)"
  shows "v2 = v1 \<and> w2 = w1 \<and> v1 \<noteq> None"
  by (rule ma.overlapping_users_share [OF assms])

lemma overlapping_callers_share_witness:
  "fst (snd (ma_assert (0 :: nat) (\<lambda>n. (''first'', n + 1)) (new_map_assertable, 5 :: int))) \<noteq> new_map_assertable
   \<and> (case ma_assert (0 :: nat) (\<lambda>n. (''first'', n + 1)) (new_map_assertable, 5 :: int) of (v1, c1, w1) \<Rightarrow>
        case ma_assert 0 (\<lambda>n. (''second'', n + 1)) (c1, w1) of (v2, c2, w2) \<Rightarrow> v1 = Some ''first'' \<and> v2 = Some ''first'' \<and> w2 = 6)"
proof -
  obtain v1 c1 w1 where m: "ma_assert (0 :: nat) (\<lambda>n. (''first'', n + 1)) (new_map_assertable, 5 :: int) = (v1, c1, w1)"
    by (rule prod_cases3)
  obtain v2 c2 w2 where m2: "ma_assert 0 (\<lambda>n. (''second'', n + 1)) (c1, w1) = (v2, c2, w2)" by (rule prod_cases3)
  have "v1 = Some ''first'' \<and> w1 = 6 \<and> c1 \<noteq> new_map_assertable" using m
    by (auto simp: ma_assert_def ma_get_def ma_has_def new_map_assertable_def ma_setLazy_def Let_def map_has_def)
  with overlapping_callers_share [OF m m2] m m2 show ?thesis by simp
qed

end
