(* ===== verification/LockModel.thy ===== *)
theory LockModel
  imports Prelude
begin

text \<open>
  \<open>src/utils/Lock.ts\<close> (and the deferreds of \<open>src/utils/Deferred.ts\<close> it waits on) under the
  event loop. Code between two \<open>await\<close>s runs to completion, so \<open>acquire\<close> is cut into the
  segments between its awaits; a task suspended at an \<open>await\<close> may resume once the deferred it
  awaits has been resolved, in any order. A deferred is a number; \<open>resolved\<close> holds those that
  have been resolved.
\<close>

section \<open>State\<close>

record lock =
  globalLockAcquiringLock :: "nat option"
  globalLock :: "nat option"
  namedLocks :: "(string, nat) jsmap"
  next_deferred :: nat
  resolved :: "nat set"

definition new_lock :: lock where
  "new_lock = \<lparr>globalLockAcquiringLock = None, globalLock = None, namedLocks = [],
     next_deferred = 0, resolved = {}\<rparr>"

text \<open>
  Where a task is inside \<open>acquire(name)\<close>. The name is \<open>None\<close> for the global lock: the code
  tests \<open>name\<close> for truthiness, so no name and the empty name are the same lock.
\<close>

datatype task =
    Idle
  | AwaitAcquiring "string option" nat
  | AwaitLock "string option" nat
  | Holds "string option"

record lock_sys = lock +
  tasks :: "nat \<Rightarrow> task"

definition lock_name :: "string option \<Rightarrow> string option" where
  "lock_name name = (if name = Some [] then None else name)"

section \<open>Operations\<close>

definition resolve_deferred :: "nat option \<Rightarrow> 'a lock_scheme \<Rightarrow> 'a lock_scheme" where
  "resolve_deferred d l = (case d of None \<Rightarrow> l | Some i \<Rightarrow> l\<lparr>resolved := insert i (resolved l)\<rparr>)"

definition getAnyBlockingLock :: "'a lock_scheme \<Rightarrow> string option \<Rightarrow> nat option" where
  "getAnyBlockingLock l name =
     (case globalLock l of
        Some d \<Rightarrow> Some d
      | None \<Rightarrow> (case name of
          Some n \<Rightarrow> map_of (namedLocks l) n
        | None \<Rightarrow> (case namedLocks l of [] \<Rightarrow> None | (_, d) # _ \<Rightarrow> Some d)))"

definition isLocked :: "'a lock_scheme \<Rightarrow> string option \<Rightarrow> bool" where
  "isLocked l name = (getAnyBlockingLock l name \<noteq> None)"

text \<open>The end of \<open>acquire\<close>: the lock is free, take it and let waiting acquirers go on.\<close>

definition acquire_take :: "string option \<Rightarrow> 'a lock_scheme \<Rightarrow> 'a lock_scheme" where
  "acquire_take name l =
     (case name of
        Some n \<Rightarrow> l\<lparr>namedLocks := AList.update n (next_deferred l) (namedLocks l),
                    next_deferred := next_deferred l + 1\<rparr>
      | None \<Rightarrow> (resolve_deferred (globalLockAcquiringLock l)
                   (l\<lparr>globalLock := Some (next_deferred l), next_deferred := next_deferred l + 1\<rparr>))
                \<lparr>globalLockAcquiringLock := None\<rparr>)"

text \<open>The loop \<open>while (this.isLocked(name)) await ...\<close>.\<close>

definition acquire_wait :: "string option \<Rightarrow> 'a lock_scheme \<Rightarrow> task \<times> 'a lock_scheme" where
  "acquire_wait name l = (case getAnyBlockingLock l name of
       Some d \<Rightarrow> (AwaitLock name d, l)
     | None \<Rightarrow> (Holds name, acquire_take name l))"

text \<open>The start of \<open>acquire\<close>, and where it resumes after another global acquirer is done.\<close>

definition acquire_enter :: "string option \<Rightarrow> 'a lock_scheme \<Rightarrow> task \<times> 'a lock_scheme" where
  "acquire_enter name l = (case globalLockAcquiringLock l of
       Some d \<Rightarrow> (AwaitAcquiring name d, l)
     | None \<Rightarrow> acquire_wait name
         (if name = None
          then l\<lparr>globalLockAcquiringLock := Some (next_deferred l), next_deferred := next_deferred l + 1\<rparr>
          else l))"

definition release :: "string option \<Rightarrow> 'a lock_scheme \<Rightarrow> 'a lock_scheme" where
  "release name l = (case name of
       Some n \<Rightarrow> (resolve_deferred (map_of (namedLocks l) n) l)
                   \<lparr>namedLocks := AList.delete n (namedLocks l)\<rparr>
     | None \<Rightarrow> (resolve_deferred (globalLock l) l)\<lparr>globalLock := None\<rparr>)"

text \<open>
  \<open>runExclusively\<close> where the lock is free and nothing interleaves: acquire, run the callback,
  release in the \<open>finally\<close> whether it returned or threw. \<open>None\<close> is suspended at \<open>acquire\<close>.
\<close>

definition runExclusively ::
  "string option \<Rightarrow> ('w, 'b) act \<Rightarrow> lock \<times> 'w \<Rightarrow> ('b result \<times> lock \<times> 'w) option" where
  "runExclusively name callback s =
     (case acquire_enter (lock_name name) (fst s) of
        (Holds n, l) \<Rightarrow> (case callback (snd s) of (r, w) \<Rightarrow> Some (r, release n l, w))
      | _ \<Rightarrow> None)"

section \<open>The event loop's steps\<close>

datatype label = Call nat "string option" | Wake nat | Release nat

inductive lock_step :: "lock_sys \<Rightarrow> label \<Rightarrow> lock_sys \<Rightarrow> bool" where
  step_call: "tasks s t = Idle \<Longrightarrow> acquire_enter (lock_name name) s = (k, s') \<Longrightarrow>
     lock_step s (Call t name) (s'\<lparr>tasks := (tasks s')(t := k)\<rparr>)"
| step_wake_acquiring: "tasks s t = AwaitAcquiring name d \<Longrightarrow> d \<in> resolved s \<Longrightarrow>
     acquire_enter name s = (k, s') \<Longrightarrow> lock_step s (Wake t) (s'\<lparr>tasks := (tasks s')(t := k)\<rparr>)"
| step_wake_lock: "tasks s t = AwaitLock name d \<Longrightarrow> d \<in> resolved s \<Longrightarrow>
     acquire_wait name s = (k, s') \<Longrightarrow> lock_step s (Wake t) (s'\<lparr>tasks := (tasks s')(t := k)\<rparr>)"
| step_release: "tasks s t = Holds name \<Longrightarrow>
     lock_step s (Release t) ((release name s)\<lparr>tasks := (tasks s)(t := Idle)\<rparr>)"

inductive_cases lock_step_callE: "lock_step s (Call t name) s'"
inductive_cases lock_step_wakeE: "lock_step s (Wake t) s'"
inductive_cases lock_step_releaseE: "lock_step s (Release t) s'"

definition init_lock_sys :: lock_sys where
  "init_lock_sys = lock.extend new_lock \<lparr>tasks = (\<lambda>_. Idle)\<rparr>"

inductive lock_reachable :: "lock_sys \<Rightarrow> bool" where
  reach_init: "lock_reachable init_lock_sys"
| reach_step: "lock_reachable s \<Longrightarrow> lock_step s a s' \<Longrightarrow> lock_reachable s'"

section \<open>The invariant\<close>

text \<open>Who holds what agrees with the lock's fields, and at most one task is acquiring globally.\<close>

definition held_ok :: "(string \<rightharpoonup> nat) \<Rightarrow> nat option \<Rightarrow> (nat \<Rightarrow> string option \<Rightarrow> bool) \<Rightarrow> bool" where
  "held_ok named global H \<longleftrightarrow>
     (\<forall>n. named n \<noteq> None \<longleftrightarrow> (\<exists>t. H t (Some n)))
   \<and> (global \<noteq> None \<longleftrightarrow> (\<exists>t. H t None))
   \<and> (\<forall>t u n. H t n \<longrightarrow> H u n \<longrightarrow> t = u)
   \<and> (global \<noteq> None \<longrightarrow> named = Map.empty)"

definition holds :: "(nat \<Rightarrow> task) \<Rightarrow> nat \<Rightarrow> string option \<Rightarrow> bool" where
  "holds ts t n = (ts t = Holds n)"

definition held_inv :: "lock_sys \<Rightarrow> bool" where
  "held_inv s \<longleftrightarrow> held_ok (map_of (namedLocks s)) (globalLock s) (holds (tasks s))"

definition acquiring_inv :: "lock_sys \<Rightarrow> bool" where
  "acquiring_inv s \<longleftrightarrow>
     (globalLockAcquiringLock s \<noteq> None \<longleftrightarrow> (\<exists>t d. tasks s t = AwaitLock None d))
   \<and> (\<forall>t u d d'. tasks s t = AwaitLock None d \<and> tasks s u = AwaitLock None d' \<longrightarrow> t = u)"

text \<open>No lost wake-up: what a task awaits is resolved, or still held by somebody.\<close>

definition live_locks :: "'a lock_scheme \<Rightarrow> nat set" where
  "live_locks l = ran (map_of (namedLocks l)) \<union> set_option (globalLock l)"

definition await_inv :: "lock_sys \<Rightarrow> bool" where
  "await_inv s \<longleftrightarrow>
     (\<forall>t n d. tasks s t = AwaitLock n d \<longrightarrow> d \<in> resolved s \<union> live_locks s)
   \<and> (\<forall>t n d. tasks s t = AwaitAcquiring n d \<longrightarrow>
        d \<in> resolved s \<union> set_option (globalLockAcquiringLock s))"

definition lock_inv :: "lock_sys \<Rightarrow> bool" where
  "lock_inv s \<longleftrightarrow> held_inv s \<and> acquiring_inv s \<and> await_inv s"

lemma getAnyBlockingLock_None:
  "getAnyBlockingLock l name = None \<longleftrightarrow>
     globalLock l = None \<and>
     (case name of None \<Rightarrow> namedLocks l = [] | Some n \<Rightarrow> map_of (namedLocks l) n = None)"
  by (auto simp: getAnyBlockingLock_def split: option.splits list.splits)

lemma getAnyBlockingLock_Some:
  assumes "distinct (map fst (namedLocks l))" and "getAnyBlockingLock l name = Some d"
  shows "d \<in> live_locks l"
  using assms by (auto simp: getAnyBlockingLock_def live_locks_def ran_def split: option.splits list.splits)

definition lock_keys_distinct :: "'a lock_scheme \<Rightarrow> bool" where
  "lock_keys_distinct l \<longleftrightarrow> distinct (map fst (namedLocks l))"

lemma init_lock_inv: "lock_inv init_lock_sys" "lock_keys_distinct init_lock_sys"
  by (simp_all add: lock_inv_def held_inv_def held_ok_def holds_def acquiring_inv_def await_inv_def live_locks_def init_lock_sys_def
      new_lock_def lock.defs lock_keys_distinct_def)

text \<open>Locks may come and go as long as what was live is live or resolved afterwards.\<close>

lemma await_inv_step:
  assumes "await_inv s" and "\<forall>u. u \<noteq> t \<longrightarrow> tasks s' u = tasks s u"
    and "resolved s \<union> live_locks s \<subseteq> resolved s' \<union> live_locks s'"
    and "resolved s \<union> set_option (globalLockAcquiringLock s)
           \<subseteq> resolved s' \<union> set_option (globalLockAcquiringLock s')"
    and "\<And>n d. tasks s' t = AwaitLock n d \<Longrightarrow> d \<in> live_locks s'"
    and "\<And>n d. tasks s' t = AwaitAcquiring n d \<Longrightarrow> globalLockAcquiringLock s' = Some d"
  shows "await_inv s'"
  unfolding await_inv_def
proof (intro conjI allI impI)
  fix u n d
  show "d \<in> resolved s' \<union> live_locks s'" if "tasks s' u = AwaitLock n d"
    using assms(1-3,5) that unfolding await_inv_def by (cases "u = t") (blast, metis subset_iff)
  show "d \<in> resolved s' \<union> set_option (globalLockAcquiringLock s')" if "tasks s' u = AwaitAcquiring n d"
    using assms(1,2,4,6) that unfolding await_inv_def by (cases "u = t") (force, metis subset_iff)
qed

lemma held_ok_take_named:
  "held_ok nl None H \<Longrightarrow> nl n = None \<Longrightarrow> held_ok (nl(n \<mapsto> d)) None (\<lambda>u m. H u m \<or> u = t \<and> m = Some n)"
proof -
  assume ok: "held_ok nl None H" and free: "nl n = None"
  then have "\<not> H u (Some n)" for u unfolding held_ok_def by metis
  with ok show ?thesis unfolding held_ok_def by auto
qed

lemma held_ok_take_global:
  "held_ok Map.empty None H \<Longrightarrow> held_ok Map.empty (Some d) (\<lambda>u m. H u m \<or> u = t \<and> m = None)"
  unfolding held_ok_def by (metis option.distinct(1) option.exhaust)

lemma held_ok_release_named:
  "held_ok nl gl H \<Longrightarrow> held_ok (nl(n := None)) gl (\<lambda>u m. H u m \<and> m \<noteq> Some n)"
  by (auto simp: held_ok_def)

lemma held_ok_release_global:
  "held_ok nl gl H \<Longrightarrow> held_ok nl None (\<lambda>u m. H u m \<and> m \<noteq> None)"
  by (auto simp: held_ok_def)

lemma holds_take:
  "\<forall>m. ts t \<noteq> Holds m \<Longrightarrow> holds (ts(t := Holds n)) = (\<lambda>u m. holds ts u m \<or> u = t \<and> m = n)"
  by (auto simp: holds_def fun_eq_iff)

lemma holds_park:
  "\<forall>m. ts t \<noteq> Holds m \<Longrightarrow> \<forall>m. k \<noteq> Holds m \<Longrightarrow> holds (ts(t := k)) = holds ts"
  by (auto simp: holds_def fun_eq_iff)

lemma holds_release:
  "held_ok nl gl (holds ts) \<Longrightarrow> ts t = Holds n \<Longrightarrow>
     holds (ts(t := Idle)) = (\<lambda>u m. holds ts u m \<and> m \<noteq> n)"
  unfolding held_ok_def holds_def fun_eq_iff by auto

text \<open>
  What \<open>acquire_wait\<close> needs of the other tasks: for the global lock the acquiring marker is
  set and nobody else is acquiring globally, for a named one the marker agrees with the others.
\<close>

definition others_acquiring :: "lock_sys \<Rightarrow> nat \<Rightarrow> bool" where
  "others_acquiring s t \<longleftrightarrow> (\<exists>u d. u \<noteq> t \<and> tasks s u = AwaitLock None d)"

definition acquire_pre :: "lock_sys \<Rightarrow> nat \<Rightarrow> string option \<Rightarrow> bool" where
  "acquire_pre s t name \<longleftrightarrow>
     (if name = None then globalLockAcquiringLock s \<noteq> None \<and> \<not> others_acquiring s t
      else (globalLockAcquiringLock s \<noteq> None \<longleftrightarrow> others_acquiring s t))
   \<and> (\<forall>u v d d'. u \<noteq> t \<and> v \<noteq> t \<and> tasks s u = AwaitLock None d \<and> tasks s v = AwaitLock None d' \<longrightarrow> u = v)
   \<and> (\<forall>n. tasks s t \<noteq> Holds n)"

lemma held_inv_park:
  "held_inv s \<Longrightarrow> \<forall>n. tasks s t \<noteq> Holds n \<Longrightarrow> \<forall>n. k \<noteq> Holds n \<Longrightarrow>
     held_inv (s\<lparr>tasks := (tasks s)(t := k)\<rparr>)"
  by (simp add: held_inv_def holds_park)

lemma acquiring_inv_park:
  assumes "acquiring_inv s" and "\<forall>d. tasks s t \<noteq> AwaitLock None d" and "\<forall>d. k \<noteq> AwaitLock None d"
  shows "acquiring_inv (s\<lparr>tasks := (tasks s)(t := k)\<rparr>)"
proof -
  have "(((tasks s)(t := k)) u = AwaitLock None d) = (tasks s u = AwaitLock None d)" for u d
    using assms(2,3) by auto
  with assms(1) show ?thesis unfolding acquiring_inv_def by simp
qed

lemma acquire_wait_blocked_inv:
  assumes inv: "held_inv s" "await_inv s" "lock_keys_distinct s" and pre: "acquire_pre s t name"
    and blocked: "getAnyBlockingLock s name = Some d"
  shows "lock_inv (s\<lparr>tasks := (tasks s)(t := AwaitLock name d)\<rparr>)"
proof -
  have live: "d \<in> live_locks s"
    using getAnyBlockingLock_Some [OF _ blocked] inv(3) by (simp add: lock_keys_distinct_def)
  have "acquiring_inv (s\<lparr>tasks := (tasks s)(t := AwaitLock name d)\<rparr>)"
    using pre by (cases name) (auto simp: acquiring_inv_def acquire_pre_def others_acquiring_def)
  moreover have "await_inv (s\<lparr>tasks := (tasks s)(t := AwaitLock name d)\<rparr>)"
    using live by (intro await_inv_step [OF inv(2), where t = t]) (auto simp: live_locks_def)
  ultimately show ?thesis
    using held_inv_park [OF inv(1), of t "AwaitLock name d"] pre
    by (simp add: lock_inv_def acquire_pre_def)
qed

lemma acquire_take_named_inv:
  assumes inv: "held_inv s" "await_inv s" and pre: "acquire_pre s t (Some n)"
    and free: "getAnyBlockingLock s (Some n) = None"
  shows "lock_inv ((acquire_take (Some n) s)\<lparr>tasks := (tasks s)(t := Holds (Some n))\<rparr>)"
proof -
  let ?s = "(acquire_take (Some n) s)\<lparr>tasks := (tasks s)(t := Holds (Some n))\<rparr>"
  have free': "globalLock s = None" "map_of (namedLocks s) n = None"
    using free by (auto simp: getAnyBlockingLock_None)
  then have "held_inv ?s"
    using held_ok_take_named [of "map_of (namedLocks s)" "holds (tasks s)" n "next_deferred s" t]
      inv(1) pre by (simp add: held_inv_def acquire_take_def holds_take acquire_pre_def)
  moreover have "acquiring_inv ?s"
    using pre by (auto simp: acquiring_inv_def acquire_take_def acquire_pre_def others_acquiring_def)
  moreover have "await_inv ?s"
    using free' by (intro await_inv_step [OF inv(2), where t = t])
      (auto simp: acquire_take_def live_locks_def)
  ultimately show ?thesis by (simp add: lock_inv_def)
qed

lemma acquire_take_global_inv:
  assumes inv: "held_inv s" "await_inv s" and pre: "acquire_pre s t None"
    and free: "getAnyBlockingLock s None = None"
  shows "lock_inv ((acquire_take None s)\<lparr>tasks := (tasks s)(t := Holds None)\<rparr>)"
proof -
  let ?s = "(acquire_take None s)\<lparr>tasks := (tasks s)(t := Holds None)\<rparr>"
  have free': "globalLock s = None" "namedLocks s = []"
    using free by (auto simp: getAnyBlockingLock_None)
  obtain a where a: "globalLockAcquiringLock s = Some a" using pre by (auto simp: acquire_pre_def)
  have "held_inv ?s"
    using held_ok_take_global [of "holds (tasks s)" "next_deferred s" t] free' inv(1) pre a
    by (simp add: held_inv_def acquire_take_def holds_take acquire_pre_def resolve_deferred_def)
  moreover have "acquiring_inv ?s"
    using pre a by (auto simp: acquiring_inv_def acquire_take_def acquire_pre_def
        others_acquiring_def resolve_deferred_def)
  moreover have "await_inv ?s"
    using free' a by (intro await_inv_step [OF inv(2), where t = t])
      (auto simp: acquire_take_def resolve_deferred_def live_locks_def)
  ultimately show ?thesis by (simp add: lock_inv_def)
qed

lemma acquire_wait_inv:
  assumes "held_inv s" "await_inv s" "lock_keys_distinct s" "acquire_pre s t name"
    and "acquire_wait name s = (k, s')"
  shows "lock_inv (s'\<lparr>tasks := (tasks s')(t := k)\<rparr>)"
proof (cases "getAnyBlockingLock s name")
  case None
  have "tasks (acquire_take name s) = tasks s"
    by (auto simp: acquire_take_def resolve_deferred_def split: option.splits)
  with None assms show ?thesis
    by (cases name) (auto simp: acquire_wait_def acquire_take_named_inv acquire_take_global_inv)
next
  case (Some d)
  with assms show ?thesis by (auto simp: acquire_wait_def acquire_wait_blocked_inv)
qed

lemma acquire_enter_inv:
  assumes inv: "lock_inv s" "lock_keys_distinct s"
    and t: "tasks s t = Idle \<or> (\<exists>d. tasks s t = AwaitAcquiring name d)"
    and enter: "acquire_enter name s = (k, s')"
  shows "lock_inv (s'\<lparr>tasks := (tasks s')(t := k)\<rparr>)"
proof (cases "globalLockAcquiringLock s")
  case (Some d)
  with enter have "k = AwaitAcquiring name d" "s' = s" by (auto simp: acquire_enter_def)
  moreover have "held_inv (s\<lparr>tasks := (tasks s)(t := AwaitAcquiring name d)\<rparr>)"
    using inv t by (intro held_inv_park) (auto simp: lock_inv_def)
  moreover have "acquiring_inv (s\<lparr>tasks := (tasks s)(t := AwaitAcquiring name d)\<rparr>)"
    using inv t by (intro acquiring_inv_park) (auto simp: lock_inv_def)
  ultimately show ?thesis
    using Some inv(1) await_inv_step [of s t "s\<lparr>tasks := (tasks s)(t := AwaitAcquiring name d)\<rparr>"]
    by (auto simp: lock_inv_def live_locks_def)
next
  case None
  let ?s = "if name = None then s\<lparr>globalLockAcquiringLock := Some (next_deferred s),
      next_deferred := next_deferred s + 1\<rparr> else s"
  have nobody: "tasks s u \<noteq> AwaitLock None d" for u d
    using inv(1) None by (auto simp: lock_inv_def acquiring_inv_def)
  have "held_inv ?s" using inv(1) by (auto simp: lock_inv_def held_inv_def)
  moreover have "await_inv ?s"
    using inv(1) None by (auto simp: lock_inv_def await_inv_def live_locks_def)
  moreover have "lock_keys_distinct ?s" using inv(2) by (auto simp: lock_keys_distinct_def)
  moreover have "acquire_pre ?s t name"
    using None nobody t by (auto simp: acquire_pre_def others_acquiring_def)
  moreover have "acquire_wait name ?s = (k, s')" using enter None by (simp add: acquire_enter_def)
  ultimately show ?thesis by (rule acquire_wait_inv)
qed

lemma ran_subset_delete: "m n = Some x \<Longrightarrow> ran m \<subseteq> insert x (ran (m(n := None)))"
proof
  fix y assume m: "m n = Some x" and "y \<in> ran m"
  then obtain a where a: "m a = Some y" by (auto simp: ran_def)
  show "y \<in> insert x (ran (m(n := None)))"
    using a m by (cases "a = n") (auto intro: ranI [of "m(n := None)" a])
qed

lemma release_live:
  "resolved l \<union> live_locks l \<subseteq> resolved (release name l) \<union> live_locks (release name l)"
proof (cases name)
  case (Some n)
  show ?thesis
  proof (cases "map_of (namedLocks l) n")
    case (Some x)
    with \<open>name = Some n\<close> ran_subset_delete [of "map_of (namedLocks l)" n x] Some show ?thesis
      by (auto simp: release_def resolve_deferred_def live_locks_def)
  qed (use Some in \<open>simp add: release_def resolve_deferred_def live_locks_def fun_upd_idem\<close>)
qed (auto simp: release_def resolve_deferred_def live_locks_def split: option.splits)

lemma release_frame:
  "globalLockAcquiringLock (release name l) = globalLockAcquiringLock l"
  "resolved l \<subseteq> resolved (release name l)"
  by (auto simp: release_def resolve_deferred_def split: option.splits)

lemma release_inv:
  assumes inv: "lock_inv s" and t: "tasks s t = Holds name"
  shows "lock_inv ((release name s)\<lparr>tasks := (tasks s)(t := Idle)\<rparr>)"
proof -
  let ?s = "(release name s)\<lparr>tasks := (tasks s)(t := Idle)\<rparr>"
  have ok: "held_ok (map_of (namedLocks s)) (globalLock s) (holds (tasks s))"
    using inv by (simp add: lock_inv_def held_inv_def)
  have "held_inv ?s"
    using held_ok_release_named [OF ok] held_ok_release_global [OF ok]
    by (cases name) (auto simp: held_inv_def holds_release [OF ok t] release_def resolve_deferred_def
        split: option.splits)
  moreover have "acquiring_inv ?s"
  proof -
    have "acquiring_inv (s\<lparr>tasks := (tasks s)(t := Idle)\<rparr>)"
      using inv t by (intro acquiring_inv_park) (auto simp: lock_inv_def)
    then show ?thesis
      by (cases name) (auto simp: acquiring_inv_def release_def resolve_deferred_def split: option.splits)
  qed
  moreover have "await_inv ?s"
  proof (rule await_inv_step [where s = s and t = t])
    show "await_inv s" using inv by (simp add: lock_inv_def)
    show "resolved s \<union> live_locks s \<subseteq> resolved ?s \<union> live_locks ?s"
      using release_live [of s name] by (simp add: live_locks_def)
    show "resolved s \<union> set_option (globalLockAcquiringLock s)
        \<subseteq> resolved ?s \<union> set_option (globalLockAcquiringLock ?s)"
      using release_frame(2) [of s name] by (auto simp: release_frame(1))
  qed simp_all
  ultimately show ?thesis by (simp add: lock_inv_def)
qed

lemma acquire_wait_keys:
  "lock_keys_distinct s \<Longrightarrow> acquire_wait name s = (k, s') \<Longrightarrow> lock_keys_distinct s'"
  by (auto simp: acquire_wait_def acquire_take_def resolve_deferred_def lock_keys_distinct_def
      distinct_keys_update simp del: keys_update split: option.splits)

lemma acquire_enter_keys:
  assumes "lock_keys_distinct s" and "acquire_enter name s = (k, s')"
  shows "lock_keys_distinct s'"
proof (cases "globalLockAcquiringLock s")
  case None
  let ?s = "if name = None then s\<lparr>globalLockAcquiringLock := Some (next_deferred s),
      next_deferred := next_deferred s + 1\<rparr> else s"
  have "lock_keys_distinct ?s" using assms(1) by (simp add: lock_keys_distinct_def)
  moreover have "acquire_wait name ?s = (k, s')" using assms(2) None by (simp add: acquire_enter_def)
  ultimately show ?thesis by (rule acquire_wait_keys)
qed (use assms in \<open>simp add: acquire_enter_def\<close>)

lemma release_keys: "lock_keys_distinct s \<Longrightarrow> lock_keys_distinct (release name s)"
  by (auto simp: release_def resolve_deferred_def lock_keys_distinct_def distinct_keys_delete
      split: option.splits)

lemma await_lock_pre:
  assumes "acquiring_inv s" and "tasks s t = AwaitLock name d"
  shows "acquire_pre s t name"
proof -
  have "name \<noteq> None \<Longrightarrow> others_acquiring s t = (\<exists>u d. tasks s u = AwaitLock None d)"
    using assms(2) unfolding others_acquiring_def by (metis task.inject(2))
  with assms show ?thesis
    unfolding acquiring_inv_def acquire_pre_def by (auto simp: others_acquiring_def)
qed

lemma lock_step_inv:
  "lock_step s a s' \<Longrightarrow> lock_inv s \<Longrightarrow> lock_keys_distinct s \<Longrightarrow>
     lock_inv s' \<and> lock_keys_distinct s'"
proof (induction rule: lock_step.induct)
  case (step_call s t name k s')
  then show ?case
    using acquire_enter_inv [of s t "lock_name name" k s'] acquire_enter_keys [of s "lock_name name" k s']
    by (simp add: lock_keys_distinct_def)
next
  case (step_wake_acquiring s t name d k s')
  then show ?case
    using acquire_enter_inv [of s t name k s'] acquire_enter_keys [of s name k s']
    by (auto simp: lock_keys_distinct_def)
next
  case (step_wake_lock s t name d k s')
  have "acquire_pre s t name"
    using step_wake_lock by (auto simp: lock_inv_def intro: await_lock_pre)
  with step_wake_lock show ?case
    using acquire_wait_inv [of s t name k s'] acquire_wait_keys [of s name k s']
    by (auto simp: lock_inv_def lock_keys_distinct_def)
next
  case (step_release s t name)
  then show ?case
    using release_inv [of s t name] release_keys [of s name] by (simp add: lock_keys_distinct_def)
qed

lemma lock_reachable_inv: "lock_reachable s \<Longrightarrow> lock_inv s \<and> lock_keys_distinct s"
  by (induction rule: lock_reachable.induct) (auto simp: init_lock_inv dest: lock_step_inv)

section \<open>Mutual exclusion and progress\<close>

text \<open>A global lock excludes every other lock, a named lock every other of its name.\<close>

definition conflicting :: "string option \<Rightarrow> string option \<Rightarrow> bool" where
  "conflicting m n \<longleftrightarrow> m = None \<or> n = None \<or> m = n"

lemma held_ok_exclusive:
  "held_ok nl gl H \<Longrightarrow> H t m \<Longrightarrow> H u n \<Longrightarrow> conflicting m n \<Longrightarrow> t = u"
  unfolding held_ok_def conflicting_def by (cases m; cases n) (metis option.distinct(1))+

lemma one_holder:
  assumes "lock_reachable l" "tasks l t = Holds n" "tasks l u = Holds n"
  shows "t = u"
proof -
  have "held_inv l" using lock_reachable_inv [OF assms(1)] by (simp add: lock_inv_def)
  then show ?thesis
    using held_ok_exclusive [where H = "holds (tasks l)" and m = n and n = n] assms(2,3)
    by (auto simp: held_inv_def holds_def conflicting_def)
qed

text \<open>The name a task acquires, or has; it stays the same until the task releases it.\<close>

fun task_name :: "task \<Rightarrow> string option option" where
  "task_name Idle = None"
| "task_name (AwaitAcquiring n _) = Some n"
| "task_name (AwaitLock n _) = Some n"
| "task_name (Holds n) = Some n"

lemma task_name_None [simp]: "task_name k = None \<longleftrightarrow> k = Idle"
  by (cases k) simp_all

lemma acquire_wait_name: "acquire_wait n l = (k, l') \<Longrightarrow> tasks l' = tasks l \<and> task_name k = Some n"
  by (auto simp: acquire_wait_def acquire_take_def resolve_deferred_def split: option.splits)

lemma acquire_enter_name: "acquire_enter n l = (k, l') \<Longrightarrow> tasks l' = tasks l \<and> task_name k = Some n"
  using acquire_wait_name [of n "if n = None then l\<lparr>globalLockAcquiringLock := Some (next_deferred l), next_deferred := next_deferred l + 1\<rparr> else l" k l']
  by (auto simp: acquire_enter_def split: option.splits if_splits)

lemma wake_name:
  assumes "lock_step l (Wake t) l'"
  shows "\<exists>k. tasks l' = (tasks l)(t := k) \<and> task_name k = task_name (tasks l t) \<and> tasks l t \<noteq> Idle \<and> (\<forall>n. tasks l t \<noteq> Holds n)"
  using assms
proof (rule lock_step_wakeE)
  fix name d k m
  assume m: "l' = m\<lparr>tasks := (tasks m)(t := k)\<rparr>" "tasks l t = AwaitAcquiring name d" "acquire_enter name l = (k, m)"
  with acquire_enter_name [of name l k m] show ?thesis by auto
next
  fix name d k m
  assume m: "l' = m\<lparr>tasks := (tasks m)(t := k)\<rparr>" "tasks l t = AwaitLock name d" "acquire_wait name l = (k, m)"
  with acquire_wait_name [of name l k m] show ?thesis by auto
qed

text \<open>Two tasks call for the lock \<open>a\<close>: the first has it, the second waits.\<close>

definition demo_locked :: lock_sys where
  "demo_locked = (acquire_take (Some ''a'') init_lock_sys)\<lparr>tasks := (\<lambda>_. Idle)(0 := Holds (Some ''a''))\<rparr>"

definition demo_waiting :: lock_sys where
  "demo_waiting = demo_locked\<lparr>tasks := (tasks demo_locked)(1 := AwaitLock (Some ''a'') 0)\<rparr>"

lemmas demo_lock_defs = demo_locked_def demo_waiting_def init_lock_sys_def new_lock_def lock.defs acquire_enter_def
  acquire_wait_def acquire_take_def getAnyBlockingLock_def lock_name_def

lemma demo_locked_reachable: "lock_reachable demo_locked"
proof -
  have "acquire_enter (lock_name (Some ''a'')) init_lock_sys = (Holds (Some ''a''), acquire_take (Some ''a'') init_lock_sys)"
    by (simp add: demo_lock_defs)
  from lock_step.step_call [OF _ this, of 0] have "lock_step init_lock_sys (Call 0 (Some ''a'')) demo_locked"
    by (simp add: demo_lock_defs)
  then show ?thesis by (rule reach_step [OF reach_init])
qed

lemma demo_waiting_reachable: "lock_reachable demo_waiting"
proof -
  have "acquire_enter (lock_name (Some ''a'')) demo_locked = (AwaitLock (Some ''a'') 0, demo_locked)"
    by (simp add: demo_lock_defs)
  from lock_step.step_call [OF _ this, of 1] have "lock_step demo_locked (Call 1 (Some ''a'')) demo_waiting"
    by (simp add: demo_lock_defs)
  then show ?thesis by (rule reach_step [OF demo_locked_reachable])
qed

text \<open>
  C6: whatever tasks call, wake and release in whatever order, two that hold conflicting locks - the
  same name, or one of them the global lock - are the same task.
\<close>

theorem lock_mutual_exclusion:
  "lock_reachable s \<Longrightarrow> tasks s t = Holds m \<Longrightarrow> tasks s u = Holds n \<Longrightarrow> conflicting m n \<Longrightarrow> t = u"
  using held_ok_exclusive [of "map_of (namedLocks s)" "globalLock s" "holds (tasks s)" t m u n]
  by (auto simp: lock_inv_def held_inv_def holds_def dest: lock_reachable_inv)

lemma lock_mutual_exclusion_witness: "{u. tasks demo_locked u = Holds (Some ''a'')} = {0}"
proof -
  have holder: "tasks demo_locked 0 = Holds (Some ''a'')" by (simp add: demo_locked_def)
  have "u = 0" if "tasks demo_locked u = Holds (Some ''a'')" for u
    by (rule lock_mutual_exclusion [OF demo_locked_reachable that holder]) (simp add: conflicting_def)
  with holder show ?thesis by blast
qed

definition waiting :: "task \<Rightarrow> bool" where
  "waiting k \<longleftrightarrow> (\<exists>n d. k = AwaitLock n d \<or> k = AwaitAcquiring n d)"

lemma wake_enabled:
  "tasks s t = AwaitLock n d \<Longrightarrow> d \<in> resolved s \<Longrightarrow> \<exists>s'. lock_step s (Wake t) s'"
  "tasks s t = AwaitAcquiring n d \<Longrightarrow> d \<in> resolved s \<Longrightarrow> \<exists>s'. lock_step s (Wake t) s'"
  using lock_step.step_wake_lock [of s t n d] lock_step.step_wake_acquiring [of s t n d]
  by (metis prod.exhaust)+

lemma live_lock_held:
  assumes "held_inv s" and "d \<in> live_locks s"
  shows "\<exists>t n. tasks s t = Holds n"
proof (cases "globalLock s")
  case None
  with assms(2) obtain n where "map_of (namedLocks s) n = Some d"
    by (auto simp: live_locks_def ran_def)
  with assms(1) show ?thesis unfolding held_inv_def held_ok_def holds_def by (metis option.distinct(1))
next
  case (Some _)
  with assms(1) show ?thesis unfolding held_inv_def held_ok_def holds_def by (metis option.distinct(1))
qed

lemma waiter_or_holder:
  assumes "lock_reachable s" and "waiting (tasks s t)"
  shows "(\<exists>u s'. waiting (tasks s u) \<and> lock_step s (Wake u) s') \<or> (\<exists>u n. tasks s u = Holds n)"
proof -
  have inv: "lock_inv s" using lock_reachable_inv [OF assms(1)] by simp
  have on_lock: ?thesis if w: "tasks s v = AwaitLock n d" for v n d
  proof (cases "d \<in> resolved s")
    case True
    with w wake_enabled(1) [of s v n d] show ?thesis unfolding waiting_def by blast
  next
    case False
    with inv w have "d \<in> live_locks s" unfolding lock_inv_def await_inv_def by blast
    with inv live_lock_held [of s d] obtain u m where "tasks s u = Holds m" by (auto simp: lock_inv_def)
    then show ?thesis by blast
  qed
  show ?thesis
  proof (cases "tasks s t")
    case (AwaitAcquiring n d)
    show ?thesis
    proof (cases "d \<in> resolved s")
      case True
      with AwaitAcquiring wake_enabled(2) [of s t n d] show ?thesis unfolding waiting_def by blast
    next
      case False
      with inv AwaitAcquiring have "globalLockAcquiringLock s \<noteq> None"
        unfolding lock_inv_def await_inv_def by fastforce
      with inv on_lock show ?thesis unfolding lock_inv_def acquiring_inv_def by blast
    qed
  qed (use assms(2) on_lock in \<open>auto simp: waiting_def\<close>)
qed

text \<open>
  The lock never strands a waiter: as long as some task waits, some waiter can be woken or some
  task holds a lock it can release.
\<close>

theorem lock_progress:
  assumes "lock_reachable s" and "waiting (tasks s t)"
  shows "\<exists>u s'. lock_step s (Wake u) s' \<or> lock_step s (Release u) s'"
  using waiter_or_holder [OF assms] lock_step.step_release by blast

lemma lock_progress_witness: "\<exists>u s'. lock_step demo_waiting (Wake u) s' \<or> lock_step demo_waiting (Release u) s'"
  using lock_progress [OF demo_waiting_reachable, of 1] by (simp add: demo_waiting_def waiting_def)

text \<open>
  A lease gives no identity to its lock: releasing a name frees it whoever holds it, so a
  second \<open>release()\<close> of an old lease frees the next holder's lock.
\<close>

lemma release_frees: "\<not> isLocked (release (Some n) l) (Some n) \<longleftrightarrow> globalLock l = None"
  by (auto simp: isLocked_def getAnyBlockingLock_def release_def resolve_deferred_def split: option.splits)

text \<open>
  \<open>runExclusively\<close> on a free lock runs the callback once, gives its result or its error, and
  leaves the lock free in both cases.
\<close>

theorem runExclusively_releases:
  assumes "globalLockAcquiringLock l = None" and "namedLocks l = []" and "globalLock l = None"
    and "callback w = (r, w')"
  shows "\<exists>l'. runExclusively name callback (l, w) = Some (r, l', w')
     \<and> namedLocks l' = [] \<and> globalLock l' = None \<and> globalLockAcquiringLock l' = None"
  using assms by (cases "lock_name name") (auto simp: runExclusively_def acquire_enter_def
      acquire_wait_def getAnyBlockingLock_def acquire_take_def release_def resolve_deferred_def)

lemma runExclusively_releases_witness:
  "\<exists>l'. runExclusively (Some ''a'') (\<lambda>w. (Inl (GenericError ''no'') :: nat result, w + 1)) (new_lock, 1 :: int)
       = Some (Inl (GenericError ''no''), l', 2)
     \<and> namedLocks l' = [] \<and> globalLock l' = None \<and> globalLockAcquiringLock l' = None"
  using runExclusively_releases [of new_lock "\<lambda>w. (Inl (GenericError ''no'') :: nat result, w + 1)" "1 :: int" _ _ "Some ''a''", OF _ _ _ refl]
  by (simp add: new_lock_def)

end
