(* ===== verification/CommandHandler.thy ===== *)
theory CommandHandler
  imports Aggregate UsageCache LockModel
begin

text \<open>
  \<open>src/AggregateCommandHandler.ts\<close>: a command is executed on an aggregate restored from the
  event store, under the aggregate's lock; the events are dispatched and the whole attempt is
  repeated on a \<open>ConcurrencyError\<close> as the retry option says. The aggregates live in a heap, as the
  cache shares them by reference; the event store is a record of its operations on a world \<open>'w\<close>.
\<close>

section \<open>Retry decisions\<close>

definition DEFAULT_MAX_RETRY_ATTEMPTS :: int where "DEFAULT_MAX_RETRY_ATTEMPTS = 5"

datatype decision = Stop | Again | Ignore

type_synonym resolver = "js_error \<Rightarrow> event list \<Rightarrow> int \<Rightarrow> decision"

datatype retry_option = RetryFun resolver | RetryVal jsval

text \<open>\<open>attempt < value\<close> for a JavaScript number; \<open>frac_above\<close> compares a non-integral one.\<close>

fun attempt_below :: "(string \<Rightarrow> int \<Rightarrow> bool) \<Rightarrow> int \<Rightarrow> jsval \<Rightarrow> bool" where
  "attempt_below frac_above n (JNum m) = (n < m)"
| "attempt_below frac_above n (JFrac s) = frac_above s n"
| "attempt_below frac_above n _ = False"

definition or_default :: "jsval \<Rightarrow> jsval \<Rightarrow> jsval" where
  "or_default d v = (if v = JUndef then d else v)"

definition normalizeRetryResolver :: "(string \<Rightarrow> int \<Rightarrow> bool) \<Rightarrow> retry_option \<Rightarrow> resolver result" where
  "normalizeRetryResolver frac_above value = (case value of
       RetryFun f \<Rightarrow> Inr f
     | RetryVal v \<Rightarrow>
         if v = JBool False then Inr (\<lambda>err evs attempt. Stop)
         else if v = JStr ''ignore''
         then Inr (\<lambda>err evs attempt. if is_concurrency_error err then Ignore else Stop)
         else if is_number v
         then Inr (\<lambda>err evs attempt. if is_concurrency_error err \<and> attempt_below frac_above attempt v then Again else Stop)
         else if isObject v
         then (let maxRetries = or_default (JNum DEFAULT_MAX_RETRY_ATTEMPTS) (js_get v ''maxRetries'');
                   ignoreAfterMaxRetries = or_default (JBool False) (js_get v ''ignoreAfterMaxRetries'')
           in res_bind (assertNonNegativeInteger maxRetries ''retryOnConcurrencyError.maxRetries'') (\<lambda>_.
              res_bind (assertBoolean ignoreAfterMaxRetries ''retryOnConcurrencyError.ignoreAfterMaxRetries'') (\<lambda>_.
              Inr (\<lambda>err evs attempt.
                if \<not> is_concurrency_error err then Stop
                else if attempt_below frac_above attempt maxRetries then Again
                else if truthy ignoreAfterMaxRetries then Ignore else Stop))))
         else Inr (\<lambda>err evs attempt.
            if is_concurrency_error err \<and> attempt < DEFAULT_MAX_RETRY_ATTEMPTS then Again else Stop))"

text \<open>
  Whatever option but a function is given, an attempt is repeated, or its events stored without
  the check, only for a \<open>ConcurrencyError\<close>.
\<close>

theorem only_concurrency_errors_retried:
  "normalizeRetryResolver fa (RetryVal v) = Inr r \<Longrightarrow> r err evs n \<noteq> Stop \<Longrightarrow> is_concurrency_error err"
  by (auto simp: normalizeRetryResolver_def Let_def split: if_splits)

text \<open>A resolver that gives up: from some attempt on it never says again.\<close>

definition gives_up_after :: "nat \<Rightarrow> resolver \<Rightarrow> bool" where
  "gives_up_after n r \<longleftrightarrow> (\<forall>err evs k. int n \<le> k \<longrightarrow> r err evs k \<noteq> Again)"

lemma int_bounded: "\<exists>n. \<forall>k. int n \<le> k \<longrightarrow> \<not> k < m"
  by (rule exI [of _ "nat m"]) simp

lemma safe_integer_gives_up:
  "assertNonNegativeInteger v m = Inr () \<Longrightarrow> \<exists>n. \<forall>k. int n \<le> k \<longrightarrow> \<not> attempt_below fa k v"
  using int_bounded by (cases v) (auto simp: assertNonNegativeInteger_def)

lemma normalized_gives_up:
  assumes "normalizeRetryResolver fa (RetryVal v) = Inr r" and "\<forall>s. v \<noteq> JFrac s"
  shows "\<exists>n. gives_up_after n r"
proof (cases "is_number v")
  case True
  then obtain n where "\<forall>k. int n \<le> k \<longrightarrow> \<not> attempt_below fa k v"
    using assms(2) int_bounded by (cases v) auto
  with True assms(1) have "gives_up_after n r"
    by (cases v) (auto simp: normalizeRetryResolver_def gives_up_after_def)
  then show ?thesis ..
next
  case num: False
  show ?thesis
  proof (cases "v \<noteq> JBool False \<and> v \<noteq> JStr ''ignore'' \<and> isObject v")
    case True
    define m where "m = or_default (JNum DEFAULT_MAX_RETRY_ATTEMPTS) (js_get v ''maxRetries'')"
    from True num assms(1) have "assertNonNegativeInteger m ''retryOnConcurrencyError.maxRetries'' = Inr ()"
      by (auto simp: normalizeRetryResolver_def m_def Let_def)
    from safe_integer_gives_up [OF this, of fa] obtain n where n: "\<forall>k. int n \<le> k \<longrightarrow> \<not> attempt_below fa k m" by blast
    have "gives_up_after n r" unfolding gives_up_after_def
      using True num assms(1) n
      by (auto simp: normalizeRetryResolver_def m_def [symmetric] Let_def split: if_splits)
    then show ?thesis ..
  next
    case False
    with num assms(1) have "gives_up_after 5 r"
      by (auto simp: normalizeRetryResolver_def gives_up_after_def DEFAULT_MAX_RETRY_ATTEMPTS_def split: if_splits)
    then show ?thesis ..
  qed
qed

section \<open>State\<close>

record 'w hworld =
  store :: 'w
  heap :: "aggregate list"

record 'w handler_state =
  hs_cache :: "(ident, nat result, 'w hworld) map_assertable"
  hs_lock :: lock
  hs_world :: "'w hworld"

record 'w event_store_ops =
  es_getNewId :: "('w, ident) act"
  es_getAggregateEvents :: "ident \<Rightarrow> aggregate_query \<Rightarrow> 'w \<Rightarrow> event list result"
  es_dispatch :: "event list \<Rightarrow> bool \<Rightarrow> ('w, unit) act"

record handler_cfg =
  h_class :: aggregate_class
  h_state0 :: "props option"
  h_restoresFrom :: "string list option"
  h_shouldRetry :: resolver

section \<open>Restoring and creating aggregates\<close>

definition alloc :: "aggregate \<Rightarrow> 'w hworld \<Rightarrow> nat result \<times> 'w hworld" where
  "alloc a hw = (Inr (length (heap hw)), hw\<lparr>heap := heap hw @ [a]\<rparr>)"

definition restore_query :: "handler_cfg \<Rightarrow> aggregate_query" where
  "restore_query cfg = (case h_restoresFrom cfg of
       Some (t # ts) \<Rightarrow> \<lparr>q_snapshot = None, q_eventTypes = Some (t # ts), tail_last = True\<rparr>
     | _ \<Rightarrow> \<lparr>q_snapshot = None, q_eventTypes = None, tail_last = False\<rparr>)"

definition restored :: "'w event_store_ops \<Rightarrow> handler_cfg \<Rightarrow> ident \<Rightarrow> 'w \<Rightarrow> aggregate result" where
  "restored ops cfg i w =
     res_bind (assert_id_defined (Some i) ''id'') (\<lambda>_.
     res_bind (new_aggregate (h_class cfg) (Some i) (h_state0 cfg) []) (\<lambda>a.
     res_bind (es_getAggregateEvents ops i (restore_query cfg) w) (\<lambda>evs.
       case mutate_all (h_class cfg) evs a of (Inl e, _) \<Rightarrow> Inl e | (Inr _, a') \<Rightarrow> Inr a')))"

definition restoreAggregate ::
  "'w event_store_ops \<Rightarrow> handler_cfg \<Rightarrow> ident \<Rightarrow> 'w hworld \<Rightarrow> nat result \<times> 'w hworld" where
  "restoreAggregate ops cfg i hw = (case restored ops cfg i (store hw) of
       Inl e \<Rightarrow> (Inl e, hw) | Inr a \<Rightarrow> alloc a hw)"

definition createAggregate :: "'w event_store_ops \<Rightarrow> handler_cfg \<Rightarrow> 'w hworld \<Rightarrow> nat result \<times> 'w hworld" where
  "createAggregate ops cfg hw = (case es_getNewId ops (store hw) of
       (Inl e, w) \<Rightarrow> (Inl e, hw\<lparr>store := w\<rparr>)
     | (Inr i, w) \<Rightarrow> (case new_aggregate (h_class cfg) (Some i) (h_state0 cfg) [] of
           Inl e \<Rightarrow> (Inl e, hw\<lparr>store := w\<rparr>)
         | Inr a \<Rightarrow> alloc a (hw\<lparr>store := w\<rparr>)))"

section \<open>The cache\<close>

definition truthy_id :: "ident option \<Rightarrow> ident option" where
  "truthy_id oid = (case oid of None \<Rightarrow> None | Some i \<Rightarrow> if id_truthy i then Some i else None)"

definition allocateCacheEntry ::
  "'w event_store_ops \<Rightarrow> handler_cfg \<Rightarrow> ident option \<Rightarrow> 'w handler_state \<Rightarrow> 'w handler_state" where
  "allocateCacheEntry ops cfg oid s = (case truthy_id oid of
       None \<Rightarrow> s
     | Some i \<Rightarrow> (case ma_assert i (restoreAggregate ops cfg i) (hs_cache s, hs_world s) of
         (_, m, w) \<Rightarrow> s\<lparr>hs_cache := m, hs_world := w\<rparr>))"

definition resetCacheEntry ::
  "'w event_store_ops \<Rightarrow> handler_cfg \<Rightarrow> ident option \<Rightarrow> 'w handler_state \<Rightarrow> 'w handler_state" where
  "resetCacheEntry ops cfg oid s = (case truthy_id oid of
       None \<Rightarrow> s
     | Some i \<Rightarrow> s\<lparr>hs_cache := ma_setLazy i (restoreAggregate ops cfg i) (hs_cache s)\<rparr>)"

definition releaseCacheEntry :: "ident option \<Rightarrow> 'w handler_state \<Rightarrow> 'w handler_state" where
  "releaseCacheEntry oid s = (case truthy_id oid of
       None \<Rightarrow> s | Some i \<Rightarrow> s\<lparr>hs_cache := ma_release i (hs_cache s)\<rparr>)"

text \<open>The aggregate an attempt works on: the cached instance, or a new one without an id.\<close>

definition current_aggregate ::
  "'w event_store_ops \<Rightarrow> handler_cfg \<Rightarrow> ident option \<Rightarrow> ('w handler_state, nat) act" where
  "current_aggregate ops cfg oid s = (case truthy_id oid of
       Some i \<Rightarrow> (case ma_get i (hs_cache s, hs_world s) of
           (v, m, w) \<Rightarrow> (case v of
               None \<Rightarrow> (Inl (TypeError ''aggregate is undefined''), s\<lparr>hs_cache := m, hs_world := w\<rparr>)
             | Some r \<Rightarrow> (r, s\<lparr>hs_cache := m, hs_world := w\<rparr>)))
     | None \<Rightarrow> (case createAggregate ops cfg (hs_world s) of (r, w) \<Rightarrow> (r, s\<lparr>hs_world := w\<rparr>)))"

section \<open>Executing a command\<close>

definition handle_at :: "handler_cfg \<Rightarrow> nat \<Rightarrow> command \<Rightarrow> ('w hworld, event list) act" where
  "handle_at cfg ref cmd hw = (case handle (h_class cfg) cmd (heap hw ! ref) of
     (r, a) \<Rightarrow> (r, hw\<lparr>heap := (heap hw)[ref := a]\<rparr>))"

definition dispatch_some ::
  "'w event_store_ops \<Rightarrow> event list \<Rightarrow> bool \<Rightarrow> ('w hworld, unit) act" where
  "dispatch_some ops evs ignoreConc hw =
     (if evs = [] then (Inr (), hw)
      else (case es_dispatch ops evs ignoreConc (store hw) of (r, w) \<Rightarrow> (r, hw\<lparr>store := w\<rparr>)))"

definition with_world :: "'w handler_state \<Rightarrow> 'w hworld \<Rightarrow> 'w handler_state" where
  "with_world s w = s\<lparr>hs_world := w\<rparr>"

text \<open>One round of the loop: the events to return, or \<open>None\<close> to go round again.\<close>

definition attempt_once ::
  "'w event_store_ops \<Rightarrow> handler_cfg \<Rightarrow> command \<Rightarrow> int \<Rightarrow> ('w handler_state, event list option) act" where
  "attempt_once ops cfg cmd attempt s =
     (case current_aggregate ops cfg (aggregateId cmd) s of
        (Inl e, s1) \<Rightarrow> (Inl e, s1)
      | (Inr ref, s1) \<Rightarrow>
        (case handle_at cfg ref cmd (hs_world s1) of
           (Inl e, w) \<Rightarrow> (Inl e, resetCacheEntry ops cfg (aggregateId cmd) (with_world s1 w))
         | (Inr evs, w) \<Rightarrow>
           (case dispatch_some ops evs False w of
              (Inr _, w2) \<Rightarrow> (Inr (Some evs), with_world s1 w2)
            | (Inl err, w2) \<Rightarrow>
                (let s2 = resetCacheEntry ops cfg (aggregateId cmd) (with_world s1 w2)
                 in case h_shouldRetry cfg err evs attempt of
                      Stop \<Rightarrow> (Inl err, s2)
                    | Ignore \<Rightarrow> (case dispatch_some ops evs True (hs_world s2) of
                          (Inl e2, w3) \<Rightarrow> (Inl e2, with_world s2 w3)
                        | (Inr _, w3) \<Rightarrow> (Inr (Some evs), with_world s2 w3))
                    | Again \<Rightarrow> (Inr None, s2)))))"

text \<open>The loop has no bound of its own: \<open>None\<close> is out of fuel.\<close>

primrec attempts ::
  "'w event_store_ops \<Rightarrow> handler_cfg \<Rightarrow> command \<Rightarrow> nat \<Rightarrow> nat \<Rightarrow> 'w handler_state \<Rightarrow>
   (event list result \<times> 'w handler_state) option" where
  "attempts ops cfg cmd 0 attempt s = None"
| "attempts ops cfg cmd (Suc fuel) attempt s = (case attempt_once ops cfg cmd (int attempt) s of
       (Inl e, s') \<Rightarrow> Some (Inl e, s')
     | (Inr (Some evs), s') \<Rightarrow> Some (Inr evs, s')
     | (Inr None, s') \<Rightarrow> attempts ops cfg cmd fuel (Suc attempt) s')"

text \<open>
  \<open>acquire\<close> on the aggregate's name where the lock is free; \<open>None\<close> where the command has to wait
  (what happens then is the subject of \<open>LockModel\<close>), and \<open>release\<close> in the \<open>finally\<close>.
\<close>

definition acquire_lease :: "ident option \<Rightarrow> 'w handler_state \<Rightarrow> (string option option \<times> 'w handler_state) option" where
  "acquire_lease oid s = (case truthy_id oid of
       None \<Rightarrow> Some (None, s)
     | Some i \<Rightarrow> (case acquire_enter (lock_name (Some (String_of i))) (hs_lock s) of
           (Holds n, l) \<Rightarrow> Some (Some n, s\<lparr>hs_lock := l\<rparr>)
         | _ \<Rightarrow> None))"

definition release_lease :: "string option option \<Rightarrow> 'w handler_state \<Rightarrow> 'w handler_state" where
  "release_lease lease s = (case lease of None \<Rightarrow> s | Some n \<Rightarrow> s\<lparr>hs_lock := release n (hs_lock s)\<rparr>)"

definition execute ::
  "'w event_store_ops \<Rightarrow> handler_cfg \<Rightarrow> nat \<Rightarrow> command \<Rightarrow> 'w handler_state \<Rightarrow>
   (event list result \<times> 'w handler_state) option" where
  "execute ops cfg fuel cmd s =
     (if \<not> message_ok cmd then Some (Inl (TypeError ''cmd must be a valid IMessage''), s)
      else (case acquire_lease (aggregateId cmd) (allocateCacheEntry ops cfg (aggregateId cmd) s) of
          None \<Rightarrow> None
        | Some (lease, s1) \<Rightarrow> (case attempts ops cfg cmd fuel 0 s1 of
            None \<Rightarrow> None
          | Some (r, s2) \<Rightarrow> Some (r, releaseCacheEntry (aggregateId cmd) (release_lease lease s2)))))"

section \<open>Nothing leaks: registrations and lease are given back\<close>

definition same_users :: "'w handler_state \<Rightarrow> 'w handler_state \<Rightarrow> bool" where
  "same_users s s' \<longleftrightarrow> ma_inv (hs_cache s') \<and> (\<forall>j. usage (hs_cache s') j = usage (hs_cache s) j)
     \<and> hs_lock s' = hs_lock s"

definition in_use :: "ident option \<Rightarrow> 'w handler_state \<Rightarrow> bool" where
  "in_use oid s \<longleftrightarrow> ma_inv (hs_cache s) \<and> (\<forall>i. truthy_id oid = Some i \<longrightarrow> 0 < usage (hs_cache s) i)"

lemma same_users_refl: "ma_inv (hs_cache s) \<Longrightarrow> same_users s s"
  by (simp add: same_users_def)

lemma same_users_trans: "same_users s t \<Longrightarrow> same_users t u \<Longrightarrow> same_users s u"
  by (simp add: same_users_def)

lemma same_users_in_use: "same_users s t \<Longrightarrow> in_use oid s \<Longrightarrow> in_use oid t"
  by (simp add: same_users_def in_use_def)

lemma with_world_sel [simp]:
  "hs_cache (with_world s w) = hs_cache s" "hs_lock (with_world s w) = hs_lock s" "hs_world (with_world s w) = w"
  by (simp_all add: with_world_def)

lemma same_users_with_world [simp]: "same_users s (with_world t w) = same_users s t"
  by (simp add: same_users_def)

lemma current_aggregate_keeps:
  assumes "current_aggregate ops cfg oid s = (r, s')" and "ma_inv (hs_cache s)"
  shows "same_users s s'"
proof (cases "truthy_id oid")
  case None
  with assms show ?thesis by (auto simp: current_aggregate_def same_users_def split: prod.splits)
next
  case (Some i)
  obtain v m w where g: "ma_get i (hs_cache s, hs_world s) = (v, m, w)" by (rule prod_cases3)
  with Some assms(1) have "hs_cache s' = m" "hs_lock s' = hs_lock s"
    by (auto simp: current_aggregate_def split: option.splits)
  with ma.ok_fetch [OF assms(2), of i "hs_world s"] ma.users_fetch [of i "hs_cache s" "hs_world s"] g
  show ?thesis by (simp add: same_users_def)
qed

lemma resetCacheEntry_keeps:
  assumes "in_use oid s"
  shows "same_users s (resetCacheEntry ops cfg oid s)"
  using assms ma.ok_reset [of "hs_cache s"]
  by (auto simp: resetCacheEntry_def same_users_def in_use_def split: option.splits)

text \<open>What state an attempt ends in.\<close>

lemma attempt_once_state:
  assumes "attempt_once ops cfg cmd n s = (r, s')"
  obtains q s1 where "current_aggregate ops cfg (aggregateId cmd) s = (q, s1)" and "s' = s1"
  | q s1 w where "current_aggregate ops cfg (aggregateId cmd) s = (q, s1)" and "s' = with_world s1 w"
  | q s1 w where "current_aggregate ops cfg (aggregateId cmd) s = (q, s1)"
      and "s' = resetCacheEntry ops cfg (aggregateId cmd) (with_world s1 w)"
  | q s1 w w' where "current_aggregate ops cfg (aggregateId cmd) s = (q, s1)"
      and "s' = with_world (resetCacheEntry ops cfg (aggregateId cmd) (with_world s1 w)) w'"
  using assms
  by (auto simp: attempt_once_def Let_def split: prod.splits sum.splits decision.splits)

lemma attempt_once_keeps:
  assumes "attempt_once ops cfg cmd n s = (r, s')" and "in_use (aggregateId cmd) s"
  shows "same_users s s'"
proof -
  have inv: "ma_inv (hs_cache s)" using assms(2) by (simp add: in_use_def)
  have reset: "same_users s (resetCacheEntry ops cfg (aggregateId cmd) (with_world s1 w))"
    if "current_aggregate ops cfg (aggregateId cmd) s = (q, s1)" for q s1 w
  proof -
    have 1: "same_users s (with_world s1 w)" using current_aggregate_keeps [OF that inv] by simp
    from same_users_trans [OF 1 resetCacheEntry_keeps [OF same_users_in_use [OF 1 assms(2)]]] show ?thesis .
  qed
  from assms(1) show ?thesis
    by (rule attempt_once_state) (use current_aggregate_keeps inv reset in auto)
qed

lemma attempts_keeps:
  "attempts ops cfg cmd fuel n s = Some (r, s') \<Longrightarrow> in_use (aggregateId cmd) s \<Longrightarrow> same_users s s'"
proof (induction fuel arbitrary: n s)
  case (Suc fuel)
  obtain q s1 where a: "attempt_once ops cfg cmd (int n) s = (q, s1)" by (cases "attempt_once ops cfg cmd (int n) s")
  note k = attempt_once_keeps [OF a Suc.prems(2)]
  show ?case
  proof (cases "q = Inr None")
    case True
    with Suc.prems(1) a have "attempts ops cfg cmd fuel (Suc n) s1 = Some (r, s')" by simp
    from same_users_trans [OF k Suc.IH [OF this same_users_in_use [OF k Suc.prems(2)]]] show ?thesis .
  next
    case False
    with Suc.prems(1) a have "s' = s1" by (auto split: sum.splits option.splits)
    with k show ?thesis by simp
  qed
qed simp

text \<open>
  However a command ends, its registration in the cache is given back and the lock it took
  is free again: the next command for the aggregate is not blocked, and no instance stays
  cached without a user.
\<close>

lemma allocate_in_use:
  assumes "ma_inv (hs_cache s)"
  shows "in_use oid (allocateCacheEntry ops cfg oid s)
    \<and> (\<forall>j. usage (hs_cache (allocateCacheEntry ops cfg oid s)) j
          = usage (hs_cache s) j + (if truthy_id oid = Some j then 1 else 0))
    \<and> hs_lock (allocateCacheEntry ops cfg oid s) = hs_lock s"
proof (cases "truthy_id oid")
  case None
  with assms show ?thesis by (simp add: allocateCacheEntry_def in_use_def)
next
  case (Some i)
  obtain v m w where a: "ma_assert i (restoreAggregate ops cfg i) (hs_cache s, hs_world s) = (v, m, w)"
    by (rule prod_cases3)
  have u: "usage m j = usage (hs_cache s) j + (if j = i then 1 else 0)" for j
    using ma.users_acq [of i "restoreAggregate ops cfg i" "hs_cache s" "hs_world s" j] a by simp
  have "ma_inv m" using ma.ok_acq [OF assms, of i "restoreAggregate ops cfg i" "hs_world s"] a by simp
  moreover have "0 < usage m i" using u [of i] ma.users_nonneg [OF assms, of i] by simp
  ultimately show ?thesis using Some a u by (auto simp: allocateCacheEntry_def in_use_def)
qed

lemma releaseCacheEntry_ok:
  assumes "in_use oid s"
  shows "ma_inv (hs_cache (releaseCacheEntry oid s)) \<and> hs_lock (releaseCacheEntry oid s) = hs_lock s
    \<and> (\<forall>j. usage (hs_cache (releaseCacheEntry oid s)) j = usage (hs_cache s) j - (if truthy_id oid = Some j then 1 else 0))"
proof (cases "truthy_id oid")
  case None
  with assms show ?thesis by (simp add: releaseCacheEntry_def in_use_def)
next
  case (Some i)
  with assms have "ma_inv (hs_cache s)" "0 < usage (hs_cache s) i" by (auto simp: in_use_def)
  from ma.ok_rel [OF this] ma.users_rel [OF this] Some show ?thesis by (auto simp: releaseCacheEntry_def)
qed

lemma lease_free:
  assumes "acquire_lease oid s = Some (lease, s1)" and "hs_lock t = hs_lock s1"
  shows "hs_cache s1 = hs_cache s \<and> hs_cache (release_lease lease t) = hs_cache t
    \<and> (\<forall>n. lease = Some (Some n) \<longrightarrow> map_of (namedLocks (hs_lock (release_lease lease t))) n = None)
    \<and> (\<forall>n. lease \<noteq> Some (Some n) \<longrightarrow> map_of (namedLocks (hs_lock (release_lease lease t))) n
         = map_of (namedLocks (hs_lock s)) n)"
proof -
  have take: "map_of (namedLocks l) n = map_of (namedLocks k) n"
    if "acquire_enter m k = (Holds h, l)" "h \<noteq> Some n" for m k h l n
    using that by (auto simp: acquire_enter_def acquire_wait_def acquire_take_def resolve_deferred_def
        split: option.splits if_splits)
  show ?thesis
    using assms by (auto simp: acquire_lease_def release_lease_def release_def resolve_deferred_def
        dest: take split: option.splits prod.splits task.splits)
qed

text \<open>
  C10: however a command ends - with events, with an error of its handler, with a refused dispatch
  after any number of retries - its registration in the aggregate cache is given back: every id
  has as many users as before, and exactly the same ids are cached.
\<close>

theorem execute_cleans_up:
  assumes "ma_inv (hs_cache s)" and "execute ops cfg fuel cmd s = Some (r, s')"
  shows "ma_inv (hs_cache s') \<and> (\<forall>j. usage (hs_cache s') j = usage (hs_cache s) j)
    \<and> (\<forall>j. ma_has (hs_cache s') j = ma_has (hs_cache s) j)"
proof (cases "message_ok cmd")
  case False
  with assms show ?thesis by (simp add: execute_def)
next
  case True
  define s0 where "s0 = allocateCacheEntry ops cfg (aggregateId cmd) s"
  from True assms(2) obtain lease s1 s2 where
    acq: "acquire_lease (aggregateId cmd) s0 = Some (lease, s1)"
    and att: "attempts ops cfg cmd fuel 0 s1 = Some (r, s2)"
    and s': "s' = releaseCacheEntry (aggregateId cmd) (release_lease lease s2)"
    by (auto simp: execute_def s0_def split: option.splits prod.splits)
  note al = allocate_in_use [OF assms(1), of "aggregateId cmd" ops cfg, folded s0_def]
  have c1: "hs_cache s1 = hs_cache s0" using lease_free [OF acq refl] by simp
  with al have use1: "in_use (aggregateId cmd) s1" unfolding in_use_def by metis
  note k = attempts_keeps [OF att use1]
  have c2: "hs_cache (release_lease lease s2) = hs_cache s2"
    using lease_free [OF acq, of s2] k by (simp add: same_users_def)
  have "in_use (aggregateId cmd) (release_lease lease s2)"
    using same_users_in_use [OF k use1] c2 by (simp add: in_use_def)
  note rel = releaseCacheEntry_ok [OF this, folded s']
  have us: "usage (hs_cache s') j = usage (hs_cache s) j" for j
  proof -
    have "usage (hs_cache s') j = usage (hs_cache s2) j - (if truthy_id (aggregateId cmd) = Some j then 1 else 0)"
      using rel c2 by metis
    also have "usage (hs_cache s2) j = usage (hs_cache s0) j" using k c1 unfolding same_users_def by metis
    finally show ?thesis using al by simp
  qed
  from rel have inv: "ma_inv (hs_cache s')" by simp
  show ?thesis using us inv ma.cached_iff [OF inv] ma.cached_iff [OF assms(1)] by simp
qed

section \<open>The retry loop\<close>

lemma attempt_once_again:
  "attempt_once ops cfg cmd n s = (Inr None, s') \<Longrightarrow> \<exists>err evs. h_shouldRetry cfg err evs n = Again"
  by (auto simp: attempt_once_def Let_def split: prod.splits sum.splits decision.splits)

text \<open>With a resolver that gives up after \<open>n\<close> attempts, $n + 1$ rounds are enough; more change nothing.\<close>

lemma attempts_return:
  "gives_up_after n (h_shouldRetry cfg) \<Longrightarrow> n \<le> k + fuel \<Longrightarrow> \<exists>r s'. attempts ops cfg cmd (Suc fuel) k s = Some (r, s')"
proof (induction fuel arbitrary: k s)
  case 0
  obtain q s1 where a: "attempt_once ops cfg cmd (int k) s = (q, s1)" by (cases "attempt_once ops cfg cmd (int k) s")
  have "q \<noteq> Inr None"
    using a attempt_once_again 0 unfolding gives_up_after_def by (metis add.right_neutral of_nat_le_iff)
  with a show ?case by (auto split: sum.split option.split)
next
  case (Suc fuel)
  obtain q s1 where a: "attempt_once ops cfg cmd (int k) s = (q, s1)" by (cases "attempt_once ops cfg cmd (int k) s")
  show ?case
  proof (cases "q = Inr None")
    case True
    with a Suc.IH [OF Suc.prems(1), of "Suc k" s1] Suc.prems(2) show ?thesis by simp
  next
    case False
    with a show ?thesis by (auto split: sum.split option.split)
  qed
qed

lemma attempts_more: "attempts ops cfg cmd fuel k s = Some x \<Longrightarrow> attempts ops cfg cmd (fuel + m) k s = Some x"
proof (induction fuel arbitrary: k s)
  case (Suc fuel)
  obtain q s1 where "attempt_once ops cfg cmd (int k) s = (q, s1)" by (cases "attempt_once ops cfg cmd (int k) s")
  with Suc show ?case by (auto split: sum.splits option.splits)
qed simp

lemma lease_when_free:
  assumes "globalLockAcquiringLock (hs_lock s) = None" "globalLock (hs_lock s) = None" "namedLocks (hs_lock s) = []"
  shows "\<exists>lease s1. acquire_lease oid s = Some (lease, s1)"
  using assms by (auto simp: acquire_lease_def acquire_enter_def acquire_wait_def getAnyBlockingLock_def lock_name_def
      split: option.split)

text \<open>
  Before an attempt is repeated, the cached aggregate is dropped: the next attempt works on one
  restored from the store as it is then, so nothing of the refused attempt is in it.
\<close>

theorem retry_restores:
  assumes "attempt_once ops cfg cmd n s = (Inr None, s')" and "truthy_id (aggregateId cmd) = Some i"
  shows "fst (current_aggregate ops cfg (aggregateId cmd) s') = fst (restoreAggregate ops cfg i (hs_world s'))"
proof -
  from assms(1) obtain t where s': "s' = resetCacheEntry ops cfg (aggregateId cmd) t"
    by (auto simp: attempt_once_def Let_def split: prod.splits sum.splits decision.splits)
  have "map_of (factories (hs_cache s')) i = Some (restoreAggregate ops cfg i)"
    using assms(2) by (simp add: s' resetCacheEntry_def ma_setLazy_def Let_def)
  then show ?thesis
    using assms(2) by (auto simp: current_aggregate_def ma_get_def Let_def split: prod.splits)
qed

section \<open>The version a restored aggregate has\<close>

lemma mutate_all_version:
  "mutate_all cls evs a = (Inr (), a') \<Longrightarrow> evs \<noteq> [] \<Longrightarrow> aggregateVersion (last evs) = Some v \<Longrightarrow> version a' = v + 1"
proof (induction evs arbitrary: a)
  case (Cons e evs)
  from Cons.prems(1) obtain a1 where m: "mutate cls e a = (Inr (), a1)" and rest: "mutate_all cls evs a1 = (Inr (), a')"
    by (auto simp: act_bind_Inr_iff)
  show ?case
  proof (cases "evs = []")
    case True
    with rest m Cons.prems(3) mutate_frame [OF m] show ?thesis by (simp add: act_simps)
  next
    case False
    with Cons.IH [OF rest] Cons.prems(3) show ?thesis by simp
  qed
qed simp

lemma mutate_all_id: "mutate_all cls evs a = (Inr (), a') \<Longrightarrow> agg_id a' = agg_id a"
  by (induction evs arbitrary: a) (auto simp: act_bind_Inr_iff act_simps dest: mutate_frame)

lemma restored_version:
  assumes "restored ops cfg i w = Inr a" and "es_getAggregateEvents ops i (restore_query cfg) w = Inr evs"
  shows "agg_id a = i \<and> (evs = [] \<longrightarrow> version a = 0)
    \<and> (\<forall>v. evs \<noteq> [] \<longrightarrow> aggregateVersion (last evs) = Some v \<longrightarrow> version a = v + 1)"
proof -
  from assms obtain a0 where a0: "new_aggregate (h_class cfg) (Some i) (h_state0 cfg) [] = Inr a0"
    and m: "mutate_all (h_class cfg) evs a0 = (Inr (), a)"
    by (auto simp: restored_def run_result_iff)
  from a0 have "agg_id a0 = i" "version a0 = 0"
    by (auto simp: new_aggregate_ok act_simps blank_aggregate_def assert_id_defined_def split: if_splits)
  with mutate_all_version [OF m] mutate_all_id [OF m] m show ?thesis by (auto simp: act_simps)
qed

section \<open>Properties\<close>

text \<open>An event store that is a list of events, and a handler for the counter.\<close>

definition demo_ops :: "event list event_store_ops" where
  "demo_ops = \<lparr>es_getNewId = \<lambda>w. (Inr (IdStr ''new''), w),
     es_getAggregateEvents = \<lambda>i q w. Inr (filter (\<lambda>e. aggregateId e = Some i) w),
     es_dispatch = \<lambda>evs ig w. if ig \<or> w = [] then (Inr (), w @ evs) else (Inl (ConcurrencyError ''conflict''), w)\<rparr>"

definition demo_handler :: handler_cfg where
  "demo_handler = \<lparr>h_class = demo_class, h_state0 = Some [(''n'', JNum 0)], h_restoresFrom = None,
     h_shouldRetry = \<lambda>err evs n. if is_concurrency_error err then Ignore else Stop\<rparr>"

definition demo_state :: "event list handler_state" where
  "demo_state = \<lparr>hs_cache = new_map_assertable, hs_lock = new_lock, hs_world = \<lparr>store = [], heap = []\<rparr>\<rparr>"

lemma demo_resolver: "normalizeRetryResolver fa (RetryVal (JStr ''ignore'')) = Inr (h_shouldRetry demo_handler)"
  by (simp add: normalizeRetryResolver_def demo_handler_def)

lemma demo_free:
  "ma_inv (hs_cache demo_state)" "globalLockAcquiringLock (hs_lock demo_state) = None"
  "globalLock (hs_lock demo_state) = None" "namedLocks (hs_lock demo_state) = []"
  by (simp_all add: demo_state_def new_map_assertable_def new_lock_def ma_inv_def ma_has_def map_has_def usage_def)

lemma demo_returns:
  obtains r s' where "execute demo_ops demo_handler 1 (demo_command ''a'') demo_state = Some (r, s')"
proof -
  have "gives_up_after 0 (h_shouldRetry demo_handler)" by (simp add: gives_up_after_def demo_handler_def)
  from attempts_return [OF this, of 0 0] have att: "\<exists>r s'. attempts demo_ops demo_handler c 1 0 s = Some (r, s')" for c s
    by simp
  let ?s = "allocateCacheEntry demo_ops demo_handler (aggregateId (demo_command ''a'')) demo_state"
  have "hs_lock ?s = hs_lock demo_state" using allocate_in_use [OF demo_free(1)] by blast
  then obtain lease s1 where "acquire_lease (aggregateId (demo_command ''a'')) ?s = Some (lease, s1)"
    using lease_when_free [of ?s] demo_free by metis
  moreover obtain r s' where "attempts demo_ops demo_handler (demo_command ''a'') 1 0 s1 = Some (r, s')" using att by blast
  ultimately show thesis using that by (cases "message_ok (demo_command ''a'')") (simp_all add: execute_def)
qed



lemma execute_cleans_up_witness:
  "\<exists>r s'. execute demo_ops demo_handler 1 (demo_command ''a'') demo_state = Some (r, s')
    \<and> (\<forall>j. usage (hs_cache s') j = 0)"
proof -
  obtain r s' where ex: "execute demo_ops demo_handler 1 (demo_command ''a'') demo_state = Some (r, s')"
    by (rule demo_returns)
  have "usage (hs_cache demo_state) j = 0" for j by (simp add: demo_state_def new_map_assertable_def usage_def)
  with execute_cleans_up [OF demo_free(1) ex] ex show ?thesis by auto
qed

lemma only_concurrency_errors_retried_witness:
  "is_concurrency_error (ConcurrencyError ''x'')"
proof -
  have "normalizeRetryResolver (\<lambda>_ _. False) (RetryVal (JNum 3))
      = Inr (\<lambda>err evs attempt. if is_concurrency_error err \<and> attempt_below (\<lambda>_ _. False) attempt (JNum 3) then Again else Stop)"
    by (simp add: normalizeRetryResolver_def)
  from only_concurrency_errors_retried [OF this, where err = "ConcurrencyError ''x''" and n = 1] show ?thesis by simp
qed

lemma retry_restores_witness:
  "\<exists>s'. attempt_once demo_ops (demo_handler\<lparr>h_shouldRetry := \<lambda>_ _ _. Again\<rparr>) (demo_command ''a'') 0
        (demo_state\<lparr>hs_cache := (new_map_assertable\<lparr>entries := [(IdStr ''a'', Inr 0)]\<rparr>),
          hs_world := \<lparr>store = [demo_event ''incremented'' ''a'' 0 ''e1''],
            heap = [blank_aggregate (IdStr ''a'') (Some [(''n'', JNum 0)])]\<rparr>\<rparr>) = (Inr None, s')
    \<and> fst (current_aggregate demo_ops (demo_handler\<lparr>h_shouldRetry := \<lambda>_ _ _. Again\<rparr>) (Some (IdStr ''a'')) s')
      = fst (restoreAggregate demo_ops (demo_handler\<lparr>h_shouldRetry := \<lambda>_ _ _. Again\<rparr>) (IdStr ''a'') (hs_world s'))"
proof -
  let ?cfg = "demo_handler\<lparr>h_shouldRetry := \<lambda>_ _ _. Again\<rparr>"
  let ?s = "demo_state\<lparr>hs_cache := (new_map_assertable\<lparr>entries := [(IdStr ''a'', Inr 0)]\<rparr>),
          hs_world := \<lparr>store = [demo_event ''incremented'' ''a'' 0 ''e1''],
            heap = [blank_aggregate (IdStr ''a'') (Some [(''n'', JNum 0)])]\<rparr>\<rparr>"
  have id: "truthy_id (aggregateId (demo_command ''a'')) = Some (IdStr ''a'')"
    by (simp add: truthy_id_def demo_command_def)
  have cur: "current_aggregate demo_ops ?cfg (aggregateId (demo_command ''a'')) ?s = (Inr 0, ?s)"
    by (simp add: current_aggregate_def id ma_get_def new_map_assertable_def Let_def)
  obtain w where h: "handle_at ?cfg 0 (demo_command ''a'') (hs_world ?s) = (Inr (fst w), snd w)" "fst w \<noteq> []"
      "store (snd w) = [demo_event ''incremented'' ''a'' 0 ''e1'']"
    by (force simp: handle_at_def demo_handler_def demo_defs Let_def)
  from h have d: "dispatch_some demo_ops (fst w) False (snd w) = (Inl (ConcurrencyError ''conflict''), snd w)"
    by (simp add: dispatch_some_def demo_ops_def)
  obtain s' where s': "attempt_once demo_ops ?cfg (demo_command ''a'') 0 ?s = (Inr None, s')"
    using cur h d by (simp add: attempt_once_def Let_def)
  from retry_restores [OF s' id] s' show ?thesis by (auto simp: demo_command_def)
qed

end
