(* ===== verification/Consistency.thy ===== *)
theory Consistency
  imports EventStore CommandHandler
begin

text \<open>
  Optimistic concurrency end to end: any number of processes, each with its own command handler
  and no shared lock, restore aggregates from one event log and dispatch what the aggregates
  emitted. Between the two anything may have been committed by others. The system is a step
  relation over an \<open>event_log\<close>; its invariant is that every aggregate's versions in the log are
  $0, 1, 2, \ldots$ without a gap or a repetition.
\<close>

section \<open>The system\<close>

text \<open>
  A process is idle, holds an aggregate it restored (its id and version, whatever its state is),
  or has a batch the aggregate emitted, ready to be dispatched.
\<close>

datatype process = Away | Restored ident int | Emitted ident int "event list"

record 'w system =
  world :: 'w
  procs :: "nat \<Rightarrow> process"

text \<open>The stored versions of one aggregate, in the order of the log.\<close>

definition versions_of :: "'k \<Rightarrow> ('k \<times> int) list \<Rightarrow> int list" where
  "versions_of i lg = map snd (filter (\<lambda>k. fst k = i) lg)"

definition gapless :: "('k \<times> int) list \<Rightarrow> bool" where
  "gapless lg \<longleftrightarrow> (\<forall>i. versions_of i lg = map int [0..<length (versions_of i lg)])"

definition next_version :: "'k \<Rightarrow> ('k \<times> int) list \<Rightarrow> int" where
  "next_version i lg = int (length (versions_of i lg))"

inductive sys_step ::
  "(event list \<Rightarrow> bool \<Rightarrow> ('w, event list) act) \<Rightarrow> ('w \<Rightarrow> ('k \<times> int) list) \<Rightarrow> (ident \<Rightarrow> 'k) \<Rightarrow> (ident \<Rightarrow> bool) \<Rightarrow>
   'w system \<Rightarrow> 'w system \<Rightarrow> bool"
  for commit stored key_of valid where
  step_restore: "valid i \<Longrightarrow> sys_step commit stored key_of valid s
     (s\<lparr>procs := (procs s)(p := Restored i (next_version (key_of i) (stored (world s))))\<rparr>)"
| step_emit: "procs s p = Restored i v \<Longrightarrow> versions_from i v es \<Longrightarrow>
     sys_step commit stored key_of valid s (s\<lparr>procs := (procs s)(p := Emitted i v es)\<rparr>)"
| step_dispatch: "procs s p = Emitted i v es \<Longrightarrow> commit es False (world s) = (r, w) \<Longrightarrow>
     sys_step commit stored key_of valid s (s\<lparr>world := w, procs := (procs s)(p := Away)\<rparr>)"

inductive sys_run ::
  "(event list \<Rightarrow> bool \<Rightarrow> ('w, event list) act) \<Rightarrow> ('w \<Rightarrow> ('k \<times> int) list) \<Rightarrow> (ident \<Rightarrow> 'k) \<Rightarrow> (ident \<Rightarrow> bool) \<Rightarrow>
   'w system \<Rightarrow> 'w system \<Rightarrow> bool"
  for commit stored key_of valid where
  run_refl: "sys_run commit stored key_of valid s s"
| run_step: "sys_run commit stored key_of valid s t \<Longrightarrow> sys_step commit stored key_of valid t u \<Longrightarrow>
     sys_run commit stored key_of valid s u"

inductive_simps sys_run_from: "sys_run commit stored key_of valid s t"

section \<open>The invariant\<close>

text \<open>
  Processes restored a version that was the next one once, so it still is at most the next one;
  their batches continue that version.
\<close>

fun proc_ok :: "(ident \<Rightarrow> 'k) \<Rightarrow> (ident \<Rightarrow> bool) \<Rightarrow> ('k \<times> int) list \<Rightarrow> process \<Rightarrow> bool" where
  "proc_ok key_of valid lg Away = True"
| "proc_ok key_of valid lg (Restored i v) \<longleftrightarrow> valid i \<and> 0 \<le> v \<and> v \<le> next_version (key_of i) lg"
| "proc_ok key_of valid lg (Emitted i v es) \<longleftrightarrow>
     valid i \<and> 0 \<le> v \<and> v \<le> next_version (key_of i) lg \<and> versions_from i v es"

definition sys_inv :: "('w \<Rightarrow> ('k \<times> int) list) \<Rightarrow> (ident \<Rightarrow> 'k) \<Rightarrow> (ident \<Rightarrow> bool) \<Rightarrow> 'w system \<Rightarrow> bool" where
  "sys_inv stored key_of valid s \<longleftrightarrow> gapless (stored (world s)) \<and>
     (\<forall>p. proc_ok key_of valid (stored (world s)) (procs s p))"

lemma versions_of_append [simp]: "versions_of i (es @ fs) = versions_of i es @ versions_of i fs"
  by (simp add: versions_of_def)

lemma keyed_from: "versions_from i v es \<Longrightarrow> keyed f es = map (\<lambda>n. (f i, v + int n)) [0..<length es]"
proof (induction es arbitrary: v)
  case (Cons e es)
  from Cons.prems have k: "version_key e = Some (i, v)" by (simp add: version_key_iff)
  have "[0..<length (e # es)] = 0 # map Suc [0..<length es]"
    by (simp add: upt_conv_Cons map_Suc_upt del: upt_Suc)
  then have "map (\<lambda>n. (f i, v + int n)) [0..<length (e # es)] = (f i, v) # map (\<lambda>n. (f i, v + 1 + int n)) [0..<length es]"
    by (simp add: o_def algebra_simps del: upt_Suc)
  with k Cons.IH [of "v + 1"] Cons.prems show ?case by simp
qed simp

lemma versions_of_from:
  "versions_from i v es \<Longrightarrow> versions_of j (keyed f es) = (if j = f i then map (\<lambda>n. v + int n) [0..<length es] else [])"
  by (simp add: keyed_from versions_of_def filter_map o_def)

lemma versions_of_mem: "v \<in> set (versions_of i lg) \<longleftrightarrow> (i, v) \<in> set lg"
  by (force simp: versions_of_def)

lemma gapless_mem: "gapless lg \<Longrightarrow> (i, v) \<in> set lg \<longleftrightarrow> 0 \<le> v \<and> v < next_version i lg"
proof -
  assume "gapless lg"
  then have "set (versions_of i lg) = set (map int [0..<length (versions_of i lg)])"
    unfolding gapless_def by metis
  then have "v \<in> set (versions_of i lg) \<longleftrightarrow> v \<in> int ` {0..<length (versions_of i lg)}" by simp
  then show ?thesis
    unfolding versions_of_mem [symmetric] next_version_def
    by (auto simp: image_def intro: bexI [of _ "nat v"])
qed

lemma next_version_append: "next_version i lg \<le> next_version i (lg @ ks)"
  by (simp add: next_version_def)

lemma proc_ok_append: "proc_ok key_of valid lg q \<Longrightarrow> proc_ok key_of valid (lg @ ks) q"
  using next_version_append order_trans by (cases q) (auto, fastforce+)

lemma versions_from_fits: "valid i \<Longrightarrow> versions_from i v es \<Longrightarrow> fits valid es"
  by (induction es arbitrary: v) auto

text \<open>A batch whose first version is taken or free: free means it is exactly the next one.\<close>

lemma gapless_append:
  assumes "gapless lg" and "versions_from i v es" and "0 \<le> v" and "v \<le> next_version (f i) lg"
    and "set lg \<inter> set (keyed f es) = {}"
  shows "gapless (lg @ keyed f es)"
proof (cases "es = []")
  case False
  have "(f i, v) \<in> set (keyed f es)"
    using False by (auto simp: keyed_from [OF assms(2)] image_def intro: bexI [of _ 0])
  then have "(f i, v) \<notin> set lg" using assms(5) by auto
  with gapless_mem [OF assms(1)] assms(3,4) have v: "v = next_version (f i) lg" by force
  have "versions_of j (lg @ keyed f es) = map int [0..<length (versions_of j (lg @ keyed f es))]" for j
  proof -
    have lg: "versions_of j lg = map int [0..<length (versions_of j lg)]" using assms(1) by (simp add: gapless_def)
    show ?thesis
    proof (cases "j = f i")
      case True
      have "map (\<lambda>n. v + int n) [0..<length es]
          = map int [length (versions_of (f i) lg)..<length (versions_of (f i) lg) + length es]"
        unfolding v next_version_def by (intro nth_equalityI) auto
      with True lg versions_of_from [OF assms(2), of "f i" f] show ?thesis
        by (simp add: upt_add_eq_append [of 0 "length (versions_of (f i) lg)"])
    next
      case False
      with lg versions_of_from [OF assms(2), of j f] show ?thesis by simp
    qed
  qed
  then show ?thesis unfolding gapless_def by blast
qed (use assms(1) in simp)

context event_log begin

lemma sys_inv_step:
  assumes "sys_inv stored key_of valid s" and "sys_step commit stored key_of valid s t"
  shows "sys_inv stored key_of valid t"
  using assms(2)
proof (cases rule: sys_step.cases)
  case (step_restore i p)
  with assms(1) show ?thesis by (auto simp: sys_inv_def next_version_def)
next
  case (step_emit p i v es)
  with assms(1) show ?thesis unfolding sys_inv_def by (auto dest: spec [of _ p])
next
  case (step_dispatch p i v es r w)
  have batch: "valid i" "0 \<le> v" "v \<le> next_version (key_of i) (stored (world s))" "versions_from i v es"
    using assms(1) step_dispatch(2) unfolding sys_inv_def by (metis proc_ok.simps(3))+
  note fit = versions_from_fits [where valid = valid, OF batch(1,4)]
  have "gapless (stored w) \<and> (\<exists>ks. stored w = stored (world s) @ ks)"
  proof (cases r)
    case (Inl e)
    with step_dispatch(3) commit_fails assms(1) show ?thesis by (auto simp: sys_inv_def)
  next
    case (Inr x)
    have "gapless (stored (world s))" using assms(1) by (simp add: sys_inv_def)
    with Inr step_dispatch(3) commit_appends [OF fit] commit_guarded [OF fit] batch gapless_append show ?thesis by metis
  qed
  with assms(1) step_dispatch(1) show ?thesis by (auto simp: sys_inv_def proc_ok_append)
qed

lemma sys_inv_run:
  "sys_run commit stored key_of valid s t \<Longrightarrow> sys_inv stored key_of valid s \<Longrightarrow> sys_inv stored key_of valid t"
  by (induction rule: sys_run.induct) (auto intro: sys_inv_step)

end

definition init_system :: "'w \<Rightarrow> 'w system" where
  "init_system w = \<lparr>world = w, procs = (\<lambda>_. Away)\<rparr>"

lemma init_inv: "stored w = [] \<Longrightarrow> sys_inv stored key_of valid (init_system w)"
  by (simp add: sys_inv_def init_system_def gapless_def versions_of_def)

section \<open>The in-memory event store, and the version an aggregate is restored at\<close>

definition mem_dispatch :: "event list \<Rightarrow> bool \<Rightarrow> (mem_world, unit) act" where
  "mem_dispatch evs ig w =
     (case dispatch_one (\<lambda>_. Inr ()) default_processors
         (map (make_envelope (Some (store_meta (Some \<lparr>meta_origin = None, meta_ignoreConc = ig\<rparr>)))) evs) w of
        (Resolved _, _, w') \<Rightarrow> (Inr (), w')
      | (Rejected e, _, w') \<Rightarrow> (Inl e, w'))"

definition mem_new_id :: "(mem_world, ident) act" where
  "mem_new_id = on_storage (\<lambda>s. case getNewId s of (i, s') \<Rightarrow> (Inr (IdStr i), s'))"

definition mem_ops :: "mem_world event_store_ops" where
  "mem_ops = \<lparr>es_getNewId = mem_new_id,
     es_getAggregateEvents = \<lambda>i q w. store_getAggregateEvents mem_reader (Some mem_snapshot_lookup) (Some i) q w,
     es_dispatch = mem_dispatch\<rparr>"

text \<open>The events of one aggregate, and their versions.\<close>

definition own_events :: "ident \<Rightarrow> event list \<Rightarrow> event list" where
  "own_events i lg = filter (\<lambda>e. aggregateId e = Some i) lg"

definition all_versioned :: "ident \<Rightarrow> event list \<Rightarrow> bool" where
  "all_versioned i lg \<longleftrightarrow> (\<forall>e \<in> set (own_events i lg). aggregateVersion e \<noteq> None)"

lemma own_versions:
  "all_versioned i lg \<Longrightarrow> map aggregateVersion (own_events i lg) = map Some (versions_of i (version_keys lg))"
proof (induction lg)
  case (Cons e lg)
  then show ?case
    by (auto simp: own_events_def all_versioned_def versions_of_def version_key_def split: option.splits)
qed (simp add: own_events_def versions_of_def)

lemma last_own_version:
  assumes "gapless (version_keys lg)" and "all_versioned i lg"
  shows "(own_events i lg = [] \<longleftrightarrow> next_version i (version_keys lg) = 0)
    \<and> (own_events i lg \<noteq> [] \<longrightarrow> aggregateVersion (last (own_events i lg)) = Some (next_version i (version_keys lg) - 1))"
proof -
  note m = own_versions [OF assms(2)]
  have len: "length (own_events i lg) = length (versions_of i (version_keys lg))" using arg_cong [OF m, of length] by simp
  define n where "n = length (versions_of i (version_keys lg))"
  have vs: "versions_of i (version_keys lg) = map int [0..<n]" using assms(1) by (simp add: gapless_def n_def)
  show ?thesis
  proof (cases n)
    case 0
    with len vs show ?thesis by (simp add: next_version_def)
  next
    case (Suc k)
    have "own_events i lg \<noteq> []" using len vs Suc by auto
    moreover have "last (map aggregateVersion (own_events i lg)) = Some (int k)"
      unfolding m vs Suc by simp
    ultimately show ?thesis using vs Suc by (simp add: next_version_def last_map)
  qed
qed

text \<open>
  What the store's stream ends with: the aggregate's last event, whether all events are read, only
  some types with the tail, or those after a snapshot.
\<close>

lemma aggregate_stream_last:
  assumes "q_eventTypes q = None \<or> tail_last q"
    and "filter (newer_than (q_snapshot q)) (own_events i lg) \<noteq> []"
  shows "aggregate_stream i q lg \<noteq> []
    \<and> last (aggregate_stream i q lg) = last (filter (newer_than (q_snapshot q)) (own_events i lg))"
proof -
  define own where "own = filter (\<lambda>e. aggregateId e = Some i \<and> newer_than (q_snapshot q) e) lg"
  have own: "filter (newer_than (q_snapshot q)) (own_events i lg) = own"
    by (simp add: own_def own_events_def conj_commute)
  then have ne: "own \<noteq> []" using assms(2) by simp
  then obtain xs x where snoc: "own = xs @ [x]" by (cases own rule: rev_cases) auto
  show ?thesis
    unfolding own using assms(1) ne
    by (auto simp: aggregate_stream_def own_def [symmetric] Let_def snoc of_types_def split: option.splits)
qed

lemma aggregate_stream_empty:
  "filter (newer_than (q_snapshot q)) (own_events i lg) = [] \<Longrightarrow> aggregate_stream i q lg = []"
proof -
  assume e: "filter (newer_than (q_snapshot q)) (own_events i lg) = []"
  have "filter (\<lambda>e. aggregateId e = Some i \<and> newer_than (q_snapshot q) e) lg
      = filter (newer_than (q_snapshot q)) (own_events i lg)"
    by (simp add: own_events_def conj_commute)
  with e show ?thesis by (simp add: aggregate_stream_def)
qed

lemma last_filter_last: "xs \<noteq> [] \<Longrightarrow> P (last xs) \<Longrightarrow> filter P xs \<noteq> [] \<and> last (filter P xs) = last xs"
  by (cases xs rule: rev_cases) auto

text \<open>
  A stored snapshot that is not ahead of the log: its version is one of the aggregate's.
\<close>

definition snapshots_ok :: "mem_world \<Rightarrow> bool" where
  "snapshots_ok w \<longleftrightarrow> (\<forall>i e. getAggregateSnapshot i (w_snaps w) = Some e \<longrightarrow>
     (\<exists>v. aggregateVersion e = Some v \<and> (i, v) \<in> set (version_keys (events (w_storage w)))))"

lemma mem_stream_last:
  assumes "gapless (version_keys (events (w_storage w)))" and "all_versioned i (events (w_storage w))" and "snapshots_ok w"
    and "es_getAggregateEvents mem_ops i q w = Inr evs" and "q_snapshot q = None"
    and "q_eventTypes q = None \<or> tail_last q"
  shows "(evs = [] \<longrightarrow> next_version i (version_keys (events (w_storage w))) = 0)
    \<and> (evs \<noteq> [] \<longrightarrow> aggregateVersion (last evs) = Some (next_version i (version_keys (events (w_storage w))) - 1))"
proof -
  define lg where "lg = events (w_storage w)"
  define snap where "snap = getAggregateSnapshot i (w_snaps w)"
  have evs: "evs = (case snap of None \<Rightarrow> [] | Some e \<Rightarrow> [e]) @ aggregate_stream i (q\<lparr>q_snapshot := snap\<rparr>) lg"
    using assms(4,5) by (simp add: mem_ops_def store_getAggregateEvents_def mem_reader_def mem_snapshot_lookup_def
        getAggregateEvents_eq snap_def lg_def Let_def)
  note last = last_own_version [OF assms(1,2), folded lg_def]
  have types: "q_eventTypes (q\<lparr>q_snapshot := snap\<rparr>) = None \<or> tail_last (q\<lparr>q_snapshot := snap\<rparr>)"
    using assms(6) by simp
  show ?thesis
  proof (cases snap)
    case None
    then have all: "filter (newer_than (q_snapshot (q\<lparr>q_snapshot := snap\<rparr>))) (own_events i lg) = own_events i lg"
      by (simp add: newer_than_def)
    show ?thesis
    proof (cases "own_events i lg = []")
      case True
      with all aggregate_stream_empty [of "q\<lparr>q_snapshot := snap\<rparr>" i lg] None evs last show ?thesis by (simp add: lg_def)
    next
      case False
      with all aggregate_stream_last [OF types, of i lg] None evs last show ?thesis by (simp add: lg_def)
    qed
  next
    case (Some e)
    with assms(3) obtain v where v: "aggregateVersion e = Some v" "(i, v) \<in> set (version_keys lg)"
      unfolding snapshots_ok_def snap_def lg_def by blast
    have range: "0 \<le> v" "v < next_version i (version_keys lg)" using gapless_mem [of "version_keys lg" i v] assms(1) v(2) lg_def by simp_all
    then have own: "own_events i lg \<noteq> []" "aggregateVersion (last (own_events i lg)) = Some (next_version i (version_keys lg) - 1)"
      using last by auto
    have new: "newer_than (Some e) x \<longleftrightarrow> v = 0 \<or> (\<exists>u. aggregateVersion x = Some u \<and> v < u)" for x
      using v(1) by (simp add: newer_than_def)
    show ?thesis
    proof (cases "filter (newer_than (Some e)) (own_events i lg) = []")
      case True
      then have "\<not> newer_than (Some e) (last (own_events i lg))" using last_filter_last own(1) by blast
      with own(2) new range have "v = next_version i (version_keys lg) - 1" by auto
      with True aggregate_stream_empty [of "q\<lparr>q_snapshot := snap\<rparr>" i lg] Some evs v(1) show ?thesis by (simp add: lg_def)
    next
      case False
      have "newer_than (Some e) (last (own_events i lg))"
      proof (rule ccontr)
        assume "\<not> newer_than (Some e) (last (own_events i lg))"
        with own(2) new range have top: "v = next_version i (version_keys lg) - 1" "v \<noteq> 0" by auto
        from False obtain x where "x \<in> set (own_events i lg)" "newer_than (Some e) x"
          by (auto simp: filter_empty_conv)
        with new top obtain u where u: "x \<in> set lg" "aggregateId x = Some i" "aggregateVersion x = Some u" "v < u"
          by (auto simp: own_events_def)
        then have "(i, u) \<in> set (version_keys lg)" by (auto simp: set_version_keys version_key_iff)
        with gapless_mem [of "version_keys lg" i u] assms(1) u(4) top(1) show False by (simp add: lg_def)
      qed
      with last_filter_last [OF own(1), of "newer_than (Some e)"] False aggregate_stream_last [OF types, of i lg] Some evs own(2)
      show ?thesis by (simp add: lg_def)
    qed
  qed
qed

text \<open>
  What \<open>AggregateCommandHandler\<close> restores from the in-memory store, with a snapshot or without and
  whether it reads all events or some types with the tail, is the aggregate at the next version of
  its log, if the log has no gaps and stored snapshots are not ahead of it.
\<close>

theorem restored_at_next_version:
  assumes "gapless (version_keys (events (w_storage w)))" and "all_versioned i (events (w_storage w))" and "snapshots_ok w"
    and "restored mem_ops cfg i w = Inr a"
  shows "agg_id a = i \<and> version a = next_version i (version_keys (events (w_storage w)))"
proof -
  have q: "q_snapshot (restore_query cfg) = None"
    "q_eventTypes (restore_query cfg) = None \<or> tail_last (restore_query cfg)"
    by (auto simp: restore_query_def split: option.split list.split)
  from assms(4) obtain evs where evs: "es_getAggregateEvents mem_ops i (restore_query cfg) w = Inr evs"
    by (auto simp: restored_def)
  from restored_version [OF assms(4) evs] mem_stream_last [OF assms(1-3) evs q] show ?thesis by auto
qed

lemma restored_at_next_version_witness:
  "\<exists>a. restored mem_ops demo_handler (IdStr ''a'') demo_world = Inr a \<and> agg_id a = IdStr ''a'' \<and> version a = 1"
proof -
  have w: "gapless (version_keys (events (w_storage demo_world)))" "all_versioned (IdStr ''a'') (events (w_storage demo_world))"
    "snapshots_ok demo_world" "next_version (IdStr ''a'') (version_keys (events (w_storage demo_world))) = 1"
    by (simp_all add: demo_world_def gapless_def versions_of_def all_versioned_def own_events_def snapshots_ok_def
        next_version_def getAggregateSnapshot_def)
  obtain a where a: "restored mem_ops demo_handler (IdStr ''a'') demo_world = Inr a"
    by (simp add: restored_def mem_ops_def store_getAggregateEvents_def mem_reader_def mem_snapshot_lookup_def
        getAggregateEvents_eq aggregate_stream_def newer_than_def of_types_def getAggregateSnapshot_def restore_query_def demo_handler_def
        demo_world_def demo_defs act_bind_def Let_def)
  from restored_at_next_version [OF w(1-3) a] a w(4) show ?thesis by simp
qed

end
