(* ===== verification/ConcurrentCommands.thy ===== *)
theory ConcurrentCommands
  imports Consistency
begin

text \<open>
  Commands that overlap in one \<open>src/AggregateCommandHandler.ts\<close>: any number of calls of \<open>execute\<close>
  under way at once, each advancing from one \<open>await\<close> to the next while others run, over the lock
  of \<open>LockModel\<close>, the cache of \<open>UsageCache\<close> and an event store. \<open>CommandHandler\<close> has the same method
  run without interruption. Other processes may write to the store between two steps.
\<close>

section \<open>State\<close>

text \<open>What the cache holds are promises of aggregates: the restoration runs on its own.\<close>

datatype promise = Reading ident | Fulfilled aggregate | Failed js_error

text \<open>
  Where a call of \<open>execute\<close> is: at \<open>acquire\<close>, at \<open>getNewId\<close>, at the promised aggregate (with the
  attempt's number and the promise), at \<open>dispatch\<close> before and after the store has answered, the
  same for the dispatch that ignores conflicts, or back.
\<close>

datatype execution =
    Absent
  | Queued command
  | Making command nat
  | Awaiting command nat nat
  | Sending command nat "event list"
  | Answered command nat "event list" "unit result"
  | Forcing command "event list"
  | Forced command "event list" "unit result"
  | Settled "event list result"

record 'w commands =
  cc_cache :: "(ident, nat, promise list) map_assertable"
  cc_promises :: "promise list"
  cc_locks :: lock_sys
  cc_store :: 'w
  cc_tasks :: "nat \<Rightarrow> execution"

definition init_commands :: "'w \<Rightarrow> 'w commands" where
  "init_commands w = \<lparr>cc_cache = new_map_assertable, cc_promises = [], cc_locks = init_lock_sys, cc_store = w,
     cc_tasks = (\<lambda>_. Absent)\<rparr>"

section \<open>execute, from one await to the next\<close>

text \<open>\<open>#restoreAggregate(id)\<close>, up to its first \<open>await\<close>.\<close>

definition start_restore :: "ident \<Rightarrow> promise list \<Rightarrow> nat \<times> promise list" where
  "start_restore i ps = (length ps, ps @ [Reading i])"

definition cc_assert :: "ident \<Rightarrow> 'w commands \<Rightarrow> 'w commands" where
  "cc_assert i s = (case ma_assert i (start_restore i) (cc_cache s, cc_promises s) of
     (_, m, ps) \<Rightarrow> s\<lparr>cc_cache := m, cc_promises := ps\<rparr>)"

definition cc_get :: "ident \<Rightarrow> 'w commands \<Rightarrow> nat option \<times> 'w commands" where
  "cc_get i s = (case ma_get i (cc_cache s, cc_promises s) of
     (v, m, ps) \<Rightarrow> (v, s\<lparr>cc_cache := m, cc_promises := ps\<rparr>))"

definition cc_reset :: "ident option \<Rightarrow> 'w commands \<Rightarrow> 'w commands" where
  "cc_reset oid s = (case truthy_id oid of
       None \<Rightarrow> s | Some i \<Rightarrow> s\<lparr>cc_cache := ma_setLazy i (start_restore i) (cc_cache s)\<rparr>)"

definition cc_to :: "nat \<Rightarrow> execution \<Rightarrow> 'w commands \<Rightarrow> 'w commands" where
  "cc_to t e s = s\<lparr>cc_tasks := (cc_tasks s)(t := e)\<rparr>"

definition command_lock :: "ident \<Rightarrow> string option" where
  "command_lock i = lock_name (Some (String_of i))"

text \<open>The \<open>finally\<close>: the lease and the registration in the cache are given back.\<close>

definition cc_leave :: "nat \<Rightarrow> ident option \<Rightarrow> event list result \<Rightarrow> 'w commands \<Rightarrow> 'w commands" where
  "cc_leave t oid r s = (case truthy_id oid of
       None \<Rightarrow> cc_to t (Settled r) s
     | Some i \<Rightarrow> cc_to t (Settled r) (s\<lparr>
         cc_locks := (release (command_lock i) (cc_locks s))\<lparr>tasks := (tasks (cc_locks s))(t := Idle)\<rparr>,
         cc_cache := ma_release i (cc_cache s)\<rparr>))"

text \<open>The top of the loop.\<close>

definition cc_attempt :: "nat \<Rightarrow> command \<Rightarrow> nat \<Rightarrow> 'w commands \<Rightarrow> 'w commands" where
  "cc_attempt t cmd n s = (case truthy_id (aggregateId cmd) of
       None \<Rightarrow> cc_to t (Making cmd n) s
     | Some i \<Rightarrow> (case cc_get i s of
         (None, s1) \<Rightarrow> cc_leave t (aggregateId cmd) (Inl (TypeError ''aggregate is undefined'')) s1
       | (Some ref, s1) \<Rightarrow> cc_to t (Awaiting cmd n ref) s1))"

definition cc_enter :: "nat \<Rightarrow> command \<Rightarrow> 'w commands \<Rightarrow> 'w commands" where
  "cc_enter t cmd s =
     (if \<not> message_ok cmd then cc_to t (Settled (Inl (TypeError ''cmd must be a valid IMessage''))) s
      else (case truthy_id (aggregateId cmd) of
        None \<Rightarrow> cc_attempt t cmd 0 s
      | Some i \<Rightarrow> (case acquire_enter (command_lock i) (cc_locks s) of
          (k, l) \<Rightarrow> cc_to t (Queued cmd) ((cc_assert i s)\<lparr>cc_locks := l\<lparr>tasks := (tasks l)(t := k)\<rparr>\<rparr>))))"

text \<open>\<open>#createAggregate\<close>: the new id has come.\<close>

definition cc_make :: "'w event_store_ops \<Rightarrow> handler_cfg \<Rightarrow> nat \<Rightarrow> command \<Rightarrow> nat \<Rightarrow> 'w commands \<Rightarrow> 'w commands" where
  "cc_make ops cfg t cmd n s = (case es_getNewId ops (cc_store s) of
       (Inl e, w) \<Rightarrow> cc_leave t (aggregateId cmd) (Inl e) (s\<lparr>cc_store := w\<rparr>)
     | (Inr i, w) \<Rightarrow> (case new_aggregate (h_class cfg) (Some i) (h_state0 cfg) [] of
         Inl e \<Rightarrow> cc_leave t (aggregateId cmd) (Inl e) (s\<lparr>cc_store := w\<rparr>)
       | Inr a \<Rightarrow> cc_to t (Awaiting cmd n (length (cc_promises s)))
           (s\<lparr>cc_promises := cc_promises s @ [Fulfilled a], cc_store := w\<rparr>)))"

text \<open>The store has answered a restoration.\<close>

definition cc_read :: "'w event_store_ops \<Rightarrow> handler_cfg \<Rightarrow> nat \<Rightarrow> ident \<Rightarrow> 'w commands \<Rightarrow> 'w commands" where
  "cc_read ops cfg ref i s = s\<lparr>cc_promises := (cc_promises s)[ref :=
     (case restored ops cfg i (cc_store s) of Inl e \<Rightarrow> Failed e | Inr a \<Rightarrow> Fulfilled a)]\<rparr>"

text \<open>The aggregate has come and handles the command.\<close>

definition cc_handle :: "handler_cfg \<Rightarrow> nat \<Rightarrow> command \<Rightarrow> nat \<Rightarrow> nat \<Rightarrow> aggregate \<Rightarrow> 'w commands \<Rightarrow> 'w commands" where
  "cc_handle cfg t cmd n ref a s = (case handle (h_class cfg) cmd a of
       (Inl e, a') \<Rightarrow> cc_leave t (aggregateId cmd) (Inl e)
         (cc_reset (aggregateId cmd) (s\<lparr>cc_promises := (cc_promises s)[ref := Fulfilled a']\<rparr>))
     | (Inr evs, a') \<Rightarrow> (let s1 = s\<lparr>cc_promises := (cc_promises s)[ref := Fulfilled a']\<rparr>
         in if evs = [] then cc_leave t (aggregateId cmd) (Inr []) s1 else cc_to t (Sending cmd n evs) s1))"

definition cc_dispatch :: "'w event_store_ops \<Rightarrow> nat \<Rightarrow> command \<Rightarrow> nat \<Rightarrow> event list \<Rightarrow> 'w commands \<Rightarrow> 'w commands" where
  "cc_dispatch ops t cmd n evs s = (case es_dispatch ops evs False (cc_store s) of
     (r, w) \<Rightarrow> cc_to t (Answered cmd n evs r) (s\<lparr>cc_store := w\<rparr>))"

definition cc_answer :: "handler_cfg \<Rightarrow> nat \<Rightarrow> command \<Rightarrow> nat \<Rightarrow> event list \<Rightarrow> unit result \<Rightarrow> 'w commands \<Rightarrow> 'w commands" where
  "cc_answer cfg t cmd n evs r s = (case r of
       Inr _ \<Rightarrow> cc_leave t (aggregateId cmd) (Inr evs) s
     | Inl err \<Rightarrow> (let s1 = cc_reset (aggregateId cmd) s
         in case h_shouldRetry cfg err evs (int n) of
              Stop \<Rightarrow> cc_leave t (aggregateId cmd) (Inl err) s1
            | Ignore \<Rightarrow> cc_to t (Forcing cmd evs) s1
            | Again \<Rightarrow> cc_attempt t cmd (Suc n) s1))"

definition cc_force :: "'w event_store_ops \<Rightarrow> nat \<Rightarrow> command \<Rightarrow> event list \<Rightarrow> 'w commands \<Rightarrow> 'w commands" where
  "cc_force ops t cmd evs s = (case es_dispatch ops evs True (cc_store s) of
     (r, w) \<Rightarrow> cc_to t (Forced cmd evs r) (s\<lparr>cc_store := w\<rparr>))"

text \<open>
  The steps: \<open>cmds\<close> are the commands that may come, \<open>others\<close> is what other processes do to the
  store.
\<close>

inductive cc_step ::
  "'w event_store_ops \<Rightarrow> handler_cfg \<Rightarrow> command set \<Rightarrow> ('w \<Rightarrow> 'w \<Rightarrow> bool) \<Rightarrow> 'w commands \<Rightarrow> 'w commands \<Rightarrow> bool"
  for ops cfg cmds others where
  cc_enters: "cc_tasks s t = Absent \<Longrightarrow> cmd \<in> cmds \<Longrightarrow> cc_step ops cfg cmds others s (cc_enter t cmd s)"
| cc_woken: "cc_tasks s t = Queued cmd \<Longrightarrow> lock_step (cc_locks s) (Wake t) l \<Longrightarrow>
     cc_step ops cfg cmds others s (s\<lparr>cc_locks := l\<rparr>)"
| cc_locked: "cc_tasks s t = Queued cmd \<Longrightarrow> tasks (cc_locks s) t = Holds n \<Longrightarrow>
     cc_step ops cfg cmds others s (cc_attempt t cmd 0 s)"
| cc_made: "cc_tasks s t = Making cmd n \<Longrightarrow> cc_step ops cfg cmds others s (cc_make ops cfg t cmd n s)"
| cc_reads: "ref < length (cc_promises s) \<Longrightarrow> cc_promises s ! ref = Reading i \<Longrightarrow>
     cc_step ops cfg cmds others s (cc_read ops cfg ref i s)"
| cc_handles: "cc_tasks s t = Awaiting cmd n ref \<Longrightarrow> ref < length (cc_promises s) \<Longrightarrow> cc_promises s ! ref = Fulfilled a \<Longrightarrow>
     cc_step ops cfg cmds others s (cc_handle cfg t cmd n ref a s)"
| cc_broken: "cc_tasks s t = Awaiting cmd n ref \<Longrightarrow> ref < length (cc_promises s) \<Longrightarrow> cc_promises s ! ref = Failed e \<Longrightarrow>
     cc_step ops cfg cmds others s (cc_leave t (aggregateId cmd) (Inl e) s)"
| cc_dispatches: "cc_tasks s t = Sending cmd n evs \<Longrightarrow> cc_step ops cfg cmds others s (cc_dispatch ops t cmd n evs s)"
| cc_answers: "cc_tasks s t = Answered cmd n evs r \<Longrightarrow> cc_step ops cfg cmds others s (cc_answer cfg t cmd n evs r s)"
| cc_forces: "cc_tasks s t = Forcing cmd evs \<Longrightarrow> cc_step ops cfg cmds others s (cc_force ops t cmd evs s)"
| cc_forced: "cc_tasks s t = Forced cmd evs r \<Longrightarrow>
     cc_step ops cfg cmds others s (cc_leave t (aggregateId cmd) (case r of Inl e \<Rightarrow> Inl e | Inr _ \<Rightarrow> Inr evs) s)"
| cc_others: "others (cc_store s) w \<Longrightarrow> cc_step ops cfg cmds others s (s\<lparr>cc_store := w\<rparr>)"

inductive cc_run ::
  "'w event_store_ops \<Rightarrow> handler_cfg \<Rightarrow> command set \<Rightarrow> ('w \<Rightarrow> 'w \<Rightarrow> bool) \<Rightarrow> 'w commands \<Rightarrow> 'w commands \<Rightarrow> bool"
  for ops cfg cmds others s where
  cc_run_none: "cc_run ops cfg cmds others s s"
| cc_run_more: "cc_run ops cfg cmds others s u \<Longrightarrow> cc_step ops cfg cmds others u v \<Longrightarrow> cc_run ops cfg cmds others s v"

section \<open>The cache\<close>

text \<open>Every factory in the cache is a restoration of its key.\<close>

definition restores :: "(ident, nat, promise list) map_assertable \<Rightarrow> bool" where
  "restores m \<longleftrightarrow> (\<forall>i f. map_of (factories m) i = Some f \<longrightarrow> f = start_restore i)"

lemma get_cases:
  assumes "restores m" "ma_inv m" "ma_has m i"
  obtains (known) r where "made m i = Some r" "ma_get i (m, ps) = (Some r, m, ps)"
  | (fresh) m' where "made m i = None" "ma_get i (m, ps) = (Some (length ps), m', ps @ [Reading i])"
    "made m' i = Some (length ps)" "\<forall>j. j \<noteq> i \<longrightarrow> made m' j = made m j" "restores m'" "ma_inv m'" "usage m' = usage m"
proof (cases "map_of (factories m) i")
  case None
  then have "made m i = map_of (entries m) i" by (simp add: made_def map_has_def)
  moreover have "map_of (entries m) i \<noteq> None" using None assms(3) by (simp add: ma_has_def map_has_def)
  ultimately obtain r where "made m i = Some r" by auto
  with known [OF _ ma_get_made] show thesis by simp
next
  case (Some f)
  then have f: "f = start_restore i" and no: "made m i = None" using assms(1) by (simp_all add: restores_def made_def map_has_def)
  obtain v m' ps' where g: "ma_get i (m, ps) = (v, m', ps')" by (rule prod_cases3)
  from g Some f have v: "v = Some (length ps)" "ps' = ps @ [Reading i]"
    "m' = m\<lparr>factories := AList.delete i (factories m), entries := AList.update i (length ps) (entries m)\<rparr>"
    by (auto simp: ma_get_def start_restore_def Let_def)
  have "restores m'" using assms(1) by (simp add: restores_def v(3) map_of_delete)
  moreover have "made m' i = Some (length ps)" by (simp add: made_def v(3) map_has_delete)
  moreover have "\<forall>j. j \<noteq> i \<longrightarrow> made m' j = made m j" using made_frame(1) [of _ i m ps] g by simp
  moreover have "ma_inv m'" "usage m' = usage m" using ma_inv_get [OF assms(2), of i ps] usage_get [of i m ps] g by (simp_all add: fun_eq_iff)
  ultimately show thesis using fresh no g v(1,2) by simp
qed

lemma assert_cases:
  assumes "restores m" "ma_inv m"
  obtains (known) r m' where "made m i = Some r" "ma_assert i (start_restore i) (m, ps) = (Some r, m', ps)"
    "made m' = made m" "restores m'" "ma_inv m'" "usage m' = (usage m)(i := usage m i + 1)"
  | (fresh) m' where "made m i = None" "ma_assert i (start_restore i) (m, ps) = (Some (length ps), m', ps @ [Reading i])"
    "made m' i = Some (length ps)" "\<forall>j. j \<noteq> i \<longrightarrow> made m' j = made m j" "restores m'" "ma_inv m'"
    "usage m' = (usage m)(i := usage m i + 1)"
proof -
  obtain v m' ps' where a: "ma_assert i (start_restore i) (m, ps) = (v, m', ps')" by (rule prod_cases3)
  have us: "usage m' = (usage m)(i := usage m i + 1)"
    using usage_assert [of i "start_restore i" m ps] a by (simp add: fun_eq_iff)
  have inv: "ma_inv m'" using ma_inv_assert [OF assms(2), of i "start_restore i" ps] a by simp
  define m1 where "m1 = m\<lparr>usageCounter := AList.update i (usage m i + 1) (usageCounter m)\<rparr>"
  have m1: "made m1 = made m" "restores m1" using assms(1) by (simp_all add: m1_def made_def fun_eq_iff restores_def)
  show thesis
  proof (cases "made m i")
    case (Some r)
    with a have "v = Some r" "m' = m1" "ps' = ps" by (simp_all add: ma_assert_made m1_def)
    with known [OF Some, of m'] a m1 us inv show thesis by simp
  next
    case None
    have "v = Some (length ps) \<and> ps' = ps @ [Reading i] \<and> made m' i = Some (length ps) \<and> restores m'
        \<and> (\<forall>j. j \<noteq> i \<longrightarrow> made m' j = made m j)"
    proof (cases "ma_has m i")
      case True
      then have fac: "map_has (factories m) i" using None by (cases "map_has (factories m) i") (auto simp: made_def ma_has_def map_has_def)
      then obtain f where f: "map_of (factories m) i = Some f" by (auto simp: map_has_def)
      with assms(1) have fr: "f = start_restore i" by (simp add: restores_def)
      from a True have "ma_get i (m1, ps) = (v, m', ps')" by (simp add: ma_assert_def m1_def Let_def)
      with f fr have "v = Some (length ps)" "ps' = ps @ [Reading i]"
        "m' = m1\<lparr>factories := AList.delete i (factories m), entries := AList.update i (length ps) (entries m)\<rparr>"
        by (auto simp: ma_get_def start_restore_def Let_def m1_def)
      then show ?thesis using assms(1)
        by (auto simp: made_def map_has_delete restores_def map_of_delete m1_def)
    next
      case False
      then have no: "\<not> map_has (factories m) i" by (simp add: ma_has_def)
      then have "map_of (factories m) i = None" by (simp add: map_has_def)
      with a False no have "v = Some (length ps)" "ps' = ps @ [Reading i]" "factories m' = factories m"
        "entries m' = AList.update i (length ps) (entries m)"
        by (auto simp: ma_assert_def ma_get_def start_restore_def Let_def)
      then show ?thesis using assms(1) no by (auto simp: made_def restores_def)
    qed
    with fresh [OF None, of m'] a us inv show thesis by blast
  qed
qed

lemma reset_facts:
  assumes "restores m" "ma_inv m" "0 < usage m i"
  shows "restores (ma_setLazy i (start_restore i) m)" "ma_inv (ma_setLazy i (start_restore i) m)"
    "made (ma_setLazy i (start_restore i) m) = (made m)(i := None)"
proof -
  show "restores (ma_setLazy i (start_restore i) m)"
    using assms(1) by (simp add: restores_def ma_setLazy_def ma_delete_def Let_def map_of_update map_of_delete)
  show "ma_inv (ma_setLazy i (start_restore i) m)" by (rule ma_inv_setLazy [OF assms(2,3)])
  show "made (ma_setLazy i (start_restore i) m) = (made m)(i := None)"
  proof
    fix j
    show "made (ma_setLazy i (start_restore i) m) j = ((made m)(i := None)) j"
    proof (cases "j = i")
      case True
      then show ?thesis by (simp add: made_def ma_setLazy_def Let_def map_has_def)
    qed (simp add: made_frame(2))
  qed
qed

lemma release_facts:
  assumes "restores m" "ma_inv m" "0 < usage m i"
  shows "restores (ma_release i m)" "ma_inv (ma_release i m)" "usage (ma_release i m) = (usage m)(i := usage m i - 1)"
    "made (ma_release i m) j = (if j = i \<and> usage m i = 1 then None else made m j)"
proof -
  show "restores (ma_release i m)"
    using assms(1) by (simp add: restores_def ma_release_def ma_delete_def Let_def map_of_delete)
  show "ma_inv (ma_release i m)" by (rule ma_inv_release [OF assms(2,3)])
  show "usage (ma_release i m) = (usage m)(i := usage m i - 1)"
    using usage_release [OF assms(2,3)] by (simp add: fun_eq_iff)
  show "made (ma_release i m) j = (if j = i \<and> usage m i = 1 then None else made m j)"
  proof (cases "j = i")
    case True
    show ?thesis
    proof (cases "usage m i = 1")
      case True
      then have "\<not> ma_has (ma_release i m) i" by (simp add: ma_has_release)
      with True \<open>j = i\<close> show ?thesis by (simp add: made_def ma_has_def map_has_def)
    next
      case False
      with assms(3) have "1 < usage m i" by simp
      with True False show ?thesis by (simp add: made_release)
    qed
  qed (simp add: made_frame(3))
qed

section \<open>Who works on what\<close>

fun task_command :: "execution \<Rightarrow> command option" where
  "task_command Absent = None"
| "task_command (Queued cmd) = Some cmd"
| "task_command (Making cmd _) = Some cmd"
| "task_command (Awaiting cmd _ _) = Some cmd"
| "task_command (Sending cmd _ _) = Some cmd"
| "task_command (Answered cmd _ _ _) = Some cmd"
| "task_command (Forcing cmd _) = Some cmd"
| "task_command (Forced cmd _ _) = Some cmd"
| "task_command (Settled _) = None"

definition works_on :: "execution \<Rightarrow> ident option" where
  "works_on e = Option.bind (task_command e) (\<lambda>cmd. truthy_id (aggregateId cmd))"

lemma works_on_simps [simp]:
  "works_on Absent = None" "works_on (Settled r) = None" "works_on (Queued cmd) = truthy_id (aggregateId cmd)"
  "works_on (Awaiting cmd n ref) = truthy_id (aggregateId cmd)" "works_on (Sending cmd n evs) = truthy_id (aggregateId cmd)"
  "works_on (Answered cmd n evs a) = truthy_id (aggregateId cmd)"
  by (simp_all add: works_on_def)

text \<open>Past \<open>acquire\<close> and not back.\<close>

fun in_section :: "execution \<Rightarrow> bool" where
  "in_section Absent = False"
| "in_section (Queued _) = False"
| "in_section (Settled _) = False"
| "in_section _ = True"

definition lock_agrees :: "'w commands \<Rightarrow> bool" where
  "lock_agrees s \<longleftrightarrow> lock_reachable (cc_locks s)
     \<and> (\<forall>t. task_name (tasks (cc_locks s) t) = map_option command_lock (works_on (cc_tasks s t)))
     \<and> (\<forall>t. in_section (cc_tasks s t) \<and> works_on (cc_tasks s t) \<noteq> None \<longrightarrow> (\<exists>n. tasks (cc_locks s) t = Holds n))"

text \<open>The usage counter of an id is the number of calls that work on it.\<close>

definition workers :: "'w commands \<Rightarrow> ident \<Rightarrow> nat set" where
  "workers s i = {t. works_on (cc_tasks s t) = Some i}"

definition users_agree :: "'w commands \<Rightarrow> bool" where
  "users_agree s \<longleftrightarrow> ma_inv (cc_cache s) \<and> restores (cc_cache s)
     \<and> (\<forall>i. finite (workers s i) \<and> usage (cc_cache s) i = int (card (workers s i)))"

lemma section_holds:
  assumes "lock_agrees s" "in_section (cc_tasks s t)" "works_on (cc_tasks s t) = Some i"
  shows "tasks (cc_locks s) t = Holds (command_lock i)"
proof -
  obtain n where n: "tasks (cc_locks s) t = Holds n" using assms unfolding lock_agrees_def by fastforce
  have "task_name (tasks (cc_locks s) t) = Some (command_lock i)" using assms(1,3) by (simp add: lock_agrees_def)
  with n show ?thesis by simp
qed

text \<open>Two calls that work on the same aggregate are not past \<open>acquire\<close> at once.\<close>

lemma one_in_section:
  assumes "lock_agrees s" "in_section (cc_tasks s t)" "works_on (cc_tasks s t) = Some i"
    and "in_section (cc_tasks s u)" "works_on (cc_tasks s u) = Some i"
  shows "t = u"
  using one_holder section_holds [OF assms(1-3)] section_holds [OF assms(1,4,5)] assms(1) unfolding lock_agrees_def by blast

lemma workers_to:
  "workers (cc_to t e s) i = (if works_on e = Some i then insert t (workers s i) else workers s i - {t})"
  by (auto simp: workers_def cc_to_def)

lemma cc_to_sel [simp]:
  "cc_cache (cc_to t e s) = cc_cache s" "cc_promises (cc_to t e s) = cc_promises s" "cc_locks (cc_to t e s) = cc_locks s"
  "cc_store (cc_to t e s) = cc_store s" "cc_tasks (cc_to t e s) = (cc_tasks s)(t := e)"
  by (simp_all add: cc_to_def)

lemma to_agrees:
  assumes "works_on e = works_on (cc_tasks s t)"
    and "in_section e \<Longrightarrow> works_on e \<noteq> None \<Longrightarrow> \<exists>n. tasks (cc_locks s) t = Holds n"
  shows "lock_agrees s \<Longrightarrow> lock_agrees (cc_to t e s)" "users_agree s \<Longrightarrow> users_agree (cc_to t e s)"
proof -
  show "lock_agrees s \<Longrightarrow> lock_agrees (cc_to t e s)"
    using assms by (auto simp: lock_agrees_def)
  have "workers (cc_to t e s) i = workers s i" for i using assms(1) by (auto simp: workers_def)
  then show "users_agree s \<Longrightarrow> users_agree (cc_to t e s)" by (simp add: users_agree_def)
qed

lemma working_used:
  assumes "users_agree s" "works_on (cc_tasks s t) = Some i"
  shows "0 < usage (cc_cache s) i"
proof -
  have "t \<in> workers s i" using assms(2) by (simp add: workers_def)
  with assms(1) show ?thesis by (auto simp: users_agree_def card_gt_0_iff)
qed

section \<open>The invariant where nobody else writes\<close>

text \<open>Events a call has made and not yet dispatched.\<close>

definition unsent :: "(nat \<Rightarrow> execution) \<Rightarrow> ident \<Rightarrow> event list \<Rightarrow> bool" where
  "unsent ts i evs \<longleftrightarrow> (\<exists>t cmd n. ts t = Sending cmd n evs \<and> truthy_id (aggregateId cmd) = Some i)"

text \<open>
  A cached promise will be, or is, the aggregate at the next version of the log, or ahead of it by
  the events not yet dispatched.
\<close>

definition promise_ok :: "(ident \<times> int) list \<Rightarrow> (nat \<Rightarrow> execution) \<Rightarrow> ident \<Rightarrow> promise \<Rightarrow> bool" where
  "promise_ok lg ts i p = (case p of
       Reading j \<Rightarrow> j = i \<and> (\<forall>evs. \<not> unsent ts i evs)
     | Failed _ \<Rightarrow> True
     | Fulfilled a \<Rightarrow> agg_id a = i \<and> (\<forall>evs. unsent ts i evs \<longrightarrow> version a = next_version i lg + int (length evs))
         \<and> ((\<forall>evs. \<not> unsent ts i evs) \<longrightarrow> version a = next_version i lg))"

definition cache_ok :: "(ident \<times> int) list \<Rightarrow> 'w commands \<Rightarrow> bool" where
  "cache_ok lg s \<longleftrightarrow> (\<forall>i r. made (cc_cache s) i = Some r \<longrightarrow> r < length (cc_promises s)
     \<and> promise_ok lg (cc_tasks s) i (cc_promises s ! r))"

fun task_ok :: "(ident \<times> int) list \<Rightarrow> (ident \<Rightarrow> nat option) \<Rightarrow> execution \<Rightarrow> bool" where
  "task_ok lg mk Absent = True"
| "task_ok lg mk (Settled _) = True"
| "task_ok lg mk (Queued cmd) \<longleftrightarrow> truthy_id (aggregateId cmd) \<noteq> None"
| "task_ok lg mk (Awaiting cmd n r) \<longleftrightarrow> n = 0 \<and> (\<exists>i. truthy_id (aggregateId cmd) = Some i \<and> mk i = Some r)"
| "task_ok lg mk (Sending cmd n evs) \<longleftrightarrow> n = 0 \<and> evs \<noteq> [] \<and> (\<exists>i. truthy_id (aggregateId cmd) = Some i \<and> mk i \<noteq> None
     \<and> versions_from i (next_version i lg) evs)"
| "task_ok lg mk (Answered cmd n evs r) \<longleftrightarrow> n = 0 \<and> r = Inr () \<and> truthy_id (aggregateId cmd) \<noteq> None"
| "task_ok lg mk _ = False"

text \<open>A task on another aggregate does not mind what happens to the entry of this one.\<close>

lemma task_ok_other:
  assumes "task_ok lg mk e" "\<And>j. works_on e = Some j \<Longrightarrow> in_section e \<Longrightarrow> mk' j = mk j \<and> next_version j lg' = next_version j lg"
  shows "task_ok lg' mk' e"
proof (cases e)
  case (Awaiting cmd n r)
  with assms(1) obtain i where i: "n = 0" "truthy_id (aggregateId cmd) = Some i" "mk i = Some r" by auto
  with assms(2) [of i] Awaiting show ?thesis by simp
next
  case (Sending cmd n evs)
  with assms(1) obtain i where i: "n = 0" "evs \<noteq> []" "truthy_id (aggregateId cmd) = Some i" "mk i \<noteq> None"
    "versions_from i (next_version i lg) evs" by auto
  with assms(2) [of i] Sending show ?thesis by simp
qed (use assms(1) in simp_all)

lemma unsent_to:
  assumes "\<And>cmd n evs. e \<noteq> Sending cmd n evs" "\<And>cmd n evs. ts t \<noteq> Sending cmd n evs"
  shows "unsent (ts(t := e)) i evs = unsent ts i evs"
proof
  assume "unsent (ts(t := e)) i evs"
  then obtain u cmd n where u: "(ts(t := e)) u = Sending cmd n evs" "truthy_id (aggregateId cmd) = Some i" unfolding unsent_def by blast
  then have "u \<noteq> t" using assms(1) by auto
  with u show "unsent ts i evs" unfolding unsent_def by auto
next
  assume "unsent ts i evs"
  then obtain u cmd n where u: "ts u = Sending cmd n evs" "truthy_id (aggregateId cmd) = Some i" unfolding unsent_def by blast
  then have "u \<noteq> t" using assms(2) by auto
  with u show "unsent (ts(t := e)) i evs" unfolding unsent_def by auto
qed

text \<open>\<open>X\<close> are the tasks that are in the middle of a step.\<close>

definition cc_inv :: "(ident \<times> int) list \<Rightarrow> nat set \<Rightarrow> 'w commands \<Rightarrow> bool" where
  "cc_inv lg X s \<longleftrightarrow> lock_agrees s \<and> users_agree s \<and> cache_ok lg s
     \<and> (\<forall>t. t \<notin> X \<longrightarrow> task_ok lg (made (cc_cache s)) (cc_tasks s t))"

lemma cc_inv_weaken: "cc_inv lg {} s \<Longrightarrow> cc_inv lg X s"
  by (simp add: cc_inv_def)

lemma promise_ok_unsent:
  "(\<And>evs. unsent ts' i evs = unsent ts i evs) \<Longrightarrow> promise_ok lg ts' i p = promise_ok lg ts i p"
  by (simp add: promise_ok_def split: promise.split)

lemma promise_ok_to:
  assumes "\<And>cmd n evs. e \<noteq> Sending cmd n evs" "\<And>cmd n evs. ts t \<noteq> Sending cmd n evs"
  shows "promise_ok lg (ts(t := e)) i p = promise_ok lg ts i p"
  by (rule promise_ok_unsent) (rule unsent_to, fact+)

lemma leave_inv:
  assumes inv: "cc_inv lg {t} s" and i: "works_on (cc_tasks s t) = Some i" "truthy_id oid = Some i" "in_section (cc_tasks s t)"
    and sent: "\<And>cmd n evs. cc_tasks s t \<noteq> Sending cmd n evs"
  shows "cc_inv lg {} (cc_leave t oid r s)"
proof -
  let ?s = "cc_leave t oid r s"
  note hold = section_holds [of s t i]
  have la: "lock_agrees s" and ua: "users_agree s" and ca: "cache_ok lg s"
    and ok: "\<And>u. u \<noteq> t \<Longrightarrow> task_ok lg (made (cc_cache s)) (cc_tasks s u)"
    using inv by (simp_all add: cc_inv_def)
  have s': "cc_tasks ?s = (cc_tasks s)(t := Settled r)" "cc_cache ?s = ma_release i (cc_cache s)"
    "cc_promises ?s = cc_promises s" "cc_locks ?s = (release (command_lock i) (cc_locks s))\<lparr>tasks := (tasks (cc_locks s))(t := Idle)\<rparr>"
    using i(2) by (simp_all add: cc_leave_def)
  have used: "0 < usage (cc_cache s) i" by (rule working_used [OF ua i(1)])
  have rel: "restores (cc_cache s)" "ma_inv (cc_cache s)" using ua by (simp_all add: users_agree_def)
  note rf = release_facts [OF rel used]
  have holds: "tasks (cc_locks s) t = Holds (command_lock i)" using hold la i by simp
  have "lock_reachable (cc_locks ?s)"
    using la holds unfolding lock_agrees_def s' by (auto intro: reach_step lock_step.step_release)
  with la have "lock_agrees ?s" by (auto simp: lock_agrees_def s')
  moreover have ws: "workers ?s j = workers s j - {t}" for j by (auto simp: workers_def s')
  have "t \<in> workers s i" "finite (workers s i)" using i(1) ua by (simp_all add: workers_def users_agree_def)
  then have "card (workers s i - {t}) = card (workers s i) - 1" "0 < card (workers s i)" by (auto simp: card_gt_0_iff)
  moreover have "workers s j - {t} = workers s j" if "j \<noteq> i" for j using that i(1) by (auto simp: workers_def)
  ultimately have "users_agree ?s" using ua rf(1-3) by (auto simp: users_agree_def ws s'(2))
  moreover have made: "made (cc_cache ?s) j = (if j = i \<and> usage (cc_cache s) i = 1 then None else made (cc_cache s) j)" for j
    unfolding s' by (rule rf(4))
  have "promise_ok lg (cc_tasks ?s) j p = promise_ok lg (cc_tasks s) j p" for j p
    unfolding s' by (rule promise_ok_to) (use sent in auto)
  then have "cache_ok lg ?s" using ca by (simp add: cache_ok_def made s'(3))
  moreover have "task_ok lg (made (cc_cache ?s)) (cc_tasks ?s u)" for u
  proof (cases "u = t")
    case False
    have "works_on (cc_tasks s u) \<noteq> Some i" if "in_section (cc_tasks s u)"
      using one_in_section [OF la i(3,1) that] False by auto
    then have "task_ok lg (made (cc_cache ?s)) (cc_tasks s u)"
      by (intro task_ok_other [OF ok [OF False]]) (auto simp: made)
    with False show ?thesis by (simp add: s'(1))
  qed (simp add: s')
  ultimately show ?thesis using \<open>lock_agrees ?s\<close> by (simp add: cc_inv_def)
qed

lemma reset_inv:
  assumes inv: "cc_inv lg {t} s" and i: "works_on (cc_tasks s t) = Some i" "truthy_id oid = Some i" "in_section (cc_tasks s t)"
  shows "cc_inv lg {t} (cc_reset oid s)" "made (cc_cache (cc_reset oid s)) i = None"
proof -
  let ?s = "cc_reset oid s"
  have la: "lock_agrees s" and ua: "users_agree s" and ca: "cache_ok lg s"
    and ok: "\<And>u. u \<noteq> t \<Longrightarrow> task_ok lg (made (cc_cache s)) (cc_tasks s u)"
    using inv by (simp_all add: cc_inv_def)
  have s': "cc_tasks ?s = cc_tasks s" "cc_cache ?s = ma_setLazy i (start_restore i) (cc_cache s)"
    "cc_promises ?s = cc_promises s" "cc_locks ?s = cc_locks s"
    using i(2) by (simp_all add: cc_reset_def)
  have rel: "restores (cc_cache s)" "ma_inv (cc_cache s)" using ua by (simp_all add: users_agree_def)
  note rf = reset_facts [OF rel working_used [OF ua i(1)]]
  have made: "made (cc_cache ?s) = (made (cc_cache s))(i := None)" unfolding s' by (rule rf(3))
  show "made (cc_cache ?s) i = None" by (simp add: made)
  have "lock_agrees ?s" using la by (simp add: lock_agrees_def s')
  moreover have "users_agree ?s" using ua rf(1,2) by (simp add: users_agree_def s' workers_def)
  moreover have "cache_ok lg ?s" using ca by (simp add: cache_ok_def made s'(1,3))
  moreover have "task_ok lg (made (cc_cache ?s)) (cc_tasks ?s u)" if "u \<noteq> t" for u
  proof -
    have "works_on (cc_tasks s u) \<noteq> Some i" if "in_section (cc_tasks s u)"
      using one_in_section [OF la i(3,1) that] \<open>u \<noteq> t\<close> by auto
    then show ?thesis unfolding s'(1)
      by (intro task_ok_other [OF ok [OF that]]) (auto simp: made)
  qed
  ultimately show "cc_inv lg {t} ?s" by (simp add: cc_inv_def)
qed

text \<open>Another promise in the place of one.\<close>

lemma promise_inv:
  assumes "cc_inv lg X s" and "\<And>j. made (cc_cache s) j = Some ref \<Longrightarrow> promise_ok lg (cc_tasks s) j p"
  shows "cc_inv lg X (s\<lparr>cc_promises := (cc_promises s)[ref := p]\<rparr>)"
proof -
  have "promise_ok lg (cc_tasks s) i ((cc_promises s)[ref := p] ! r)" if "made (cc_cache s) i = Some r" for i r
    using assms that by (cases "r = ref") (auto simp: cc_inv_def cache_ok_def)
  with assms(1) have "cache_ok lg (s\<lparr>cc_promises := (cc_promises s)[ref := p]\<rparr>)"
    by (simp add: cc_inv_def cache_ok_def)
  with assms(1) show ?thesis by (simp add: cc_inv_def lock_agrees_def users_agree_def workers_def)
qed

lemma locks_inv:
  "cc_inv lg X s \<Longrightarrow> lock_agrees (s\<lparr>cc_locks := l\<rparr>) \<Longrightarrow> cc_inv lg X (s\<lparr>cc_locks := l\<rparr>)"
  by (simp add: cc_inv_def users_agree_def cache_ok_def workers_def)

lemma fresh_promise:
  assumes "cache_ok lg s" "\<And>u. task_ok lg (made (cc_cache s)) (cc_tasks s u)" "made (cc_cache s) i = None"
    and "made m i = Some (length (cc_promises s))" "\<forall>j. j \<noteq> i \<longrightarrow> made m j = made (cc_cache s) j" "made m j = Some k"
  shows "k < length (cc_promises s @ [Reading i]) \<and> promise_ok lg (cc_tasks s) j ((cc_promises s @ [Reading i]) ! k)"
proof (cases "j = i")
  case True
  have no: "\<not> unsent (cc_tasks s) i evs" for evs
  proof
    assume "unsent (cc_tasks s) i evs"
    then obtain u cmd n where "cc_tasks s u = Sending cmd n evs" "truthy_id (aggregateId cmd) = Some i" unfolding unsent_def by blast
    with assms(2) [of u] assms(3) show False by simp
  qed
  from True assms(4,6) have "k = length (cc_promises s)" by simp
  then have "(cc_promises s @ [Reading i]) ! k = Reading i" by (simp only: nth_append_length)
  with True no \<open>k = _\<close> show ?thesis by (simp add: promise_ok_def)
next
  case False
  with assms(5,6) have "made (cc_cache s) j = Some k" by simp
  with assms(1) have "k < length (cc_promises s)" "promise_ok lg (cc_tasks s) j (cc_promises s ! k)"
    unfolding cache_ok_def by blast+
  then show ?thesis by (simp add: nth_append)
qed

text \<open>Arriving: an entry that is there is shared, one that is not starts a restoration.\<close>

lemma assert_keeps:
  assumes ua: "users_agree s" and ca: "cache_ok lg s" and tasks: "\<And>u. task_ok lg (made (cc_cache s)) (cc_tasks s u)"
  shows "cc_tasks (cc_assert i s) = cc_tasks s" "cc_locks (cc_assert i s) = cc_locks s"
    "ma_inv (cc_cache (cc_assert i s)) \<and> restores (cc_cache (cc_assert i s))"
    "usage (cc_cache (cc_assert i s)) = (usage (cc_cache s))(i := usage (cc_cache s) i + 1)"
    "cache_ok lg (cc_assert i s)" "made (cc_cache s) j \<noteq> None \<Longrightarrow> made (cc_cache (cc_assert i s)) j = made (cc_cache s) j"
proof -
  let ?s = "cc_assert i s"
  show "cc_tasks ?s = cc_tasks s" "cc_locks ?s = cc_locks s" by (simp_all add: cc_assert_def split: prod.split)
  have rel: "restores (cc_cache s)" "ma_inv (cc_cache s)" using ua by (simp_all add: users_agree_def)
  have "(ma_inv (cc_cache ?s) \<and> restores (cc_cache ?s)) \<and> usage (cc_cache ?s) = (usage (cc_cache s))(i := usage (cc_cache s) i + 1)
      \<and> cache_ok lg ?s \<and> (made (cc_cache s) j \<noteq> None \<longrightarrow> made (cc_cache ?s) j = made (cc_cache s) j)"
    using rel
  proof (cases rule: assert_cases [where i = i and ps = "cc_promises s"])
    case (known r m')
    then have "?s = s\<lparr>cc_cache := m', cc_promises := cc_promises s\<rparr>" by (simp add: cc_assert_def)
    with known ca show ?thesis by (simp add: cache_ok_def)
  next
    case (fresh m')
    then have s': "?s = s\<lparr>cc_cache := m', cc_promises := cc_promises s @ [Reading i]\<rparr>" by (simp add: cc_assert_def)
    note fp = fresh_promise [OF ca tasks fresh(1,3,4)]
    have "cache_ok lg ?s" using fp by (simp add: cache_ok_def s')
    moreover have "made m' j = made (cc_cache s) j" if "made (cc_cache s) j \<noteq> None"
      using fresh(1,4) that by (cases "j = i") auto
    ultimately show ?thesis using fresh by (simp add: s')
  qed
  then show "ma_inv (cc_cache ?s) \<and> restores (cc_cache ?s)" "usage (cc_cache ?s) = (usage (cc_cache s))(i := usage (cc_cache s) i + 1)"
    "cache_ok lg ?s" "made (cc_cache s) j \<noteq> None \<Longrightarrow> made (cc_cache ?s) j = made (cc_cache s) j" by blast+
qed

lemma task_ok_made:
  assumes "task_ok lg mk e" "\<And>j. mk j \<noteq> None \<Longrightarrow> mk' j = mk j"
  shows "task_ok lg mk' e"
proof (cases e)
  case (Awaiting cmd n r)
  with assms(1) obtain i where i: "n = 0" "truthy_id (aggregateId cmd) = Some i" "mk i = Some r" by auto
  with assms(2) [of i] Awaiting show ?thesis by simp
next
  case (Sending cmd n evs)
  with assms(1) obtain i where i: "n = 0" "evs \<noteq> []" "truthy_id (aggregateId cmd) = Some i" "mk i \<noteq> None"
    "versions_from i (next_version i lg) evs" by auto
  with assms(2) [of i] Sending show ?thesis by simp
qed (use assms(1) in simp_all)

lemma enter_inv:
  assumes inv: "cc_inv lg {} s" and t: "cc_tasks s t = Absent" "truthy_id (aggregateId cmd) \<noteq> None"
  shows "cc_inv lg {} (cc_enter t cmd s)"
proof (cases "message_ok cmd")
  case False
  have "lock_agrees (cc_to t (Settled r) s)" "users_agree (cc_to t (Settled r) s)" for r
    using to_agrees [of "Settled r" s t] inv t(1) by (simp_all add: cc_inv_def)
  moreover have "promise_ok lg ((cc_tasks s)(t := Settled r)) i p = promise_ok lg (cc_tasks s) i p" for r i p
    by (rule promise_ok_to) (simp_all add: t(1))
  then have "cache_ok lg (cc_to t (Settled r) s)" for r
    using inv by (simp add: cc_inv_def cache_ok_def)
  ultimately show ?thesis using inv False by (simp add: cc_enter_def cc_inv_def)
next
  case True
  obtain i where i: "truthy_id (aggregateId cmd) = Some i" using t(2) by auto
  obtain k l where kl: "acquire_enter (command_lock i) (cc_locks s) = (k, l)" by fastforce
  note nm = acquire_enter_name [OF kl]
  let ?a = "cc_assert i s" and ?l = "l\<lparr>tasks := (tasks l)(t := k)\<rparr>"
  have s': "cc_enter t cmd s = cc_to t (Queued cmd) (?a\<lparr>cc_locks := ?l\<rparr>)"
    using True i kl by (simp add: cc_enter_def)
  have la: "lock_agrees s" and ua: "users_agree s" and ca: "cache_ok lg s"
    and ok: "\<And>u. task_ok lg (made (cc_cache s)) (cc_tasks s u)" using inv by (simp_all add: cc_inv_def)
  note ak = assert_keeps [OF ua ca ok, of i]
  have "task_name (tasks (cc_locks s) t) = None" using la t(1) by (simp add: lock_agrees_def)
  then have "lock_step (cc_locks s) (Call t (Some (String_of i))) ?l"
    using lock_step.step_call [of "cc_locks s" t "Some (String_of i)" k l] kl by (simp add: command_lock_def)
  then have "lock_reachable ?l" using la reach_step unfolding lock_agrees_def by blast
  with la nm i have "lock_agrees (cc_enter t cmd s)" by (simp add: s' ak(1) lock_agrees_def)
  moreover have "workers (cc_enter t cmd s) j = (if j = i then insert t (workers s i) else workers s j)" for j
    using i t(1) by (auto simp: s' ak(1) workers_def)
  moreover have "t \<notin> workers s i" using t(1) by (simp add: workers_def)
  ultimately have "users_agree (cc_enter t cmd s)"
    using ua ak(3,4) by (simp add: users_agree_def s')
  moreover have "promise_ok lg ((cc_tasks s)(t := Queued cmd)) j p = promise_ok lg (cc_tasks s) j p" for j p
    by (rule promise_ok_to) (simp_all add: t(1))
  then have "cache_ok lg (cc_enter t cmd s)"
    using ak(5) by (simp add: cache_ok_def s' ak(1))
  moreover have "task_ok lg (made (cc_cache ?a)) (cc_tasks s u)" for u
    by (rule task_ok_made [OF ok]) (rule assert_keeps(6) [OF ua ca ok])
  ultimately show ?thesis using \<open>lock_agrees (cc_enter t cmd s)\<close> i by (simp add: cc_inv_def s' ak(1))
qed

text \<open>With the lock: the promise in the cache.\<close>

lemma attempt_inv:
  assumes inv: "cc_inv lg {} s" and t: "cc_tasks s t = Queued cmd" "tasks (cc_locks s) t = Holds n"
  shows "cc_inv lg {} (cc_attempt t cmd 0 s)"
proof -
  have la: "lock_agrees s" and ua: "users_agree s" and ca: "cache_ok lg s"
    and ok: "\<And>u. task_ok lg (made (cc_cache s)) (cc_tasks s u)" using inv by (simp_all add: cc_inv_def)
  from ok [of t] t(1) obtain i where i: "truthy_id (aggregateId cmd) = Some i" by auto
  have rel: "restores (cc_cache s)" "ma_inv (cc_cache s)" using ua by (simp_all add: users_agree_def)
  have "0 < usage (cc_cache s) i" using working_used [OF ua, of t i] t(1) i by simp
  then have has: "ma_has (cc_cache s) i" using rel(2) by (simp add: ma_inv_def)
  have same: "promise_ok lg ((cc_tasks s)(t := Awaiting cmd 0 r)) j p = promise_ok lg (cc_tasks s) j p" for r j p
    by (rule promise_ok_to) (simp_all add: t(1))
  obtain r m ps where g: "ma_get i (cc_cache s, cc_promises s) = (Some r, m, ps)" "made m i = Some r"
    "restores m" "ma_inv m" "usage m = usage (cc_cache s)" "\<And>j. made (cc_cache s) j \<noteq> None \<Longrightarrow> made m j = made (cc_cache s) j"
    "\<And>j k. made m j = Some k \<Longrightarrow> k < length ps \<and> promise_ok lg (cc_tasks s) j (ps ! k)"
    using rel has
  proof (cases rule: get_cases [where ps = "cc_promises s"])
    case (known r)
    with rel that [of r "cc_cache s" "cc_promises s"] ca show thesis by (simp add: cache_ok_def)
  next
    case (fresh m)
    note fp = fresh_promise [OF ca ok fresh(1,3,4)]
    show thesis
    proof (rule that [of "length (cc_promises s)" m "cc_promises s @ [Reading i]"])
      show "made m j = made (cc_cache s) j" if "made (cc_cache s) j \<noteq> None" for j
        using fresh(1,4) that by (cases "j = i") auto
    qed (use fresh fp in simp_all)
  qed
  let ?b = "s\<lparr>cc_cache := m, cc_promises := ps\<rparr>"
  have s': "cc_attempt t cmd 0 s = cc_to t (Awaiting cmd 0 r) ?b" using i g(1) by (simp add: cc_attempt_def cc_get_def)
  have agree: "lock_agrees ?b" "users_agree ?b"
    using la ua g(3-5) by (simp_all add: lock_agrees_def users_agree_def workers_def)
  have "lock_agrees (cc_attempt t cmd 0 s)" "users_agree (cc_attempt t cmd 0 s)"
    using to_agrees [of "Awaiting cmd 0 r" ?b t] agree t i by (simp_all add: s')
  moreover have "cache_ok lg (cc_attempt t cmd 0 s)"
    using g(7) same by (simp add: cache_ok_def s')
  moreover have "task_ok lg (made m) (cc_tasks s u)" for u
    by (rule task_ok_made [OF ok g(6)])
  ultimately show ?thesis using i g(2) by (simp add: cc_inv_def s')
qed

lemma unsent_sending:
  assumes "\<And>c m es. ts t \<noteq> Sending c m es" "truthy_id (aggregateId cmd) = Some i"
  shows "unsent (ts(t := Sending cmd n evs)) j es \<longleftrightarrow> j = i \<and> es = evs \<or> unsent ts j es"
proof
  assume "unsent (ts(t := Sending cmd n evs)) j es"
  then obtain u c m where u: "(ts(t := Sending cmd n evs)) u = Sending c m es" "truthy_id (aggregateId c) = Some j"
    unfolding unsent_def by blast
  show "j = i \<and> es = evs \<or> unsent ts j es"
  proof (cases "u = t")
    case True
    with u assms(2) show ?thesis by simp
  next
    case False
    with u show ?thesis by (auto simp: unsent_def)
  qed
next
  assume "j = i \<and> es = evs \<or> unsent ts j es"
  then show "unsent (ts(t := Sending cmd n evs)) j es"
  proof
    assume "unsent ts j es"
    then obtain u c m where u: "ts u = Sending c m es" "truthy_id (aggregateId c) = Some j" unfolding unsent_def by blast
    then have "u \<noteq> t" using assms(1) by auto
    with u show ?thesis by (auto simp: unsent_def)
  qed (use assms(2) in \<open>auto simp: unsent_def\<close>)
qed

text \<open>Handling the command: the aggregate goes ahead of the log by the events it made.\<close>

lemma handle_inv:
  assumes inv: "cc_inv lg {} s" and t: "cc_tasks s t = Awaiting cmd n ref" "cc_promises s ! ref = Fulfilled a"
  shows "cc_inv lg {} (cc_handle cfg t cmd n ref a s)"
proof -
  have la: "lock_agrees s" and ua: "users_agree s" and ca: "cache_ok lg s"
    and ok: "\<And>u. task_ok lg (made (cc_cache s)) (cc_tasks s u)" using inv by (simp_all add: cc_inv_def)
  from ok [of t] t(1) obtain i where i: "n = 0" "truthy_id (aggregateId cmd) = Some i" "made (cc_cache s) i = Some ref" by auto
  have work: "works_on (cc_tasks s t) = Some i" "in_section (cc_tasks s t)" using t(1) i(2) by simp_all
  have none: "\<not> unsent (cc_tasks s) i evs" for evs
  proof
    assume "unsent (cc_tasks s) i evs"
    then obtain u cmd' m where u: "cc_tasks s u = Sending cmd' m evs" "truthy_id (aggregateId cmd') = Some i" unfolding unsent_def by blast
    then have "t = u" using one_in_section [OF la work(2,1), of u] by simp
    with u t(1) show False by simp
  qed
  have "promise_ok lg (cc_tasks s) i (Fulfilled a)" using ca i(3) t(2) unfolding cache_ok_def by metis
  with none have a: "agg_id a = i" "version a = next_version i lg" by (simp_all add: promise_ok_def)
  have only: "j = i" if "made (cc_cache s) j = Some ref" for j
  proof -
    have "promise_ok lg (cc_tasks s) j (Fulfilled a)" using ca that t(2) unfolding cache_ok_def by metis
    with a(1) show ?thesis by (simp add: promise_ok_def)
  qed
  obtain r a' where h: "handle (h_class cfg) cmd a = (r, a')" by fastforce
  from handle_emits [OF h] obtain es where es: "agg_id a' = i" "versions_from i (next_version i lg) es"
    "version a' = next_version i lg + int (length es)" "\<And>us. r = Inr us \<Longrightarrow> us = es" by (auto simp: a)
  let ?s1 = "s\<lparr>cc_promises := (cc_promises s)[ref := Fulfilled a']\<rparr>"
  note weak = cc_inv_weaken [OF inv, of "{t}"]
  show ?thesis
  proof (cases r)
    case (Inl e)
    note rs = reset_inv [OF weak work(1) i(2) work(2)]
    have "made (cc_cache (cc_reset (aggregateId cmd) s)) j \<noteq> Some ref" for j
      using rs(2) only [of j] i(2) by (cases "j = i") (auto simp: cc_reset_def made_frame(2))
    then have "cc_inv lg {t} ((cc_reset (aggregateId cmd) s)\<lparr>cc_promises := (cc_promises (cc_reset (aggregateId cmd) s))[ref := Fulfilled a']\<rparr>)"
      by (intro promise_inv [OF rs(1)]) simp
    moreover have "(cc_reset (aggregateId cmd) s)\<lparr>cc_promises := (cc_promises (cc_reset (aggregateId cmd) s))[ref := Fulfilled a']\<rparr>
        = cc_reset (aggregateId cmd) ?s1" by (simp add: cc_reset_def i(2))
    ultimately have "cc_inv lg {t} (cc_reset (aggregateId cmd) ?s1)" by simp
    moreover have "cc_tasks (cc_reset (aggregateId cmd) ?s1) = cc_tasks s" by (simp add: cc_reset_def i(2))
    ultimately have "cc_inv lg {} (cc_leave t (aggregateId cmd) (Inl e) (cc_reset (aggregateId cmd) ?s1))"
      using work i(2) t(1) by (intro leave_inv) simp_all
    with h Inl show ?thesis by (simp add: cc_handle_def)
  next
    case (Inr evs)
    then have evs: "es = evs" using es(4) by simp
    show ?thesis
    proof (cases "evs = []")
      case True
      have "promise_ok lg (cc_tasks s) j (Fulfilled a')" if "made (cc_cache s) j = Some ref" for j
        using only [OF that] es(1,3) evs True none by (simp add: promise_ok_def)
      then have "cc_inv lg {t} ?s1" by (intro promise_inv [OF weak])
      then have "cc_inv lg {} (cc_leave t (aggregateId cmd) (Inr []) ?s1)"
        using work i(2) t(1) by (intro leave_inv) simp_all
      with h Inr True show ?thesis by (simp add: cc_handle_def)
    next
      case False
      let ?s2 = "cc_to t (Sending cmd n evs) ?s1"
      have la1: "lock_agrees ?s1" "users_agree ?s1" using la ua by (simp_all add: lock_agrees_def users_agree_def workers_def)
      have "lock_agrees ?s2" "users_agree ?s2"
        using to_agrees [of "Sending cmd n evs" ?s1 t] la1 section_holds [OF la work(2,1)] t(1) by simp_all
      moreover have uns: "unsent ((cc_tasks s)(t := Sending cmd n evs)) j es' \<longleftrightarrow> (if j = i then es' = evs else unsent (cc_tasks s) j es')" for j es'
        using unsent_sending [of "cc_tasks s" t cmd i n evs j es'] none [of es'] i(2) t(1) by (cases "j = i") simp_all
      have "promise_ok lg (cc_tasks ?s2) j (cc_promises ?s2 ! k) \<and> k < length (cc_promises ?s2)" if "made (cc_cache s) j = Some k" for j k
      proof (cases "j = i")
        case True
        have "ref < length (cc_promises s)" using ca i(3) unfolding cache_ok_def by blast
        with True that i(3) es(1,3) evs show ?thesis by (simp add: promise_ok_def uns)
      next
        case False
        with only that have "k \<noteq> ref" by blast
        have "promise_ok lg ((cc_tasks s)(t := Sending cmd n evs)) j p = promise_ok lg (cc_tasks s) j p" for p
          by (rule promise_ok_unsent) (simp add: uns False)
        with \<open>k \<noteq> ref\<close> ca that show ?thesis unfolding cache_ok_def by simp
      qed
      then have "cache_ok lg ?s2" unfolding cache_ok_def by simp
      ultimately have "cc_inv lg {} ?s2"
        using ok i False es(2) evs by (simp add: cc_inv_def)
      with h Inr False show ?thesis by (simp add: cc_handle_def)
    qed
  qed
qed

text \<open>Two versions of the log that agree on the other aggregates.\<close>

lemma next_version_emitted:
  "versions_from i v es \<Longrightarrow> next_version j (lg @ version_keys es) = next_version j lg + (if j = i then int (length es) else 0)"
  using versions_of_from [of i v es j "\<lambda>i. i"] by (simp add: next_version_def)

lemma dispatched_inv:
  assumes inv: "cc_inv lg {} s" and t: "cc_tasks s t = Sending cmd n evs" and i: "truthy_id (aggregateId cmd) = Some i"
  shows "cc_inv (lg @ version_keys evs) {} (cc_to t (Answered cmd n evs (Inr ())) (s\<lparr>cc_store := w\<rparr>))"
proof -
  have la: "lock_agrees s" and ua: "users_agree s" and ca: "cache_ok lg s"
    and ok: "\<And>u. task_ok lg (made (cc_cache s)) (cc_tasks s u)" using inv by (simp_all add: cc_inv_def)
  have work: "works_on (cc_tasks s t) = Some i" "in_section (cc_tasks s t)" using t i by simp_all
  from ok [of t] t i have vf: "versions_from i (next_version i lg) evs" "n = 0" by auto
  note nv = next_version_emitted [OF vf(1)]
  let ?s = "cc_to t (Answered cmd n evs (Inr ())) (s\<lparr>cc_store := w\<rparr>)"
  have "lock_agrees (s\<lparr>cc_store := w\<rparr>)" "users_agree (s\<lparr>cc_store := w\<rparr>)"
    using la ua by (simp_all add: lock_agrees_def users_agree_def workers_def)
  then have "lock_agrees ?s" "users_agree ?s"
    using to_agrees [of "Answered cmd n evs (Inr ())" "s\<lparr>cc_store := w\<rparr>" t] section_holds [OF la work(2,1)] t i by simp_all
  moreover have sender: "unsent (cc_tasks s) i es' \<longleftrightarrow> es' = evs" for es'
  proof
    assume "unsent (cc_tasks s) i es'"
    then obtain u cmd' m where u: "cc_tasks s u = Sending cmd' m es'" "truthy_id (aggregateId cmd') = Some i" unfolding unsent_def by blast
    then have "t = u" using one_in_section [OF la work(2,1), of u] by simp
    with u t show "es' = evs" by simp
  qed (use t i in \<open>auto simp: unsent_def\<close>)
  have uns: "unsent ((cc_tasks s)(t := Answered cmd n evs (Inr ()))) j es' \<longleftrightarrow> j \<noteq> i \<and> unsent (cc_tasks s) j es'" for j es'
  proof
    assume "unsent ((cc_tasks s)(t := Answered cmd n evs (Inr ()))) j es'"
    then obtain u cmd' m where u: "((cc_tasks s)(t := Answered cmd n evs (Inr ()))) u = Sending cmd' m es'" "truthy_id (aggregateId cmd') = Some j"
      unfolding unsent_def by blast
    then have "u \<noteq> t" "cc_tasks s u = Sending cmd' m es'" by (auto split: if_splits)
    with u(2) one_in_section [OF la work(2,1), of u] show "j \<noteq> i \<and> unsent (cc_tasks s) j es'" by (auto simp: unsent_def)
  next
    assume a: "j \<noteq> i \<and> unsent (cc_tasks s) j es'"
    then obtain u cmd' m where u: "cc_tasks s u = Sending cmd' m es'" "truthy_id (aggregateId cmd') = Some j" unfolding unsent_def by blast
    with a t i have "u \<noteq> t" by auto
    with u show "unsent ((cc_tasks s)(t := Answered cmd n evs (Inr ()))) j es'" by (auto simp: unsent_def)
  qed
  have "promise_ok (lg @ version_keys evs) (cc_tasks ?s) j p" if "promise_ok lg (cc_tasks s) j p" for j p
    using that sender by (cases "j = i"; cases p) (simp_all add: promise_ok_def uns nv)
  then have "cache_ok (lg @ version_keys evs) ?s" using ca by (simp add: cache_ok_def)
  moreover have "task_ok (lg @ version_keys evs) (made (cc_cache s)) (cc_tasks s u)" if "u \<noteq> t" for u
  proof -
    have "works_on (cc_tasks s u) \<noteq> Some i" if "in_section (cc_tasks s u)"
      using one_in_section [OF la work(2,1) that] \<open>u \<noteq> t\<close> by auto
    then show ?thesis by (intro task_ok_other [OF ok [of u]]) (auto simp: nv)
  qed
  ultimately show ?thesis using i vf(2) by (simp add: cc_inv_def)
qed

lemma frame_store [simp]:
  "cc_store (cc_leave t oid r s) = cc_store s" "cc_store (cc_reset oid s) = cc_store s" "cc_store (cc_assert i s) = cc_store s"
  "cc_store (cc_enter t cmd s) = cc_store s" "cc_store (cc_attempt t cmd n s) = cc_store s"
  "cc_store (cc_handle cfg t cmd n ref a s) = cc_store s" "cc_store (cc_read ops cfg ref i s) = cc_store s"
proof -
  show leave: "cc_store (cc_leave t oid r s) = cc_store s" for r s by (simp add: cc_leave_def split: option.split)
  show reset: "cc_store (cc_reset oid s) = cc_store s" for oid and s :: "'w commands" by (simp add: cc_reset_def split: option.split)
  show as: "cc_store (cc_assert i s) = cc_store s" for i s by (simp add: cc_assert_def split: prod.split)
  have left: "cc_store (cc_leave t oid r s) = cc_store s" for oid r and s :: "'w commands"
    by (simp add: cc_leave_def split: option.split)
  show att: "cc_store (cc_attempt t cmd n s) = cc_store s" for n
    by (auto simp: cc_attempt_def cc_get_def left split: option.splits prod.splits)
  show "cc_store (cc_enter t cmd s) = cc_store s" by (simp add: cc_enter_def att as split: option.split prod.split)
  show "cc_store (cc_handle cfg t cmd n ref a s) = cc_store s"
    by (simp add: cc_handle_def left reset Let_def split: prod.split sum.split)
  show "cc_store (cc_read ops cfg ref i s) = cc_store s" by (simp add: cc_read_def)
qed

text \<open>
  What the command handler relies on: restoring gives the aggregate at the next version of the
  log, and a batch that continues the log is accepted.
\<close>

locale serial_store =
  fixes ops :: "'w event_store_ops"
    and stored :: "'w \<Rightarrow> (ident \<times> int) list"
    and ok :: "'w \<Rightarrow> bool"
  assumes ok_gapless: "ok w \<Longrightarrow> gapless (stored w)"
    and restore_next: "ok w \<Longrightarrow> restored ops cfg i w = Inr a \<Longrightarrow> agg_id a = i \<and> version a = next_version i (stored w)"
    and dispatch_next: "ok w \<Longrightarrow> id_truthy i \<Longrightarrow> versions_from i (next_version i (stored w)) evs \<Longrightarrow> evs \<noteq> [] \<Longrightarrow>
        \<exists>w'. es_dispatch ops evs False w = (Inr (), w') \<and> ok w' \<and> stored w' = stored w @ version_keys evs"
begin

lemma read_inv:
  assumes inv: "cc_inv (stored (cc_store s)) {} s" and ok: "ok (cc_store s)" and r: "cc_promises s ! ref = Reading i"
  shows "cc_inv (stored (cc_store s)) {} (cc_read ops cfg ref i s)"
  unfolding cc_read_def
proof (rule promise_inv [OF inv])
  fix j
  assume "made (cc_cache s) j = Some ref"
  with inv r have "promise_ok (stored (cc_store s)) (cc_tasks s) j (Reading i)"
    unfolding cc_inv_def cache_ok_def by metis
  then have j: "i = j" "\<And>evs. \<not> unsent (cc_tasks s) j evs" by (simp_all add: promise_ok_def)
  show "promise_ok (stored (cc_store s)) (cc_tasks s) j
      (case restored ops cfg i (cc_store s) of Inl e \<Rightarrow> Failed e | Inr a \<Rightarrow> Fulfilled a)"
  proof (cases "restored ops cfg i (cc_store s)")
    case (Inr a)
    with restore_next [OF ok Inr] j show ?thesis by (simp add: promise_ok_def)
  qed (simp add: promise_ok_def)
qed

definition serial_inv :: "'w commands \<Rightarrow> bool" where
  "serial_inv s \<longleftrightarrow> ok (cc_store s) \<and> cc_inv (stored (cc_store s)) {} s"

lemma serial_step:
  assumes cmds: "\<forall>cmd \<in> cmds. truthy_id (aggregateId cmd) \<noteq> None"
  shows "cc_step ops cfg cmds (\<lambda>_ _. False) s s' \<Longrightarrow> serial_inv s \<Longrightarrow> serial_inv s'"
proof (induction rule: cc_step.induct)
  case (cc_enters s t cmd)
  then show ?case using cmds by (simp add: serial_inv_def enter_inv)
next
  case (cc_woken s t cmd l)
  then have la: "lock_agrees s" by (simp add: serial_inv_def cc_inv_def)
  from wake_name [OF cc_woken(2)] obtain k where k: "tasks l = (tasks (cc_locks s))(t := k)"
    "task_name k = task_name (tasks (cc_locks s) t)" by blast
  have "lock_reachable l" using la cc_woken(2) reach_step by (auto simp: lock_agrees_def)
  with la k cc_woken(1) have "lock_agrees (s\<lparr>cc_locks := l\<rparr>)" by (auto simp: lock_agrees_def)
  with cc_woken(3) show ?case by (simp add: serial_inv_def locks_inv)
next
  case (cc_locked s t cmd n)
  then show ?case by (simp add: serial_inv_def attempt_inv)
next
  case (cc_reads ref s i)
  then show ?case by (simp add: serial_inv_def read_inv)
next
  case (cc_handles s t cmd n ref a)
  then show ?case by (simp add: serial_inv_def handle_inv)
next
  case (cc_broken s t cmd n ref e)
  then have inv: "cc_inv (stored (cc_store s)) {} s" by (simp add: serial_inv_def)
  then have "task_ok (stored (cc_store s)) (made (cc_cache s)) (cc_tasks s t)" by (simp add: cc_inv_def)
  with cc_broken(1) obtain i where "truthy_id (aggregateId cmd) = Some i" by auto
  with inv cc_broken show ?case by (simp add: serial_inv_def leave_inv [OF cc_inv_weaken])
next
  case (cc_dispatches s t cmd n evs)
  then have inv: "cc_inv (stored (cc_store s)) {} s" and ok: "ok (cc_store s)" by (simp_all add: serial_inv_def)
  then have "task_ok (stored (cc_store s)) (made (cc_cache s)) (cc_tasks s t)" by (simp add: cc_inv_def)
  with cc_dispatches(1) obtain i where i: "truthy_id (aggregateId cmd) = Some i" "evs \<noteq> []"
    "versions_from i (next_version i (stored (cc_store s))) evs" by auto
  then have "id_truthy i" by (auto simp: truthy_id_def split: option.splits if_splits)
  from dispatch_next [OF ok this i(3,2)] obtain w' where w': "es_dispatch ops evs False (cc_store s) = (Inr (), w')" "ok w'"
    "stored w' = stored (cc_store s) @ version_keys evs" by blast
  with dispatched_inv [OF inv cc_dispatches(1) i(1), of w'] show ?case by (simp add: serial_inv_def cc_dispatch_def)
next
  case (cc_answers s t cmd n evs r)
  then have inv: "cc_inv (stored (cc_store s)) {} s" by (simp add: serial_inv_def)
  then have "task_ok (stored (cc_store s)) (made (cc_cache s)) (cc_tasks s t)" by (simp add: cc_inv_def)
  with cc_answers(1) obtain i where "r = Inr ()" "truthy_id (aggregateId cmd) = Some i" by auto
  with inv cc_answers show ?case by (simp add: serial_inv_def cc_answer_def leave_inv [OF cc_inv_weaken])
next
  case (cc_made s t cmd n)
  then have "task_ok (stored (cc_store s)) (made (cc_cache s)) (cc_tasks s t)" unfolding serial_inv_def cc_inv_def by blast
  with cc_made(1) show ?case by simp
next
  case (cc_forces s t cmd evs)
  then have "task_ok (stored (cc_store s)) (made (cc_cache s)) (cc_tasks s t)" unfolding serial_inv_def cc_inv_def by blast
  with cc_forces(1) show ?case by simp
next
  case (cc_forced s t cmd evs r)
  then have "task_ok (stored (cc_store s)) (made (cc_cache s)) (cc_tasks s t)" unfolding serial_inv_def cc_inv_def by blast
  with cc_forced(1) show ?case by simp
next
  case (cc_others s w)
  then show ?case by simp
qed

lemma init_serial:
  assumes "ok w"
  shows "serial_inv (init_commands w)"
proof -
  have "tasks init_lock_sys t = Idle" for t by (simp add: init_lock_sys_def lock.defs)
  then have "lock_agrees (init_commands w)" by (simp add: lock_agrees_def init_commands_def reach_init)
  moreover have new: "factories (cc_cache (init_commands w)) = []" "usage (cc_cache (init_commands w)) i = 0"
    "made (cc_cache (init_commands w)) i = None" "ma_inv (cc_cache (init_commands w))" "workers (init_commands w) i = {}" for i
    by (simp_all add: init_commands_def ma_inv_new workers_def) (simp_all add: new_map_assertable_def usage_def made_def)
  then have "users_agree (init_commands w)" "cache_ok (stored w) (init_commands w)"
    by (simp_all add: users_agree_def cache_ok_def restores_def)
  ultimately show ?thesis using assms by (simp add: serial_inv_def cc_inv_def init_commands_def)
qed

lemma serial_run:
  assumes "\<forall>cmd \<in> cmds. truthy_id (aggregateId cmd) \<noteq> None"
  shows "cc_run ops cfg cmds (\<lambda>_ _. False) s s' \<Longrightarrow> serial_inv s \<Longrightarrow> serial_inv s'"
  by (induction rule: cc_run.induct) (auto intro: serial_step [OF assms])

end

text \<open>The in-memory event store keeps the contract.\<close>

definition mem_keys :: "mem_world \<Rightarrow> (ident \<times> int) list" where
  "mem_keys w = version_keys (events (w_storage w))"

definition mem_ok :: "mem_world \<Rightarrow> bool" where
  "mem_ok w \<longleftrightarrow> gapless (mem_keys w) \<and> (\<forall>i. all_versioned i (events (w_storage w))) \<and> snapshots_ok w"

lemma last_of_in: "last_of i es = Some x \<Longrightarrow> x \<in> set es \<and> aggregateId x = Some i"
  by (induction es) (auto simp: last_of_Cons split: option.splits if_splits, simp_all add: last_of_def)

lemma versions_from_mem:
  "versions_from i v es \<Longrightarrow> e \<in> set es \<Longrightarrow> aggregateId e = Some i \<and> (\<exists>u. aggregateVersion e = Some u \<and> v \<le> u)"
proof (induction es arbitrary: v)
  case (Cons x es)
  show ?case
  proof (cases "e = x")
    case False
    with Cons.prems Cons.IH [of "v + 1"] show ?thesis by fastforce
  qed (use Cons.prems in simp)
qed simp

lemma mem_dispatch_next:
  assumes ok: "mem_ok w" and i: "id_truthy i" and vf: "versions_from i (next_version i (mem_keys w)) evs" and ne: "evs \<noteq> []"
  shows "\<exists>w'. mem_dispatch evs False w = (Inr (), w') \<and> mem_ok w' \<and> mem_keys w' = mem_keys w @ version_keys evs"
proof -
  have g: "gapless (mem_keys w)" and av: "\<And>j. all_versioned j (events (w_storage w))" and so: "snapshots_ok w"
    using ok by (simp_all add: mem_ok_def)
  have free: "set (mem_keys w) \<inter> set (version_keys evs) = {}"
  proof (rule ccontr)
    assume "set (mem_keys w) \<inter> set (version_keys evs) \<noteq> {}"
    then obtain j v where jv: "(j, v) \<in> set (mem_keys w)" "(j, v) \<in> set (version_keys evs)" by auto
    from versions_from_keys [OF vf, of "(j, v)"] jv(2) have "j = i" "next_version i (mem_keys w) \<le> v" by simp_all
    with gapless_mem [OF g, of j v] jv(1) show False by simp
  qed
  have ids: "\<forall>e \<in> set evs. isSnapshotEvent e \<longrightarrow> opt_id_truthy (aggregateId e)"
    using versions_from_mem [OF vf] i by (auto simp: opt_id_truthy_def)
  obtain w' where w': "mem_dispatch evs False w = (Inr (), w')" "events (w_storage w') = events (w_storage w) @ evs"
    "\<And>a. getAggregateSnapshot a (w_snaps w') = (case last_of a (filter isSnapshotEvent evs) of Some x \<Rightarrow> Some x
       | None \<Rightarrow> getAggregateSnapshot a (w_snaps w))"
    using dispatch_accepted [of "\<lambda>_. Inr ()" evs w "Some (store_meta (Some \<lparr>meta_origin = None, meta_ignoreConc = False\<rparr>))"] ne free ids
    by (auto simp: mem_dispatch_def mem_keys_def)
  have keys: "mem_keys w' = mem_keys w @ version_keys evs" by (simp add: mem_keys_def w'(2))
  have "0 \<le> next_version i (mem_keys w)" by (simp add: next_version_def)
  with gapless_append [of "mem_keys w" i "next_version i (mem_keys w)" evs "\<lambda>i. i"] g vf free
  have "gapless (mem_keys w')" by (simp add: keys)
  moreover have "all_versioned j (events (w_storage w'))" for j
    using av [of j] versions_from_mem [OF vf] by (fastforce simp: all_versioned_def own_events_def w'(2))
  moreover have "snapshots_ok w'" unfolding snapshots_ok_def
  proof (intro allI impI)
    fix j e
    assume e: "getAggregateSnapshot j (w_snaps w') = Some e"
    show "\<exists>v. aggregateVersion e = Some v \<and> (j, v) \<in> set (version_keys (events (w_storage w')))"
    proof (cases "last_of j (filter isSnapshotEvent evs)")
      case None
      with e have "getAggregateSnapshot j (w_snaps w) = Some e" by (simp add: w'(3))
      with so obtain v where "aggregateVersion e = Some v" "(j, v) \<in> set (version_keys (events (w_storage w)))"
        unfolding snapshots_ok_def by blast
      then show ?thesis using keys by (auto simp: mem_keys_def)
    next
      case (Some x)
      with e have "x = e" by (simp add: w'(3))
      with last_of_in [OF Some] have x: "e \<in> set evs" "aggregateId e = Some j" by auto
      with versions_from_mem [OF vf x(1)] obtain v where v: "aggregateVersion e = Some v" by blast
      with x have "(j, v) \<in> set (version_keys evs)" by (auto simp: set_version_keys version_key_iff)
      with v keys show ?thesis by (auto simp: mem_keys_def)
    qed
  qed
  ultimately show ?thesis using w'(1) keys by (auto simp: mem_ok_def)
qed

interpretation mem_serial: serial_store mem_ops mem_keys mem_ok
proof
  show "gapless (mem_keys w)" if "mem_ok w" for w using that by (simp add: mem_ok_def)
  show "agg_id a = i \<and> version a = next_version i (mem_keys w)" if "mem_ok w" "restored mem_ops cfg i w = Inr a" for w cfg i a
    using that restored_at_next_version [of w i cfg a] by (simp add: mem_ok_def mem_keys_def)
  show "\<exists>w'. es_dispatch mem_ops evs False w = (Inr (), w') \<and> mem_ok w' \<and> mem_keys w' = mem_keys w @ version_keys evs"
    if "mem_ok w" "id_truthy i" "versions_from i (next_version i (mem_keys w)) evs" "evs \<noteq> []" for w i evs
    using mem_dispatch_next [OF that] by (simp add: mem_ops_def)
qed

section \<open>Properties\<close>


text \<open>The cache holds an aggregate exactly while a command for it is under way.\<close>

theorem cached_while_under_way:
  assumes "cc_run mem_ops cfg cmds (\<lambda>_ _. False) (init_commands w) s" and "mem_ok w"
    and "\<forall>cmd \<in> cmds. truthy_id (aggregateId cmd) \<noteq> None"
  shows "ma_has (cc_cache s) i \<longleftrightarrow> (\<exists>t. works_on (cc_tasks s t) = Some i)"
proof -
  from mem_serial.serial_run [OF assms(3,1) mem_serial.init_serial [OF assms(2)]]
  have "users_agree s" unfolding mem_serial.serial_inv_def cc_inv_def by blast
  then have "ma_has (cc_cache s) i \<longleftrightarrow> 0 < int (card (workers s i))" "finite (workers s i)"
    unfolding users_agree_def ma_inv_def by metis+
  then show ?thesis by (auto simp: card_gt_0_iff workers_def)
qed

text \<open>\<open>assert\<close> reads the entry, so it runs a pending factory.\<close>

lemma assert_lazy:
  assumes "map_of (factories m) i = Some (start_restore i)"
  shows "\<exists>m'. ma_assert i (start_restore i) (m, ps) = (Some (length ps), m', ps @ [Reading i])
    \<and> made m' i = Some (length ps) \<and> usage m' i = usage m i + 1"
proof -
  obtain v m' qs where a: "ma_assert i (start_restore i) (m, ps) = (v, m', qs)" by (rule prod_cases3)
  have "map_has (factories m) i" "ma_has m i" using assms by (simp_all add: map_has_def ma_has_def)
  with a assms have "v = Some (length ps)" "qs = ps @ [Reading i]"
    by (auto simp: ma_assert_def ma_get_def start_restore_def Let_def)
  moreover have "made m' i = Some (length ps)" using ma_assert_returns [of i "start_restore i" m ps] a calculation(1) by auto
  moreover have "usage m' i = usage m i + 1" using usage_assert [of i "start_restore i" m ps i] a by simp
  ultimately show ?thesis using a by blast
qed


text \<open>Whoever is past \<open>acquire\<close> can go on.\<close>

lemma section_progress:
  assumes "cc_inv lg {} s" "in_section (cc_tasks s t)"
  shows "\<exists>s'. cc_step ops cfg {} others s s'"
proof -
  have ok: "task_ok lg (made (cc_cache s)) (cc_tasks s t)" and ca: "cache_ok lg s" using assms(1) by (simp_all add: cc_inv_def)
  show ?thesis
  proof (cases "cc_tasks s t")
    case (Awaiting cmd n r)
    with ok obtain i where "made (cc_cache s) i = Some r" by auto
    with ca have r: "r < length (cc_promises s)" unfolding cache_ok_def by blast
    show ?thesis
    proof (cases "cc_promises s ! r")
      case (Reading i)
      with r show ?thesis by (blast intro: cc_reads)
    next
      case (Fulfilled a)
      with r Awaiting show ?thesis by (blast intro: cc_handles)
    next
      case (Failed e)
      with r Awaiting show ?thesis by (blast intro: cc_broken)
    qed
  next
    case (Sending cmd n evs)
    then show ?thesis by (blast intro: cc_dispatches)
  next
    case (Answered cmd n evs r)
    then show ?thesis by (blast intro: cc_answers)
  qed (use ok assms(2) in simp_all)
qed

lemma lock_user:
  assumes "lock_agrees s" "tasks (cc_locks s) t \<noteq> Idle" "\<not> in_section (cc_tasks s t)"
  shows "\<exists>cmd. cc_tasks s t = Queued cmd"
proof -
  have "works_on (cc_tasks s t) \<noteq> None" using assms(1,2) unfolding lock_agrees_def by (metis option.map_disc_iff task_name_None)
  with assms(3) show ?thesis by (cases "cc_tasks s t") simp_all
qed

lemma holder_progress:
  assumes "cc_inv lg {} s" "tasks (cc_locks s) t = Holds n"
  shows "\<exists>s'. cc_step ops cfg {} others s s'"
proof (cases "in_section (cc_tasks s t)")
  case True
  with section_progress [OF assms(1)] show ?thesis .
next
  case False
  with lock_user [of s t] assms obtain cmd where "cc_tasks s t = Queued cmd" by (auto simp: cc_inv_def)
  with assms(2) show ?thesis by (blast intro: cc_locked)
qed


text \<open>One command on its way to the store.\<close>

definition demo_empty :: mem_world where
  "demo_empty = \<lparr>w_storage = new_mem_storage, w_snaps = []\<rparr>"

lemma demo_empty_ok: "mem_ok demo_empty"
  by (simp add: demo_empty_def mem_ok_def mem_keys_def new_mem_storage_def gapless_def versions_of_def all_versioned_def
      own_events_def snapshots_ok_def getAggregateSnapshot_def)

lemma demo_command_id: "truthy_id (aggregateId (demo_command ''a'')) = Some (IdStr ''a'')"
  by (simp add: demo_command_def truthy_id_def)

lemma demo_sending:
  "\<exists>s evs. cc_run mem_ops demo_handler {demo_command ''a''} (\<lambda>_ _. False) (init_commands demo_empty) s
     \<and> cc_tasks s 0 = Sending (demo_command ''a'') 0 evs"
proof -
  let ?c = "demo_command ''a''" and ?a = "IdStr ''a''" and ?run = "cc_run mem_ops demo_handler {demo_command ''a''} (\<lambda>_ _. False) (init_commands demo_empty)"
  have ok: "message_ok ?c" by (simp add: demo_command_def message_ok_def)
  have lk: "command_lock ?a = Some ''a''" by (simp add: command_lock_def lock_name_def)
  define s1 where "s1 = cc_enter 0 ?c (init_commands demo_empty)"
  have "?run s1" unfolding s1_def
    by (rule cc_run_more [OF cc_run_none cc_enters]) (simp_all add: init_commands_def)
  moreover have s1: "cc_tasks s1 0 = Queued ?c" "tasks (cc_locks s1) 0 = Holds (Some ''a'')" "cc_promises s1 = [Reading ?a]"
    "map_of (entries (cc_cache s1)) ?a = Some 0" "factories (cc_cache s1) = []" "cc_store s1 = demo_empty"
    by (simp_all add: s1_def cc_enter_def ok demo_command_id lk init_commands_def acquire_enter_def acquire_wait_def
        getAnyBlockingLock_def init_lock_sys_def new_lock_def lock.defs cc_assert_def ma_assert_def ma_has_def map_has_def
        new_map_assertable_def start_restore_def ma_get_def Let_def)
  ultimately have r2: "?run (cc_attempt 0 ?c 0 s1)" by (blast intro: cc_run_more cc_locked)
  define s2 where "s2 = cc_attempt 0 ?c 0 s1"
  have s2: "cc_tasks s2 0 = Awaiting ?c 0 0" "cc_promises s2 = [Reading ?a]" "cc_store s2 = demo_empty"
    using s1 by (simp_all add: s2_def cc_attempt_def demo_command_id cc_get_def ma_get_def)
  define s3 where "s3 = cc_read mem_ops demo_handler 0 ?a s2"
  have r3: "?run s3" unfolding s3_def
    by (rule cc_run_more [OF r2 [folded s2_def] cc_reads]) (simp_all add: s2)
  obtain a where a: "restored mem_ops demo_handler ?a demo_empty = Inr a" "handle demo_class ?c a = (Inr [makeEvent ''incremented'' JUndef (Some ?c) a], snd (handle demo_class ?c a))"
    by (simp add: restored_def mem_ops_def store_getAggregateEvents_def mem_reader_def mem_snapshot_lookup_def
        getAggregateEvents_eq aggregate_stream_def newer_than_def of_types_def getAggregateSnapshot_def restore_query_def demo_handler_def
        demo_empty_def new_mem_storage_def demo_defs act_bind_def Let_def)
  have s3: "cc_tasks s3 0 = Awaiting ?c 0 0" "cc_promises s3 = [Fulfilled a]"
    using s2 a(1) by (simp_all add: s3_def cc_read_def)
  have "?run (cc_handle demo_handler 0 ?c 0 0 a s3)"
    by (rule cc_run_more [OF r3 cc_handles]) (simp_all add: s3)
  moreover have "cc_tasks (cc_handle demo_handler 0 ?c 0 0 a s3) 0 = Sending ?c 0 [makeEvent ''incremented'' JUndef (Some ?c) a]"
    using a(2) by (cases "handle demo_class ?c a") (simp add: cc_handle_def demo_handler_def)
  ultimately show ?thesis by blast
qed




end
