(* ===== verification/StoredEvents.thy ===== *)
theory StoredEvents
  imports ConcurrentCommands
begin

text \<open>
  What the events are that commands leave in the store: a property of the batches that an
  aggregate's command handlers emit becomes an invariant of the store, for any overlapping calls of
  \<open>src/AggregateCommandHandler.ts\<close> and any other processes that keep it. The classes of a domain
  interpret the locale.
\<close>

section \<open>From the command handlers to the store\<close>

text \<open>What a call under way still carries: a command that may come, and batches of the kind wanted.\<close>

fun carries :: "handler_cfg \<Rightarrow> command set \<Rightarrow> (event list \<Rightarrow> bool) \<Rightarrow> execution \<Rightarrow> bool" where
  "carries cfg cmds batch_ok (Queued cmd) \<longleftrightarrow> cmd \<in> cmds"
| "carries cfg cmds batch_ok (Making cmd n) \<longleftrightarrow> cmd \<in> cmds"
| "carries cfg cmds batch_ok (Awaiting cmd n ref) \<longleftrightarrow> cmd \<in> cmds"
| "carries cfg cmds batch_ok (Sending cmd n evs) \<longleftrightarrow> cmd \<in> cmds \<and> batch_ok evs"
| "carries cfg cmds batch_ok (Answered cmd n evs r) \<longleftrightarrow> cmd \<in> cmds \<and> batch_ok evs"
| "carries cfg cmds batch_ok (Forcing cmd evs) \<longleftrightarrow> batch_ok evs \<and> (\<exists>err n. h_shouldRetry cfg err evs n = Ignore)"
| "carries cfg cmds batch_ok _ \<longleftrightarrow> True"

lemma carries_others: "carries cfg cmds Q (ts u) \<Longrightarrow> carries cfg cmds Q e \<Longrightarrow> carries cfg cmds Q ((ts(t := e)) u)"
  by simp

text \<open>The task a step leaves behind; the other tasks stay.\<close>

lemma leave_task: "\<exists>r'. cc_tasks (cc_leave t oid r s) = (cc_tasks s)(t := Settled r')"
  by (auto simp: cc_leave_def split: option.split)

lemma reset_tasks [simp]: "cc_tasks (cc_reset oid s) = cc_tasks s"
  by (simp add: cc_reset_def split: option.split)

lemma attempt_task:
  "\<exists>e. cc_tasks (cc_attempt t cmd n s) = (cc_tasks s)(t := e)
    \<and> (e = Making cmd n \<or> (\<exists>ref. e = Awaiting cmd n ref) \<or> (\<exists>r. e = Settled r))"
proof (cases "truthy_id (aggregateId cmd)")
  case (Some i)
  obtain v s1 where g: "cc_get i s = (v, s1)" by fastforce
  then have ts: "cc_tasks s1 = cc_tasks s" by (auto simp: cc_get_def split: prod.splits)
  show ?thesis
  proof (cases v)
    case None
    with leave_task [of t "aggregateId cmd" _ s1] Some g ts show ?thesis by (fastforce simp: cc_attempt_def)
  next
    case (Some ref)
    with \<open>truthy_id (aggregateId cmd) = Some i\<close> g ts
    have "cc_tasks (cc_attempt t cmd n s) = (cc_tasks s)(t := Awaiting cmd n ref)" by (simp add: cc_attempt_def)
    then show ?thesis by blast
  qed
next
  case None
  then have "cc_tasks (cc_attempt t cmd n s) = (cc_tasks s)(t := Making cmd n)" by (simp add: cc_attempt_def)
  then show ?thesis by blast
qed

lemma enter_task:
  "\<exists>e. cc_tasks (cc_enter t cmd s) = (cc_tasks s)(t := e)
    \<and> (e = Queued cmd \<or> e = Making cmd 0 \<or> (\<exists>ref. e = Awaiting cmd 0 ref) \<or> (\<exists>r. e = Settled r))"
proof (cases "truthy_id (aggregateId cmd)")
  case None
  then show ?thesis using attempt_task [of t cmd 0 s] by (auto simp: cc_enter_def)
next
  case (Some i)
  have "cc_tasks (cc_assert i s) = cc_tasks s" by (simp add: cc_assert_def split: prod.split)
  with Some show ?thesis by (auto simp: cc_enter_def split: prod.split)
qed

locale dispatched_events =
  fixes ops :: "'w event_store_ops"
    and cfg :: handler_cfg
    and cmds :: "command set"
    and store_ok :: "'w \<Rightarrow> bool"
    and batch_ok :: "event list \<Rightarrow> bool"
  assumes handled: "cmd \<in> cmds \<Longrightarrow> handle (h_class cfg) cmd a = (Inr evs, a') \<Longrightarrow> batch_ok evs"
    and dispatched: "store_ok w \<Longrightarrow> batch_ok evs \<Longrightarrow> store_ok (snd (es_dispatch ops evs False w))"
    and forced: "store_ok w \<Longrightarrow> batch_ok evs \<Longrightarrow> h_shouldRetry cfg err evs n = Ignore \<Longrightarrow>
        store_ok (snd (es_dispatch ops evs True w))"
    and id_made: "store_ok w \<Longrightarrow> store_ok (snd (es_getNewId ops w))"
begin

definition events_inv :: "'w commands \<Rightarrow> bool" where
  "events_inv s \<longleftrightarrow> store_ok (cc_store s) \<and> (\<forall>t. carries cfg cmds batch_ok (cc_tasks s t))"

lemma events_inv_to: "events_inv s \<Longrightarrow> carries cfg cmds batch_ok e \<Longrightarrow> events_inv (cc_to t e s)"
  by (simp add: events_inv_def)

lemma leave_events: "events_inv s \<Longrightarrow> events_inv (cc_leave t oid r s)"
  using leave_task [of t oid r s] by (auto simp: events_inv_def)

lemma attempt_events:
  assumes "events_inv s" "cmd \<in> cmds"
  shows "events_inv (cc_attempt t cmd n s)"
proof -
  obtain e where e: "cc_tasks (cc_attempt t cmd n s) = (cc_tasks s)(t := e)"
    and k: "e = Making cmd n \<or> (\<exists>ref. e = Awaiting cmd n ref) \<or> (\<exists>r. e = Settled r)"
    using attempt_task [of t cmd n s] by blast
  from k assms(2) have "carries cfg cmds batch_ok e" by auto
  with assms(1) e show ?thesis by (auto simp: events_inv_def)
qed

lemma events_same: "events_inv s \<Longrightarrow> cc_tasks s' = cc_tasks s \<Longrightarrow> cc_store s' = cc_store s \<Longrightarrow> events_inv s'"
  by (simp add: events_inv_def)

lemma make_events:
  assumes "events_inv s" "cmd \<in> cmds"
  shows "events_inv (cc_make ops cfg t cmd n s)"
proof -
  obtain r w where nw: "es_getNewId ops (cc_store s) = (r, w)" by fastforce
  with assms(1) id_made [of "cc_store s"] have "events_inv (s\<lparr>cc_store := w\<rparr>)" by (simp add: events_inv_def)
  then show ?thesis using assms(2) nw leave_events
    by (auto simp: cc_make_def events_inv_def split: sum.split)
qed

lemma handle_events:
  assumes "events_inv s" "cmd \<in> cmds"
  shows "events_inv (cc_handle cfg t cmd n ref a s)"
proof -
  obtain r a' where h: "handle (h_class cfg) cmd a = (r, a')" by fastforce
  let ?s = "s\<lparr>cc_promises := (cc_promises s)[ref := Fulfilled a']\<rparr>"
  have s: "events_inv ?s" using assms(1) by (rule events_same) simp_all
  then have "events_inv (cc_reset (aggregateId cmd) ?s)" by (rule events_same) simp_all
  then show ?thesis using h s handled [OF assms(2)] assms(2) leave_events
    by (auto simp: cc_handle_def Let_def intro: events_inv_to split: sum.split)
qed

lemma answer_events:
  assumes "events_inv s" "cmd \<in> cmds" "batch_ok evs"
  shows "events_inv (cc_answer cfg t cmd n evs r s)"
proof (cases r)
  case (Inl err)
  have s: "events_inv (cc_reset (aggregateId cmd) s)" by (rule events_same [OF assms(1)]) simp_all
  show ?thesis
  proof (cases "h_shouldRetry cfg err evs (int n)")
    case Ignore
    then have "carries cfg cmds batch_ok (Forcing cmd evs)" using assms(3) by auto
    from events_inv_to [OF s this] Inl Ignore show ?thesis by (simp add: cc_answer_def)
  qed (use Inl s assms(2) in \<open>simp_all add: cc_answer_def leave_events attempt_events\<close>)
qed (use assms(1) in \<open>simp add: cc_answer_def leave_events\<close>)

lemma events_step:
  assumes "cc_step ops cfg cmds (\<lambda>w w'. store_ok w \<longrightarrow> store_ok w') s s'" and inv: "events_inv s"
  shows "events_inv s'"
  using assms(1)
proof cases
  case (cc_enters t cmd)
  obtain e where e: "cc_tasks (cc_enter t cmd s) = (cc_tasks s)(t := e)"
    and k: "e = Queued cmd \<or> e = Making cmd 0 \<or> (\<exists>ref. e = Awaiting cmd 0 ref) \<or> (\<exists>r. e = Settled r)"
    using enter_task [of t cmd s] by blast
  from k cc_enters(3) have "carries cfg cmds batch_ok e" by auto
  with inv e cc_enters(1) show ?thesis by (auto simp: events_inv_def)
next
  case (cc_woken t cmd l)
  with inv show ?thesis by (simp add: events_inv_def)
next
  case (cc_locked t cmd n)
  with inv have "cmd \<in> cmds" unfolding events_inv_def by (metis carries.simps(1))
  with inv cc_locked(1) show ?thesis by (simp add: attempt_events)
next
  case (cc_made t cmd n)
  with inv have "cmd \<in> cmds" unfolding events_inv_def by (metis carries.simps(2))
  with inv cc_made(1) show ?thesis by (simp add: make_events)
next
  case (cc_reads ref i)
  have "cc_tasks (cc_read ops cfg ref i s) = cc_tasks s" by (simp add: cc_read_def)
  with inv cc_reads(1) show ?thesis by (simp add: events_inv_def)
next
  case (cc_handles t cmd n ref a)
  with inv have "cmd \<in> cmds" unfolding events_inv_def by (metis carries.simps(3))
  with inv cc_handles(1) show ?thesis by (simp add: handle_events)
next
  case (cc_broken t cmd n ref e)
  with inv show ?thesis by (simp add: leave_events)
next
  case (cc_dispatches t cmd n evs)
  with inv have c: "cmd \<in> cmds \<and> batch_ok evs" unfolding events_inv_def by (metis carries.simps(4))
  obtain r w where d: "es_dispatch ops evs False (cc_store s) = (r, w)" by fastforce
  with dispatched [of "cc_store s" evs] inv c have "store_ok w" by (simp add: events_inv_def)
  with inv c d cc_dispatches(1) show ?thesis by (simp add: cc_dispatch_def events_inv_def)
next
  case (cc_answers t cmd n evs r)
  with inv have "cmd \<in> cmds \<and> batch_ok evs" unfolding events_inv_def by (metis carries.simps(5))
  with inv cc_answers(1) show ?thesis by (simp add: answer_events)
next
  case (cc_forces t cmd evs)
  with inv have c: "batch_ok evs \<and> (\<exists>err n. h_shouldRetry cfg err evs n = Ignore)"
    unfolding events_inv_def by (metis carries.simps(6))
  obtain r w where d: "es_dispatch ops evs True (cc_store s) = (r, w)" by fastforce
  with forced [of "cc_store s" evs] inv c have "store_ok w" by (auto simp: events_inv_def)
  with inv c d cc_forces(1) show ?thesis by (simp add: cc_force_def events_inv_def)
next
  case (cc_forced t cmd evs r)
  with inv show ?thesis by (simp add: leave_events)
next
  case (cc_others w)
  with inv show ?thesis by (simp add: events_inv_def)
qed

lemma events_run:
  "cc_run ops cfg cmds (\<lambda>w w'. store_ok w \<longrightarrow> store_ok w') s s' \<Longrightarrow> events_inv s \<Longrightarrow> events_inv s'"
  by (induction rule: cc_run.induct) (auto intro: events_step)

lemma store_stays_ok:
  assumes "cc_run ops cfg cmds (\<lambda>w w'. store_ok w \<longrightarrow> store_ok w') (init_commands w) s" and "store_ok w"
  shows "store_ok (cc_store s)"
proof -
  have "events_inv (init_commands w)" using assms(2) by (simp add: events_inv_def init_commands_def)
  from events_run [OF assms(1) this] show ?thesis by (simp add: events_inv_def)
qed

end

section \<open>Batches without snapshots in the in-memory store\<close>

text \<open>Such a batch is appended, after the check for conflicts, or nothing changes.\<close>

lemma dispatch_plain:
  assumes "\<forall>e \<in> set evs. \<not> isSnapshotEvent e"
  shows "snd (mem_dispatch evs ig w) = w \<or>
    (snd (mem_dispatch evs ig w) = w\<lparr>w_storage := (w_storage w)\<lparr>events := events (w_storage w) @ evs\<rparr>\<rparr>
      \<and> (ig \<or> set (version_keys (events (w_storage w))) \<inter> set (version_keys evs) = {}))"
proof -
  define m where "m = Some (store_meta (Some \<lparr>meta_origin = None, meta_ignoreConc = ig\<rparr>))"
  define bt where "bt = map (make_envelope m) evs"
  have no: "filter isSnapshotEvent evs = []" using assms by (simp add: filter_empty_conv)
  have pub: "\<forall>e :: event. (\<lambda>_. Inr () :: unit result) e = Inr ()" by simp
  obtain r t where c: "storage_process bt (w_storage w) = (r, t)" by fastforce
  show ?thesis
  proof (cases r)
    case (Inl err)
    with storage_process_Inl c have t: "t = w_storage w" by blast
    have "chain_process default_processors bt w = (Inl (err, bt), w)"
      using c t Inl by (simp add: default_processors_def storage_processor_def on_storage_def)
    moreover have "revert_all default_processors bt w = (Inr (), w)"
      unfolding revert_default by (simp add: on_snaps_def snapshot_revert_def bt_def no act_return_def)
    ultimately have "mem_dispatch evs ig w = (Inl err, w)"
      unfolding mem_dispatch_def m_def [symmetric] bt_def [symmetric] dispatch_one_eq [OF pub] by simp
    then show ?thesis by simp
  next
    case (Inr bt')
    with c have ok: "bt' = bt" "t = (w_storage w)\<lparr>events := events (w_storage w) @ evs\<rparr>"
      "\<not> batch_ignores bt \<longrightarrow> set (version_keys (events (w_storage w))) \<inter> set (version_keys evs) = {}"
      by (auto simp: storage_process_Inr commitEvents_ok bt_def)
    have "snapshot_process bt (w_snaps w) = (Inr (filter (\<lambda>b. \<not> env_is_snapshot b) bt), w_snaps w)"
      by (simp add: snapshot_process_Inr bt_def no act_return_def)
    then have "chain_process default_processors bt w = (Inr (filter (\<lambda>b. \<not> env_is_snapshot b) bt), w\<lparr>w_storage := t\<rparr>)"
      using c Inr ok(1) by (simp add: default_processors_def storage_processor_def snapshot_processor_def on_storage_def on_snaps_def)
    then have "snd (mem_dispatch evs ig w) = w\<lparr>w_storage := t\<rparr>"
      unfolding mem_dispatch_def m_def [symmetric] bt_def [symmetric] dispatch_one_eq [OF pub] by simp
    moreover have "batch_ignores bt = ig" if "evs \<noteq> []"
      using that by (simp add: bt_def m_def store_meta_def)
    ultimately show ?thesis using ok by (cases "evs = []") auto
  qed
qed

text \<open>Restoring an aggregate that has no snapshot reads its own events.\<close>

lemma plain_stream:
  assumes "w_snaps w = []" "q_snapshot q = None" "q_eventTypes q = None" "id_truthy i"
  shows "es_getAggregateEvents mem_ops i q w = Inr (own_events i (events (w_storage w)))"
  using assms by (simp add: mem_ops_def store_getAggregateEvents_def mem_reader_def mem_snapshot_lookup_def
      getAggregateSnapshot_def getAggregateEvents_eq aggregate_stream_def newer_than_def own_events_def of_types_def)

section \<open>Handlers that emit at most one event\<close>

definition emit_only :: "string \<Rightarrow> jsval \<Rightarrow> script" where
  "emit_only t p = Emit t p (\<lambda>(r, _). case r of Inl err \<Rightarrow> Fail err | Inr _ \<Rightarrow> Finish)"

text \<open>The event a handler emits, with the type and payload that \<open>P\<close> allows an aggregate.\<close>

definition at_most_one :: "(string \<Rightarrow> jsval \<Rightarrow> bool) \<Rightarrow> script \<Rightarrow> bool" where
  "at_most_one P sc \<longleftrightarrow> (\<exists>err. sc = Fail err) \<or> (\<exists>t q. sc = emit_only t q \<and> P t q)"

lemma at_most_one_intros [simp]: "at_most_one P (Fail err)" "P t q \<Longrightarrow> at_most_one P (emit_only t q)"
  by (auto simp: at_most_one_def)

definition emits_one :: "aggregate_class \<Rightarrow> (aggregate \<Rightarrow> string \<Rightarrow> jsval \<Rightarrow> bool) \<Rightarrow> bool" where
  "emits_one cls P \<longleftrightarrow> (\<forall>a. \<not> shouldTakeSnapshot cls a)
     \<and> (\<forall>h p c cmd a. at_most_one (P a) (run_command_fn cls h p c cmd a))"

lemma handle_one:
  assumes cls: "emits_one cls P" and h: "handle cls cmd a = (Inr evs, a')"
  shows "\<exists>t q. P (a\<lparr>agg_command := Some cmd\<rparr>) t q \<and> evs = [makeEvent t q (Some cmd) (a\<lparr>agg_command := Some cmd\<rparr>)]
    \<and> id_truthy (agg_id a)"
proof -
  define b where "b = a\<lparr>agg_command := Some cmd\<rparr>"
  have no: "\<not> shouldTakeSnapshot cls x" for x using cls by (simp add: emits_one_def)
  from h obtain f b2 where run: "run_script cls (run_command_fn cls f (payload cmd) (msg_context cmd) cmd b) b = (Inr (), b2)"
    and evs: "evs = drop (length (changes b)) (changes b2)"
    by (auto simp: handle_def b_def getUncommittedEvents_def no Let_def split: if_splits sum.splits prod.splits)
  from run cls obtain t q where tq: "run_command_fn cls f (payload cmd) (msg_context cmd) cmd b = emit_only t q" "P b t q"
    unfolding emits_one_def at_most_one_def by (metis Inl_Inr_False prod.inject run_script.simps(2))
  from run obtain e where em: "emit cls t q b = (Inr e, b2)"
    unfolding tq(1) emit_only_def by (auto split: prod.splits sum.splits)
  then have "id_truthy (agg_id a)"
    by (auto simp: emit_def emitRaw_def b_def assert_id_defined_def Let_def split: sum.splits if_splits)
  moreover from em emit_Inr obtain b1 where e: "e = makeEvent t q (agg_command b) b"
    and m: "mutate cls e b = (Inr (), b1)" "b2 = b1\<lparr>changes := changes b1 @ [e]\<rparr>" by blast
  have "agg_command b = Some cmd" by (simp add: b_def)
  with mutate_frame [OF m(1)] m(2) evs e tq(2) show ?thesis using calculation unfolding b_def [symmetric] by auto
qed

end
