(* ===== verification/Projection.thy ===== *)
theory Projection
  imports ViewLockers Handlers EventStorage
begin

text \<open>
  Projections (\<open>src/AbstractProjection.ts\<close>): projecting an event under an event locker, and
  restoring a view under a view locker from the events not yet projected. The world \<open>'w\<close> is all
  that handlers and lockers act on. Then what the contract of event lockers makes of it: every
  event reaches the view once, and a view resumes where it stopped.
\<close>

section \<open>The projection\<close>

record 'w event_locker_ops =
  el_try :: "event \<Rightarrow> ('w, bool) act"
  el_mark :: "event \<Rightarrow> ('w, unit) act"
  el_mark_last :: "event \<Rightarrow> ('w, unit) act"
  el_get_last :: "('w, event option) act"

text \<open>\<open>vw_lock\<close> is \<open>None\<close> while it waits.\<close>

record 'w view_locker_ops =
  vw_ready :: "'w \<Rightarrow> bool"
  vw_lock :: "'w \<Rightarrow> (bool result \<times> 'w) option"
  vw_unlock :: "('w, unit) act"

text \<open>
  The instance as a prototype chain, the static \<open>handles\<close> of a class that overrides it, what
  calling a handler does, the lockers, and the two overridable methods
  \<open>shouldRecordLastEvent\<close> and \<open>_onRestoringError\<close>.
\<close>

record 'w projection =
  pj_instance :: chain
  pj_handles :: "string list option"
  pj_call :: "jsval \<Rightarrow> event \<Rightarrow> ('w, unit) act"
  pj_view_locker :: "'w view_locker_ops option"
  pj_event_locker :: "'w event_locker_ops option"
  pj_records :: "event \<Rightarrow> bool"
  pj_on_error :: "js_error \<Rightarrow> event \<Rightarrow> unit result"

definition default_records :: "event \<Rightarrow> bool" where
  "default_records e = True"

definition onRestoringError :: "js_error \<Rightarrow> event \<Rightarrow> unit result" where
  "onRestoringError err e = Inl err"

text \<open>
  The getters of the lockers: a locker that was not given (\<open>None\<close>) is the view itself, when the
  view is one; \<open>Some None\<close> is \<open>null\<close>.
\<close>

definition resolve_locker :: "'l option option \<Rightarrow> 'l option \<Rightarrow> 'l option" where
  "resolve_locker given of_view = (case given of None \<Rightarrow> of_view | Some l \<Rightarrow> l)"

definition projection_handles :: "'w projection \<Rightarrow> string list result" where
  "projection_handles p = (case pj_handles p of
       Some ts \<Rightarrow> Inr ts | None \<Rightarrow> getMessageHandlerNames (tl (pj_instance p)))"

definition new_projection ::
  "chain \<Rightarrow> string list option \<Rightarrow> (jsval \<Rightarrow> event \<Rightarrow> ('w, unit) act) \<Rightarrow> 'w view_locker_ops option option \<Rightarrow>
   'w view_locker_ops option \<Rightarrow> 'w event_locker_ops option option \<Rightarrow> 'w event_locker_ops option \<Rightarrow> 'w projection result" where
  "new_projection inst handles call viewLocker view_vl eventLocker view_el =
     (let p = \<lparr>pj_instance = inst, pj_handles = handles, pj_call = call,
        pj_view_locker = resolve_locker viewLocker view_vl, pj_event_locker = resolve_locker eventLocker view_el,
        pj_records = default_records, pj_on_error = onRestoringError\<rparr>
      in res_bind (projection_handles p) (\<lambda>ts.
         res_bind (validateHandlers inst (JArr (map JStr ts)) ''handles'') (\<lambda>_. Inr p)))"

text \<open>\<open>_project\<close>: it does not wait for the view.\<close>

definition project_event :: "'w projection \<Rightarrow> event \<Rightarrow> ('w, unit) act" where
  "project_event p e w = (case getHandler (pj_instance p) (msg_type e) of
       Inl err \<Rightarrow> (Inl err, w)
     | Inr handler \<Rightarrow> (case pj_event_locker p of
         None \<Rightarrow> pj_call p handler e w
       | Some el \<Rightarrow> act_bind (el_try el e) (\<lambda>obtained.
           if \<not> obtained then act_return ()
           else act_bind (pj_call p handler e) (\<lambda>_.
             act_bind (el_mark el e) (\<lambda>_.
               if pj_records p e then el_mark_last el e else act_return ()))) w))"

text \<open>\<open>project\<close>: \<open>None\<close> while it waits for the view to be ready.\<close>

definition project :: "'w projection \<Rightarrow> event \<Rightarrow> 'w \<Rightarrow> (unit result \<times> 'w) option" where
  "project p e w = (case pj_view_locker p of
       Some vl \<Rightarrow> if \<not> vw_ready vl w then None else Some (project_event p e w)
     | None \<Rightarrow> Some (project_event p e w))"

text \<open>The loop of \<open>_restore\<close>, with the last event restored.\<close>

primrec restore_each :: "'w projection \<Rightarrow> event list \<Rightarrow> event option \<Rightarrow> ('w, event option) act" where
  "restore_each p [] lastRestored w = (Inr lastRestored, w)"
| "restore_each p (e # es) lastRestored w = (case project_event p e w of
       (Inr _, w1) \<Rightarrow> restore_each p es (Some e) w1
     | (Inl err, w1) \<Rightarrow> (case pj_on_error p err e of
           Inl err' \<Rightarrow> (Inl err', w1) | Inr _ \<Rightarrow> restore_each p es lastRestored w1))"

text \<open>\<open>_restore\<close>; \<open>reader\<close> is \<open>getEventsByTypes\<close> of the event store.\<close>

definition restore_view :: "'w projection \<Rightarrow> (string list \<Rightarrow> event option \<Rightarrow> event list result) \<Rightarrow> ('w, unit) act" where
  "restore_view p reader = act_bind
     (case pj_event_locker p of None \<Rightarrow> act_return None | Some el \<Rightarrow> el_get_last el) (\<lambda>lastEvent w.
       case res_bind (projection_handles p) (\<lambda>ts. reader ts lastEvent) of
         Inl err \<Rightarrow> (Inl err, w)
       | Inr es \<Rightarrow> act_bind (restore_each p es None) (\<lambda>lastRestored.
           case (pj_event_locker p, lastRestored) of
             (Some el, Some e) \<Rightarrow> el_mark_last el e
           | _ \<Rightarrow> act_return ()) w)"

text \<open>\<open>restore\<close>: the promise of \<open>unlock\<close> is not awaited, an error leaves the view locked.\<close>

definition restore ::
  "'w projection \<Rightarrow> (string list \<Rightarrow> event option \<Rightarrow> event list result) \<Rightarrow> 'w \<Rightarrow> (unit result \<times> 'w) option" where
  "restore p reader w =
     (case (case pj_view_locker p of None \<Rightarrow> Some (Inr True, w) | Some vl \<Rightarrow> vw_lock vl w) of
        None \<Rightarrow> None
      | Some (Inl err, w1) \<Rightarrow> Some (Inl err, w1)
      | Some (Inr _, w1) \<Rightarrow> Some (case restore_view p reader w1 of
            (Inl err, w2) \<Rightarrow> (Inl err, w2)
          | (Inr _, w2) \<Rightarrow> (Inr (), case pj_view_locker p of None \<Rightarrow> w2 | Some vl \<Rightarrow> snd (vw_unlock vl w2))))"

section \<open>What projecting and restoring leave alone\<close>

text \<open>An observation of the world that neither the handlers nor the event locker change.\<close>

definition keeps :: "('w \<Rightarrow> 'b) \<Rightarrow> 'w projection \<Rightarrow> bool" where
  "keeps ob p \<longleftrightarrow> (\<forall>h e w. ob (snd (pj_call p h e w)) = ob w)
     \<and> (\<forall>el. pj_event_locker p = Some el \<longrightarrow>
         (\<forall>e w. ob (snd (el_try el e w)) = ob w \<and> ob (snd (el_mark el e w)) = ob w \<and> ob (snd (el_mark_last el e w)) = ob w)
       \<and> (\<forall>w. ob (snd (el_get_last el w)) = ob w))"

lemma keeps_bind:
  assumes "\<And>w. ob (snd (m w)) = ob w" "\<And>a w. ob (snd (f a w)) = ob w"
  shows "ob (snd (act_bind m f w)) = ob w"
proof -
  obtain r w1 where m: "m w = (r, w1)" by fastforce
  with assms(1) [of w] have "ob w1 = ob w" by simp
  with m assms(2) show ?thesis by (cases r) simp_all
qed

lemma keeps_project_event:
  assumes "keeps ob p"
  shows "ob (snd (project_event p e w)) = ob w"
proof (cases "getHandler (pj_instance p) (msg_type e)")
  case (Inr h)
  show ?thesis
  proof (cases "pj_event_locker p")
    case None
    with Inr assms show ?thesis by (simp add: project_event_def keeps_def)
  next
    case (Some el)
    have rest: "ob (snd ((if pj_records p e then el_mark_last el e else act_return ()) v)) = ob v" for v
      using assms Some by (simp add: keeps_def act_return_def)
    have "ob (snd (act_bind (pj_call p h e) (\<lambda>_. act_bind (el_mark el e)
        (\<lambda>_. if pj_records p e then el_mark_last el e else act_return ())) v)) = ob v" for v
      using assms Some by (intro keeps_bind [where ob = ob] rest) (auto simp: keeps_def)
    then have then_part: "ob (snd ((if \<not> obtained then act_return () else act_bind (pj_call p h e) (\<lambda>_. act_bind (el_mark el e)
        (\<lambda>_. if pj_records p e then el_mark_last el e else act_return ()))) v)) = ob v" for obtained v
      by (simp add: act_return_def)
    have try_part: "ob (snd (el_try el e v)) = ob v" for v using assms Some by (simp add: keeps_def)
    show ?thesis unfolding project_event_def Inr Some sum.case option.case by (rule keeps_bind [where ob = ob, OF try_part then_part])
  qed
qed (simp add: project_event_def)

lemma keeps_restore_each:
  assumes "keeps ob p"
  shows "ob (snd (restore_each p es l w)) = ob w"
proof (induction es arbitrary: l w)
  case (Cons e es)
  obtain r w1 where m: "project_event p e w = (r, w1)" by fastforce
  with keeps_project_event [OF assms, of e w] have "ob w1 = ob w" by simp
  with m Cons show ?case by (auto split: sum.splits)
qed simp

lemma keeps_restore_view:
  assumes "keeps ob p"
  shows "ob (snd (restore_view p reader w)) = ob w"
  unfolding restore_view_def
proof (rule keeps_bind [where ob = ob])
  show "ob (snd ((case pj_event_locker p of None \<Rightarrow> act_return None | Some el \<Rightarrow> el_get_last el) w)) = ob w" for w
    using assms by (simp add: keeps_def act_return_def split: option.split)
  have last: "ob (snd ((case (pj_event_locker p, l) of (Some el, Some e) \<Rightarrow> el_mark_last el e | _ \<Rightarrow> act_return ()) v)) = ob v" for l v
    using assms by (simp add: keeps_def act_return_def split: option.split)
  show "ob (snd (case res_bind (projection_handles p) (\<lambda>ts. reader ts le) of Inl err \<Rightarrow> (Inl err, v)
      | Inr es \<Rightarrow> act_bind (restore_each p es None) (\<lambda>l. case (pj_event_locker p, l) of
          (Some el, Some e) \<Rightarrow> el_mark_last el e | _ \<Rightarrow> act_return ()) v)) = ob v" for le v
  proof (cases "res_bind (projection_handles p) (\<lambda>ts. reader ts le)")
    case (Inr es)
    show ?thesis unfolding Inr sum.case by (rule keeps_bind [where ob = ob, OF keeps_restore_each [OF assms] last])
  qed (simp del: res_bind_Inl_iff)
qed

section \<open>A projection over an event locker\<close>

text \<open>The world is the locker's database and the view; a locker acts on its part.\<close>

definition on_fst :: "('s, 'a) act \<Rightarrow> ('s \<times> 'v, 'a) act" where
  "on_fst m w = (case m (fst w) of (r, s) \<Rightarrow> (r, s, snd w))"

definition locker_ops ::
  "(event \<Rightarrow> ('s, bool) act) \<Rightarrow> (event \<Rightarrow> ('s, unit) act) \<Rightarrow> (event \<Rightarrow> ('s, unit) act) \<Rightarrow> ('s \<Rightarrow> event option) \<Rightarrow>
   ('s \<times> 'v) event_locker_ops" where
  "locker_ops claim mark lst get = \<lparr>el_try = \<lambda>e. on_fst (claim e), el_mark = \<lambda>e. on_fst (mark e),
     el_mark_last = \<lambda>e. on_fst (lst e), el_get_last = \<lambda>w. (Inr (get (fst w)), w)\<rparr>"

text \<open>
  A projection whose handlers turn the view into \<open>f e v\<close>, at a time \<open>now\<close>; \<open>project_all\<close> is any
  number of instances of it that project events at their times.
\<close>

definition view_projection ::
  "chain \<Rightarrow> string list \<Rightarrow> (event \<Rightarrow> 'v \<Rightarrow> 'v) \<Rightarrow> ('s \<times> 'v) event_locker_ops \<Rightarrow> ('s \<times> 'v) projection" where
  "view_projection inst ts f el = \<lparr>pj_instance = inst, pj_handles = Some ts,
     pj_call = \<lambda>h e w. (Inr (), fst w, f e (snd w)), pj_view_locker = None, pj_event_locker = Some el,
     pj_records = default_records, pj_on_error = onRestoringError\<rparr>"

primrec project_all :: "(int \<Rightarrow> 'w projection) \<Rightarrow> (int \<times> event) list \<Rightarrow> 'w \<Rightarrow> 'w" where
  "project_all p [] w = w"
| "project_all p (te # tes) w = project_all p tes (snd (project_event (p (fst te)) (snd te) w))"

text \<open>The events of a list that are not done, each at its first place.\<close>

fun first_of :: "(event \<Rightarrow> event \<Rightarrow> bool) \<Rightarrow> (event \<Rightarrow> bool) \<Rightarrow> event list \<Rightarrow> event list" where
  "first_of same fin [] = []"
| "first_of same fin (e # es) =
     (if fin e then first_of same fin es else e # first_of same (\<lambda>g. fin g \<or> same e g) es)"

definition handled_by :: "chain \<Rightarrow> event \<Rightarrow> bool" where
  "handled_by inst e = (case getHandler inst (msg_type e) of Inl _ \<Rightarrow> False | Inr _ \<Rightarrow> True)"

context event_locker
begin

abbreviation proj :: "chain \<Rightarrow> string list \<Rightarrow> (event \<Rightarrow> 'v \<Rightarrow> 'v) \<Rightarrow> int \<Rightarrow> ('s \<times> 'v) projection" where
  "proj inst ts f now \<equiv> view_projection inst ts f (locker_ops (try_mark now) (mark now) mark_last get_last)"

lemmas proj_defs = project_event_def view_projection_def locker_ops_def on_fst_def default_records_def act_return_def

lemma project_processed:
  assumes "ok s" "handled_by inst e" "status s e = Processed"
  shows "project_event (proj inst ts f now) e (s, v) = (Inr (), s, v)"
  using assms try_processed [OF assms(1,3)]
  by (auto simp: proj_defs handled_by_def act_bind_def split: sum.splits)

lemma project_unseen:
  assumes "ok s" "0 < ttl" "handled_by inst e" "status s e = Unseen"
  shows "\<exists>s'. project_event (proj inst ts f now) e (s, v) = (Inr (), s', f e v) \<and> ok s' \<and> get_last s' = Some (saved e) \<and>
    (\<forall>g. status s' g = (if same e g then Processed else status s g))"
proof -
  obtain r s1 where m1: "try_mark now e s = (r, s1)" by fastforce
  have r: "r = Inr True" using try_free [OF assms(1,2), of e now] assms(4) m1 by simp
  note s1 = try_effect [OF assms(1) m1]
  from s1 r same_refl have st1: "status s1 e = Processing now" "ok s1" by auto
  obtain q s2 where m2: "mark now e s1 = (q, s2)" by fastforce
  have q: "q = Inr ()" using mark_held [OF st1(2,1), of now] m2 assms(2) by simp
  note s2 = mark_effect [OF st1(2) m2]
  from s2 obtain s3 where s3: "mark_last e s2 = (Inr (), s3)" "ok s3" "get_last s3 = Some (saved e)"
    "\<And>g. status s3 g = status s2 g" using last_effect [of s2 e] by blast
  have "project_event (proj inst ts f now) e (s, v) = (Inr (), s3, f e v)"
    using assms(3) m1 m2 s3(1) r q by (auto simp: proj_defs handled_by_def act_bind_def split: sum.splits)
  moreover have "status s3 g = (if same e g then Processed else status s g)" for g
    using s1 s2 s3(4) r q by auto
  ultimately show ?thesis using s3 by blast
qed

text \<open>A view that failed on an event keeps the claim: until it runs out, the event is passed over in silence.\<close>

lemma project_held:
  assumes "ok s" "handled_by inst e" "status s e = Processing t" "now < t + ttl"
  shows "project_event (proj inst ts f now) e (s, v) = (Inr (), s, v)"
  using assms try_held [OF assms(1,3,4)]
  by (auto simp: proj_defs handled_by_def act_bind_def split: sum.splits)

definition settled :: "'s \<Rightarrow> event list \<Rightarrow> bool" where
  "settled s es \<longleftrightarrow> (\<forall>e \<in> set es. status s e = Unseen \<or> status s e = Processed)"

lemma first_of_cong:
  "(\<And>g. g \<in> set es \<Longrightarrow> fin g = fin' g) \<Longrightarrow> first_of sm fin es = first_of sm fin' es"
proof (induction es arbitrary: fin fin')
  case (Cons e es)
  have "first_of sm (\<lambda>g. fin g \<or> sm e g) es = first_of sm (\<lambda>g. fin' g \<or> sm e g) es"
    by (rule Cons.IH) (simp add: Cons.prems)
  with Cons.IH [of fin fin'] Cons.prems show ?case by simp
qed simp

lemma project_once:
  "ok s \<Longrightarrow> 0 < ttl \<Longrightarrow> settled s (map snd tes) \<Longrightarrow> \<forall>te \<in> set tes. handled_by inst (snd te) \<Longrightarrow>
   snd (project_all (proj inst ts f) tes (s, v)) = fold f (first_of same (\<lambda>e. status s e = Processed) (map snd tes)) v"
proof (induction tes arbitrary: s v)
  case (Cons te tes)
  obtain t e where te: "te = (t, e)" by fastforce
  show ?case
  proof (cases "status s e = Processed")
    case True
    then have "project_event (proj inst ts f t) e (s, v) = (Inr (), s, v)"
      using Cons.prems te by (intro project_processed) auto
    with Cons te True show ?thesis by (simp add: settled_def)
  next
    case False
    with Cons.prems te have un: "status s e = Unseen" by (simp add: settled_def)
    obtain s' where s': "project_event (proj inst ts f t) e (s, v) = (Inr (), s', f e v)" "ok s'"
      and st: "\<And>g. status s' g = (if same e g then Processed else status s g)"
      using project_unseen [OF Cons.prems(1,2) _ un, of inst ts f t v] Cons.prems(4) te by auto
    have "settled s' (map snd tes)" using Cons.prems(3) st by (auto simp: settled_def)
    have eq: "first_of same (\<lambda>g. status s' g = Processed) (map snd tes)
        = first_of same (\<lambda>g. status s g = Processed \<or> same e g) (map snd tes)"
      by (rule first_of_cong) (auto simp: st)
    have "\<forall>te \<in> set tes. handled_by inst (snd te)" using Cons.prems(4) by simp
    from Cons.IH [OF s'(2) Cons.prems(2) \<open>settled s' (map snd tes)\<close> this, of "f e v"] te s'(1) False show ?thesis
      by (simp add: eq)
  qed
qed simp

text \<open>Restoring: all events are replayed, the last of them becomes the checkpoint.\<close>

lemma restore_each_unseen:
  "ok s \<Longrightarrow> 0 < ttl \<Longrightarrow> \<forall>e \<in> set es. handled_by inst e \<and> status s e = Unseen \<Longrightarrow> sorted_wrt (\<lambda>e g. \<not> same e g) es \<Longrightarrow>
   \<exists>s'. restore_each (proj inst ts f now) es l (s, v) = (Inr (if es = [] then l else Some (last es)), s', fold f es v)
     \<and> ok s' \<and> (es \<noteq> [] \<longrightarrow> get_last s' = Some (saved (last es))) \<and> (es = [] \<longrightarrow> s' = s)
     \<and> (\<forall>g. status s' g = (if \<exists>e \<in> set es. same e g then Processed else status s g))"
proof (induction es arbitrary: s v l)
  case (Cons e es)
  obtain s1 where s1: "project_event (proj inst ts f now) e (s, v) = (Inr (), s1, f e v)" "ok s1"
      "get_last s1 = Some (saved e)"
    and st: "\<And>g. status s1 g = (if same e g then Processed else status s g)"
    using project_unseen [OF Cons.prems(1,2), of inst e ts f now v] Cons.prems(3) by auto
  have "\<forall>g \<in> set es. handled_by inst g \<and> status s1 g = Unseen" using Cons.prems(3,4) st by auto
  moreover have "sorted_wrt (\<lambda>e g. \<not> same e g) es" using Cons.prems(4) by simp
  ultimately obtain s2 where
    s2: "restore_each (proj inst ts f now) es (Some e) (s1, f e v)
       = (Inr (if es = [] then Some e else Some (last es)), s2, fold f es (f e v))"
      "ok s2" "es \<noteq> [] \<longrightarrow> get_last s2 = Some (saved (last es))" "es = [] \<longrightarrow> s2 = s1"
      "\<And>g. status s2 g = (if \<exists>e \<in> set es. same e g then Processed else status s1 g)"
    using Cons.IH [OF s1(2) Cons.prems(2), of "Some e" "f e v"] by blast
  from s1(1) s2(1) have "restore_each (proj inst ts f now) (e # es) l (s, v)
      = (Inr (Some (last (e # es))), s2, fold f (e # es) v)" by simp
  moreover have "get_last s2 = Some (saved (last (e # es)))" using s1(3) s2(3,4) by (cases "es = []") auto
  moreover have "status s2 g = (if \<exists>x \<in> set (e # es). same x g then Processed else status s g)" for g
    using s2(5) st by simp
  ultimately show ?case using s2(2) by (intro exI [of _ s2]) simp
qed simp

lemma restore_replays:
  assumes "ok s" "0 < ttl" "reader ts (get_last s) = Inr es"
    and "\<forall>e \<in> set es. handled_by inst e \<and> status s e = Unseen" "sorted_wrt (\<lambda>e g. \<not> same e g) es"
  shows "\<exists>s'. restore_view (proj inst ts f now) reader (s, v) = (Inr (), s', fold f es v) \<and> ok s' \<and>
    get_last s' = (if es = [] then get_last s else Some (saved (last es))) \<and> (\<forall>e \<in> set es. status s' e = Processed)"
proof -
  obtain s1 where s1: "restore_each (proj inst ts f now) es None (s, v)
        = (Inr (if es = [] then None else Some (last es)), s1, fold f es v)" "ok s1"
      "es \<noteq> [] \<longrightarrow> get_last s1 = Some (saved (last es))" "es = [] \<longrightarrow> s1 = s"
      "\<And>g. status s1 g = (if \<exists>e \<in> set es. same e g then Processed else status s g)"
    using restore_each_unseen [OF assms(1,2,4,5), where l = None and ts = ts and f = f and now = now and v = v] by blast
  have view: "restore_view (proj inst ts f now) reader (s, v) =
      (case if es = [] then None else Some (last es) of
         None \<Rightarrow> (Inr (), s1, fold f es v) | Some e \<Rightarrow> on_fst (mark_last e) (s1, fold f es v))"
    using s1(1) assms(3)
    by (simp add: restore_view_def projection_handles_def act_bind_def proj_defs split: option.splits)
  show ?thesis
  proof (cases "es = []")
    case True
    with view s1 show ?thesis by auto
  next
    case False
    obtain s2 where s2: "mark_last (last es) s1 = (Inr (), s2)" "ok s2" "get_last s2 = Some (saved (last es))"
      "\<And>g. status s2 g = status s1 g" using last_effect [OF s1(2)] by blast
    have "\<forall>e \<in> set es. status s2 e = Processed" using s2(4) s1(5) same_refl by auto
    with view False s2 show ?thesis by (simp add: on_fst_def)
  qed
qed

text \<open>A handler that fails: the error is passed on, and the claim stays.\<close>

lemma failed_claim_stays:
  assumes "ok s" "0 < ttl" "status s e = Unseen" "getHandler (pj_instance p) (msg_type e) = Inr h"
    and fails: "\<And>s1. pj_call p h e (s1, v) = (Inl err, s1, v')"
    and el: "pj_event_locker p = Some (locker_ops (try_mark t) (mark t) mark_last get_last)"
  shows "\<exists>s'. project_event p e (s, v) = (Inl err, s', v') \<and> ok s' \<and> status s' e = Processing t"
proof -
  obtain r s1 where m: "try_mark t e s = (r, s1)" by fastforce
  have "r = Inr True" using try_free [OF assms(1,2), of e t] assms(3) m by simp
  with try_effect [OF assms(1) m] same_refl have "ok s1" "status s1 e = Processing t" by auto
  with \<open>r = Inr True\<close> m fails el assms(4) show ?thesis
    by (simp add: project_event_def locker_ops_def on_fst_def act_bind_def)
qed

end

section \<open>The in-memory view and its lock\<close>

definition mem_lock_ops :: "'a mem_lock_scheme view_locker_ops" where
  "mem_lock_ops = \<lparr>vw_ready = mem_lock_ready, vw_lock = \<lambda>l. map_option (\<lambda>(b, l'). (Inr b, l')) (mem_lock_lock l),
     vw_unlock = \<lambda>l. (Inr (), mem_lock_unlock l)\<rparr>"

text \<open>What the handlers of an in-memory projection do not touch: the lock.\<close>

definition keeps_marker :: "'a mem_lock_scheme projection \<Rightarrow> bool" where
  "keeps_marker p \<longleftrightarrow> (\<forall>h e w. lockMarker (snd (pj_call p h e w)) = lockMarker w)"

lemma keeps_marker_keeps: "pj_event_locker p = None \<Longrightarrow> keeps_marker p \<Longrightarrow> keeps lockMarker p"
  by (simp add: keeps_def keeps_marker_def)

lemmas project_event_marker = keeps_project_event [OF keeps_marker_keeps]
lemmas restore_each_marker = keeps_restore_each [OF keeps_marker_keeps]
lemmas restore_view_marker = keeps_restore_view [OF keeps_marker_keeps]

section \<open>Properties\<close>

text \<open>A small projection: it has a handler for \<open>incremented\<close> only.\<close>

definition demo_chain :: chain where
  "demo_chain = [[], [(''incremented'', DataProp (JFun ''incremented'' []))]]"

lemma demo_getHandler [simp]: "getHandler demo_chain ''incremented'' = Inr (JFun ''incremented'' [])"
  by (simp add: demo_chain_def getHandler_def getOptionalHandler_def method_of_def assertString_def assertFunction_def)

lemma demo_handled [simp]: "msg_type e = ''incremented'' \<Longrightarrow> handled_by demo_chain e"
  by (simp add: handled_by_def)





text \<open>
  When a handler fails under a Redis event locker, the error reaches the caller, and until
  the claim has run out every further attempt to project the event ends without an error and
  without calling the handler.
\<close>

theorem redis_failed_event_passed_over:
  assumes "redis_ok c digest db" "0 < lock_ttl c" "redis_status c digest db e = Unseen"
    and "getHandler (pj_instance p) (msg_type e) = Inr h"
    and "\<And>db1. pj_call p h e (db1, v) = (Inl err, db1, v')"
    and "\<And>now. locker now = locker_ops (redis_tryMarkAsProjecting c digest now) (redis_markAsProjected c digest now)
        (redis_markAsLastEvent c dt) (redis_getLastEvent c)"
    and "now < t + lock_ttl c"
  shows "\<exists>db'. project_event (p\<lparr>pj_event_locker := Some (locker t)\<rparr>) e (db, v) = (Inl err, db', v')
     \<and> project_event (p\<lparr>pj_event_locker := Some (locker now)\<rparr>) e (db', v') = (Inr (), db', v')"
proof -
  let ?p = "p\<lparr>pj_event_locker := Some (locker t)\<rparr>"
  have "\<exists>db'. project_event ?p e (db, v) = (Inl err, db', v') \<and> redis_ok c digest db' \<and> redis_status c digest db' e = Processing t"
    by (rule redis_lk.failed_claim_stays [OF assms(1-3), where h = h and dt = dt]) (simp_all add: assms(4-6))
  then obtain db' where db': "project_event ?p e (db, v) = (Inl err, db', v')" "redis_ok c digest db'"
    "redis_status c digest db' e = Processing t" by blast
  from redis_lk.try_held [OF db'(2,3) assms(7)] assms(4,6)
  have "project_event (p\<lparr>pj_event_locker := Some (locker now)\<rparr>) e (db', v') = (Inr (), db', v')"
    by (simp add: project_event_def locker_ops_def on_fst_def act_bind_def act_return_def)
  with db'(1) show ?thesis by blast
qed

lemma redis_failed_event_passed_over_witness:
  "\<exists>db'. project_event \<lparr>pj_instance = demo_chain, pj_handles = None, pj_call = \<lambda>h e w. (Inl (GenericError ''x''), w),
        pj_view_locker = None, pj_event_locker = Some (locker_ops (redis_tryMarkAsProjecting demo_cfg (\<lambda>_. ''d'') 0)
          (redis_markAsProjected demo_cfg (\<lambda>_. ''d'') 0) (redis_markAsLastEvent demo_cfg (\<lambda>_. [])) (redis_getLastEvent demo_cfg)),
        pj_records = default_records, pj_on_error = onRestoringError\<rparr> (demo_event ''incremented'' ''a'' 0 ''e1'') ([], ())
      = (Inl (GenericError ''x''), db', ())
    \<and> project_event \<lparr>pj_instance = demo_chain, pj_handles = None, pj_call = \<lambda>h e w. (Inl (GenericError ''x''), w),
        pj_view_locker = None, pj_event_locker = Some (locker_ops (redis_tryMarkAsProjecting demo_cfg (\<lambda>_. ''d'') 3)
          (redis_markAsProjected demo_cfg (\<lambda>_. ''d'') 3) (redis_markAsLastEvent demo_cfg (\<lambda>_. [])) (redis_getLastEvent demo_cfg)),
        pj_records = default_records, pj_on_error = onRestoringError\<rparr> (demo_event ''incremented'' ''a'' 0 ''e1'') (db', ())
      = (Inr (), db', ())"
proof -
  let ?p = "\<lparr>pj_instance = demo_chain, pj_handles = None, pj_call = \<lambda>h e w. (Inl (GenericError ''x''), w),
        pj_view_locker = None, pj_event_locker = None,
        pj_records = default_records, pj_on_error = onRestoringError\<rparr> :: (redis_db \<times> unit) projection"
  let ?e = "demo_event ''incremented'' ''a'' 0 ''e1''"
  have "redis_ok demo_cfg (\<lambda>_. ''d'') []" "redis_status demo_cfg (\<lambda>_. ''d'') [] ?e = Unseen" "0 < lock_ttl demo_cfg"
    by (simp_all add: redis_ok_def redis_status_def demo_cfg_def)
  moreover have "getHandler (pj_instance ?p) (msg_type ?e) = Inr (JFun ''incremented'' [])" by simp
  ultimately show ?thesis
    using redis_failed_event_passed_over [where p = ?p and e = ?e and c = demo_cfg and digest = "\<lambda>_. ''d''" and db = "[]"
        and v = "()" and v' = "()" and err = "GenericError ''x''" and dt = "\<lambda>_. []" and t = 0 and now = 3
        and locker = "\<lambda>now. locker_ops (redis_tryMarkAsProjecting demo_cfg (\<lambda>_. ''d'') now)
          (redis_markAsProjected demo_cfg (\<lambda>_. ''d'') now) (redis_markAsLastEvent demo_cfg (\<lambda>_. [])) (redis_getLastEvent demo_cfg)"]
    by (simp add: demo_cfg_def)
qed

text \<open>
  Restoring an in-memory view waits while the view is locked. Otherwise it ends either well,
  with the view unlocked, or with an error that leaves the view locked, so that projecting
  waits; it never returns normally from a failed restore.
\<close>

theorem restore_failure_keeps_lock:
  assumes "pj_event_locker p = None" "pj_view_locker p = Some mem_lock_ops" "keeps_marker p"
  shows "case restore p reader w of
      None \<Rightarrow> lockMarker w
    | Some (Inr _, w') \<Rightarrow> \<not> lockMarker w \<and> \<not> lockMarker w' \<and> project p e w' = Some (project_event p e w')
    | Some (Inl _, w') \<Rightarrow> \<not> lockMarker w \<and> lockMarker w' \<and> project p e w' = None"
proof (cases "lockMarker w")
  case True
  with assms(2) show ?thesis by (simp add: restore_def mem_lock_ops_def mem_lock_lock_def)
next
  case False
  obtain r w2 where m: "restore_view p reader (w\<lparr>lockMarker := True\<rparr>) = (r, w2)" by fastforce
  have "lockMarker w2" using restore_view_marker [OF assms(1,3), of reader "w\<lparr>lockMarker := True\<rparr>"] m by simp
  with False m assms(2) show ?thesis
    by (cases r) (simp_all add: restore_def project_def mem_lock_ops_def mem_lock_lock_def mem_lock_unlock_def mem_lock_ready_def)
qed

lemma restore_failure_keeps_lock_witness:
  "case restore \<lparr>pj_instance = demo_chain, pj_handles = Some [''incremented''], pj_call = \<lambda>h e w. (Inl (GenericError ''x''), w),
        pj_view_locker = Some mem_lock_ops, pj_event_locker = None, pj_records = default_records, pj_on_error = onRestoringError\<rparr>
      (\<lambda>_ _. Inr [demo_event ''incremented'' ''a'' 0 ''e1'']) \<lparr>lockMarker = False\<rparr> of
      None \<Rightarrow> False
    | Some (Inr _, w') \<Rightarrow> \<not> lockMarker w'
    | Some (Inl _, w') \<Rightarrow> lockMarker w'"
proof -
  let ?p = "\<lparr>pj_instance = demo_chain, pj_handles = Some [''incremented''], pj_call = \<lambda>h e w. (Inl (GenericError ''x''), w),
        pj_view_locker = Some mem_lock_ops, pj_event_locker = None, pj_records = default_records, pj_on_error = onRestoringError\<rparr>"
  have "keeps_marker ?p" by (simp add: keeps_marker_def)
  from restore_failure_keeps_lock [OF _ _ this, where w = "\<lparr>lockMarker = False\<rparr>"
      and reader = "\<lambda>_ _. Inr [demo_event ''incremented'' ''a'' 0 ''e1'']" and e = "demo_event ''incremented'' ''a'' 0 ''e1''"]
  show ?thesis
    by (cases "restore ?p (\<lambda>_ _. Inr [demo_event ''incremented'' ''a'' 0 ''e1'']) \<lparr>lockMarker = False\<rparr>")
      (simp_all split: prod.splits sum.splits)
qed

end
