(* ===== verification/UserDomain.thy ===== *)
theory UserDomain
  imports StoredEvents Projection
begin

text \<open>
  The domain of \<open>examples/user-domain-ts\<close>: \<open>UserAggregate.ts\<close> (write model), \<open>UsersProjection.ts\<close> (read
  model), the payloads of \<open>messages.ts\<close> and \<open>utils.ts\<close>. Here the parameters that stand for user code
  elsewhere are code of the repository. The digest is a parameter; methods the classes inherit are
  not in the chains, since no message type of the domain names one. Objects that different commands
  bring are different references.
\<close>

section \<open>Values\<close>

text \<open>\<open>v.k\<close> throws on \<open>undefined\<close> and \<open>null\<close>.\<close>

definition read_property :: "jsval \<Rightarrow> string \<Rightarrow> jsval result" where
  "read_property v k = (if v = JUndef \<or> v = JNull then Inl (TypeError (''Cannot read properties (reading '' @ k @ '')''))
     else Inr (js_get v k))"

fun primitive :: "jsval \<Rightarrow> bool" where
  "primitive (JArr _) = False"
| "primitive (JObj _) = False"
| "primitive (JDate _) = False"
| "primitive (JFun _ _) = False"
| "primitive _ = True"

definition strict_equal :: "jsval \<Rightarrow> jsval \<Rightarrow> bool" where
  "strict_equal v w \<longleftrightarrow> primitive v \<and> v \<noteq> JNaN \<and> v = w"

text \<open>A primitive value in a template literal.\<close>

fun template_text :: "jsval \<Rightarrow> string" where
  "template_text JUndef = ''undefined''"
| "template_text JNull = ''null''"
| "template_text (JBool b) = (if b then ''true'' else ''false'')"
| "template_text (JNum n) = show_int n"
| "template_text JNaN = ''NaN''"
| "template_text (JFrac s) = s"
| "template_text (JStr s) = s"
| "template_text _ = ''[object]''"

text \<open>\<open>crypto.createHash('md5').update(v).digest('hex')\<close>: \<open>update\<close> throws on what is no string.\<close>

fun md5 :: "(string \<Rightarrow> string) \<Rightarrow> jsval \<Rightarrow> jsval result" where
  "md5 dg (JStr s) = Inr (JStr (dg s))"
| "md5 dg _ = Inl (TypeError ''The data argument must be of type string'')"

section \<open>UserAggregate.ts\<close>

text \<open>\<open>UserState\<close>: its fields, and its methods, which act on it.\<close>

definition user_state :: props where
  "user_state = [(''username'', JUndef), (''passwordHash'', JUndef)]"

definition assign_from :: "event \<Rightarrow> string \<Rightarrow> (props, unit) act" where
  "assign_from e k st = (case read_property (payload e) k of
       Inl err \<Rightarrow> (Inl err, st) | Inr v \<Rightarrow> (Inr (), AList.update k v st))"

definition state_userCreated :: "event \<Rightarrow> (props, unit) act" where
  "state_userCreated e = act_bind (assign_from e ''username'') (\<lambda>_. assign_from e ''passwordHash'')"

definition state_passwordChanged :: "event \<Rightarrow> (props, unit) act" where
  "state_passwordChanged e = assign_from e ''passwordHash''"

definition state_userRenamed :: "event \<Rightarrow> (props, unit) act" where
  "state_userRenamed e = assign_from e ''username''"

definition methods :: "string list \<Rightarrow> layer" where
  "methods ks = map (\<lambda>k. (k, DataProp (JFun k []))) ks"

fun method_name :: "jsval \<Rightarrow> string" where
  "method_name (JFun f _) = f"
| "method_name _ = []"

definition user_state_method :: "jsval \<Rightarrow> event \<Rightarrow> (props, unit) act" where
  "user_state_method h = (if method_name h = ''userCreated'' then state_userCreated
     else if method_name h = ''passwordChanged'' then state_passwordChanged else state_userRenamed)"

text \<open>The command handlers.\<close>

definition own_state :: "aggregate \<Rightarrow> string \<Rightarrow> jsval" where
  "own_state a k = (case agg_state a of None \<Rightarrow> JUndef | Some st \<Rightarrow> assoc_get st k)"

definition digest_of :: "(string \<Rightarrow> string) \<Rightarrow> jsval \<Rightarrow> string \<Rightarrow> jsval result" where
  "digest_of dg p k = res_bind (read_property p k) (md5 dg)"

definition createUser :: "(string \<Rightarrow> string) \<Rightarrow> jsval \<Rightarrow> script" where
  "createUser dg p = (case read_property p ''username'' of Inl err \<Rightarrow> Fail err
     | Inr u \<Rightarrow> (case digest_of dg p ''password'' of Inl err \<Rightarrow> Fail err
       | Inr h \<Rightarrow> emit_only ''userCreated'' (JObj [(''username'', u), (''passwordHash'', h)])))"

definition changePassword :: "(string \<Rightarrow> string) \<Rightarrow> jsval \<Rightarrow> aggregate \<Rightarrow> script" where
  "changePassword dg p a = (case digest_of dg p ''oldPassword'' of Inl err \<Rightarrow> Fail err
     | Inr old \<Rightarrow> if \<not> strict_equal old (own_state a ''passwordHash'') then Fail (GenericError ''Invalid password'')
         else (case digest_of dg p ''newPassword'' of Inl err \<Rightarrow> Fail err
           | Inr h \<Rightarrow> emit_only ''passwordChanged'' (JObj [(''passwordHash'', h)])))"

definition renameUser :: "jsval \<Rightarrow> aggregate \<Rightarrow> script" where
  "renameUser p a = (case read_property p ''username'' of Inl err \<Rightarrow> Fail err
     | Inr u \<Rightarrow> if strict_equal u (own_state a ''username'')
         then Fail (GenericError (''Username is already '' @ [CHR 0x27] @ template_text u @ [CHR 0x27]))
         else emit_only ''userRenamed'' (JObj [(''username'', u)]))"

definition user_commands :: "string list" where
  "user_commands = [''createUser'', ''changePassword'', ''renameUser'']"

definition UserAggregate :: "(string \<Rightarrow> string) \<Rightarrow> aggregate_class" where
  "UserAggregate dg = \<lparr>state_proto = [methods [''userCreated'', ''passwordChanged'', ''userRenamed'']],
     run_state_fn = user_state_method,
     agg_chain = [[], methods user_commands], agg_handles = JArr (map JStr user_commands),
     run_command_fn = (\<lambda>h p c cmd a.
       if method_name h = ''createUser'' then createUser dg p
       else if method_name h = ''changePassword'' then changePassword dg p a else renameUser p a),
     shouldTakeSnapshot = (\<lambda>_. False)\<rparr>"

text \<open>\<open>handles\<close> is not overridden: it lists the methods of the class.\<close>

lemma user_handles: "getMessageHandlerNames (tl (agg_chain (UserAggregate dg))) = Inr user_commands"
  by (simp add: UserAggregate_def getMessageHandlerNames_def methods_def user_commands_def)

text \<open>Without a retry option a conflict is retried five times.\<close>

definition default_retry :: resolver where
  "default_retry err evs n = (if is_concurrency_error err \<and> n < DEFAULT_MAX_RETRY_ATTEMPTS then Again else Stop)"

lemma default_retry_normalized: "normalizeRetryResolver fa (RetryVal JUndef) = Inr default_retry"
  by (simp add: normalizeRetryResolver_def default_retry_def fun_eq_iff isObject_def)

definition user_handler :: "(string \<Rightarrow> string) \<Rightarrow> handler_cfg" where
  "user_handler dg = \<lparr>h_class = UserAggregate dg, h_state0 = Some user_state, h_restoresFrom = None,
     h_shouldRetry = default_retry\<rparr>"

section \<open>UsersProjection.ts\<close>

text \<open>The view is a \<open>Map\<close>, which is no locker.\<close>

type_synonym users_view = "(ident option, jsval) jsmap"

definition users_set :: "event \<Rightarrow> (users_view, unit) act" where
  "users_set e v = (case read_property (payload e) ''username'' of
       Inl err \<Rightarrow> (Inl err, v)
     | Inr u \<Rightarrow> (Inr (), AList.update (aggregateId e) (JObj [(''username'', u)]) v))"

definition UsersProjection :: "users_view projection" where
  "UsersProjection = \<lparr>pj_instance = [[], methods [''userCreated'', ''userRenamed'']], pj_handles = None,
     pj_call = (\<lambda>h. users_set), pj_view_locker = None, pj_event_locker = None,
     pj_records = default_records, pj_on_error = onRestoringError\<rparr>"

lemma UsersProjection_constructed:
  "new_projection [[], methods [''userCreated'', ''userRenamed'']] None (\<lambda>h. users_set) None None None None = Inr UsersProjection"
  by (simp add: new_projection_def UsersProjection_def projection_handles_def getMessageHandlerNames_def methods_def
      resolve_locker_def validateHandlers_def assertOptionalArray_def getHandler_def getOptionalHandler_def
      method_of_def assertString_def assertFunction_def Let_def)

section \<open>What the log of the domain holds\<close>

fun user_payload :: "string \<Rightarrow> jsval \<Rightarrow> bool" where
  "user_payload t (JObj ps) \<longleftrightarrow>
     t = ''userCreated'' \<and> map fst ps = [''username'', ''passwordHash''] \<and> is_string (assoc_get ps ''passwordHash'')
     \<or> t = ''passwordChanged'' \<and> map fst ps = [''passwordHash''] \<and> is_string (assoc_get ps ''passwordHash'')
     \<or> t = ''userRenamed'' \<and> map fst ps = [''username'']"
| "user_payload t _ \<longleftrightarrow> False"

definition user_event :: "event \<Rightarrow> bool" where
  "user_event e \<longleftrightarrow> user_payload (msg_type e) (payload e) \<and> aggregateId e \<noteq> None"

definition users_ok :: "mem_world \<Rightarrow> bool" where
  "users_ok w \<longleftrightarrow> list_all user_event (events (w_storage w)) \<and> w_snaps w = []"

lemma user_payload_type: "user_payload t p \<Longrightarrow> t = ''userCreated'' \<or> t = ''passwordChanged'' \<or> t = ''userRenamed''"
  by (cases p) auto

lemma user_no_snapshot: "user_event e \<Longrightarrow> \<not> isSnapshotEvent e"
  using user_payload_type by (fastforce simp: user_event_def isSnapshotEvent_def SNAPSHOT_EVENT_TYPE_def)

lemma md5_string: "md5 dg v = Inr h \<Longrightarrow> is_string h"
  by (cases v) auto

lemma user_emits_one: "emits_one (UserAggregate dg) (\<lambda>_. user_payload)"
proof -
  have "digest_of dg p k = Inr h \<Longrightarrow> is_string h" for p k h
    using md5_string by (auto simp: digest_of_def)
  then show ?thesis
    by (auto simp: emits_one_def UserAggregate_def createUser_def changePassword_def renameUser_def assoc_get_def
        split: sum.split)
qed

interpretation users: dispatched_events mem_ops "user_handler dg" cmds users_ok "list_all user_event" for dg cmds
proof
  show "list_all user_event evs" if "handle (h_class (user_handler dg)) cmd a = (Inr evs, a')" for cmd a evs a'
  proof -
    from that have "handle (UserAggregate dg) cmd a = (Inr evs, a')" by (simp add: user_handler_def)
    from handle_one [OF user_emits_one this] show ?thesis by (auto simp: user_event_def)
  qed
  have keep: "users_ok (snd (es_dispatch mem_ops evs ig w))" if w: "users_ok w" and evs: "list_all user_event evs" for w evs ig
  proof -
    have "\<forall>e \<in> set evs. \<not> isSnapshotEvent e" using evs user_no_snapshot by (auto simp: list_all_iff)
    from dispatch_plain [OF this, of ig w] w evs show ?thesis by (auto simp: mem_ops_def users_ok_def)
  qed
  show "users_ok (snd (es_dispatch mem_ops evs False w))" if "users_ok w" "list_all user_event evs" for w evs
    by (rule keep [OF that])
  show "users_ok (snd (es_dispatch mem_ops evs True w))"
    if "users_ok w" "list_all user_event evs" "h_shouldRetry (user_handler dg) err evs n = Ignore" for w evs err n
    by (rule keep [OF that(1,2)])
  show "users_ok (snd (es_getNewId mem_ops w))" if "users_ok w" for w
    using that by (simp add: mem_ops_def mem_new_id_def on_storage_def users_ok_def getNewId_def split: prod.split)
qed

section \<open>Restoring both models from one log\<close>

text \<open>What an event makes of the state, and of the view.\<close>

definition apply_user :: "event \<Rightarrow> props \<Rightarrow> props" where
  "apply_user e st = (let p = js_get (payload e) in
     if msg_type e = ''userCreated'' then AList.update ''passwordHash'' (p ''passwordHash'') (AList.update ''username'' (p ''username'') st)
     else if msg_type e = ''passwordChanged'' then AList.update ''passwordHash'' (p ''passwordHash'') st
     else AList.update ''username'' (p ''username'') st)"

definition user_fields :: "props \<Rightarrow> bool" where
  "user_fields st \<longleftrightarrow> map fst st = [''username'', ''passwordHash'']"

lemma apply_user_fields: "user_fields st \<Longrightarrow> user_fields (apply_user e st)"
  by (auto simp: user_fields_def apply_user_def Let_def rev_image_eqI [of "(_, _)"] dest: arg_cong [where f = set])

lemma user_payload_object: "user_payload t p \<Longrightarrow> p \<noteq> JUndef \<and> p \<noteq> JNull"
  by (cases p) auto

lemma user_state_handled:
  assumes "user_event e" "user_fields st"
  shows "call_state_handler (UserAggregate dg) e st = (Inr (), apply_user e st)"
proof -
  have p: "payload e \<noteq> JUndef" "payload e \<noteq> JNull" and t: "msg_type e = ''userCreated'' \<or> msg_type e = ''passwordChanged'' \<or> msg_type e = ''userRenamed''"
    using assms(1) user_payload_object user_payload_type by (auto simp: user_event_def)
  obtain u h where "st = [(''username'', u), (''passwordHash'', h)]"
    using assms(2) by (auto simp: user_fields_def map_eq_Cons_conv)
  with p t show ?thesis
    by (auto simp: call_state_handler_def state_handler_def state_chain_def UserAggregate_def methods_def
        getOptionalHandler_def method_of_def assertString_def user_state_method_def state_userCreated_def
        state_passwordChanged_def state_userRenamed_def assign_from_def read_property_def apply_user_def act_bind_def Let_def)
qed

lemma user_mutate:
  assumes "user_event e" "user_fields st" "agg_state a = Some st"
  shows "\<exists>a'. mutate (UserAggregate dg) e a = (Inr (), a') \<and> agg_state a' = Some (apply_user e st)"
proof -
  have "msg_type e \<noteq> SNAPSHOT_EVENT_TYPE"
    using assms(1) user_payload_type by (fastforce simp: user_event_def SNAPSHOT_EVENT_TYPE_def)
  then show ?thesis using user_state_handled [OF assms(1,2), of dg] assms(3)
    by (simp add: mutate_def apply_event_def Let_def split: option.split)
qed

lemma user_mutate_all:
  "list_all user_event es \<Longrightarrow> user_fields st \<Longrightarrow> agg_state a = Some st \<Longrightarrow>
    \<exists>a'. mutate_all (UserAggregate dg) es a = (Inr (), a') \<and> agg_state a' = Some (fold apply_user es st) \<and> user_fields (fold apply_user es st)"
proof (induction es arbitrary: a st)
  case (Cons e es)
  from Cons.prems have e: "user_event e" and es: "list_all user_event es" by simp_all
  from user_mutate [OF e Cons.prems(2,3), of dg] obtain a1 where
    a1: "mutate (UserAggregate dg) e a = (Inr (), a1)" "agg_state a1 = Some (apply_user e st)" by blast
  from Cons.IH [OF es apply_user_fields [OF Cons.prems(2)] a1(2)] a1(1) show ?case by simp
qed (simp add: act_return_def)

lemma user_restored:
  assumes "users_ok w" "id_truthy i"
  shows "\<exists>a. restored mem_ops (user_handler dg) i w = Inr a
    \<and> agg_state a = Some (fold apply_user (own_events i (events (w_storage w))) user_state)"
proof -
  have own: "list_all user_event (own_events i (events (w_storage w)))"
    using assms(1) by (auto simp: users_ok_def own_events_def list_all_iff)
  have "validateHandlers (agg_chain (UserAggregate dg)) (agg_handles (UserAggregate dg)) ''handles'' = Inr ()"
    by (simp add: UserAggregate_def methods_def user_commands_def validateHandlers_def assertOptionalArray_def getHandler_def
      getOptionalHandler_def method_of_def assertString_def assertFunction_def)
  then have new: "new_aggregate (UserAggregate dg) (Some i) (Some user_state) [] = Inr (blank_aggregate i (Some user_state))"
    using assms(2) by (simp add: new_aggregate_def assert_id_defined_def act_return_def)
  have q: "restore_query (user_handler dg) = \<lparr>q_snapshot = None, q_eventTypes = None, tail_last = False\<rparr>"
    by (simp add: restore_query_def user_handler_def)
  have "user_fields user_state" by (simp add: user_fields_def user_state_def)
  from user_mutate_all [OF own this, of "blank_aggregate i (Some user_state)" dg] obtain a where
    a: "mutate_all (UserAggregate dg) (own_events i (events (w_storage w))) (blank_aggregate i (Some user_state)) = (Inr (), a)"
    "agg_state a = Some (fold apply_user (own_events i (events (w_storage w))) user_state)" by (auto simp: blank_aggregate_def)
  have "es_getAggregateEvents mem_ops i (restore_query (user_handler dg)) w = Inr (own_events i (events (w_storage w)))"
    by (rule plain_stream) (use assms in \<open>simp_all add: q users_ok_def\<close>)
  with new a show ?thesis using assms(2) by (simp add: restored_def user_handler_def assert_id_defined_def)
qed

definition apply_users :: "event \<Rightarrow> users_view \<Rightarrow> users_view" where
  "apply_users e v = (if msg_type e \<in> {''userCreated'', ''userRenamed''}
     then AList.update (aggregateId e) (JObj [(''username'', js_get (payload e) ''username'')]) v else v)"

lemma users_projected:
  assumes "user_event e" "msg_type e \<in> {''userCreated'', ''userRenamed''}"
  shows "project_event UsersProjection e v = (Inr (), apply_users e v)"
proof -
  have "payload e \<noteq> JUndef" "payload e \<noteq> JNull" using assms(1) user_payload_object by (auto simp: user_event_def)
  moreover have "\<exists>h. getHandler (pj_instance UsersProjection) (msg_type e) = Inr h" using assms(2)
    by (auto simp: UsersProjection_def methods_def getHandler_def getOptionalHandler_def method_of_def assertString_def assertFunction_def)
  ultimately show ?thesis using assms(2)
    by (auto simp: project_event_def UsersProjection_def users_set_def read_property_def apply_users_def)
qed

lemma users_restored_each:
  "list_all user_event es \<Longrightarrow> \<forall>e \<in> set es. msg_type e \<in> {''userCreated'', ''userRenamed''} \<Longrightarrow>
    \<exists>l'. restore_each UsersProjection es l v = (Inr l', fold apply_users es v)"
proof (induction es arbitrary: l v)
  case (Cons e es)
  then have "project_event UsersProjection e v = (Inr (), apply_users e v)" by (intro users_projected) simp_all
  with Cons show ?case by simp
qed simp

lemma apply_users_filter:
  "fold apply_users (filter (\<lambda>e. msg_type e \<in> set [''userCreated'', ''userRenamed'']) es) v = fold apply_users es v"
  by (induction es arbitrary: v) (auto simp: apply_users_def)

lemma users_restored:
  assumes "users_ok w"
  shows "restore UsersProjection (\<lambda>ts e. store_getEventsByTypes mem_reader ts e w) v
    = Some (Inr (), fold apply_users (events (w_storage w)) v)"
proof -
  define es where "es = filter (\<lambda>e. msg_type e \<in> set [''userCreated'', ''userRenamed'']) (events (w_storage w))"
  have ph: "projection_handles UsersProjection = Inr [''userCreated'', ''userRenamed'']"
    by (simp add: projection_handles_def UsersProjection_def getMessageHandlerNames_def methods_def)
  have rd: "store_getEventsByTypes mem_reader [''userCreated'', ''userRenamed''] None w = Inr es"
    by (simp add: store_getEventsByTypes_def mem_reader_def getEventsByTypes_all es_def assertStringArray_def)
  have "list_all user_event es" "\<forall>e \<in> set es. msg_type e \<in> {''userCreated'', ''userRenamed''}"
    using assms by (auto simp: es_def users_ok_def list_all_iff)
  from users_restored_each [OF this, of None v] obtain l' where
    "restore_each UsersProjection es None v = (Inr l', fold apply_users es v)" by blast
  moreover have "pj_event_locker UsersProjection = None" "pj_view_locker UsersProjection = None" by (simp_all add: UsersProjection_def)
  moreover have "fold apply_users es v = fold apply_users (events (w_storage w)) v" unfolding es_def by (rule apply_users_filter)
  ultimately show ?thesis using ph rd by (simp add: restore_def restore_view_def act_return_def act_bind_def)
qed

text \<open>The record of a user has the name that is in the state of the aggregate; no record, no name.\<close>

definition shows_name :: "jsval option \<Rightarrow> props \<Rightarrow> bool" where
  "shows_name r st \<longleftrightarrow> (case r of None \<Rightarrow> assoc_get st ''username'' = JUndef
     | Some v \<Rightarrow> v = JObj [(''username'', assoc_get st ''username'')])"

lemma models_agree:
  "list_all user_event es \<Longrightarrow> shows_name (map_of v (Some i)) st \<Longrightarrow>
    shows_name (map_of (fold apply_users es v) (Some i)) (fold apply_user (own_events i es) st)"
proof (induction es arbitrary: v st)
  case (Cons e es)
  show ?case
  proof (cases "aggregateId e = Some i")
    case True
    have "msg_type e = ''userCreated'' \<or> msg_type e = ''passwordChanged'' \<or> msg_type e = ''userRenamed''"
      using Cons.prems(1) user_payload_type by (auto simp: user_event_def)
    then have "shows_name (map_of (apply_users e v) (Some i)) (apply_user e st)"
      using Cons.prems(2) True by (auto simp: shows_name_def apply_users_def apply_user_def assoc_get_def Let_def split: option.splits)
    with Cons True show ?thesis by (simp add: own_events_def)
  next
    case False
    then have "map_of (apply_users e v) (Some i) = map_of v (Some i)" by (simp add: apply_users_def)
    with Cons False show ?thesis by (simp add: own_events_def)
  qed
qed (simp add: own_events_def)

text \<open>
  C7: the read model of the user example agrees with its write model. After any overlapping
  commands on the in-memory event store, among other processes that only add events of the domain,
  restoring the projection succeeds, restoring any user's aggregate succeeds, and the user's record
  has the name that is in the aggregate's state; without a record the aggregate has no name.
\<close>

theorem read_model_agrees:
  assumes "cc_run mem_ops (user_handler dg) cmds (\<lambda>w w'. users_ok w \<longrightarrow> users_ok w') (init_commands w0) s" and "users_ok w0"
  shows "\<exists>v. restore UsersProjection (\<lambda>ts e. store_getEventsByTypes mem_reader ts e (cc_store s)) [] = Some (Inr (), v)
    \<and> (\<forall>i. id_truthy i \<longrightarrow> (\<exists>a st. restored mem_ops (user_handler dg) i (cc_store s) = Inr a \<and> agg_state a = Some st
        \<and> shows_name (map_of v (Some i)) st))"
proof -
  have ok: "users_ok (cc_store s)" by (rule users.store_stays_ok [OF assms])
  then have evs: "list_all user_event (events (w_storage (cc_store s)))" by (simp add: users_ok_def)
  have "shows_name (map_of [] (Some i)) user_state" for i
    by (simp add: shows_name_def user_state_def assoc_get_def)
  from models_agree [OF evs this] user_restored [OF ok, of _ dg] users_restored [OF ok, of "[]"]
  show ?thesis by blast
qed

text \<open>A user created and renamed.\<close>

definition demo_user_event :: "string \<Rightarrow> int \<Rightarrow> (string \<times> jsval) list \<Rightarrow> event" where
  "demo_user_event t v p = (demo_event t ''u'' v t)\<lparr>payload := JObj p\<rparr>"

definition demo_users :: mem_world where
  "demo_users = \<lparr>w_storage = \<lparr>nextId = 0, events = [
     demo_user_event ''userCreated'' 0 [(''username'', JStr ''john''), (''passwordHash'', JStr ''h'')],
     demo_user_event ''userRenamed'' 1 [(''username'', JStr ''john-smith'')]]\<rparr>, w_snaps = []\<rparr>"

lemma demo_users_ok: "users_ok demo_users"
  by (simp add: users_ok_def demo_users_def demo_user_event_def user_event_def assoc_get_def)

lemma read_model_agrees_witness:
  "\<exists>v a st. restore UsersProjection (\<lambda>ts e. store_getEventsByTypes mem_reader ts e demo_users) [] = Some (Inr (), v)
    \<and> restored mem_ops (user_handler (\<lambda>x. x)) (IdStr ''u'') demo_users = Inr a \<and> agg_state a = Some st
    \<and> map_of v (Some (IdStr ''u'')) = Some (JObj [(''username'', JStr ''john-smith'')])
    \<and> assoc_get st ''username'' = JStr ''john-smith''"
proof -
  have run: "cc_run mem_ops (user_handler (\<lambda>x. x)) {} (\<lambda>w w'. users_ok w \<longrightarrow> users_ok w') (init_commands demo_users) (init_commands demo_users)"
    by (rule cc_run_none)
  obtain v where v: "restore UsersProjection (\<lambda>ts e. store_getEventsByTypes mem_reader ts e demo_users) [] = Some (Inr (), v)"
    and all: "\<forall>i. id_truthy i \<longrightarrow> (\<exists>a st. restored mem_ops (user_handler (\<lambda>x. x)) i demo_users = Inr a \<and> agg_state a = Some st
        \<and> shows_name (map_of v (Some i)) st)"
    using read_model_agrees [OF run demo_users_ok] unfolding init_commands_def by auto
  have "id_truthy (IdStr ''u'')" by simp
  with all obtain a st where a: "restored mem_ops (user_handler (\<lambda>x. x)) (IdStr ''u'') demo_users = Inr a" "agg_state a = Some st"
    and n: "shows_name (map_of v (Some (IdStr ''u''))) st" by blast
  have "v = fold apply_users (events (w_storage demo_users)) []" using v users_restored [OF demo_users_ok, of "[]"] by simp
  then have "map_of v (Some (IdStr ''u'')) = Some (JObj [(''username'', JStr ''john-smith'')])"
    by (simp add: demo_users_def demo_user_event_def apply_users_def js_get_def assoc_get_def)
  with v a n show ?thesis by (auto simp: shows_name_def)
qed

section \<open>Passwords\<close>

lemma emit_only_run:
  assumes "user_fields st" "agg_state a = Some st" "user_payload t p" "id_truthy (agg_id a)"
  shows "\<exists>a'. run_script (UserAggregate dg) (emit_only t p) a = (Inr (), a') \<and> changes a' = changes a @ [makeEvent t p (agg_command a) a]
    \<and> agg_state a' = Some (apply_user (makeEvent t p (agg_command a) a) st)"
proof -
  let ?e = "makeEvent t p (agg_command a) a"
  have "user_event ?e" using assms(3) by (simp add: user_event_def)
  from user_mutate [OF this assms(1,2), of dg] obtain a1 where
    a1: "mutate (UserAggregate dg) ?e a = (Inr (), a1)" "agg_state a1 = Some (apply_user ?e st)" by blast
  have "t \<noteq> []" using user_payload_type [OF assms(3)] by auto
  with a1 assms(4) have "emit (UserAggregate dg) t p a = (Inr ?e, a1\<lparr>changes := changes a1 @ [?e]\<rparr>)"
    by (simp add: emit_def emitRaw_def assertString_def assert_id_defined_def Let_def)
  with a1(2) mutate_frame [OF a1(1)] show ?thesis by (simp add: emit_only_def)
qed

text \<open>
  A change of the password is accepted exactly with the old password, whose digest is in
  the state; then one event is emitted and the state has the digest of the new password and the same
  name, so that the next change needs that one. Refused, the aggregate is as before.
\<close>

theorem password_change:
  assumes "agg_state a = Some st" "user_fields st" "agg_command a = None" "id_truthy (agg_id a)"
    and "msg_type cmd = ''changePassword''" "payload cmd = JObj [(''oldPassword'', JStr old), (''newPassword'', JStr new)]"
  shows "if own_state a ''passwordHash'' = JStr (dg old)
    then \<exists>e a'. handle (UserAggregate dg) cmd a = (Inr [e], a') \<and> msg_type e = ''passwordChanged''
      \<and> own_state a' ''passwordHash'' = JStr (dg new) \<and> own_state a' ''username'' = own_state a ''username''
    else handle (UserAggregate dg) cmd a = (Inl (GenericError ''Invalid password''), a)"
proof -
  let ?a = "a\<lparr>agg_command := Some cmd\<rparr>" and ?p = "JObj [(''passwordHash'', JStr (dg new))]"
  have h: "getHandler (agg_chain (UserAggregate dg)) (msg_type cmd) = Inr (JFun ''changePassword'' [])"
    by (simp add: UserAggregate_def methods_def user_commands_def getHandler_def getOptionalHandler_def method_of_def
      assertString_def assertFunction_def assms(5))
  have sc: "run_command_fn (UserAggregate dg) (JFun ''changePassword'' []) (payload cmd) (msg_context cmd) cmd ?a =
      (if JStr (dg old) \<noteq> own_state a ''passwordHash'' then Fail (GenericError ''Invalid password'')
       else emit_only ''passwordChanged'' ?p)"
    by (auto simp: UserAggregate_def changePassword_def digest_of_def read_property_def assms(6) js_get_def assoc_get_def
      strict_equal_def own_state_def)
  have ok: "message_ok cmd" by (simp add: message_ok_def assms(5))
  have no: "\<not> shouldTakeSnapshot (UserAggregate dg) b" for b by (simp add: UserAggregate_def)
  show ?thesis
  proof (cases "own_state a ''passwordHash'' = JStr (dg old)")
    case True
    have "agg_state ?a = Some st" "id_truthy (agg_id ?a)" "user_payload ''passwordChanged'' ?p"
      using assms(1,4) by (simp_all add: assoc_get_def)
    from emit_only_run [OF assms(2) this(1,3,2), of dg] obtain a' where
      a': "run_script (UserAggregate dg) (emit_only ''passwordChanged'' ?p) ?a = (Inr (), a')"
      "changes a' = changes a @ [makeEvent ''passwordChanged'' ?p (Some cmd) ?a]"
      "agg_state a' = Some (apply_user (makeEvent ''passwordChanged'' ?p (Some cmd) ?a) st)" by auto
    then have "handle (UserAggregate dg) cmd a = (Inr [makeEvent ''passwordChanged'' ?p (Some cmd) ?a], a'\<lparr>agg_command := None\<rparr>)"
      using True by (simp add: handle_def ok h assms(3) sc getUncommittedEvents_def no Let_def)
    with a'(3) True assms(1) show ?thesis by (simp add: own_state_def apply_user_def js_get_def assoc_get_def)
  next
    case False
    then show ?thesis using assms(3) by (simp add: handle_def ok h sc Let_def)
  qed
qed

lemma password_change_witness:
  "\<exists>e a'. handle (UserAggregate (\<lambda>x. x)) \<lparr>msg_type = ''changePassword'', aggregateId = Some (IdStr ''u''), aggregateVersion = None,
      sagaOrigins = None, payload = JObj [(''oldPassword'', JStr ''magic''), (''newPassword'', JStr ''no magic'')], msg_context = None\<rparr>
      (blank_aggregate (IdStr ''u'') (Some [(''username'', JStr ''john''), (''passwordHash'', JStr ''magic'')])) = (Inr [e], a')
    \<and> own_state a' ''passwordHash'' = JStr ''no magic''"
proof -
  let ?a = "blank_aggregate (IdStr ''u'') (Some [(''username'', JStr ''john''), (''passwordHash'', JStr ''magic'')])"
  have a: "agg_state ?a = Some [(''username'', JStr ''john''), (''passwordHash'', JStr ''magic'')]" "agg_command ?a = None" "id_truthy (agg_id ?a)"
    by (simp_all add: blank_aggregate_def)
  have f: "user_fields [(''username'', JStr ''john''), (''passwordHash'', JStr ''magic'')]" by (simp add: user_fields_def)
  have o: "own_state ?a ''passwordHash'' = JStr ''magic''" by (simp add: own_state_def blank_aggregate_def assoc_get_def)
  from password_change [OF a(1) f a(2,3), of "\<lparr>msg_type = ''changePassword'', aggregateId = Some (IdStr ''u''), aggregateVersion = None,
      sagaOrigins = None, payload = JObj [(''oldPassword'', JStr ''magic''), (''newPassword'', JStr ''no magic'')], msg_context = None\<rparr>"
      "''magic''" "''no magic''" "\<lambda>x. x"] o
  show ?thesis by auto
qed

end
