(* ===== verification/UserDomainCjs.thy ===== *)
theory UserDomainCjs
  imports UserDomain
begin

text \<open>
  The domain of \<open>examples/user-domain-cjs\<close>: \<open>UserAggregate.cjs\<close>, whose handlers check their payload and
  the version of the aggregate, and \<open>UsersProjection.cjs\<close>, which creates a record in the view a
  projection has by default (\<open>InMemoryView\<close>, the projection's view locker as well).
\<close>

section \<open>UserAggregate.cjs\<close>

text \<open>\<open>UserAggregateState\<close> has no fields before its first event.\<close>

definition cjs_userCreated :: "event \<Rightarrow> (props, unit) act" where
  "cjs_userCreated e = act_bind (assign_from e ''username'') (\<lambda>_. assign_from e ''passwordHash'')"

definition cjs_userPasswordChanged :: "event \<Rightarrow> (props, unit) act" where
  "cjs_userPasswordChanged e = assign_from e ''passwordHash''"

definition required :: "string \<Rightarrow> jsval \<Rightarrow> unit result" where
  "required n v = (if truthy v then Inr () else Inl (TypeError (n @ '' argument required'')))"

definition cjs_createUser :: "(string \<Rightarrow> string) \<Rightarrow> jsval \<Rightarrow> aggregate \<Rightarrow> script" where
  "cjs_createUser dg p a = (case res_bind (required ''commandPayload'' p) (\<lambda>_.
       res_bind (required ''commandPayload.username'' (js_get p ''username'')) (\<lambda>_.
       res_bind (required ''commandPayload.password'' (js_get p ''password'')) (\<lambda>_.
       res_bind (if version a \<noteq> 0 then Inl (GenericError (''User '' @ String_of (agg_id a) @ '' already created'')) else Inr ())
       (\<lambda>_. md5 dg (js_get p ''password''))))) of
     Inl err \<Rightarrow> Fail err
   | Inr h \<Rightarrow> emit_only ''userCreated'' (JObj [(''username'', js_get p ''username''), (''passwordHash'', h)]))"

definition cjs_changeUserPassword :: "(string \<Rightarrow> string) \<Rightarrow> jsval \<Rightarrow> aggregate \<Rightarrow> script" where
  "cjs_changeUserPassword dg p a = (case res_bind (required ''commandPayload'' p) (\<lambda>_.
       res_bind (required ''commandPayload.oldPassword'' (js_get p ''oldPassword'')) (\<lambda>_.
       res_bind (required ''commandPayload.password'' (js_get p ''password'')) (\<lambda>_.
       res_bind (if version a = 0 then Inl (GenericError (''User '' @ String_of (agg_id a) @ '' does not exist'')) else Inr ()) (\<lambda>_.
       res_bind (md5 dg (js_get p ''oldPassword'')) (\<lambda>old.
       res_bind (if \<not> strict_equal old (own_state a ''passwordHash'') then Inl (GenericError ''Old password does not match'') else Inr ())
       (\<lambda>_. md5 dg (js_get p ''password''))))))) of
     Inl err \<Rightarrow> Fail err
   | Inr h \<Rightarrow> emit_only ''userPasswordChanged'' (JObj [(''passwordHash'', h)]))"

definition cjs_UserAggregate :: "(string \<Rightarrow> string) \<Rightarrow> aggregate_class" where
  "cjs_UserAggregate dg = \<lparr>state_proto = [methods [''userCreated'', ''userPasswordChanged'']],
     run_state_fn = (\<lambda>h. if method_name h = ''userCreated'' then cjs_userCreated else cjs_userPasswordChanged),
     agg_chain = [[], methods [''createUser'', ''changeUserPassword'']],
     agg_handles = JArr [JStr ''createUser'', JStr ''changeUserPassword''],
     run_command_fn = (\<lambda>h p c cmd a.
       if method_name h = ''createUser'' then cjs_createUser dg p a else cjs_changeUserPassword dg p a),
     shouldTakeSnapshot = (\<lambda>_. False)\<rparr>"

definition cjs_handler :: "(string \<Rightarrow> string) \<Rightarrow> handler_cfg" where
  "cjs_handler dg = \<lparr>h_class = cjs_UserAggregate dg, h_state0 = Some [], h_restoresFrom = None, h_shouldRetry = default_retry\<rparr>"

section \<open>UsersProjection.cjs\<close>

definition cjs_users_userCreated :: "event \<Rightarrow> (mem_view, unit) act" where
  "cjs_users_userCreated e v = (case read_property (payload e) ''username'' of
       Inl err \<Rightarrow> (Inl err, v)
     | Inr u \<Rightarrow> view_create (aggregateId e) (JObj [(''username'', u)]) v)"

definition cjs_UsersProjection :: "mem_view projection" where
  "cjs_UsersProjection = \<lparr>pj_instance = [[], methods [''userCreated'']], pj_handles = Some [''userCreated''],
     pj_call = (\<lambda>h. cjs_users_userCreated), pj_view_locker = Some mem_lock_ops, pj_event_locker = None,
     pj_records = default_records, pj_on_error = onRestoringError\<rparr>"

section \<open>What the log holds\<close>

fun cjs_payload :: "int \<Rightarrow> string \<Rightarrow> jsval \<Rightarrow> bool" where
  "cjs_payload n t (JObj ps) \<longleftrightarrow>
     t = ''userCreated'' \<and> map fst ps = [''username'', ''passwordHash''] \<and> n = 0
     \<or> t = ''userPasswordChanged'' \<and> map fst ps = [''passwordHash''] \<and> n \<noteq> 0"
| "cjs_payload n t _ \<longleftrightarrow> False"

definition cjs_event :: "event \<Rightarrow> bool" where
  "cjs_event e \<longleftrightarrow> (\<exists>i n. aggregateId e = Some i \<and> id_truthy i \<and> aggregateVersion e = Some n
     \<and> cjs_payload n (msg_type e) (payload e))"

definition cjs_ok :: "mem_world \<Rightarrow> bool" where
  "cjs_ok w \<longleftrightarrow> list_all cjs_event (events (w_storage w)) \<and> w_snaps w = [] \<and> distinct (version_keys (events (w_storage w)))"

definition cjs_batch :: "event list \<Rightarrow> bool" where
  "cjs_batch evs \<longleftrightarrow> list_all cjs_event evs \<and> distinct (version_keys evs)"

lemma cjs_payload_type: "cjs_payload n t p \<Longrightarrow> t = ''userCreated'' \<or> t = ''userPasswordChanged''"
  by (cases p) auto

lemma cjs_no_snapshot: "cjs_event e \<Longrightarrow> \<not> isSnapshotEvent e"
  using cjs_payload_type by (fastforce simp: cjs_event_def isSnapshotEvent_def SNAPSHOT_EVENT_TYPE_def)

lemma cjs_emits_one: "emits_one (cjs_UserAggregate dg) (\<lambda>a. cjs_payload (version a))"
proof -
  have "at_most_one (cjs_payload (version a)) (cjs_createUser dg p a)" for p a
    unfolding cjs_createUser_def by (auto split: sum.split if_splits)
  moreover have "at_most_one (cjs_payload (version a)) (cjs_changeUserPassword dg p a)" for p a
    unfolding cjs_changeUserPassword_def by (auto split: sum.split if_splits)
  ultimately show ?thesis by (simp add: emits_one_def cjs_UserAggregate_def)
qed

interpretation cjs_users: dispatched_events mem_ops "cjs_handler dg" cmds cjs_ok cjs_batch for dg cmds
proof
  show "cjs_batch evs" if "handle (h_class (cjs_handler dg)) cmd a = (Inr evs, a')" for cmd a evs a'
  proof -
    from that have "handle (cjs_UserAggregate dg) cmd a = (Inr evs, a')" by (simp add: cjs_handler_def)
    from handle_one [OF cjs_emits_one this] show ?thesis by (auto simp: cjs_batch_def cjs_event_def split: option.split)
  qed
  show "cjs_ok (snd (es_dispatch mem_ops evs False w))" if w: "cjs_ok w" and evs: "cjs_batch evs" for w evs
  proof -
    have "\<forall>e \<in> set evs. \<not> isSnapshotEvent e" using evs cjs_no_snapshot by (auto simp: cjs_batch_def list_all_iff)
    from dispatch_plain [OF this, of False w] w evs show ?thesis by (auto simp: mem_ops_def cjs_ok_def cjs_batch_def)
  qed
  show "cjs_ok (snd (es_dispatch mem_ops evs True w))"
    if "cjs_ok w" "cjs_batch evs" "h_shouldRetry (cjs_handler dg) err evs n = Ignore" for w evs err n
    using that(3) by (simp add: cjs_handler_def default_retry_def split: if_splits)
  show "cjs_ok (snd (es_getNewId mem_ops w))" if "cjs_ok w" for w
    using that by (simp add: mem_ops_def mem_new_id_def on_storage_def cjs_ok_def getNewId_def split: prod.split)
qed

section \<open>Every user is created once\<close>

definition created :: "event list \<Rightarrow> event list" where
  "created es = filter (\<lambda>e. msg_type e \<in> set [''userCreated'']) es"

text \<open>A creation has version 0, and versions are unique.\<close>

lemma created_once:
  assumes "list_all cjs_event es" "distinct (version_keys es)"
  shows "distinct (map aggregateId (created es))"
  using assms
proof (induction es)
  case (Cons e es)
  have zero: "version_key x = Some (i, 0)" if "cjs_event x" "msg_type x = ''userCreated''" "aggregateId x = Some i" for x i
  proof -
    from that obtain n where "aggregateVersion x = Some n" "cjs_payload n ''userCreated'' (payload x)"
      by (auto simp: cjs_event_def)
    then show ?thesis using that(3) by (cases "payload x") (auto simp: version_key_def)
  qed
  have IH: "distinct (map aggregateId (created es))"
    using Cons by (auto split: option.splits)
  show ?case
  proof (cases "msg_type e = ''userCreated''")
    case True
    from Cons.prems(1) obtain i where i: "aggregateId e = Some i" by (auto simp: cjs_event_def)
    have "aggregateId x \<noteq> Some i" if "x \<in> set (created es)" for x
    proof
      assume x: "aggregateId x = Some i"
      from that Cons.prems(1) have "x \<in> set es" "cjs_event x" "msg_type x = ''userCreated''" by (auto simp: created_def list_all_iff)
      with zero x have "(i, 0) \<in> set (version_keys es)" by (auto simp: set_version_keys)
      moreover have "version_key e = Some (i, 0)" using zero True i Cons.prems(1) by simp
      ultimately show False using Cons.prems(2) by simp
    qed
    then have "Some i \<notin> aggregateId ` set (created es)" unfolding image_iff by metis
    moreover have "created (e # es) = e # created es" using True by (simp add: created_def)
    ultimately show ?thesis using IH i by simp
  qed (use IH in \<open>simp add: created_def\<close>)
qed (simp add: created_def)

definition user_record :: "event \<Rightarrow> ident \<times> jsval" where
  "user_record e = (the (aggregateId e), JObj [(''username'', js_get (payload e) ''username'')])"

lemma distinct_map_Some: "distinct (map Some xs) = distinct xs"
  by (simp add: distinct_map)

lemma update_new: "k \<notin> fst ` set m \<Longrightarrow> AList.update k v m = m @ [(k, v)]"
  by (induction m) auto

lemma cjs_projected:
  assumes "cjs_event e" "msg_type e = ''userCreated''" "the (aggregateId e) \<notin> fst ` set (view_map v)"
  shows "project_event cjs_UsersProjection e v = (Inr (), v\<lparr>view_map := view_map v @ [user_record e]\<rparr>)"
proof -
  obtain i n where i: "aggregateId e = Some i" "id_truthy i" "cjs_payload n (msg_type e) (payload e)"
    using assms(1) by (auto simp: cjs_event_def)
  then have p: "payload e \<noteq> JUndef" "payload e \<noteq> JNull" by auto
  have "\<not> map_has (view_map v) i" using assms(3) i(1) by (simp add: map_has_def map_of_eq_None_iff)
  then have "view_create (Some i) (JObj [(''username'', js_get (payload e) ''username'')]) v = (Inr (), v\<lparr>view_map := view_map v @ [user_record e]\<rparr>)"
    using i(1,2) assms(3) by (simp add: view_create_def assert_id_defined_def update_new user_record_def)
  then show ?thesis using assms(2) i(1) p
    by (simp add: project_event_def cjs_UsersProjection_def cjs_users_userCreated_def read_property_def methods_def
      getHandler_def getOptionalHandler_def method_of_def assertString_def assertFunction_def)
qed

lemma cjs_restored_each:
  "list_all (\<lambda>e. cjs_event e \<and> msg_type e = ''userCreated'') es \<Longrightarrow> distinct (map (\<lambda>e. the (aggregateId e)) es) \<Longrightarrow>
    \<forall>e \<in> set es. the (aggregateId e) \<notin> fst ` set (view_map v) \<Longrightarrow>
    \<exists>l'. restore_each cjs_UsersProjection es l v = (Inr l', v\<lparr>view_map := view_map v @ map user_record es\<rparr>)"
proof (induction es arbitrary: l v)
  case (Cons e es)
  let ?v = "v\<lparr>view_map := view_map v @ [user_record e]\<rparr>"
  have p: "project_event cjs_UsersProjection e v = (Inr (), ?v)" using Cons.prems by (intro cjs_projected) simp_all
  have "the (aggregateId x) \<noteq> the (aggregateId e)" if "x \<in> set es" for x
    using Cons.prems(2) that by (simp add: image_iff) metis
  then have "\<forall>x \<in> set es. the (aggregateId x) \<notin> fst ` set (view_map ?v)" using Cons.prems(3) by (auto simp: user_record_def)
  from Cons.IH [of ?v, OF _ _ this] Cons.prems p show ?case by simp
qed simp

lemma cjs_restored:
  assumes "cjs_ok w"
  shows "restore cjs_UsersProjection (\<lambda>ts e. store_getEventsByTypes mem_reader ts e w) new_view
    = Some (Inr (), new_view\<lparr>view_map := map user_record (created (events (w_storage w)))\<rparr>)"
proof -
  let ?es = "created (events (w_storage w))"
  have ok: "list_all cjs_event (events (w_storage w))" "distinct (version_keys (events (w_storage w)))"
    using assms by (simp_all add: cjs_ok_def)
  have es: "list_all (\<lambda>e. cjs_event e \<and> msg_type e = ''userCreated'') ?es" using ok(1) by (auto simp: created_def list_all_iff)
  have "\<exists>i. aggregateId e = Some i" if "e \<in> set ?es" for e
    using es that by (auto simp: list_all_iff cjs_event_def)
  then have "map aggregateId ?es = map Some (map (\<lambda>e. the (aggregateId e)) ?es)" by auto
  with created_once [OF ok] have d: "distinct (map (\<lambda>e. the (aggregateId e)) ?es)" by (simp only: distinct_map_Some)
  have ph: "projection_handles cjs_UsersProjection = Inr [''userCreated'']" by (simp add: projection_handles_def cjs_UsersProjection_def)
  have rd: "store_getEventsByTypes mem_reader [''userCreated''] None w = Inr ?es"
    by (simp add: store_getEventsByTypes_def mem_reader_def getEventsByTypes_all created_def assertStringArray_def)
  define v1 where "v1 = new_view\<lparr>lockMarker := True\<rparr>"
  have lock: "vw_lock mem_lock_ops new_view = Some (Inr True, v1)" "v1\<lparr>lockMarker := False\<rparr> = new_view" "view_map v1 = []"
    by (simp_all add: mem_lock_ops_def mem_lock_lock_def new_view_def v1_def)
  obtain l' where "restore_each cjs_UsersProjection ?es None v1 = (Inr l', v1\<lparr>view_map := map user_record ?es\<rparr>)"
    using cjs_restored_each [OF es d, of v1 None] lock(3) by auto
  moreover have "pj_event_locker cjs_UsersProjection = None" "pj_view_locker cjs_UsersProjection = Some mem_lock_ops"
    by (simp_all add: cjs_UsersProjection_def)
  moreover have "snd (vw_unlock mem_lock_ops (v1\<lparr>view_map := map user_record ?es\<rparr>)) = new_view\<lparr>view_map := map user_record ?es\<rparr>"
    by (simp add: mem_lock_ops_def mem_lock_unlock_def v1_def new_view_def)
  ultimately show ?thesis using ph rd lock(1) by (simp add: restore_def restore_view_def act_return_def act_bind_def)
qed

text \<open>
  C8: the user domain with checks creates every user once. After any overlapping commands on the
  in-memory event store, among other processes that add events of the domain without conflicts, no two
  creations are of one user, so that restoring the projection never finds a record that is there: it
  succeeds and leaves the unlocked view with one record per user, in the order of creation.
\<close>

theorem users_created_once:
  assumes "cc_run mem_ops (cjs_handler dg) cmds (\<lambda>w w'. cjs_ok w \<longrightarrow> cjs_ok w') (init_commands w0) s" and "cjs_ok w0"
  shows "distinct (map aggregateId (created (events (w_storage (cc_store s)))))
    \<and> restore cjs_UsersProjection (\<lambda>ts e. store_getEventsByTypes mem_reader ts e (cc_store s)) new_view
      = Some (Inr (), new_view\<lparr>view_map := map user_record (created (events (w_storage (cc_store s))))\<rparr>)"
proof -
  have ok: "cjs_ok (cc_store s)" by (rule cjs_users.store_stays_ok [OF assms])
  then have "list_all cjs_event (events (w_storage (cc_store s)))" "distinct (version_keys (events (w_storage (cc_store s))))"
    by (simp_all add: cjs_ok_def)
  with created_once cjs_restored [OF ok] show ?thesis by simp
qed

text \<open>Two users, one of whom has changed the password.\<close>

definition demo_cjs_users :: mem_world where
  "demo_cjs_users = \<lparr>w_storage = \<lparr>nextId = 0, events = [
     demo_user_event ''userCreated'' 0 [(''username'', JStr ''john''), (''passwordHash'', JStr ''h'')],
     demo_user_event ''userPasswordChanged'' 1 [(''passwordHash'', JStr ''g'')],
     (demo_user_event ''userCreated'' 0 [(''username'', JStr ''jane''), (''passwordHash'', JStr ''f'')])
       \<lparr>aggregateId := Some (IdStr ''v'')\<rparr>]\<rparr>, w_snaps = []\<rparr>"

lemma users_created_once_witness:
  "restore cjs_UsersProjection (\<lambda>ts e. store_getEventsByTypes mem_reader ts e demo_cjs_users) new_view
    = Some (Inr (), new_view\<lparr>view_map := [(IdStr ''u'', JObj [(''username'', JStr ''john'')]),
        (IdStr ''v'', JObj [(''username'', JStr ''jane'')])]\<rparr>)"
proof -
  have run: "cc_run mem_ops (cjs_handler (\<lambda>x. x)) {} (\<lambda>w w'. cjs_ok w \<longrightarrow> cjs_ok w') (init_commands demo_cjs_users) (init_commands demo_cjs_users)"
    by (rule cc_run_none)
  have "cjs_ok demo_cjs_users"
    by (simp add: cjs_ok_def demo_cjs_users_def demo_user_event_def cjs_event_def version_key_def demo_event_def)
  from users_created_once [OF run this]
  have "restore cjs_UsersProjection (\<lambda>ts e. store_getEventsByTypes mem_reader ts e demo_cjs_users) new_view
    = Some (Inr (), new_view\<lparr>view_map := map user_record (created (events (w_storage demo_cjs_users)))\<rparr>)"
    by (simp add: init_commands_def)
  moreover have "map user_record (created (events (w_storage demo_cjs_users))) = [(IdStr ''u'', JObj [(''username'', JStr ''john'')]),
        (IdStr ''v'', JObj [(''username'', JStr ''jane'')])]"
    by (simp add: demo_cjs_users_def created_def user_record_def demo_user_event_def demo_event_def js_get_def assoc_get_def)
  ultimately show ?thesis by simp
qed

end
