(* ===== verification/Saga.thy ===== *)
theory Saga
  imports Aggregate
begin

text \<open>
  \<open>src/AbstractSaga.ts\<close>: a saga applies events to its state and, handling one, enqueues the
  commands it returns. The body of an event handler is a script of \<open>enqueue\<close> calls; what it
  gets back is whether the call threw.
\<close>

section \<open>Sagas\<close>

record saga =
  saga_id :: ident
  saga_version :: int
  saga_state :: "props option"
  messages :: "command list"
  handling :: bool

datatype saga_script =
    SagaFinish
  | SagaFail js_error
  | Enqueue string "ident option" jsval "unit result \<Rightarrow> saga_script"
  | EnqueueRaw command "unit result \<Rightarrow> saga_script"

record saga_class = state_class +
  saga_chain :: chain
  saga_startsWith :: jsval
  saga_handles :: jsval
  run_saga_fn :: "jsval \<Rightarrow> event \<Rightarrow> saga \<Rightarrow> saga_script"

definition new_saga :: "saga_class \<Rightarrow> ident option \<Rightarrow> props option \<Rightarrow> bool \<Rightarrow> saga result" where
  "new_saga cls i st events_given =
     res_bind (assert_id_defined i ''options.id'') (\<lambda>sid.
     if events_given then Inl (TypeError ''options.events argument is deprecated'')
     else res_bind (validateHandlers (saga_chain cls) (saga_startsWith cls) ''startsWith'') (\<lambda>_.
       res_bind (validateHandlers (saga_chain cls) (saga_handles cls) ''handles'') (\<lambda>_.
       Inr \<lparr>saga_id = sid, saga_version = 0, saga_state = st, messages = [], handling = False\<rparr>)))"

definition saga_mutate :: "saga_class \<Rightarrow> event \<Rightarrow> (saga, unit) act" where
  "saga_mutate cls e s =
     (if \<not> message_ok e then (Inl (TypeError ''event must be a valid IEvent''), s)
      else (case saga_state s of
          None \<Rightarrow> (Inr (), s\<lparr>saga_version := saga_version s + 1\<rparr>)
        | Some st \<Rightarrow> (case call_state_handler cls e st of
            (Inl err, st') \<Rightarrow> (Inl err, s\<lparr>saga_state := Some st'\<rparr>)
          | (Inr _, st') \<Rightarrow> (Inr (), s\<lparr>saga_state := Some st', saga_version := saga_version s + 1\<rparr>))))"

primrec saga_mutate_all :: "saga_class \<Rightarrow> event list \<Rightarrow> (saga, unit) act" where
  "saga_mutate_all cls [] = act_return ()"
| "saga_mutate_all cls (e # es) = act_bind (saga_mutate cls e) (\<lambda>_. saga_mutate_all cls es)"

definition enqueueRaw :: "command \<Rightarrow> (saga, unit) act" where
  "enqueueRaw c s =
     (if \<not> message_ok c then (Inl (TypeError ''command must be a valid IMessage''), s)
      else (Inr (), s\<lparr>messages := messages s @ [c]\<rparr>))"

definition enqueue :: "string \<Rightarrow> ident option \<Rightarrow> jsval \<Rightarrow> (saga, unit) act" where
  "enqueue commandType aid p s =
     (case assertString (JStr commandType) ''commandType'' of
        Inl err \<Rightarrow> (Inl err, s)
      | Inr _ \<Rightarrow> enqueueRaw \<lparr>msg_type = commandType, aggregateId = aid, aggregateVersion = None,
          sagaOrigins = None, payload = p, msg_context = None\<rparr> s)"

primrec run_saga_script :: "saga_script \<Rightarrow> (saga, unit) act" where
  "run_saga_script SagaFinish s = (Inr (), s)"
| "run_saga_script (SagaFail e) s = (Inl e, s)"
| "run_saga_script (Enqueue t aid p k) s = (case enqueue t aid p s of (r, s') \<Rightarrow> run_saga_script (k r) s')"
| "run_saga_script (EnqueueRaw c k) s = (case enqueueRaw c s of (r, s') \<Rightarrow> run_saga_script (k r) s')"

definition saga_handle :: "saga_class \<Rightarrow> event \<Rightarrow> (saga, command list) act" where
  "saga_handle cls e s =
     (if \<not> message_ok e then (Inl (TypeError ''event must be a valid IEvent''), s)
      else if handling s
      then (Inl (GenericError ''Another event is being processed, concurrent handling is not allowed''), s)
      else (case getOptionalHandler (saga_chain cls) (msg_type e) of
          Inl err \<Rightarrow> (Inl err, s)
        | Inr None \<Rightarrow> (Inl (TypeError (msg_type e @ '' handler must be a Function'')), s)
        | Inr (Some h) \<Rightarrow>
            (let s1 = s\<lparr>handling := True, messages := []\<rparr>
             in case run_saga_script (run_saga_fn cls h e s1) s1 of
                  (Inl err, s2) \<Rightarrow> (Inl err, s2\<lparr>handling := False\<rparr>)
                | (Inr _, s2) \<Rightarrow> (case saga_mutate cls e s2 of
                      (Inl err, s3) \<Rightarrow> (Inl err, s3\<lparr>handling := False\<rparr>)
                    | (Inr _, s3) \<Rightarrow> (Inr (messages s3), s3\<lparr>messages := [], handling := False\<rparr>)))))"

section \<open>What handling does\<close>

definition saga_core :: "saga \<Rightarrow> int \<times> props option" where
  "saga_core s = (saga_version s, saga_state s)"

lemma enqueueRaw_frame:
  "enqueueRaw c s = (r, s') \<Longrightarrow> saga_core s' = saga_core s \<and> saga_id s' = saga_id s \<and> handling s' = handling s
     \<and> (list_all message_ok (messages s) \<longrightarrow> list_all message_ok (messages s'))
     \<and> (\<exists>cs. messages s' = messages s @ cs)"
  by (auto simp: enqueueRaw_def saga_core_def split: if_splits)

lemma enqueue_frame:
  "enqueue t i p s = (r, s') \<Longrightarrow> saga_core s' = saga_core s \<and> saga_id s' = saga_id s \<and> handling s' = handling s
     \<and> (list_all message_ok (messages s) \<longrightarrow> list_all message_ok (messages s'))
     \<and> (\<exists>cs. messages s' = messages s @ cs)"
  by (auto simp: enqueue_def dest: enqueueRaw_frame split: sum.splits)

lemma run_saga_script_frame:
  "run_saga_script sc s = (r, s') \<Longrightarrow> list_all message_ok (messages s) \<Longrightarrow>
     saga_core s' = saga_core s \<and> saga_id s' = saga_id s \<and> list_all message_ok (messages s')"
proof (induction sc arbitrary: s)
  case (Enqueue t i p k)
  obtain r1 s1 where e: "enqueue t i p s = (r1, s1)" by (cases "enqueue t i p s")
  with Enqueue enqueue_frame [OF e] show ?case by fastforce
next
  case (EnqueueRaw c k)
  obtain r1 s1 where e: "enqueueRaw c s = (r1, s1)" by (cases "enqueueRaw c s")
  with EnqueueRaw enqueueRaw_frame [OF e] show ?case by fastforce
qed auto

lemma saga_mutate_frame:
  "saga_mutate cls e s = (r, s') \<Longrightarrow> saga_id s' = saga_id s \<and> messages s' = messages s \<and> handling s' = handling s
     \<and> saga_version s' = saga_version s + (case r of Inr _ \<Rightarrow> 1 | Inl _ \<Rightarrow> 0)"
  by (auto simp: saga_mutate_def split: if_splits option.splits sum.splits prod.splits)

lemma saga_mutate_core:
  "saga_core s = saga_core t \<Longrightarrow> saga_mutate cls e s = (r, s') \<Longrightarrow>
     \<exists>t'. saga_mutate cls e t = (r, t') \<and> saga_core t' = saga_core s'"
  by (auto simp: saga_mutate_def saga_core_def split: if_splits option.splits sum.splits prod.splits)

text \<open>
  A saga that handled an event is, in version and state, what applying the event to it gives, so
  restoring from the log reaches the same; the commands it returns are valid messages, none is left
  behind and it is ready for the next event.
\<close>

theorem saga_handle_ok:
  assumes "saga_handle cls e s = (Inr cs, s')"
  shows "\<exists>t. saga_mutate cls e s = (Inr (), t) \<and> saga_core t = saga_core s'
    \<and> saga_id s' = saga_id s \<and> messages s' = [] \<and> \<not> handling s' \<and> list_all message_ok cs"
proof -
  define s1 where "s1 = s\<lparr>handling := True, messages := []\<rparr>"
  from assms obtain h s2 s3 where
    run: "run_saga_script (run_saga_fn cls h e s1) s1 = (Inr (), s2)"
    and mut: "saga_mutate cls e s2 = (Inr (), s3)"
    and cs: "cs = messages s3" and s': "s' = s3\<lparr>messages := [], handling := False\<rparr>"
    by (auto simp: saga_handle_def s1_def Let_def split: if_splits sum.splits option.splits prod.splits)
  have s1: "saga_core s1 = saga_core s" "saga_id s1 = saga_id s" "list_all message_ok (messages s1)"
    by (simp_all add: s1_def saga_core_def)
  note f = run_saga_script_frame [OF run s1(3)]
  have "saga_core s2 = saga_core s" using f s1 by simp
  from saga_mutate_core [OF this mut] obtain t where t: "saga_mutate cls e s = (Inr (), t)" "saga_core t = saga_core s3"
    by blast
  have "list_all message_ok cs" using f saga_mutate_frame [OF mut] cs by simp
  with t s' f s1 saga_mutate_frame [OF mut] show ?thesis by (simp add: saga_core_def)
qed

lemma saga_handle_releases: "saga_handle cls e s = (r, s') \<Longrightarrow> \<not> handling s \<Longrightarrow> \<not> handling s'"
  by (auto simp: saga_handle_def Let_def split: if_splits sum.splits option.splits prod.splits)

section \<open>A small saga\<close>

text \<open>Started by \<open>incremented\<close>, it enqueues one command.\<close>

definition demo_saga_class :: saga_class where
  "demo_saga_class = \<lparr>state_proto = [[(''incremented'', DataProp (JFun ''incremented'' []))]],
     run_state_fn = \<lambda>f e st. (Inr (), AList.update ''seen'' (JBool True) st),
     saga_chain = [[], [(''incremented'', DataProp (JFun ''incremented'' []))]],
     saga_startsWith = JArr [JStr ''incremented''], saga_handles = JUndef,
     run_saga_fn = \<lambda>h e s. Enqueue ''increment'' (Some (IdStr ''b'')) JUndef (\<lambda>_. SagaFinish)\<rparr>"

lemmas demo_saga_defs = demo_saga_class_def saga_handle_def saga_mutate_def enqueue_def enqueueRaw_def new_saga_def

lemma saga_handle_ok_witness:
  "\<exists>c s' t. saga_handle demo_saga_class (demo_event ''incremented'' ''a'' 0 ''e1'')
        \<lparr>saga_id = IdStr ''s'', saga_version = 0, saga_state = Some [], messages = [], handling = False\<rparr> = (Inr [c], s')
    \<and> saga_mutate demo_saga_class (demo_event ''incremented'' ''a'' 0 ''e1'')
        \<lparr>saga_id = IdStr ''s'', saga_version = 0, saga_state = Some [], messages = [], handling = False\<rparr> = (Inr (), t)
    \<and> saga_core t = saga_core s' \<and> messages s' = [] \<and> message_ok c"
proof -
  obtain c s' where h: "saga_handle demo_saga_class (demo_event ''incremented'' ''a'' 0 ''e1'')
      \<lparr>saga_id = IdStr ''s'', saga_version = 0, saga_state = Some [], messages = [], handling = False\<rparr> = (Inr [c], s')"
    by (simp add: demo_saga_defs demo_defs Let_def)
  from saga_handle_ok [OF h] h show ?thesis by auto
qed

end
