(* ===== verification/SagaHandler.thy ===== *)
theory SagaHandler
  imports Saga UsageCache LockModel
begin

text \<open>
  \<open>src/SagaEventHandler.ts\<close>: an event is routed to a saga by its origin, the saga is created or
  restored (once for overlapping events, through the usage-counted cache), handles the event
  under its lock, and its commands are sent with the context and the saga origins attached.
\<close>

section \<open>State and configuration\<close>

record 'w saga_world =
  sw_store :: 'w
  sagas :: "saga list"

record 'w saga_handler_state =
  sh_cache :: "(string, nat result, 'w saga_world) map_assertable"
  sh_lock :: lock
  sh_world :: "'w saga_world"

record 'w saga_env =
  env_getSagaEvents :: "ident \<Rightarrow> event \<Rightarrow> 'w \<Rightarrow> event list result"
  env_send :: "command \<Rightarrow> ('w, unit) act"

record saga_cfg =
  sg_class :: saga_class
  sg_state0 :: "props option"
  sg_startsWith :: "string list option"
  sg_handles :: "string list"
  sg_descriptor :: string

text \<open>The types the handler subscribes to.\<close>

definition subscribed_types :: "saga_cfg \<Rightarrow> string list" where
  "subscribed_types cfg = (case sg_startsWith cfg of None \<Rightarrow> [] | Some ts \<Rightarrow> ts) @ sg_handles cfg"

section \<open>Routing\<close>

text \<open>An origin that is the empty string counts as none.\<close>

definition origin_of :: "saga_cfg \<Rightarrow> event \<Rightarrow> string option" where
  "origin_of cfg e = (case saga_origin e (sg_descriptor cfg) of Some [] \<Rightarrow> None | oo \<Rightarrow> oo)"

definition is_starter :: "saga_cfg \<Rightarrow> event \<Rightarrow> bool" where
  "is_starter cfg e = (case sg_startsWith cfg of
       Some ts \<Rightarrow> msg_type e \<in> set ts
     | None \<Rightarrow> origin_of cfg e = None)"

text \<open>Whether the event starts a saga, its origin and the saga's id.\<close>

definition saga_route :: "saga_cfg \<Rightarrow> event \<Rightarrow> (bool \<times> string \<times> string) result" where
  "saga_route cfg e =
     res_bind (if msg_type e = [] then Inl (TypeError ''event.type is required'') else Inr ()) (\<lambda>_.
     res_bind (assert_id_string (event_id e) ''event.id'') (\<lambda>eid.
       let isStarterEvent = is_starter cfg e
       in if isStarterEvent \<and> origin_of cfg e \<noteq> None
          then Inl (GenericError (''Starter event already contains saga origin for '' @ sg_descriptor cfg))
          else (case (if isStarterEvent then Some eid else origin_of cfg e) of
              None \<Rightarrow> Inl (GenericError (''Event does not contain saga origin for '' @ sg_descriptor cfg))
            | Some sagaOrigin \<Rightarrow> res_bind (makeSagaId (sg_descriptor cfg) sagaOrigin)
                (\<lambda>sid. Inr (isStarterEvent, sagaOrigin, sid)))))"

section \<open>Creating and restoring\<close>

definition alloc_saga :: "saga result \<Rightarrow> 'w saga_world \<Rightarrow> nat result \<times> 'w saga_world" where
  "alloc_saga r w = (case r of Inl e \<Rightarrow> (Inl e, w)
     | Inr s \<Rightarrow> (Inr (length (sagas w)), w\<lparr>sagas := sagas w @ [s]\<rparr>))"

definition createSaga :: "saga_cfg \<Rightarrow> string \<Rightarrow> 'w saga_world \<Rightarrow> nat result \<times> 'w saga_world" where
  "createSaga cfg sid w = alloc_saga (new_saga (sg_class cfg) (Some (IdStr sid)) (sg_state0 cfg) False) w"

definition restored_saga :: "'w saga_env \<Rightarrow> saga_cfg \<Rightarrow> string \<Rightarrow> event \<Rightarrow> 'w \<Rightarrow> saga result" where
  "restored_saga env cfg sid e w =
     res_bind (new_saga (sg_class cfg) (Some (IdStr sid)) (sg_state0 cfg) False) (\<lambda>s.
     res_bind (env_getSagaEvents env (IdStr sid) e w) (\<lambda>evs.
       case saga_mutate_all (sg_class cfg) evs s of (Inl err, _) \<Rightarrow> Inl err | (Inr _, s') \<Rightarrow> Inr s'))"

definition restoreSaga :: "'w saga_env \<Rightarrow> saga_cfg \<Rightarrow> string \<Rightarrow> event \<Rightarrow> 'w saga_world \<Rightarrow> nat result \<times> 'w saga_world" where
  "restoreSaga env cfg sid e w = alloc_saga (restored_saga env cfg sid e (sw_store w)) w"

definition saga_factory ::
  "'w saga_env \<Rightarrow> saga_cfg \<Rightarrow> bool \<Rightarrow> string \<Rightarrow> event \<Rightarrow> 'w saga_world \<Rightarrow> nat result \<times> 'w saga_world" where
  "saga_factory env cfg isStarterEvent sid e =
     (if isStarterEvent then createSaga cfg sid else restoreSaga env cfg sid e)"

section \<open>Sending the commands\<close>

definition decorate :: "saga_cfg \<Rightarrow> string \<Rightarrow> event \<Rightarrow> command \<Rightarrow> command" where
  "decorate cfg sagaOrigin e c =
     (let c1 = (if msg_context c = None \<and> msg_context e \<noteq> None then c\<lparr>msg_context := msg_context e\<rparr> else c)
      in if sagaOrigins c1 = None
         then c1\<lparr>sagaOrigins := Some (AList.update (sg_descriptor cfg) sagaOrigin
                (case sagaOrigins e of None \<Rightarrow> [] | Some os \<Rightarrow> os))\<rparr>
         else c1)"

primrec send_each ::
  "'w saga_env \<Rightarrow> saga_cfg \<Rightarrow> string \<Rightarrow> event \<Rightarrow> command list \<Rightarrow> ('w, unit) act" where
  "send_each env cfg sagaOrigin e [] w = (Inr (), w)"
| "send_each env cfg sagaOrigin e (c # cs) w = (case env_send env (decorate cfg sagaOrigin e c) w of
       (Inl err, w') \<Rightarrow> (Inl err, w')
     | (Inr _, w') \<Rightarrow> send_each env cfg sagaOrigin e cs w')"

section \<open>Handling an event\<close>

text \<open>The part under the lock: the saga handles the event, its commands are sent.\<close>

definition run_saga ::
  "'w saga_env \<Rightarrow> saga_cfg \<Rightarrow> string \<Rightarrow> event \<Rightarrow> nat \<Rightarrow> ('w saga_world, unit) act" where
  "run_saga env cfg sagaOrigin e ref w =
     (case saga_handle (sg_class cfg) e (sagas w ! ref) of
        (r, s') \<Rightarrow> (let w1 = w\<lparr>sagas := (sagas w)[ref := s']\<rparr>
          in case r of
               Inl err \<Rightarrow> (Inl err, w1)
             | Inr cs \<Rightarrow> (case send_each env cfg sagaOrigin e cs (sw_store w1) of
                 (r2, w2) \<Rightarrow> (r2, w1\<lparr>sw_store := w2\<rparr>))))"

text \<open>
  \<open>None\<close> is waiting for the saga's lock. The registration in the cache comes before the \<open>try\<close>
  whose \<open>finally\<close> gives it back, so a saga that could not be made leaves its registration, and
  the rejected promise, in the cache.
\<close>

definition saga_event_handle ::
  "'w saga_env \<Rightarrow> saga_cfg \<Rightarrow> event \<Rightarrow> 'w saga_handler_state \<Rightarrow>
   (unit result \<times> 'w saga_handler_state) option" where
  "saga_event_handle env cfg e st =
     (case saga_route cfg e of
        Inl err \<Rightarrow> Some (Inl err, st)
      | Inr (isStarterEvent, sagaOrigin, sid) \<Rightarrow>
          (case ma_assert sid (saga_factory env cfg isStarterEvent sid e) (sh_cache st, sh_world st) of
             (v, m, w) \<Rightarrow>
               (let st1 = st\<lparr>sh_cache := m, sh_world := w\<rparr>
                in case v of
                     None \<Rightarrow> Some (Inl (TypeError ''saga is undefined''), st1)
                   | Some (Inl err) \<Rightarrow> Some (Inl err, st1)
                   | Some (Inr ref) \<Rightarrow>
                       (case acquire_enter (lock_name (Some sid)) (sh_lock st1) of
                          (Holds n, l) \<Rightarrow>
                            (case run_saga env cfg sagaOrigin e ref (sh_world st1) of
                               (r, w2) \<Rightarrow> Some (r, st1\<lparr>sh_world := w2, sh_lock := release n l,
                                   sh_cache := ma_release sid (sh_cache st1)\<rparr>))
                        | _ \<Rightarrow> None))))"

section \<open>Routing is stable\<close>

lemma origin_of_Some: "origin_of cfg e = Some og \<longleftrightarrow> saga_origin e (sg_descriptor cfg) = Some og \<and> og \<noteq> []"
  by (auto simp: origin_of_def split: option.splits list.splits)

lemma saga_route_ok:
  "saga_route cfg e = Inr (st, og, sid) \<longleftrightarrow>
     msg_type e \<noteq> [] \<and> (\<exists>eid. event_id e = Some (IdStr eid) \<and> eid \<noteq> [] \<and> st = is_starter cfg e
       \<and> (st \<longrightarrow> origin_of cfg e = None \<and> og = eid) \<and> (\<not> st \<longrightarrow> origin_of cfg e = Some og))
     \<and> sg_descriptor cfg \<noteq> [] \<and> og \<noteq> [] \<and> sid = sg_descriptor cfg @ '':'' @ og"
  by (auto simp: saga_route_def assert_id_string_def Let_def split: if_splits option.splits ident.splits)

lemma decorate_origin:
  "sagaOrigins c = None \<Longrightarrow> saga_origin (decorate cfg og e c) (sg_descriptor cfg) = Some og"
  by (simp add: decorate_def saga_origin_def)

lemma decorate_keeps:
  "msg_type (decorate cfg og e c) = msg_type c" "aggregateId (decorate cfg og e c) = aggregateId c"
  "payload (decorate cfg og e c) = payload c"
  "msg_context (decorate cfg og e c) = (case msg_context c of None \<Rightarrow> msg_context e | Some x \<Rightarrow> Some x)"
  "d \<noteq> sg_descriptor cfg \<Longrightarrow> sagaOrigins c = None \<Longrightarrow> saga_origin (decorate cfg og e c) d = saga_origin e d"
  by (auto simp: decorate_def saga_origin_def split: option.splits)

lemma makeEvent_origin: "saga_origin (makeEvent t p (Some c) a) d = saga_origin c d"
  by (simp add: makeEvent_def saga_origin_def)

section \<open>The cache of sagas\<close>

text \<open>
  An event handled by a saga that could be made, whether it succeeds, the saga throws or a command
  is refused, gives its registration in the saga cache back: all sagas have as many users as before,
  and the same ones are cached.
\<close>

theorem saga_released:
  assumes "ma_inv (sh_cache st)" and "saga_route cfg e = Inr (b, og, sid)"
    and "ma_assert sid (saga_factory env cfg b sid e) (sh_cache st, sh_world st) = (Some (Inr ref), m, w)"
    and "saga_event_handle env cfg e st = Some (r, st')"
  shows "ma_inv (sh_cache st') \<and> (\<forall>j. usage (sh_cache st') j = usage (sh_cache st) j)
    \<and> (\<forall>j. ma_has (sh_cache st') j = ma_has (sh_cache st) j)"
proof -
  have "sh_cache st' = ma_release sid m"
    using assms(2-4) by (auto simp: saga_event_handle_def Let_def split: prod.splits task.splits)
  with ma.bracket_restores_users [OF assms(1,3)] show ?thesis by simp
qed

text \<open>A saga that cannot be restored: the failure stays in the cache.\<close>

lemma saga_failure_cached:
  assumes "\<not> ma_has (sh_cache st) sid" and "usage (sh_cache st) sid = 0"
    and "saga_route cfg e = Inr (b, og, sid)"
    and "saga_factory env cfg b sid e (sh_world st) = (Inl err, w)"
  shows "\<exists>st'. saga_event_handle env cfg e st = Some (Inl err, st')
    \<and> usage (sh_cache st') sid = 1 \<and> made (sh_cache st') sid = Some (Inl err)"
proof -
  have nf: "\<not> map_has (factories (sh_cache st)) sid" using assms(1) by (simp add: ma_has_def)
  then have "map_of (factories (sh_cache st)) sid = None" by (simp add: map_has_def)
  with assms nf show ?thesis
    by (simp add: saga_event_handle_def ma_assert_def ma_get_def Let_def made_def)
qed

lemma saga_failure_repeats:
  assumes "made (sh_cache st) sid = Some (Inl err)" and "saga_route cfg e = Inr (b, og, sid)"
  shows "\<exists>st'. saga_event_handle env cfg e st = Some (Inl err, st') \<and> sh_world st' = sh_world st
    \<and> usage (sh_cache st') sid = usage (sh_cache st) sid + 1 \<and> made (sh_cache st') sid = Some (Inl err)"
proof -
  note a = ma_assert_made [OF assms(1), of "saga_factory env cfg b sid e" "sh_world st"]
  have "made (sh_cache st\<lparr>usageCounter := AList.update sid (usage (sh_cache st) sid + 1) (usageCounter (sh_cache st))\<rparr>) sid
      = Some (Inl err)" using assms(1) by (simp add: made_def split: if_splits)
  with a assms(2) show ?thesis by (simp add: saga_event_handle_def)
qed

text \<open>
  C36: a saga's id comes back to it: an event that an aggregate emits while it handles a command the
  saga sent is routed to the saga that sent it, under the same origin, unless its type is one that
  starts sagas.
\<close>

theorem saga_events_return_to_saga:
  assumes "saga_route cfg e = Inr (st, og, sid)" and "sagaOrigins c = None"
    and "agg_command a = Some (decorate cfg og e c)" and "emit cls t p a = (Inr ev, a')" and "eid \<noteq> []"
    and "case sg_startsWith cfg of None \<Rightarrow> True | Some ts \<Rightarrow> t \<notin> set ts"
  shows "saga_route cfg (ev\<lparr>event_id := Some (IdStr eid)\<rparr>) = Inr (False, og, sid)"
proof -
  let ?ev = "ev\<lparr>event_id := Some (IdStr eid)\<rparr>"
  have ev: "ev = makeEvent t p (agg_command a) a" using emit_Inr [OF assms(4)] by simp
  then have type: "msg_type ?ev = t" by simp
  have "t \<noteq> []" using assms(4) by (auto simp: emit_def assertString_def)
  have route: "sg_descriptor cfg \<noteq> []" "og \<noteq> []" "sid = sg_descriptor cfg @ '':'' @ og"
    using assms(1) by (auto simp: saga_route_ok)
  have "saga_origin ?ev (sg_descriptor cfg) = saga_origin ev (sg_descriptor cfg)" by (simp add: saga_origin_def)
  with ev assms(3) decorate_origin [OF assms(2)] have "saga_origin ?ev (sg_descriptor cfg) = Some og"
    by (simp add: makeEvent_origin)
  with route(2) have og: "origin_of cfg ?ev = Some og" by (simp add: origin_of_Some)
  have "\<not> is_starter cfg ?ev" using og assms(6) type by (simp add: is_starter_def split: option.splits)
  with og route type \<open>t \<noteq> []\<close> assms(5) show ?thesis by (simp add: saga_route_ok)
qed

text \<open>
  A saga that could not be created or restored stays broken: the failure is what the caller gets,
  the registration is not given back, and every later event of the saga gets the same failure while
  it is kept, even after the cause is gone, with one more user each time.
\<close>

theorem saga_failure_is_final:
  assumes "\<not> ma_has (sh_cache st) sid" and "usage (sh_cache st) sid = 0"
    and "saga_route cfg e = Inr (b, og, sid)" and "saga_route cfg e' = Inr (b', og, sid)"
    and "saga_factory env cfg b sid e (sh_world st) = (Inl err, w)"
  shows "\<exists>st1 st2. saga_event_handle env cfg e st = Some (Inl err, st1) \<and> usage (sh_cache st1) sid = 1
    \<and> saga_event_handle env' cfg e' (st1\<lparr>sh_world := w'\<rparr>) = Some (Inl err, st2) \<and> usage (sh_cache st2) sid = 2"
proof -
  obtain st1 where st1: "saga_event_handle env cfg e st = Some (Inl err, st1)" "usage (sh_cache st1) sid = 1"
    "made (sh_cache st1) sid = Some (Inl err)" using saga_failure_cached [OF assms(1-3,5)] by blast
  have "made (sh_cache (st1\<lparr>sh_world := w'\<rparr>)) sid = Some (Inl err)" using st1(3) by simp
  from saga_failure_repeats [OF this assms(4)] st1 show ?thesis by fastforce
qed

section \<open>A small saga handler\<close>

definition demo_saga_cfg :: saga_cfg where
  "demo_saga_cfg = \<lparr>sg_class = demo_saga_class, sg_state0 = Some [], sg_startsWith = Some [''incremented''],
     sg_handles = [''renamed''], sg_descriptor = ''S''\<rparr>"

definition demo_saga_env :: "nat saga_env" where
  "demo_saga_env = \<lparr>env_getSagaEvents = \<lambda>i e n. if n = 0 then Inl (GenericError ''offline'') else Inr [],
     env_send = \<lambda>c n. (Inr (), n + 1)\<rparr>"

definition demo_saga_state :: "nat saga_handler_state" where
  "demo_saga_state = \<lparr>sh_cache = new_map_assertable, sh_lock = new_lock, sh_world = \<lparr>sw_store = 0, sagas = []\<rparr>\<rparr>"

lemma demo_cache: "ma_inv new_map_assertable" "\<not> ma_has new_map_assertable k" "usage new_map_assertable k = 0"
  by (simp_all add: new_map_assertable_def ma_inv_def ma_has_def map_has_def usage_def)

lemma demo_route_starter:
  "saga_route demo_saga_cfg (demo_event ''incremented'' ''a'' 0 ''e1'') = Inr (True, ''e1'', ''S:e1'')"
  by (simp add: saga_route_ok is_starter_def demo_saga_cfg_def origin_of_def saga_origin_def)

definition demo_origin_event :: event where
  "demo_origin_event = (demo_event ''renamed'' ''a'' 1 ''e2'')\<lparr>sagaOrigins := Some [(''S'', ''e1'')]\<rparr>"

lemma demo_route_origin: "saga_route demo_saga_cfg demo_origin_event = Inr (False, ''e1'', ''S:e1'')"
  by (simp add: saga_route_ok is_starter_def demo_saga_cfg_def origin_of_def saga_origin_def demo_origin_event_def)

lemma demo_saga_made:
  "ma_assert ''S:e1'' (saga_factory demo_saga_env demo_saga_cfg True ''S:e1'' (demo_event ''incremented'' ''a'' 0 ''e1''))
     (sh_cache demo_saga_state, sh_world demo_saga_state)
   = (Some (Inr 0), new_map_assertable\<lparr>entries := [(''S:e1'', Inr 0)], usageCounter := [(''S:e1'', 1)]\<rparr>,
      \<lparr>sw_store = 0, sagas = [\<lparr>saga_id = IdStr ''S:e1'', saga_version = 0, saga_state = Some [], messages = [], handling = False\<rparr>]\<rparr>)"
  by (simp add: demo_saga_state_def ma_assert_def ma_get_def ma_has_def map_has_def usage_def new_map_assertable_def
      saga_factory_def createSaga_def alloc_saga_def demo_saga_cfg_def demo_saga_defs demo_defs Let_def)

lemma saga_released_witness:
  "\<exists>r st'. saga_event_handle demo_saga_env demo_saga_cfg (demo_event ''incremented'' ''a'' 0 ''e1'') demo_saga_state = Some (r, st')
    \<and> (\<forall>j. usage (sh_cache st') j = 0)"
proof -
  have "acquire_enter (lock_name (Some ''S:e1'')) new_lock = (Holds (Some ''S:e1''), acquire_take (Some ''S:e1'') new_lock)"
    by (simp add: acquire_enter_def acquire_wait_def getAnyBlockingLock_def lock_name_def new_lock_def)
  moreover obtain r w where "run_saga demo_saga_env demo_saga_cfg ''e1'' (demo_event ''incremented'' ''a'' 0 ''e1'') 0
      \<lparr>sw_store = 0, sagas = [\<lparr>saga_id = IdStr ''S:e1'', saga_version = 0, saga_state = Some [], messages = [], handling = False\<rparr>]\<rparr>
      = (r, w)" by fastforce
  ultimately obtain r st' where h: "saga_event_handle demo_saga_env demo_saga_cfg (demo_event ''incremented'' ''a'' 0 ''e1'')
      demo_saga_state = Some (r, st')"
    using demo_saga_made by (simp add: saga_event_handle_def demo_route_starter demo_saga_state_def Let_def)
  have c: "sh_cache demo_saga_state = new_map_assertable" by (simp add: demo_saga_state_def)
  from saga_released [OF _ demo_route_starter demo_saga_made h] c h show ?thesis by (simp add: demo_cache)
qed

lemma saga_events_return_to_saga_witness:
  "\<exists>ev a'. emit demo_class ''renamed'' JUndef ((blank_aggregate (IdStr ''b'') (Some []))\<lparr>agg_command :=
        Some (decorate demo_saga_cfg ''e1'' (demo_event ''incremented'' ''a'' 0 ''e1'') (demo_command ''b''))\<rparr>) = (Inr ev, a')
    \<and> saga_route demo_saga_cfg (ev\<lparr>event_id := Some (IdStr ''e9'')\<rparr>) = Inr (False, ''e1'', ''S:e1'')"
proof -
  let ?a = "(blank_aggregate (IdStr ''b'') (Some []))\<lparr>agg_command :=
        Some (decorate demo_saga_cfg ''e1'' (demo_event ''incremented'' ''a'' 0 ''e1'') (demo_command ''b''))\<rparr>"
  obtain ev a' where e: "emit demo_class ''renamed'' JUndef ?a = (Inr ev, a')"
    by (simp add: demo_defs Let_def)
  have "case sg_startsWith demo_saga_cfg of None \<Rightarrow> True | Some ts \<Rightarrow> ''renamed'' \<notin> set ts" by (simp add: demo_saga_cfg_def)
  from saga_events_return_to_saga [OF demo_route_starter _ _ e _ this, of "demo_command ''b''" "''e9''"] e
  show ?thesis by (simp add: demo_command_def)
qed

lemma saga_failure_is_final_witness:
  "\<exists>st1 st2. saga_event_handle demo_saga_env demo_saga_cfg demo_origin_event demo_saga_state = Some (Inl (GenericError ''offline''), st1)
    \<and> saga_event_handle demo_saga_env demo_saga_cfg demo_origin_event (st1\<lparr>sh_world := \<lparr>sw_store = 1, sagas = []\<rparr>\<rparr>)
      = Some (Inl (GenericError ''offline''), st2) \<and> usage (sh_cache st2) ''S:e1'' = 2"
proof -
  have c: "\<not> ma_has (sh_cache demo_saga_state) ''S:e1''" "usage (sh_cache demo_saga_state) ''S:e1'' = 0"
    by (simp_all add: demo_saga_state_def demo_cache)
  have f: "saga_factory demo_saga_env demo_saga_cfg False ''S:e1'' demo_origin_event (sh_world demo_saga_state)
      = (Inl (GenericError ''offline''), sh_world demo_saga_state)"
    by (simp add: saga_factory_def restoreSaga_def restored_saga_def alloc_saga_def demo_saga_env_def demo_saga_state_def
        demo_saga_cfg_def demo_saga_defs demo_defs Let_def)
  from saga_failure_is_final [OF c demo_route_origin demo_route_origin f,
      where env' = demo_saga_env and w' = "\<lparr>sw_store = 1, sagas = []\<rparr>"]
  show ?thesis by blast
qed

end
