(* ===== verification/OverlappingSagas.thy ===== *)
theory OverlappingSagas
  imports UserDomain SagaHandler
begin

text \<open>
  The example \<open>examples/sagas-overlaps\<close>: two sagas started by the same event
  (\<open>WelcomeEmailSaga.ts\<close>, \<open>ProvisionTrialSaga.ts\<close>) and the aggregate between them
  (\<open>TrialAggregate.ts\<close>), over the saga handlers of \<open>SagaHandler\<close> and the in-memory event store.
\<close>

section \<open>The classes\<close>

text \<open>A handler that enqueues one command.\<close>

definition enqueue_only :: "string \<Rightarrow> jsval \<Rightarrow> saga_script" where
  "enqueue_only t p = Enqueue t None p (\<lambda>r. case r of Inl err \<Rightarrow> SagaFail err | Inr _ \<Rightarrow> SagaFinish)"

definition welcome_userCreated :: "event \<Rightarrow> saga_script" where
  "welcome_userCreated e = (case read_property (payload e) ''username'' of Inl err \<Rightarrow> SagaFail err
     | Inr u \<Rightarrow> enqueue_only ''sendWelcomeEmail'' (JObj [(''email'', u)]))"

definition WelcomeEmailSaga :: saga_class where
  "WelcomeEmailSaga = \<lparr>state_proto = [], run_state_fn = (\<lambda>h e. act_return ()),
     saga_chain = [[], methods [''userCreated'']], saga_startsWith = JUndef, saga_handles = JArr [JStr ''userCreated''],
     run_saga_fn = (\<lambda>h e s. welcome_userCreated e)\<rparr>"

definition provision_userCreated :: "event \<Rightarrow> saga_script" where
  "provision_userCreated e = (case read_property (payload e) ''username'' of Inl err \<Rightarrow> SagaFail err
     | Inr u \<Rightarrow> enqueue_only ''provisionTrial'' (JObj [(''email'', u)]))"

definition provision_trialProvisioned :: "event \<Rightarrow> saga_script" where
  "provision_trialProvisioned e = (case read_property (payload e) ''email'' of Inl err \<Rightarrow> SagaFail err
     | Inr m \<Rightarrow> enqueue_only ''sendWelcomeEmail'' (JObj [(''email'', m), (''reason'', JStr ''trialProvisioned'')]))"

definition ProvisionTrialSaga :: saga_class where
  "ProvisionTrialSaga = \<lparr>state_proto = [], run_state_fn = (\<lambda>h e. act_return ()),
     saga_chain = [[], methods [''userCreated'', ''trialProvisioned'']], saga_startsWith = JUndef,
     saga_handles = JArr [JStr ''userCreated'', JStr ''trialProvisioned''],
     run_saga_fn = (\<lambda>h e s. if method_name h = ''userCreated'' then provision_userCreated e else provision_trialProvisioned e)\<rparr>"

definition provisionTrial :: "jsval \<Rightarrow> script" where
  "provisionTrial p = (case read_property p ''email'' of Inl err \<Rightarrow> Fail err
     | Inr m \<Rightarrow> emit_only ''trialProvisioned'' (JObj [(''email'', m)]))"

text \<open>The aggregate has no state.\<close>

definition TrialAggregate :: aggregate_class where
  "TrialAggregate = \<lparr>state_proto = [], run_state_fn = (\<lambda>h e. act_return ()), agg_chain = [[], methods [''provisionTrial'']],
     agg_handles = JArr [JStr ''provisionTrial''], run_command_fn = (\<lambda>h p c cmd a. provisionTrial p),
     shouldTakeSnapshot = (\<lambda>_. False)\<rparr>"

text \<open>What \<open>register\<close> makes of the classes: the descriptor is the name, no type is a starter by name.\<close>

definition welcome_cfg :: saga_cfg where
  "welcome_cfg = \<lparr>sg_class = WelcomeEmailSaga, sg_state0 = None, sg_startsWith = None, sg_handles = [''userCreated''],
     sg_descriptor = ''WelcomeEmailSaga''\<rparr>"

definition provision_cfg :: saga_cfg where
  "provision_cfg = \<lparr>sg_class = ProvisionTrialSaga, sg_state0 = None, sg_startsWith = None,
     sg_handles = [''userCreated'', ''trialProvisioned''], sg_descriptor = ''ProvisionTrialSaga''\<rparr>"

text \<open>The event store in memory, and the commands sent.\<close>

definition overlap_env :: "(mem_world \<times> command list) saga_env" where
  "overlap_env = \<lparr>env_getSagaEvents = (\<lambda>i e w. store_getSagaEvents mem_reader (Some i) e (fst w)),
     env_send = (\<lambda>c w. (Inr (), fst w, snd w @ [c]))\<rparr>"

definition log_world :: "event list \<Rightarrow> mem_world" where
  "log_world es = \<lparr>w_storage = new_mem_storage\<lparr>events := es\<rparr>, w_snaps = []\<rparr>"

text \<open>A handler at which nothing is under way.\<close>

definition idle_at :: "'w \<Rightarrow> saga list \<Rightarrow> 'w saga_handler_state \<Rightarrow> bool" where
  "idle_at w ss st \<longleftrightarrow> sh_cache st = new_map_assertable \<and> globalLockAcquiringLock (sh_lock st) = None
     \<and> globalLock (sh_lock st) = None \<and> namedLocks (sh_lock st) = [] \<and> sh_world st = \<lparr>sw_store = w, sagas = ss\<rparr>"

definition new_handler_state :: "'w \<Rightarrow> 'w saga_handler_state" where
  "new_handler_state w = \<lparr>sh_cache = new_map_assertable, sh_lock = new_lock, sh_world = \<lparr>sw_store = w, sagas = []\<rparr>\<rparr>"

lemma new_handler_idle: "idle_at w [] (new_handler_state w)"
  by (simp add: idle_at_def new_handler_state_def new_lock_def)

section \<open>One event at an idle handler\<close>

lemma handled_when_idle:
  assumes "idle_at w ss st" "saga_route cfg e = Inr (b, og, sid)"
    and "saga_factory env cfg b sid e \<lparr>sw_store = w, sagas = ss\<rparr> = (Inr ref, w1)"
    and "run_saga env cfg og e ref w1 = (r, \<lparr>sw_store = w2, sagas = ss2\<rparr>)"
  shows "\<exists>st'. saga_event_handle env cfg e st = Some (r, st') \<and> idle_at w2 ss2 st'"
proof -
  have sid: "sid \<noteq> []" using assms(2) by (auto simp: saga_route_ok)
  have c: "sh_cache st = new_map_assertable" and w: "sh_world st = \<lparr>sw_store = w, sagas = ss\<rparr>"
    using assms(1) by (simp_all add: idle_at_def)
  let ?m = "new_map_assertable\<lparr>entries := [(sid, Inr ref)], usageCounter := [(sid, 1)]\<rparr>"
  have a: "ma_assert sid (saga_factory env cfg b sid e) (new_map_assertable, \<lparr>sw_store = w, sagas = ss\<rparr>) = (Some (Inr ref), ?m, w1)"
    using assms(3) by (simp add: ma_defs map_has_def new_map_assertable_def Let_def)
  have m: "ma_release sid ?m = new_map_assertable" by (simp add: ma_defs new_map_assertable_def)
  have l: "acquire_enter (lock_name (Some sid)) (sh_lock st) = (Holds (Some sid), acquire_take (Some sid) (sh_lock st))"
    using assms(1) sid by (simp add: idle_at_def acquire_enter_def acquire_wait_def getAnyBlockingLock_def lock_name_def)
  have "globalLockAcquiringLock (release (Some sid) (acquire_take (Some sid) (sh_lock st))) = None
      \<and> globalLock (release (Some sid) (acquire_take (Some sid) (sh_lock st))) = None
      \<and> namedLocks (release (Some sid) (acquire_take (Some sid) (sh_lock st))) = []"
    using assms(1) by (simp add: idle_at_def release_def acquire_take_def resolve_deferred_def)
  with a l m assms(2,4) show ?thesis by (simp add: saga_event_handle_def c w idle_at_def Let_def)
qed

text \<open>A saga without state whose handler enqueues one command.\<close>

definition new_command :: "string \<Rightarrow> jsval \<Rightarrow> command" where
  "new_command t p = \<lparr>msg_type = t, aggregateId = None, aggregateVersion = None, sagaOrigins = None, payload = p, msg_context = None\<rparr>"

lemma saga_handles_one:
  assumes "message_ok e" "\<not> handling s" "saga_state s = None" "getOptionalHandler (saga_chain cls) (msg_type e) = Inr (Some h)"
    and "\<And>x. run_saga_fn cls h e x = enqueue_only t p" "t \<noteq> []"
  shows "saga_handle cls e s = (Inr [new_command t p], s\<lparr>saga_version := saga_version s + 1, messages := [], handling := False\<rparr>)"
  using assms by (simp add: saga_handle_def enqueue_only_def enqueue_def enqueueRaw_def assertString_def message_ok_def
      saga_mutate_def new_command_def Let_def)

lemma one_command_sent:
  assumes "idle_at (w, sent) ss st" "saga_route cfg e = Inr (b, og, sid)"
    and "saga_factory overlap_env cfg b sid e \<lparr>sw_store = (w, sent), sagas = ss\<rparr> = (Inr (length ss), \<lparr>sw_store = (w, sent), sagas = ss @ [s0]\<rparr>)"
    and "saga_handle (sg_class cfg) e s0 = (Inr [c], s1)"
  shows "\<exists>st'. saga_event_handle overlap_env cfg e st = Some (Inr (), st') \<and> idle_at (w, sent @ [decorate cfg og e c]) (ss @ [s1]) st'"
  by (rule handled_when_idle [OF assms(1-3)]) (simp add: run_saga_def assms(4) overlap_env_def Let_def)

text \<open>The saga a starter makes.\<close>

definition blank_saga :: "string \<Rightarrow> saga" where
  "blank_saga sid = \<lparr>saga_id = IdStr sid, saga_version = 0, saga_state = None, messages = [], handling = False\<rparr>"

lemma sagas_made:
  assumes "sid \<noteq> []"
  shows "new_saga WelcomeEmailSaga (Some (IdStr sid)) None False = Inr (blank_saga sid)"
    "new_saga ProvisionTrialSaga (Some (IdStr sid)) None False = Inr (blank_saga sid)"
  using assms by (simp_all add: new_saga_def WelcomeEmailSaga_def ProvisionTrialSaga_def methods_def blank_saga_def
      assert_id_defined_def validateHandlers_def assertOptionalArray_def getHandler_def getOptionalHandler_def method_of_def
      assertString_def assertFunction_def)

text \<open>The event that starts both.\<close>

definition starts_both :: "string \<Rightarrow> event \<Rightarrow> bool" where
  "starts_both eid u \<longleftrightarrow> msg_type u = ''userCreated'' \<and> event_id u = Some (IdStr eid) \<and> eid \<noteq> [] \<and> CHR '':'' \<notin> set eid
     \<and> sagaOrigins u = None \<and> user_event u"

definition email_of :: "event \<Rightarrow> jsval" where
  "email_of u = js_get (payload u) ''username''"

lemma starter_route:
  assumes "starts_both eid u" "cfg = welcome_cfg \<or> cfg = provision_cfg"
  shows "saga_route cfg u = Inr (True, eid, sg_descriptor cfg @ '':'' @ eid)"
  using assms by (auto simp: saga_route_ok starts_both_def is_starter_def origin_of_def saga_origin_def welcome_cfg_def provision_cfg_def)

lemma starter_username: "starts_both eid u \<Longrightarrow> read_property (payload u) ''username'' = Inr (email_of u)"
  using user_payload_object by (auto simp: starts_both_def user_event_def read_property_def email_of_def)

lemma started:
  assumes "starts_both eid u" and "idle_at (w, sent) ss st"
  shows "\<exists>st'. saga_event_handle overlap_env welcome_cfg u st = Some (Inr (), st')
      \<and> idle_at (w, sent @ [decorate welcome_cfg eid u (new_command ''sendWelcomeEmail'' (JObj [(''email'', email_of u)]))])
          (ss @ [(blank_saga (''WelcomeEmailSaga:'' @ eid))\<lparr>saga_version := 1\<rparr>]) st'" (is ?W)
    and "\<exists>st'. saga_event_handle overlap_env provision_cfg u st = Some (Inr (), st')
      \<and> idle_at (w, sent @ [decorate provision_cfg eid u (new_command ''provisionTrial'' (JObj [(''email'', email_of u)]))])
          (ss @ [(blank_saga (''ProvisionTrialSaga:'' @ eid))\<lparr>saga_version := 1\<rparr>]) st'" (is ?P)
proof -
  have u: "message_ok u" "msg_type u = ''userCreated''" using assms(1) by (simp_all add: starts_both_def message_ok_def)
  have bl: "\<not> handling (blank_saga x)" "saga_state (blank_saga x) = None" for x by (simp_all add: blank_saga_def)
  have made: "(blank_saga x)\<lparr>saga_version := saga_version (blank_saga x) + 1, messages := [], handling := False\<rparr>
      = (blank_saga x)\<lparr>saga_version := 1\<rparr>" for x by (simp add: blank_saga_def)
  note once = saga_handles_one [OF u(1) bl, unfolded made]
  show ?W
  proof (rule one_command_sent [OF assms(2) starter_route [OF assms(1)]])
    show "saga_handle (sg_class welcome_cfg) u (blank_saga (''WelcomeEmailSaga:'' @ eid))
      = (Inr [new_command ''sendWelcomeEmail'' (JObj [(''email'', email_of u)])], (blank_saga (''WelcomeEmailSaga:'' @ eid))\<lparr>saga_version := 1\<rparr>)"
      by (rule once [where h = "JFun ''userCreated'' []"])
        (simp_all add: welcome_cfg_def WelcomeEmailSaga_def methods_def getOptionalHandler_def method_of_def assertString_def u(2)
          welcome_userCreated_def starter_username [OF assms(1)])
  qed (simp_all add: saga_factory_def createSaga_def alloc_saga_def welcome_cfg_def sagas_made)
  show ?P
  proof (rule one_command_sent [OF assms(2) starter_route [OF assms(1)]])
    show "saga_handle (sg_class provision_cfg) u (blank_saga (''ProvisionTrialSaga:'' @ eid))
      = (Inr [new_command ''provisionTrial'' (JObj [(''email'', email_of u)])], (blank_saga (''ProvisionTrialSaga:'' @ eid))\<lparr>saga_version := 1\<rparr>)"
      by (rule once [where h = "JFun ''userCreated'' []"])
        (simp_all add: provision_cfg_def ProvisionTrialSaga_def methods_def getOptionalHandler_def method_of_def assertString_def u(2)
          provision_userCreated_def starter_username [OF assms(1)])
  qed (simp_all add: saga_factory_def createSaga_def alloc_saga_def provision_cfg_def sagas_made)
qed

text \<open>The aggregate between the two steps of the second saga.\<close>

lemma trial_provisioned:
  assumes "msg_type c = ''provisionTrial''" "payload c = JObj [(''email'', m)]" "id_truthy i"
  shows "\<exists>t a. handle TrialAggregate c (blank_aggregate i None) = (Inr [t], a) \<and> msg_type t = ''trialProvisioned''
    \<and> payload t = JObj [(''email'', m)] \<and> sagaOrigins t = sagaOrigins c \<and> msg_context t = msg_context c"
  using assms by (simp add: handle_def message_ok_def TrialAggregate_def methods_def getHandler_def getOptionalHandler_def method_of_def
      assertString_def assertFunction_def provisionTrial_def read_property_def js_get_def assoc_get_def emit_only_def emit_def
      emitRaw_def assert_id_defined_def blank_aggregate_def mutate_def apply_event_def makeEvent_def SNAPSHOT_EVENT_TYPE_def
      getUncommittedEvents_def Let_def)

lemma provisioned:
  assumes u: "starts_both eid u" and t: "msg_type t = ''trialProvisioned''" "payload t = JObj [(''email'', m)]"
    "sagaOrigins t = Some [(''ProvisionTrialSaga'', eid)]" "event_id t = Some (IdStr tid)" "tid \<noteq> []" "tid \<noteq> eid"
    and st: "idle_at (log_world [u, t], sent) ss st"
  shows "\<exists>st' ss'. saga_event_handle overlap_env provision_cfg t st = Some (Inr (), st')
    \<and> idle_at (log_world [u, t], sent @ [decorate provision_cfg eid t
        (new_command ''sendWelcomeEmail'' (JObj [(''email'', m), (''reason'', JStr ''trialProvisioned'')]))]) ss' st'"
proof -
  let ?sid = "''ProvisionTrialSaga:'' @ eid"
  have eid: "eid \<noteq> []" "CHR '':'' \<notin> set eid" "event_id u = Some (IdStr eid)" "sagaOrigins u = None"
    using u by (simp_all add: starts_both_def)
  have og: "saga_origin t ''ProvisionTrialSaga'' = Some eid" using t(3) by (simp add: saga_origin_def)
  then have route: "saga_route provision_cfg t = Inr (False, eid, ?sid)"
    using eid t by (simp add: saga_route_ok is_starter_def origin_of_Some provision_cfg_def origin_of_def split: list.split)
  have "parseSagaId (IdStr ?sid) = Inr (''ProvisionTrialSaga'', eid)" using eid by (simp add: parseSagaId_ok)
  then have "store_getSagaEvents mem_reader (Some (IdStr ?sid)) t (log_world [u, t]) = Inr []"
    using og t eid by (simp add: store_getSagaEvents_def mem_reader_def assert_id_defined_def getSagaEvents_def assert_id_string_def
        log_world_def saga_origin_def)
  then have "restored_saga overlap_env provision_cfg ?sid t (log_world [u, t], sent) = Inr (blank_saga ?sid)"
    using sagas_made(2) [of ?sid] by (simp add: restored_saga_def overlap_env_def provision_cfg_def act_return_def)
  then have fac: "saga_factory overlap_env provision_cfg False ?sid t \<lparr>sw_store = (log_world [u, t], sent), sagas = ss\<rparr>
      = (Inr (length ss), \<lparr>sw_store = (log_world [u, t], sent), sagas = ss @ [blank_saga ?sid]\<rparr>)"
    by (simp add: saga_factory_def restoreSaga_def alloc_saga_def)
  have "saga_handle (sg_class provision_cfg) t (blank_saga ?sid) = (Inr [new_command ''sendWelcomeEmail''
      (JObj [(''email'', m), (''reason'', JStr ''trialProvisioned'')])],
      (blank_saga ?sid)\<lparr>saga_version := saga_version (blank_saga ?sid) + 1, messages := [], handling := False\<rparr>)"
    by (rule saga_handles_one [where h = "JFun ''trialProvisioned'' []"])
      (simp_all add: blank_saga_def message_ok_def provision_cfg_def ProvisionTrialSaga_def methods_def getOptionalHandler_def method_of_def
        assertString_def t provision_trialProvisioned_def read_property_def js_get_def assoc_get_def)
  from one_command_sent [OF st route fac this] show ?thesis by blast
qed

section \<open>The whole story\<close>

definition sent_by :: "(mem_world \<times> command list) saga_handler_state \<Rightarrow> command list" where
  "sent_by st = snd (sw_store (sh_world st))"

definition with_log :: "event list \<Rightarrow> (mem_world \<times> command list) saga_handler_state \<Rightarrow> (mem_world \<times> command list) saga_handler_state" where
  "with_log es st = st\<lparr>sh_world := (sh_world st)\<lparr>sw_store := (log_world es, sent_by st)\<rparr>\<rparr>"

definition asks :: "command \<Rightarrow> string \<Rightarrow> (string \<times> jsval) list \<Rightarrow> string \<Rightarrow> string \<Rightarrow> bool" where
  "asks c t ps d eid \<longleftrightarrow> msg_type c = t \<and> payload c = JObj ps \<and> sagaOrigins c = Some [(d, eid)]"

lemma with_log_idle: "idle_at (w, sent) ss st \<Longrightarrow> idle_at (log_world es, sent) ss (with_log es st)"
  by (simp add: idle_at_def with_log_def sent_by_def)

lemma decorated_asks:
  "sagaOrigins e = None \<Longrightarrow> asks (decorate cfg eid e (new_command t (JObj ps))) t ps (sg_descriptor cfg) eid"
  "sagaOrigins e = Some [(sg_descriptor cfg, eid)] \<Longrightarrow> asks (decorate cfg eid e (new_command t (JObj ps))) t ps (sg_descriptor cfg) eid"
  by (simp_all add: asks_def decorate_def new_command_def)

text \<open>
  C37: two sagas started by one event do not get into each other's way. Each sends its own command,
  which carries the saga's own origin and no other; the event that an aggregate emits for the
  command of the second saga is of no type the first one subscribes to, and is routed back to the
  second, which is restored from the store and sends its next command, for the same user and under the
  same origin.
\<close>

theorem overlapping_sagas:
  assumes "starts_both eid u" "id_truthy i" "tid \<noteq> []" "tid \<noteq> eid"
  shows "\<exists>stw stp stp' c1 c2 c3 t a.
    saga_event_handle overlap_env welcome_cfg u (new_handler_state (log_world [u], [])) = Some (Inr (), stw)
    \<and> sent_by stw = [c1] \<and> asks c1 ''sendWelcomeEmail'' [(''email'', email_of u)] ''WelcomeEmailSaga'' eid
    \<and> saga_event_handle overlap_env provision_cfg u (new_handler_state (log_world [u], [])) = Some (Inr (), stp)
    \<and> sent_by stp = [c2] \<and> asks c2 ''provisionTrial'' [(''email'', email_of u)] ''ProvisionTrialSaga'' eid
    \<and> handle TrialAggregate c2 (blank_aggregate i None) = (Inr [t], a) \<and> msg_type t \<notin> set (subscribed_types welcome_cfg)
    \<and> saga_event_handle overlap_env provision_cfg (t\<lparr>event_id := Some (IdStr tid)\<rparr>) (with_log [u, t\<lparr>event_id := Some (IdStr tid)\<rparr>] stp) = Some (Inr (), stp')
    \<and> sent_by stp' = [c2, c3]
    \<and> asks c3 ''sendWelcomeEmail'' [(''email'', email_of u), (''reason'', JStr ''trialProvisioned'')] ''ProvisionTrialSaga'' eid"
proof -
  let ?new = "new_handler_state (log_world [u], [])"
  have u: "sagaOrigins u = None" using assms(1) by (simp add: starts_both_def)
  let ?c1 = "decorate welcome_cfg eid u (new_command ''sendWelcomeEmail'' (JObj [(''email'', email_of u)]))"
  let ?c2 = "decorate provision_cfg eid u (new_command ''provisionTrial'' (JObj [(''email'', email_of u)]))"
  have c1: "asks ?c1 ''sendWelcomeEmail'' [(''email'', email_of u)] ''WelcomeEmailSaga'' eid"
    using decorated_asks(1) [OF u, of welcome_cfg] by (simp add: welcome_cfg_def)
  have c2: "asks ?c2 ''provisionTrial'' [(''email'', email_of u)] ''ProvisionTrialSaga'' eid"
    using decorated_asks(1) [OF u, of provision_cfg] by (simp add: provision_cfg_def)
  from started(1) [OF assms(1) new_handler_idle [of "(log_world [u], [])"]] obtain stw where
    w: "saga_event_handle overlap_env welcome_cfg u ?new = Some (Inr (), stw)" "sent_by stw = [?c1]"
    by (auto simp: idle_at_def sent_by_def)
  from started(2) [OF assms(1) new_handler_idle [of "(log_world [u], [])"]] obtain stp ss where
    p: "saga_event_handle overlap_env provision_cfg u ?new = Some (Inr (), stp)" and idle: "idle_at (log_world [u], [?c2]) ss stp"
    by auto
  then have sp: "sent_by stp = [?c2]" by (simp add: idle_at_def sent_by_def)
  from c2 trial_provisioned [OF _ _ assms(2), of ?c2 "email_of u"] obtain t a where
    h: "handle TrialAggregate ?c2 (blank_aggregate i None) = (Inr [t], a)" and t: "msg_type t = ''trialProvisioned''"
    "payload t = JObj [(''email'', email_of u)]" "sagaOrigins t = Some [(''ProvisionTrialSaga'', eid)]"
    by (auto simp: asks_def)
  let ?t = "t\<lparr>event_id := Some (IdStr tid)\<rparr>"
  let ?c3 = "decorate provision_cfg eid ?t (new_command ''sendWelcomeEmail'' (JObj [(''email'', email_of u), (''reason'', JStr ''trialProvisioned'')]))"
  have t': "msg_type ?t = ''trialProvisioned''" "payload ?t = JObj [(''email'', email_of u)]"
    "sagaOrigins ?t = Some [(''ProvisionTrialSaga'', eid)]" "event_id ?t = Some (IdStr tid)" using t by simp_all
  from provisioned [OF assms(1) t' assms(3,4) with_log_idle [OF idle]] obtain stp' ss' where
    q: "saga_event_handle overlap_env provision_cfg ?t (with_log [u, ?t] stp) = Some (Inr (), stp')"
    and "idle_at (log_world [u, ?t], [?c2] @ [?c3]) ss' stp'" by blast
  then have sq: "sent_by stp' = [?c2, ?c3]" by (simp add: idle_at_def sent_by_def)
  have c3: "asks ?c3 ''sendWelcomeEmail'' [(''email'', email_of u), (''reason'', JStr ''trialProvisioned'')] ''ProvisionTrialSaga'' eid"
    using decorated_asks(2) [of ?t provision_cfg eid] t'(3) by (simp add: provision_cfg_def)
  have "msg_type t \<notin> set (subscribed_types welcome_cfg)" by (simp add: t(1) subscribed_types_def welcome_cfg_def)
  with w c1 p sp c2 h q sq c3 show ?thesis by blast
qed

lemma overlapping_sagas_witness:
  "\<exists>stw c. saga_event_handle overlap_env welcome_cfg
      (demo_user_event ''userCreated'' 0 [(''username'', JStr ''john''), (''passwordHash'', JStr ''h'')])
      (new_handler_state (log_world [demo_user_event ''userCreated'' 0 [(''username'', JStr ''john''), (''passwordHash'', JStr ''h'')]], []))
      = Some (Inr (), stw) \<and> sent_by stw = [c] \<and> payload c = JObj [(''email'', JStr ''john'')]"
proof -
  let ?u = "demo_user_event ''userCreated'' 0 [(''username'', JStr ''john''), (''passwordHash'', JStr ''h'')]"
  have s: "starts_both ''userCreated'' ?u"
    by (simp add: starts_both_def demo_user_event_def demo_event_def user_event_def assoc_get_def)
  have e: "email_of ?u = JStr ''john''" by (simp add: email_of_def demo_user_event_def js_get_def assoc_get_def)
  from overlapping_sagas [OF s, of "IdStr ''t1''" "''e2''"] show ?thesis unfolding e asks_def by auto
qed

end
