(* ===== verification/FrameworkFree.thy ===== *)
theory FrameworkFree
  imports UserDomain
begin

text \<open>
  \<open>examples/user-domain-framework-free/index.ts\<close>: the user domain on a store, a command handler and
  a projection of its own, without lock, versions and lockers. Commands and the restoring of the
  view advance from one \<open>await\<close> to the next while others do. What its store reads is what the in-memory
  storage of the framework reads; what the missing parts cost is shown at the end.
\<close>

section \<open>Aggregate, projection, store\<close>

text \<open>The state of \<open>UserAggregate\<close> is its \<open>passwordHash\<close>.\<close>

definition free_mutate :: "event \<Rightarrow> jsval \<Rightarrow> jsval result" where
  "free_mutate e h = (if msg_type e = ''userCreated'' \<or> msg_type e = ''userPasswordChanged''
     then read_property (payload e) ''passwordHash'' else Inr h)"

definition free_event :: "string \<Rightarrow> ident option \<Rightarrow> (string \<times> jsval) list \<Rightarrow> event" where
  "free_event t aid ps = \<lparr>msg_type = t, aggregateId = aid, aggregateVersion = None, sagaOrigins = None, payload = JObj ps,
     msg_context = None, event_id = None\<rparr>"

definition free_createUser :: "(string \<Rightarrow> string) \<Rightarrow> ident option \<Rightarrow> jsval \<Rightarrow> event list result" where
  "free_createUser dg aid p = res_bind (read_property p ''username'') (\<lambda>u.
     res_bind (digest_of dg p ''password'') (\<lambda>h.
     Inr [free_event ''userCreated'' aid [(''username'', u), (''passwordHash'', h)]]))"

definition free_changePassword :: "(string \<Rightarrow> string) \<Rightarrow> ident option \<Rightarrow> jsval \<Rightarrow> jsval \<Rightarrow> event list result" where
  "free_changePassword dg aid h p = res_bind (digest_of dg p ''oldPassword'') (\<lambda>old.
     if \<not> strict_equal old h then Inl (GenericError ''Old password is incorrect'')
     else res_bind (digest_of dg p ''newPassword'') (\<lambda>new.
       Inr [free_event ''userPasswordChanged'' aid [(''passwordHash'', new)]]))"

definition free_handle :: "(string \<Rightarrow> string) \<Rightarrow> jsval \<Rightarrow> command \<Rightarrow> event list result" where
  "free_handle dg h cmd = (if msg_type cmd = ''createUser'' then free_createUser dg (aggregateId cmd) (payload cmd)
     else if msg_type cmd = ''changePassword'' then free_changePassword dg (aggregateId cmd) h (payload cmd)
     else Inl (TypeError ''this[command.type] is not a function''))"

definition free_userCreated :: "event \<Rightarrow> (users_view, unit) act" where
  "free_userCreated e v = users_set e v"

definition free_getEventsByTypes :: "string list \<Rightarrow> event list \<Rightarrow> event list" where
  "free_getEventsByTypes ts es = filter (\<lambda>e. msg_type e \<in> set ts) es"

definition free_getAggregateEvents :: "ident option \<Rightarrow> event list \<Rightarrow> event list" where
  "free_getAggregateEvents aid es = filter (\<lambda>e. aggregateId e = aid) es"

text \<open>The descriptor ends at the first colon.\<close>

definition free_getSagaEvents :: "ident \<Rightarrow> event list \<Rightarrow> event list" where
  "free_getSagaEvents sid es = (case sid of
       IdStr s \<Rightarrow> if CHR '':'' \<notin> set s then []
         else filter (\<lambda>e. saga_origin e (takeWhile (\<lambda>c. c \<noteq> CHR '':'') s) = Some (tl (dropWhile (\<lambda>c. c \<noteq> CHR '':'') s))) es
     | _ \<Rightarrow> [])"

section \<open>The running program\<close>

text \<open>
  A command under way with the old events still to be applied and the state so far; the events
  a restoring of the view has still to project.
\<close>

record free_system =
  fr_events :: "event list"
  fr_view :: users_view
  fr_replay :: "event list"
  fr_tasks :: "nat \<Rightarrow> (command \<times> event list \<times> jsval) option"

definition free_start :: free_system where
  "free_start = \<lparr>fr_events = [], fr_view = [], fr_replay = [], fr_tasks = (\<lambda>_. None)\<rparr>"

text \<open>\<open>emit\<close> calls the projection at once; an error of its handler comes out of \<open>commitEvents\<close>.\<close>

primrec free_emit_all :: "event list \<Rightarrow> (users_view, unit) act" where
  "free_emit_all [] = act_return ()"
| "free_emit_all (e # es) = act_bind (if msg_type e = ''userCreated'' then free_userCreated e else act_return ()) (\<lambda>_. free_emit_all es)"

definition free_commitEvents :: "event list \<Rightarrow> free_system \<Rightarrow> free_system" where
  "free_commitEvents evs s = s\<lparr>fr_events := fr_events s @ evs, fr_view := snd (free_emit_all evs (fr_view s))\<rparr>"

definition free_pass :: "nat \<Rightarrow> command \<Rightarrow> free_system \<Rightarrow> free_system" where
  "free_pass t cmd s = s\<lparr>fr_tasks := (fr_tasks s)(t \<mapsto> (cmd, free_getAggregateEvents (aggregateId cmd) (fr_events s), JUndef))\<rparr>"

definition free_advance :: "(string \<Rightarrow> string) \<Rightarrow> nat \<Rightarrow> free_system \<Rightarrow> free_system" where
  "free_advance dg t s = (case fr_tasks s t of
       None \<Rightarrow> s
     | Some (cmd, e # es, h) \<Rightarrow> (case free_mutate e h of
           Inl err \<Rightarrow> s\<lparr>fr_tasks := (fr_tasks s)(t := None)\<rparr>
         | Inr h' \<Rightarrow> s\<lparr>fr_tasks := (fr_tasks s)(t \<mapsto> (cmd, es, h'))\<rparr>)
     | Some (cmd, [], h) \<Rightarrow> (let s1 = s\<lparr>fr_tasks := (fr_tasks s)(t := None)\<rparr>
         in case free_handle dg h cmd of Inl err \<Rightarrow> s1 | Inr evs \<Rightarrow> free_commitEvents evs s1))"

definition free_restore :: "free_system \<Rightarrow> free_system" where
  "free_restore s = s\<lparr>fr_replay := free_getEventsByTypes [''userCreated''] (fr_events s)\<rparr>"

definition free_replay :: "free_system \<Rightarrow> free_system" where
  "free_replay s = (case fr_replay s of [] \<Rightarrow> s
     | e # es \<Rightarrow> (case free_userCreated e (fr_view s) of
         (Inl err, v) \<Rightarrow> s\<lparr>fr_view := v, fr_replay := []\<rparr> | (Inr _, v) \<Rightarrow> s\<lparr>fr_view := v, fr_replay := es\<rparr>))"

inductive free_step :: "(string \<Rightarrow> string) \<Rightarrow> free_system \<Rightarrow> free_system \<Rightarrow> bool" for dg where
  free_commanded: "msg_type cmd \<in> {''createUser'', ''changePassword''} \<Longrightarrow> fr_tasks s t = None \<Longrightarrow> free_step dg s (free_pass t cmd s)"
| free_advanced: "free_step dg s (free_advance dg t s)"
| free_restored: "free_step dg s (free_restore s)"
| free_replayed: "free_step dg s (free_replay s)"

inductive free_run :: "(string \<Rightarrow> string) \<Rightarrow> free_system \<Rightarrow> free_system \<Rightarrow> bool" for dg s where
  free_run_none: "free_run dg s s"
| free_run_more: "free_run dg s u \<Longrightarrow> free_step dg u v \<Longrightarrow> free_run dg s v"

section \<open>Its store reads as the framework's\<close>

theorem free_store_reads:
  "Inr (free_getEventsByTypes ts (events s)) = getEventsByTypes ts None s"
  "free_getAggregateEvents (Some i) (events s) = getAggregateEvents i \<lparr>q_snapshot = None, q_eventTypes = None, tail_last = False\<rparr> s"
  by (simp_all add: getEventsByTypes_all free_getEventsByTypes_def free_getAggregateEvents_def getAggregateEvents_eq
      aggregate_stream_def newer_than_def of_types_def)

section \<open>What the view shows\<close>

definition free_created :: "event list \<Rightarrow> event list" where
  "free_created es = filter (\<lambda>e. msg_type e = ''userCreated'') es"

definition record_of :: "event \<Rightarrow> jsval" where
  "record_of e = JObj [(''username'', js_get (payload e) ''username'')]"

text \<open>
  Every creation has an object as payload; the view has a record for exactly the users that were
  created, each with the name of one of the user's creations.
\<close>

definition free_inv :: "free_system \<Rightarrow> bool" where
  "free_inv s \<longleftrightarrow> (\<forall>e \<in> set (free_created (fr_events s)). \<exists>ps. payload e = JObj ps)
     \<and> set (fr_replay s) \<subseteq> set (free_created (fr_events s))
     \<and> (\<forall>i. map_of (fr_view s) i = None \<longleftrightarrow> i \<notin> aggregateId ` set (free_created (fr_events s)))
     \<and> (\<forall>i r. map_of (fr_view s) i = Some r \<longrightarrow> (\<exists>e \<in> set (free_created (fr_events s)). aggregateId e = i \<and> r = record_of e))"

lemma free_userCreated_object: "payload e = JObj ps \<Longrightarrow> free_userCreated e v = (Inr (), AList.update (aggregateId e) (record_of e) v)"
  by (simp add: free_userCreated_def users_set_def read_property_def record_of_def)

lemma free_handle_one:
  assumes "free_handle dg h cmd = Inr evs"
  shows "\<exists>e ps. evs = [e] \<and> payload e = JObj ps"
  using assms by (auto simp: free_handle_def free_createUser_def free_changePassword_def free_event_def split: if_splits)

lemma free_commit_inv:
  assumes "free_inv s" "payload e = JObj ps"
  shows "free_inv (free_commitEvents [e] s)"
proof (cases "msg_type e = ''userCreated''")
  case True
  then have s: "fr_view (free_commitEvents [e] s) = AList.update (aggregateId e) (record_of e) (fr_view s)"
    "free_created (fr_events (free_commitEvents [e] s)) = free_created (fr_events s) @ [e]" "fr_replay (free_commitEvents [e] s) = fr_replay s"
    using assms(2) by (simp_all add: free_commitEvents_def free_userCreated_object act_return_def act_bind_def free_created_def)
  show ?thesis using assms unfolding free_inv_def s by auto
next
  case False
  then have "fr_view (free_commitEvents [e] s) = fr_view s" "free_created (fr_events (free_commitEvents [e] s)) = free_created (fr_events s)"
    "fr_replay (free_commitEvents [e] s) = fr_replay s"
    by (simp_all add: free_commitEvents_def act_return_def act_bind_def free_created_def)
  with assms(1) show ?thesis by (simp add: free_inv_def)
qed

lemma free_step_inv:
  assumes "free_step dg s t" and inv: "free_inv s"
  shows "free_inv t"
  using assms(1)
proof cases
  case (free_commanded cmd k)
  with inv show ?thesis by (simp add: free_pass_def free_inv_def)
next
  case (free_advanced k)
  show ?thesis
  proof (cases "fr_tasks s k")
    case (Some x)
    obtain cmd es h where x: "x = (cmd, es, h)" by (rule prod_cases3)
    have s1: "free_inv (s\<lparr>fr_tasks := ts\<rparr>)" for ts using inv by (simp add: free_inv_def)
    show ?thesis
    proof (cases es)
      case Nil
      show ?thesis
      proof (cases "free_handle dg h cmd")
        case (Inr evs)
        with free_handle_one obtain e ps where e: "evs = [e]" "payload e = JObj ps" by blast
        from free_commit_inv [OF s1 e(2)] Inr e(1) Nil Some x free_advanced show ?thesis by (simp add: free_advance_def)
      qed (use free_advanced Some x Nil s1 in \<open>simp add: free_advance_def\<close>)
    qed (use free_advanced Some x s1 in \<open>simp add: free_advance_def split: sum.split\<close>)
  qed (use free_advanced inv in \<open>simp add: free_advance_def\<close>)
next
  case free_restored
  have "set (free_getEventsByTypes [''userCreated''] (fr_events s)) \<subseteq> set (free_created (fr_events s))"
    by (auto simp: free_getEventsByTypes_def free_created_def)
  with inv free_restored show ?thesis by (simp add: free_restore_def free_inv_def)
next
  case free_replayed
  show ?thesis
  proof (cases "fr_replay s")
    case (Cons e es)
    then have e: "e \<in> set (free_created (fr_events s))" using inv by (auto simp: free_inv_def)
    with inv obtain ps where "payload e = JObj ps" unfolding free_inv_def by blast
    from free_userCreated_object [OF this] Cons free_replayed
    have t: "t = s\<lparr>fr_view := AList.update (aggregateId e) (record_of e) (fr_view s), fr_replay := es\<rparr>" by (simp add: free_replay_def)
    show ?thesis using inv e Cons unfolding free_inv_def t by auto
  qed (use free_replayed inv in \<open>simp add: free_replay_def\<close>)
qed

lemma free_run_inv: "free_run dg s t \<Longrightarrow> free_inv s \<Longrightarrow> free_inv t"
  by (induction rule: free_run.induct) (auto intro: free_step_inv)

text \<open>
  However commands and a restoring of the view interleave, the view has a record for exactly the
  users in the log, and for a user created once it is the one of that creation.
\<close>

theorem free_view_complete:
  assumes "free_run dg free_start s"
  shows "(map_of (fr_view s) i = None \<longleftrightarrow> i \<notin> aggregateId ` set (free_created (fr_events s)))
    \<and> (\<forall>e. {x \<in> set (free_created (fr_events s)). aggregateId x = i} = {e} \<longrightarrow> map_of (fr_view s) i = Some (record_of e))"
proof -
  have inv: "free_inv s" by (rule free_run_inv [OF assms]) (simp add: free_inv_def free_start_def free_created_def)
  have none: "map_of (fr_view s) i = None \<longleftrightarrow> i \<notin> aggregateId ` set (free_created (fr_events s))"
    using inv unfolding free_inv_def by blast
  have "map_of (fr_view s) i = Some (record_of e)" if e: "{x \<in> set (free_created (fr_events s)). aggregateId x = i} = {e}" for e
  proof -
    from e have "i \<in> aggregateId ` set (free_created (fr_events s))" by auto
    with none obtain r where r: "map_of (fr_view s) i = Some r" by auto
    with inv obtain x where x: "x \<in> set (free_created (fr_events s))" "aggregateId x = i" "r = record_of x" unfolding free_inv_def by blast
    with e have "x = e" by blast
    with r x(3) show ?thesis by simp
  qed
  with none show ?thesis by blast
qed

section \<open>What the lock and the versions are for\<close>

definition free_command :: "string \<Rightarrow> (string \<times> jsval) list \<Rightarrow> command" where
  "free_command t ps = \<lparr>msg_type = t, aggregateId = Some (IdStr ''1''), aggregateVersion = None, sagaOrigins = None,
     payload = JObj ps, msg_context = None\<rparr>"

definition change_from :: "string \<Rightarrow> string \<Rightarrow> command" where
  "change_from old new = free_command ''changePassword'' [(''oldPassword'', JStr old), (''newPassword'', JStr new)]"

text \<open>Two changes of one password that both start before the first has stored its event.\<close>

definition overlapping_changes :: "(string \<Rightarrow> string) \<Rightarrow> string \<Rightarrow> string \<Rightarrow> string \<Rightarrow> free_system" where
  "overlapping_changes dg p q1 q2 = free_advance dg 2 (free_advance dg 1 (free_advance dg 2 (free_advance dg 1
     (free_pass 2 (change_from p q2) (free_pass 1 (change_from p q1) (free_advance dg 0
     (free_pass 0 (free_command ''createUser'' [(''username'', JStr ''John''), (''password'', JStr p)]) free_start)))))))"

text \<open>
  Without them both changes are accepted, although the second names a password that is no longer
  the user's when its event is stored.
\<close>

theorem both_changes_accepted:
  "free_run dg free_start (overlapping_changes dg p q1 q2)
    \<and> map (\<lambda>e. js_get (payload e) ''passwordHash'') (fr_events (overlapping_changes dg p q1 q2)) = [JStr (dg p), JStr (dg q1), JStr (dg q2)]"
proof
  let ?c = "free_command ''createUser'' [(''username'', JStr ''John''), (''password'', JStr p)]"
  note defs = free_advance_def free_pass_def free_handle_def free_command_def change_from_def free_createUser_def
    free_changePassword_def digest_of_def read_property_def js_get_def assoc_get_def free_commitEvents_def free_event_def
    free_getAggregateEvents_def free_mutate_def strict_equal_def free_userCreated_def users_set_def act_bind_def act_return_def
  define s1 where "s1 = free_advance dg 0 (free_pass 0 ?c free_start)"
  have s1: "fr_tasks s1 = (\<lambda>_. None)"
    "fr_events s1 = [free_event ''userCreated'' (Some (IdStr ''1'')) [(''username'', JStr ''John''), (''passwordHash'', JStr (dg p))]]"
    by (simp_all add: s1_def free_start_def defs fun_eq_iff)
  have o: "overlapping_changes dg p q1 q2 = free_advance dg 2 (free_advance dg 1 (free_advance dg 2 (free_advance dg 1
     (free_pass 2 (change_from p q2) (free_pass 1 (change_from p q1) s1)))))"
    by (simp add: overlapping_changes_def s1_def)
  have "free_run dg free_start (free_pass 0 ?c free_start)"
    by (rule free_run_more [OF free_run_none free_commanded]) (simp_all add: free_command_def free_start_def)
  then have r1: "free_run dg free_start s1" unfolding s1_def by (rule free_run_more [OF _ free_advanced])
  have "free_run dg free_start (free_pass 1 (change_from p q1) s1)"
    by (rule free_run_more [OF r1 free_commanded]) (simp_all add: change_from_def free_command_def s1)
  then have "free_run dg free_start (free_pass 2 (change_from p q2) (free_pass 1 (change_from p q1) s1))"
    by (rule free_run_more [OF _ free_commanded]) (simp_all add: change_from_def free_command_def s1 free_pass_def)
  then show "free_run dg free_start (overlapping_changes dg p q1 q2)"
    unfolding o by (intro free_run_more [OF _ free_advanced])
  show "map (\<lambda>e. js_get (payload e) ''passwordHash'') (fr_events (overlapping_changes dg p q1 q2)) = [JStr (dg p), JStr (dg q1), JStr (dg q2)]"
    unfolding o by (simp add: s1 defs)
qed

end
