(* ===== verification/Pipelining.thy ===== *)
theory Pipelining
  imports EventStore "HOL-Library.Multiset"
begin

text \<open>
  Batches that overlap in one \<open>src/EventDispatchPipeline.ts\<close>. The package
  \<open>async-parallel-pipe\<close> runs the envelopes of a stage concurrently and hands them on in the order
  they came; which of several envelopes advances when is left open here. \<open>Pipeline\<close> has the way of one
  envelope. The publications under way, which \<open>drain\<close> waits for, are part of the state.
\<close>

section \<open>State and steps\<close>

text \<open>A batch pushed, its envelope, and the number of stages it has passed.\<close>

record item =
  it_events :: "event list"
  it_env :: batch_envelope
  it_stage :: nat

record 'w piping =
  pp_items :: "item list"
  pp_consumed :: nat
  pp_outcomes :: "outcome list"
  pp_published :: "event list"
  pp_pending :: "event list"
  pp_world :: 'w

definition init_piping :: "'w \<Rightarrow> 'w piping" where
  "init_piping w = \<lparr>pp_items = [], pp_consumed = 0, pp_outcomes = [], pp_published = [], pp_pending = [], pp_world = w\<rparr>"

definition pp_push :: "event list \<Rightarrow> dispatch_meta option \<Rightarrow> 'w piping \<Rightarrow> 'w piping" where
  "pp_push evs meta s = s\<lparr>pp_items := pp_items s @ [\<lparr>it_events = evs,
     it_env = \<lparr>env_data = map (make_envelope meta) evs, env_error = None\<rparr>, it_stage = 0\<rparr>]\<rparr>"

text \<open>An envelope passes its next stage.\<close>

definition pp_process :: "'w processor list \<Rightarrow> nat \<Rightarrow> 'w piping \<Rightarrow> 'w piping" where
  "pp_process ps k s = (let it = pp_items s ! k in
     case stage (ps ! it_stage it) (it_env it, pp_world s) of
       (env, w) \<Rightarrow> s\<lparr>pp_items := (pp_items s)[k := it\<lparr>it_env := env, it_stage := it_stage it + 1\<rparr>], pp_world := w\<rparr>)"

text \<open>The consumer takes the next envelope, once it has come through.\<close>

definition pp_consume :: "(event \<Rightarrow> unit result) \<Rightarrow> 'w processor list \<Rightarrow> 'w piping \<Rightarrow> 'w piping" where
  "pp_consume pub ps s = (case consume pub ps (it_env (pp_items s ! pp_consumed s), pp_world s) of
     (out, evs, w) \<Rightarrow> s\<lparr>pp_consumed := pp_consumed s + 1, pp_outcomes := pp_outcomes s @ [out],
       pp_published := pp_published s @ evs, pp_pending := pp_pending s @ evs, pp_world := w\<rparr>)"

text \<open>A publication has come to an end; those \<open>drain\<close> waits for.\<close>

definition pp_settle :: "event \<Rightarrow> 'w piping \<Rightarrow> 'w piping" where
  "pp_settle e s = s\<lparr>pp_pending := remove1 e (pp_pending s)\<rparr>"

definition pp_drain :: "'w piping \<Rightarrow> event list" where
  "pp_drain s = pp_pending s"

text \<open>\<open>may\<close> are the batches that are dispatched.\<close>

inductive pp_step ::
  "(event \<Rightarrow> unit result) \<Rightarrow> 'w processor list \<Rightarrow> (event list \<Rightarrow> bool) \<Rightarrow> 'w piping \<Rightarrow> 'w piping \<Rightarrow> bool"
  for pub ps may where
  step_push: "may evs \<Longrightarrow> pp_step pub ps may s (pp_push evs meta s)"
| step_process: "k < length (pp_items s) \<Longrightarrow> it_stage (pp_items s ! k) < length ps \<Longrightarrow>
     pp_step pub ps may s (pp_process ps k s)"
| step_consume: "pp_consumed s < length (pp_items s) \<Longrightarrow> it_stage (pp_items s ! pp_consumed s) = length ps \<Longrightarrow>
     pp_step pub ps may s (pp_consume pub ps s)"
| step_settle: "e \<in> set (pp_pending s) \<Longrightarrow> pp_step pub ps may s (pp_settle e s)"

inductive pp_run ::
  "(event \<Rightarrow> unit result) \<Rightarrow> 'w processor list \<Rightarrow> (event list \<Rightarrow> bool) \<Rightarrow> 'w piping \<Rightarrow> 'w piping \<Rightarrow> bool"
  for pub ps may s where
  pp_run_none: "pp_run pub ps may s s"
| pp_run_more: "pp_run pub ps may s u \<Longrightarrow> pp_step pub ps may u v \<Longrightarrow> pp_run pub ps may s v"

section \<open>The default pipeline\<close>

definition no_snapshots :: "event list \<Rightarrow> event list" where
  "no_snapshots = filter (\<lambda>e. \<not> isSnapshotEvent e)"

lemma no_snapshots_append [simp]: "no_snapshots (xs @ ys) = no_snapshots xs @ no_snapshots ys"
  by (simp add: no_snapshots_def)

text \<open>What an item's envelope holds after each of the two stages.\<close>

definition item_ok :: "item \<Rightarrow> bool" where
  "item_ok it \<longleftrightarrow> it_stage it \<le> 2 \<and> (\<exists>m.
     (it_stage it \<le> 1 \<longrightarrow> env_data (it_env it) = map (make_envelope m) (it_events it))
     \<and> (it_stage it = 0 \<longrightarrow> env_error (it_env it) = None)
     \<and> (it_stage it = 2 \<and> env_error (it_env it) = None \<longrightarrow>
          env_data (it_env it) = filter (\<lambda>b. \<not> env_is_snapshot b) (map (make_envelope m) (it_events it))))"

text \<open>The events an item has in the log and not yet on the bus.\<close>

definition kept_back :: "item \<Rightarrow> event list" where
  "kept_back it = (if 1 \<le> it_stage it \<and> env_error (it_env it) = None then no_snapshots (it_events it) else [])"

definition in_flight :: "'w piping \<Rightarrow> event multiset" where
  "in_flight s = (\<Sum>it \<leftarrow> drop (pp_consumed s) (pp_items s). mset (kept_back it))"

definition answers :: "item \<Rightarrow> outcome \<Rightarrow> bool" where
  "answers it out \<longleftrightarrow> out = Resolved (no_snapshots (it_events it)) \<or> (\<exists>e. out = Rejected e)"

definition ids_given :: "event list \<Rightarrow> bool" where
  "ids_given evs \<longleftrightarrow> evs \<noteq> [] \<and> list_all (\<lambda>e. isSnapshotEvent e \<longrightarrow> opt_id_truthy (aggregateId e)) evs"

definition piping_inv :: "event list \<Rightarrow> mem_world piping \<Rightarrow> bool" where
  "piping_inv log0 s \<longleftrightarrow> list_all (\<lambda>it. item_ok it \<and> ids_given (it_events it)) (pp_items s)
     \<and> pp_consumed s \<le> length (pp_items s)
     \<and> list_all (\<lambda>it. it_stage it = 2) (take (pp_consumed s) (pp_items s))
     \<and> list_all2 answers (take (pp_consumed s) (pp_items s)) (pp_outcomes s)
     \<and> pp_published s = concat (map resolved_events (pp_outcomes s))
     \<and> mset (no_snapshots (events (w_storage (pp_world s)))) = mset (no_snapshots log0) + mset (pp_published s) + in_flight s"

lemma sum_update:
  fixes f :: "'a \<Rightarrow> 'b multiset"
  assumes "k < length xs"
  shows "(\<Sum>x \<leftarrow> xs[k := y]. f x) + f (xs ! k) = (\<Sum>x \<leftarrow> xs. f x) + f y"
  using assms
proof (induction xs arbitrary: k)
  case (Cons x xs)
  show ?case
  proof (cases k)
    case (Suc j)
    with Cons.IH [of j] Cons.prems show ?thesis by (simp add: add.assoc)
  qed (simp add: ac_simps)
qed simp

lemma two_stages [simp]: "length default_processors = 2" "default_processors ! 0 = storage_processor" "default_processors ! Suc 0 = snapshot_processor"
  by (simp_all add: default_processors_def)

text \<open>What a stage does to an item and to the log.\<close>

lemma stage_item:
  assumes ok: "item_ok it" "ids_given (it_events it)" and n: "it_stage it < 2"
    and st: "stage (default_processors ! it_stage it) (it_env it, w) = (env, w')"
  defines "it' \<equiv> it\<lparr>it_env := env, it_stage := it_stage it + 1\<rparr>"
  shows "item_ok it' \<and> mset (no_snapshots (events (w_storage w'))) + mset (kept_back it)
    = mset (no_snapshots (events (w_storage w))) + mset (kept_back it')"
proof (cases "env_error (it_env it)")
  case (Some e)
  with st have "env = it_env it" "w' = w" by (simp_all add: stage_error)
  with ok n Some show ?thesis by (auto simp: it'_def item_ok_def kept_back_def)
next
  case None
  obtain m where m: "env_data (it_env it) = map (make_envelope m) (it_events it)" using ok(1) n by (auto simp: item_ok_def)
  have "it_stage it = 0 \<or> it_stage it = 1" using n by auto
  then show ?thesis
  proof
    assume z: "it_stage it = 0"
    obtain r t where c: "storage_process (map (make_envelope m) (it_events it)) (w_storage w) = (r, t)" by fastforce
    show ?thesis
    proof (cases r)
      case (Inl e)
      with storage_process_Inl c have "t = w_storage w" by blast
      with st None m z c Inl have "env = (it_env it)\<lparr>env_error := Some e\<rparr>" "w' = w"
        by (simp_all add: stage_def storage_processor_def on_storage_def)
      with m z show ?thesis by (auto simp: it'_def item_ok_def kept_back_def)
    next
      case (Inr bt)
      with c have bt: "bt = map (make_envelope m) (it_events it)" "events t = events (w_storage w) @ it_events it"
        by (auto simp: storage_process_Inr commitEvents_ok)
      with st None m z c Inr have "env = it_env it" "w' = w\<lparr>w_storage := t\<rparr>"
        by (auto simp: stage_def storage_processor_def on_storage_def)
      with m z bt(2) None show ?thesis by (auto simp: it'_def item_ok_def kept_back_def)
    qed
  next
    assume o: "it_stage it = 1"
    have "\<forall>e \<in> set (filter isSnapshotEvent (it_events it)). \<forall>s. \<exists>s'. saveAggregateSnapshot e s = (Inr (), s')"
      using ok(2) by (auto simp: ids_given_def list_all_iff save_ok opt_id_truthy_def split: option.splits)
    from for_events_total [OF this, of "w_snaps w"] obtain s2 where
      "for_events saveAggregateSnapshot (filter isSnapshotEvent (it_events it)) (w_snaps w) = (Inr (), s2)" by (elim exE)
    then have "snapshot_process (map (make_envelope m) (it_events it)) (w_snaps w)
        = (Inr (filter (\<lambda>b. \<not> env_is_snapshot b) (map (make_envelope m) (it_events it))), s2)"
      by (simp add: snapshot_process_Inr)
    with st None m o have "env = (it_env it)\<lparr>env_data := filter (\<lambda>b. \<not> env_is_snapshot b) (map (make_envelope m) (it_events it))\<rparr>"
      "w' = w\<lparr>w_snaps := s2\<rparr>"
      by (simp_all add: stage_def snapshot_processor_def on_snaps_def)
    with m o None show ?thesis by (auto simp: it'_def item_ok_def kept_back_def)
  qed
qed

text \<open>Consuming an item that has passed both stages.\<close>

lemma consume_item:
  assumes pub: "\<forall>e. pub e = Inr ()" and ok: "item_ok it" and n: "it_stage it = 2"
    and co: "consume pub default_processors (it_env it, w) = (out, evs, w')"
  shows "answers it out \<and> evs = resolved_events out \<and> evs = kept_back it \<and> w_storage w' = w_storage w"
proof (cases "env_error (it_env it)")
  case (Some e)
  with co show ?thesis
    by (auto simp: consume_def revert_default on_snaps_def answers_def kept_back_def split: prod.splits sum.splits)
next
  case None
  with ok n obtain m where
    m: "env_data (it_env it) = filter (\<lambda>b. \<not> env_is_snapshot b) (map (make_envelope m) (it_events it))"
    by (auto simp: item_ok_def)
  then have "publishable (env_data (it_env it)) = no_snapshots (it_events it)"
    by (simp only: publishable_non_snapshots publishable_envelopes no_snapshots_def)
  with None n co show ?thesis
    by (auto simp: consume_def publish_loop_all [OF pub] answers_def kept_back_def)
qed

section \<open>The invariant\<close>

lemma inv_init: "piping_inv (events (w_storage w)) (init_piping w)"
  by (simp add: piping_inv_def init_piping_def in_flight_def)

lemma inv_push:
  assumes "piping_inv log0 s" "ids_given evs"
  shows "piping_inv log0 (pp_push evs meta s)"
proof -
  have "item_ok \<lparr>it_events = evs, it_env = \<lparr>env_data = map (make_envelope meta) evs, env_error = None\<rparr>, it_stage = 0\<rparr>"
    by (auto simp: item_ok_def)
  with assms show ?thesis by (simp add: piping_inv_def pp_push_def in_flight_def kept_back_def)
qed

lemma move_over:
  fixes a b :: "'a multiset"
  assumes "a + x = b + y" and "r + x = f + y" and "b = c + f"
  shows "a = c + r"
proof -
  have "a + x = c + (r + x)" using assms by (simp add: add.assoc)
  then have "a + x = (c + r) + x" by (simp add: add.assoc)
  then show ?thesis by (simp only: add_right_cancel)
qed

lemma inv_process:
  assumes inv: "piping_inv log0 s" and k: "k < length (pp_items s)" and st: "it_stage (pp_items s ! k) < 2"
  shows "piping_inv log0 (pp_process default_processors k s)"
proof -
  define it where "it = pp_items s ! k"
  obtain env w where e: "stage (default_processors ! it_stage it) (it_env it, pp_world s) = (env, w)" by fastforce
  define it' where "it' = it\<lparr>it_env := env, it_stage := it_stage it + 1\<rparr>"
  have p: "pp_process default_processors k s = s\<lparr>pp_items := (pp_items s)[k := it'], pp_world := w\<rparr>"
    using e by (simp add: pp_process_def Let_def it'_def it_def)
  have its: "item_ok it" "ids_given (it_events it)"
    using inv k by (simp_all add: piping_inv_def it_def list_all_length)
  have item: "item_ok it'" and log: "mset (no_snapshots (events (w_storage w))) + mset (kept_back it)
      = mset (no_snapshots (events (w_storage (pp_world s)))) + mset (kept_back it')"
    using stage_item [OF its _ e] st by (simp_all add: it_def it'_def)
  have all: "list_all (\<lambda>it. item_ok it \<and> ids_given (it_events it)) ((pp_items s)[k := it'])"
    using inv item its(2) k by (simp add: piping_inv_def list_all_length nth_list_update it'_def)
  have n: "pp_consumed s \<le> k"
  proof (rule ccontr)
    assume "\<not> ?thesis"
    with inv k have "it_stage (pp_items s ! k) = 2" by (auto simp: piping_inv_def list_all_length)
    with st show False by simp
  qed
  define rest where "rest = (\<Sum>it \<leftarrow> drop (pp_consumed s) ((pp_items s)[k := it']). mset (kept_back it))"
  have "rest + mset (kept_back it) = in_flight s + mset (kept_back it')"
    using sum_update [of "k - pp_consumed s" "drop (pp_consumed s) (pp_items s)" "\<lambda>it. mset (kept_back it)" it'] n k
    by (simp add: rest_def in_flight_def drop_update_swap it_def)
  moreover have "mset (no_snapshots (events (w_storage (pp_world s)))) =
      mset (no_snapshots log0) + mset (pp_published s) + in_flight s" using inv by (simp add: piping_inv_def)
  ultimately have "mset (no_snapshots (events (w_storage w))) = mset (no_snapshots log0) + mset (pp_published s) + rest"
    by (rule move_over [OF log])
  moreover have "take (pp_consumed s) ((pp_items s)[k := it']) = take (pp_consumed s) (pp_items s)" using n by simp
  ultimately show ?thesis
    using inv all unfolding p piping_inv_def in_flight_def rest_def by (elim conjE, intro conjI) simp_all
qed

lemma inv_consume:
  assumes pub: "\<forall>e. pub e = Inr ()" and inv: "piping_inv log0 s"
    and k: "pp_consumed s < length (pp_items s)" and st: "it_stage (pp_items s ! pp_consumed s) = 2"
  shows "piping_inv log0 (pp_consume pub default_processors s)"
proof -
  define it where "it = pp_items s ! pp_consumed s"
  obtain out evs w where c: "consume pub default_processors (it_env it, pp_world s) = (out, evs, w)"
    using prod_cases3 by blast
  have its: "item_ok it" "it_stage it = 2" using inv k st by (simp_all add: piping_inv_def it_def list_all_length)
  note ci = consume_item [OF pub its c]
  have p: "pp_consume pub default_processors s = s\<lparr>pp_consumed := pp_consumed s + 1, pp_outcomes := pp_outcomes s @ [out],
       pp_published := pp_published s @ evs, pp_pending := pp_pending s @ evs, pp_world := w\<rparr>"
    using c by (simp add: pp_consume_def it_def)
  have t: "take (Suc (pp_consumed s)) (pp_items s) = take (pp_consumed s) (pp_items s) @ [it]"
    using k by (simp add: take_Suc_conv_app_nth it_def)
  have d: "drop (pp_consumed s) (pp_items s) = it # drop (Suc (pp_consumed s)) (pp_items s)"
    using k by (simp add: Cons_nth_drop_Suc it_def)
  have ek: "evs = kept_back it" using ci by (elim conjE)
  have f: "in_flight s = mset evs + (\<Sum>it \<leftarrow> drop (Suc (pp_consumed s)) (pp_items s). mset (kept_back it))"
    unfolding in_flight_def d ek by simp
  have a: "list_all2 answers (take (pp_consumed s) (pp_items s) @ [it]) (pp_outcomes s @ [out])"
    using inv ci by (intro list_all2_appendI) (simp_all add: piping_inv_def)
  have w: "w_storage w = w_storage (pp_world s)" and e: "evs = resolved_events out" using ci by simp_all
  have "mset (no_snapshots (events (w_storage w))) = mset (no_snapshots log0) + mset (pp_published s @ evs)
      + (\<Sum>it \<leftarrow> drop (Suc (pp_consumed s)) (pp_items s). mset (kept_back it))"
    using inv unfolding piping_inv_def f w by (simp add: add.assoc)
  with inv a k its(2) show ?thesis
    unfolding p piping_inv_def in_flight_def by (elim conjE, intro conjI) (simp_all add: t e del: mset_append)
qed

lemma inv_settle: "piping_inv log0 s \<Longrightarrow> piping_inv log0 (pp_settle e s)"
  by (simp add: piping_inv_def pp_settle_def in_flight_def)

text \<open>Only publications that were made are waited for.\<close>

lemma pending_run:
  assumes "pp_run pub ps may s0 s" and "mset (pp_pending s0) \<subseteq># mset (pp_published s0)"
  shows "mset (pp_pending s) \<subseteq># mset (pp_published s)"
  using assms
proof induction
  case (pp_run_more u v)
  then have u: "mset (pp_pending u) \<subseteq># mset (pp_published u)" by simp
  from pp_run_more.hyps(2) show ?case
  proof cases
    case (step_push evs meta)
    with u show ?thesis by (simp add: pp_push_def)
  next
    case (step_process k)
    with u show ?thesis by (simp add: pp_process_def Let_def split: prod.splits)
  next
    case step_consume
    with u show ?thesis by (simp add: pp_consume_def split: prod.splits)
  next
    case (step_settle e)
    have "mset (remove1 e (pp_pending u)) \<subseteq># mset (pp_pending u)" by simp
    with u have "mset (remove1 e (pp_pending u)) \<subseteq># mset (pp_published u)" by (rule subset_mset.order_trans [rotated])
    with step_settle show ?thesis by (simp add: pp_settle_def)
  qed
qed simp

lemma inv_run:
  assumes pub: "\<forall>e. pub e = Inr ()" and may: "\<And>evs. may evs \<Longrightarrow> ids_given evs"
    and run: "pp_run pub default_processors may s0 s" and inv: "piping_inv log0 s0"
  shows "piping_inv log0 s"
  using run inv
proof induction
  case (pp_run_more u v)
  then have u: "piping_inv log0 u" by simp
  from pp_run_more.hyps(2) show ?case
  proof cases
    case (step_push evs meta)
    then show ?thesis using inv_push [OF u may] by simp
  next
    case (step_process k)
    then show ?thesis using inv_process [OF u] by simp
  next
    case step_consume
    then show ?thesis using inv_consume [OF pub u] by simp
  next
    case (step_settle e)
    then show ?thesis using inv_settle [OF u] by simp
  qed
qed

text \<open>
  C3: however the batches dispatched by several callers overlap in the pipeline, every batch is answered in
  the order it was pushed, either with its events or with an error; the bus gets exactly the events
  of the batches that were answered with their events, in that order; and the event log holds, beside what it held
  before, exactly those events and the ones of batches still on their way, snapshots aside: no event is published
  that is not stored, and once all batches are consumed none is stored that is not published.
\<close>

theorem published_iff_stored:
  assumes pub: "\<forall>e. pub e = Inr ()" and may: "\<And>evs. may evs \<Longrightarrow> ids_given evs"
    and run: "pp_run pub default_processors may (init_piping w0) s"
  shows "list_all2 answers (take (pp_consumed s) (pp_items s)) (pp_outcomes s)
    \<and> pp_published s = concat (map resolved_events (pp_outcomes s))
    \<and> mset (pp_drain s) \<subseteq># mset (pp_published s)
    \<and> mset (no_snapshots (events (w_storage (pp_world s)))) =
        mset (no_snapshots (events (w_storage w0))) + mset (pp_published s)
        + (\<Sum>it \<leftarrow> drop (pp_consumed s) (pp_items s). mset (kept_back it))"
proof -
  have "mset (pp_drain s) \<subseteq># mset (pp_published s)"
    unfolding pp_drain_def by (rule pending_run [OF run]) (simp add: init_piping_def)
  moreover have "piping_inv (events (w_storage w0)) s" by (rule inv_run [OF pub _ run inv_init]) (rule may)
  ultimately show ?thesis unfolding piping_inv_def in_flight_def by (elim conjE) (intro conjI)
qed

text \<open>
  Three batches overlap: two with the same version, of which the second is refused while the first is
  still to be consumed, and one that is in the log when the first is published.
\<close>

definition overlap_demo :: "mem_world piping" where
  "overlap_demo = (let ps = default_processors; pub = \<lambda>_. Inr () in
     pp_settle (demo_event ''T'' ''a'' 1 ''e2'')
     (pp_consume pub ps (pp_consume pub ps (pp_process ps 1 (pp_process ps 2 (pp_process ps 0 (pp_process ps 1 (pp_process ps 0
       (pp_push [demo_event ''T'' ''a'' 2 ''e4''] None
       (pp_push [demo_event ''T'' ''a'' 1 ''e3''] None
       (pp_push [demo_event ''T'' ''a'' 1 ''e2''] None (init_piping demo_world))))))))))))"

lemma overlap_run:
  "pp_run (\<lambda>_. Inr ()) default_processors ids_given (init_piping demo_world) overlap_demo"
  unfolding overlap_demo_def Let_def
  apply (rule pp_run_more [OF _ step_settle])
  apply (rule pp_run_more [OF _ step_consume])
  apply (rule pp_run_more [OF _ step_consume])
  apply (rule pp_run_more [OF _ step_process])+
  apply (rule pp_run_more [OF _ step_push])+
  apply (rule pp_run_none)
  by code_simp+

lemma published_iff_stored_witness:
  "list_all2 answers (take 2 (pp_items overlap_demo)) (pp_outcomes overlap_demo)
    \<and> pp_published overlap_demo = [demo_event ''T'' ''a'' 1 ''e2'']
    \<and> mset (no_snapshots (events (w_storage (pp_world overlap_demo)))) =
        {#demo_event ''T'' ''a'' 0 ''e1'', demo_event ''T'' ''a'' 1 ''e2'', demo_event ''T'' ''a'' 2 ''e4''#}"
proof -
  have c: "pp_consumed overlap_demo = 2" by code_simp
  have p: "pp_published overlap_demo = [demo_event ''T'' ''a'' 1 ''e2'']" by code_simp
  have l: "no_snapshots (events (w_storage demo_world)) = [demo_event ''T'' ''a'' 0 ''e1'']" by code_simp
  have "map kept_back (drop 2 (pp_items overlap_demo)) = [[demo_event ''T'' ''a'' 2 ''e4'']]" by code_simp
  then have "sum_list (map mset (map kept_back (drop 2 (pp_items overlap_demo)))) = {#demo_event ''T'' ''a'' 2 ''e4''#}"
    by (simp only:) simp
  then have k: "(\<Sum>it \<leftarrow> drop 2 (pp_items overlap_demo). mset (kept_back it)) = {#demo_event ''T'' ''a'' 2 ''e4''#}"
    by (simp add: comp_def)
  have "list_all2 answers (take (pp_consumed overlap_demo) (pp_items overlap_demo)) (pp_outcomes overlap_demo)
    \<and> pp_published overlap_demo = concat (map resolved_events (pp_outcomes overlap_demo))
    \<and> mset (pp_drain overlap_demo) \<subseteq># mset (pp_published overlap_demo)
    \<and> mset (no_snapshots (events (w_storage (pp_world overlap_demo)))) =
        mset (no_snapshots (events (w_storage demo_world))) + mset (pp_published overlap_demo)
        + (\<Sum>it \<leftarrow> drop (pp_consumed overlap_demo) (pp_items overlap_demo). mset (kept_back it))"
    by (rule published_iff_stored [OF _ _ overlap_run]) simp_all
  then show ?thesis unfolding c l p k by (elim conjE, intro conjI) simp_all
qed

end
