(* ===== verification/SqliteEventStorage.thy ===== *)
theory SqliteEventStorage
  imports EventLockers Consistency
begin

text \<open>
  The event storage on SQLite (\<open>src/sqlite/SqliteEventStorage.ts\<close>). A row's rowid is its place in
  the table, counted from one: rows are only ever appended, and a transaction that fails leaves
  the tables as they were. Ids are stored as the bytes of their hexadecimal text, the rest of an
  event as JSON, its saga origins in a table of their own. The storage keeps the contract of
  \<open>event_log\<close>, and reads like the in-memory storage.
\<close>

section \<open>Tables\<close>

record event_row =
  r_id :: "nat list"
  r_aggregate_id :: "nat list option"
  r_aggregate_version :: "int option"
  r_type :: string
  r_data :: event
  r_meta :: "jsval option"

record sqlite_events =
  tbl_events :: "event_row list"
  tbl_event_sagas :: "(string \<times> nat list \<times> nat list) list"

definition new_sqlite_events :: sqlite_events where
  "new_sqlite_events = \<lparr>tbl_events = [], tbl_event_sagas = []\<rparr>"

text \<open>\<open>bufferToGuid\<close>: lower case hexadecimal text without dashes.\<close>

definition hex_char :: "nat \<Rightarrow> char" where
  "hex_char n = ''0123456789abcdef'' ! n"

definition bufferToGuid :: "nat list \<Rightarrow> string" where
  "bufferToGuid buf = concat (map (\<lambda>b. [hex_char (b div 16), hex_char (b mod 16)]) buf)"

definition sqlite_getNewId :: "string \<Rightarrow> string" where
  "sqlite_getNewId randomUUID = filter (\<lambda>c. c \<noteq> CHR ''-'') randomUUID"

section \<open>Statements\<close>

definition insertEventQuery :: "event_row \<Rightarrow> (sqlite_events, unit) act" where
  "insertEventQuery row db = (if list_ex (\<lambda>r. r_id r = r_id row) (tbl_events db)
     then (Inl (GenericError ''UNIQUE constraint failed: tbl_events.id''), db)
     else (Inr (), db\<lparr>tbl_events := tbl_events db @ [row]\<rparr>))"

definition insertSagaRefQuery :: "string \<Rightarrow> nat list \<Rightarrow> nat list \<Rightarrow> (sqlite_events, unit) act" where
  "insertSagaRefQuery descriptor originId eventId db =
     (if List.member (tbl_event_sagas db) (descriptor, originId, eventId)
      then (Inl (GenericError ''UNIQUE constraint failed: tbl_event_sagas''), db)
      else (Inr (), db\<lparr>tbl_event_sagas := tbl_event_sagas db @ [(descriptor, originId, eventId)]\<rparr>))"

definition checkConcurrencyQuery :: "nat list \<Rightarrow> int \<Rightarrow> sqlite_events \<Rightarrow> bool" where
  "checkConcurrencyQuery aggId ver db =
     list_ex (\<lambda>r. r_aggregate_id r = Some aggId \<and> r_aggregate_version r = Some ver) (tbl_events db)"

definition getRowidQuery :: "nat list \<Rightarrow> sqlite_events \<Rightarrow> nat option" where
  "getRowidQuery i db = map_option Suc (findIndex (\<lambda>r. r_id r = i) (tbl_events db))"

definition getAggregateEventsQuery ::
  "nat list \<Rightarrow> int option \<Rightarrow> string list option \<Rightarrow> bool \<Rightarrow> sqlite_events \<Rightarrow> event_row list" where
  "getAggregateEventsQuery aggId afterVersion eventTypes tail db =
     (let own = filter (\<lambda>r. r_aggregate_id r = Some aggId \<and> (case afterVersion of None \<Rightarrow> True
            | Some v \<Rightarrow> (case r_aggregate_version r of None \<Rightarrow> False | Some w \<Rightarrow> v < w))) (tbl_events db)
      in if own = [] then []
         else filter (\<lambda>r. (case eventTypes of None \<Rightarrow> True | Some ts \<Rightarrow> r_type r \<in> set ts)
           \<or> tail \<and> r_id r = r_id (last own)) own)"

definition getSagaEventsQuery :: "string \<Rightarrow> nat list \<Rightarrow> nat \<Rightarrow> nat \<Rightarrow> sqlite_events \<Rightarrow> event_row list" where
  "getSagaEventsQuery sagaDescriptor originId originRowid beforeRowid db =
     map snd (filter (\<lambda>(rowid, r). originRowid \<le> rowid \<and> rowid < beforeRowid \<and>
         (r_id r = originId \<or> (sagaDescriptor, originId, r_id r) \<in> set (tbl_event_sagas db)))
       (enumerate 1 (tbl_events db)))"

definition getSagaRefsQuery :: "nat list \<Rightarrow> sqlite_events \<Rightarrow> (string \<times> nat list) list" where
  "getSagaRefsQuery eventId db =
     map (\<lambda>(d, oid, e). (d, oid)) (filter (\<lambda>(d, oid, e). e = eventId) (tbl_event_sagas db))"

definition getEventsByTypesQuery :: "nat \<Rightarrow> sqlite_events \<Rightarrow> event_row list" where
  "getEventsByTypesQuery afterRowid db = drop afterRowid (tbl_events db)"

section \<open>Committing\<close>

definition event_row_of :: "(int \<Rightarrow> string) \<Rightarrow> jsval option \<Rightarrow> string \<Rightarrow> event \<Rightarrow> event_row" where
  "event_row_of dt metaJson i e = \<lparr>r_id = guid (IdStr i), r_aggregate_id = map_option guid (aggregateId e),
     r_aggregate_version = aggregateVersion e, r_type = msg_type e,
     r_data = (json_event dt e)\<lparr>event_id := None, sagaOrigins := None\<rparr>, r_meta = metaJson\<rparr>"

primrec insert_saga_refs :: "(string \<times> string) list \<Rightarrow> nat list \<Rightarrow> (sqlite_events, unit) act" where
  "insert_saga_refs [] eventId = act_return ()"
| "insert_saga_refs (x # os) eventId =
     act_bind (insertSagaRefQuery (fst x) (guid (IdStr (snd x))) eventId) (\<lambda>_. insert_saga_refs os eventId)"

definition version_conflict :: "event \<Rightarrow> sqlite_events \<Rightarrow> (ident \<times> int) option" where
  "version_conflict e db = (case (aggregateId e, aggregateVersion e) of
       (Some a, Some v) \<Rightarrow> if id_truthy a \<and> checkConcurrencyQuery (guid a) v db then Some (a, v) else None
     | _ \<Rightarrow> None)"

definition sqlite_commit_one :: "(int \<Rightarrow> string) \<Rightarrow> jsval option \<Rightarrow> bool \<Rightarrow> event \<Rightarrow> (sqlite_events, unit) act" where
  "sqlite_commit_one dt metaJson ignoreConc e db =
     (case (if ignoreConc then None else version_conflict e db) of
        Some (a, v) \<Rightarrow> (Inl (duplicate_error a v), db)
      | None \<Rightarrow> (case assert_id_string (event_id e) ''event.id'' of
          Inl err \<Rightarrow> (Inl err, db)
        | Inr i \<Rightarrow> act_bind (insertEventQuery (event_row_of dt metaJson i e)) (\<lambda>_.
            case sagaOrigins e of None \<Rightarrow> act_return () | Some os \<Rightarrow> insert_saga_refs os (guid (IdStr i))) db))"

primrec sqlite_commit_each ::
  "(int \<Rightarrow> string) \<Rightarrow> jsval option \<Rightarrow> bool \<Rightarrow> event list \<Rightarrow> (sqlite_events, unit) act" where
  "sqlite_commit_each dt metaJson ignoreConc [] = act_return ()"
| "sqlite_commit_each dt metaJson ignoreConc (e # es) =
     act_bind (sqlite_commit_one dt metaJson ignoreConc e) (\<lambda>_. sqlite_commit_each dt metaJson ignoreConc es)"

text \<open>The transaction: rolled back as a whole when anything in it throws.\<close>

definition sqlite_commitEvents ::
  "(int \<Rightarrow> string) \<Rightarrow> jsval option \<Rightarrow> event list \<Rightarrow> bool \<Rightarrow> (sqlite_events, event list) act" where
  "sqlite_commitEvents dt meta evs ignoreConc db =
     (case sqlite_commit_each dt (Option.bind meta (json dt)) ignoreConc evs db of
        (Inl err, _) \<Rightarrow> (Inl err, db)
      | (Inr _, db') \<Rightarrow> (Inr evs, db'))"

text \<open>The properties of an envelope other than its event and the flag.\<close>

definition extractMeta :: "envelope \<Rightarrow> jsval option" where
  "extractMeta b = (case origin b of None \<Rightarrow> None | Some x \<Rightarrow> Some (JObj [(''origin'', JStr x)]))"

definition sqlite_process :: "(int \<Rightarrow> string) \<Rightarrow> batch \<Rightarrow> (sqlite_events, batch) act" where
  "sqlite_process dt bt db = (case batch_events bt of
       Inl err \<Rightarrow> (Inl err, db)
     | Inr evs \<Rightarrow> (case bt of
         [] \<Rightarrow> (Inl (TypeError ''Cannot destructure envelope''), db)
       | b # _ \<Rightarrow> (case sqlite_commitEvents dt (extractMeta b) evs (ignoreConcurrencyError b) db of
           (Inl err, db') \<Rightarrow> (Inl err, db') | (Inr _, db') \<Rightarrow> (Inr bt, db'))))"

section \<open>Reading\<close>

definition origins_of :: "(string \<times> nat list) list \<Rightarrow> (string, string) jsmap" where
  "origins_of refs = fold (\<lambda>(d, oid) m. AList.update d (bufferToGuid oid) m) refs []"

definition getSagaOriginsForEvent :: "nat list \<Rightarrow> sqlite_events \<Rightarrow> (string, string) jsmap" where
  "getSagaOriginsForEvent i db = origins_of (getSagaRefsQuery i db)"

definition reconstructEvent :: "sqlite_events \<Rightarrow> event_row \<Rightarrow> event" where
  "reconstructEvent db r = (let so = getSagaOriginsForEvent (r_id r) db
     in (r_data r)\<lparr>event_id := Some (IdStr (bufferToGuid (r_id r))), sagaOrigins := if so = [] then None else Some so\<rparr>)"

definition sqlite_getAggregateEvents :: "ident \<Rightarrow> aggregate_query \<Rightarrow> sqlite_events \<Rightarrow> event list" where
  "sqlite_getAggregateEvents aid q db = map (reconstructEvent db)
     (getAggregateEventsQuery (guid aid) (Option.bind (q_snapshot q) aggregateVersion) (q_eventTypes q) (tail_last q) db)"

definition sqlite_getSagaEvents :: "ident \<Rightarrow> event \<Rightarrow> sqlite_events \<Rightarrow> event list result" where
  "sqlite_getSagaEvents sagaId beforeEvent db =
     res_bind (assert_id_string (event_id beforeEvent) ''beforeEvent.id'') (\<lambda>beforeId.
     res_bind (parseSagaId sagaId) (\<lambda>(sagaDescriptor, originEventId).
       if saga_origin beforeEvent sagaDescriptor \<noteq> Some originEventId
       then Inl (TypeError ''beforeEvent.sagaOrigins does not match sagaId'')
       else (case getRowidQuery (guid (IdStr originEventId)) db of
           None \<Rightarrow> Inl (GenericError (''origin event '' @ originEventId @ '' not found''))
         | Some originRowid \<Rightarrow> (case getRowidQuery (guid (IdStr beforeId)) db of
             None \<Rightarrow> Inl (GenericError (''beforeEvent '' @ beforeId @ '' not found''))
           | Some beforeRowid \<Rightarrow> Inr (map (reconstructEvent db)
               (getSagaEventsQuery sagaDescriptor (guid (IdStr originEventId)) originRowid beforeRowid db))))))"

definition sqlite_getEventsByTypes :: "string list \<Rightarrow> event option \<Rightarrow> sqlite_events \<Rightarrow> event list result" where
  "sqlite_getEventsByTypes eventTypes afterEvent db =
     (let rows_after = (\<lambda>n. map (reconstructEvent db) (filter (\<lambda>r. r_type r \<in> set eventTypes) (getEventsByTypesQuery n db)))
      in case afterEvent of
           None \<Rightarrow> Inr (rows_after 0)
         | Some ev \<Rightarrow> res_bind (assert_id_string (event_id ev) ''options.afterEvent.id'') (\<lambda>lastEventId.
             case getRowidQuery (guid (IdStr lastEventId)) db of
               None \<Rightarrow> Inr []
             | Some afterRowid \<Rightarrow> Inr (rows_after afterRowid)))"

section \<open>What a commit does\<close>

lemma hex_digit_bound: "hex_digit c = Some n \<Longrightarrow> n < 16"
  by (auto simp: hex_digit_def Let_def split: if_splits)

lemma hex_bytes_bound: "\<forall>b \<in> set (hex_bytes cs). b < 256"
proof (induction cs rule: hex_bytes.induct)
  case (1 a b cs)
  have "16 * x + y < 256" if "hex_digit a = Some x" "hex_digit b = Some y" for x y
    using hex_digit_bound [OF that(1)] hex_digit_bound [OF that(2)] by simp
  with 1 show ?case by (auto split: option.split)
qed auto

text \<open>
  The tables are in order: ids are bytes and not repeated, saga references are of stored events,
  and the columns of a row say what its JSON says.
\<close>

definition sqlite_events_ok :: "sqlite_events \<Rightarrow> bool" where
  "sqlite_events_ok db \<longleftrightarrow> distinct (map r_id (tbl_events db)) \<and>
     (\<forall>(d, oid, e) \<in> set (tbl_event_sagas db). e \<in> r_id ` set (tbl_events db)) \<and>
     (\<forall>r \<in> set (tbl_events db). r_type r = msg_type (r_data r) \<and> r_aggregate_version r = aggregateVersion (r_data r)
       \<and> (\<forall>b \<in> set (r_id r). b < 256))"

definition row_key :: "event_row \<Rightarrow> (nat list \<times> int) option" where
  "row_key r = (case (r_aggregate_id r, r_aggregate_version r) of (Some a, Some v) \<Rightarrow> Some (a, v) | _ \<Rightarrow> None)"

definition row_keys :: "sqlite_events \<Rightarrow> (nat list \<times> int) list" where
  "row_keys db = List.map_filter row_key (tbl_events db)"

lemma row_key_iff: "row_key r = Some (a, v) \<longleftrightarrow> r_aggregate_id r = Some a \<and> r_aggregate_version r = Some v"
  by (auto simp: row_key_def split: option.splits)

lemma row_keys_append [simp]:
  "row_keys (db\<lparr>tbl_events := tbl_events db @ rs\<rparr>) = row_keys db @ List.map_filter row_key rs"
  "row_keys (db\<lparr>tbl_event_sagas := rf\<rparr>) = row_keys db"
  by (simp_all add: row_keys_def List.map_filter_def)

lemma checkConcurrencyQuery_iff: "checkConcurrencyQuery a v db \<longleftrightarrow> (a, v) \<in> set (row_keys db)"
proof -
  have "(a, v) \<in> set (row_keys db) \<longleftrightarrow> (\<exists>r \<in> set (tbl_events db). row_key r = Some (a, v))"
    by (force simp: row_keys_def List.map_filter_def)
  then show ?thesis by (simp add: checkConcurrencyQuery_def list_ex_iff row_key_iff)
qed

lemma row_key_of: "row_key (event_row_of dt m i e) = map_option (\<lambda>(a, v). (guid a, v)) (version_key e)"
  by (auto simp: row_key_def event_row_of_def version_key_def split: option.splits)

text \<open>The references a stored event gets, and what is read back of an event.\<close>

definition new_refs :: "string \<Rightarrow> event \<Rightarrow> (string \<times> nat list \<times> nat list) list" where
  "new_refs i e = map (\<lambda>(d, x). (d, guid (IdStr x), guid (IdStr i))) (case sagaOrigins e of None \<Rightarrow> [] | Some os \<Rightarrow> os)"

definition read_back :: "sqlite_events \<Rightarrow> event list" where
  "read_back db = map (reconstructEvent db) (tbl_events db)"

definition stored_form :: "(int \<Rightarrow> string) \<Rightarrow> event \<Rightarrow> event" where
  "stored_form dt e = (json_event dt e)\<lparr>
     event_id := (case event_id e of Some (IdStr i) \<Rightarrow> Some (IdStr (bufferToGuid (guid (IdStr i)))) | _ \<Rightarrow> None),
     sagaOrigins := (let so = origins_of (map (\<lambda>(d, x). (d, guid (IdStr x))) (case sagaOrigins e of None \<Rightarrow> [] | Some os \<Rightarrow> os))
       in if so = [] then None else Some so)\<rparr>"

lemma insert_saga_refs_Inr:
  "insert_saga_refs os i db = (Inr u, db') \<Longrightarrow>
     db' = db\<lparr>tbl_event_sagas := tbl_event_sagas db @ map (\<lambda>(d, x). (d, guid (IdStr x), i)) os\<rparr>"
proof (induction os arbitrary: db)
  case (Cons x os)
  then obtain db1 where "insertSagaRefQuery (fst x) (guid (IdStr (snd x))) i db = (Inr (), db1)"
    and rest: "insert_saga_refs os i db1 = (Inr u, db')" by (auto simp: act_bind_Inr_iff)
  then have "db1 = db\<lparr>tbl_event_sagas := tbl_event_sagas db @ [(fst x, guid (IdStr (snd x)), i)]\<rparr>"
    by (auto simp: insertSagaRefQuery_def split: if_splits)
  with Cons.IH [OF rest] show ?case by (simp add: case_prod_beta)
qed (simp add: act_simps)

lemma sqlite_commit_one_Inr:
  assumes "sqlite_commit_one dt m ig e db = (Inr u, db')"
  obtains i where "event_id e = Some (IdStr i)" "i \<noteq> []" "guid (IdStr i) \<notin> r_id ` set (tbl_events db)"
    "ig \<or> version_conflict e db = None"
    "db' = db\<lparr>tbl_events := tbl_events db @ [event_row_of dt m i e],
       tbl_event_sagas := tbl_event_sagas db @ new_refs i e\<rparr>"
proof -
  from assms have free: "ig \<or> version_conflict e db = None"
    by (auto simp: sqlite_commit_one_def split: if_splits option.splits)
  with assms obtain i where i: "assert_id_string (event_id e) ''event.id'' = Inr i"
    "act_bind (insertEventQuery (event_row_of dt m i e)) (\<lambda>_.
       case sagaOrigins e of None \<Rightarrow> act_return () | Some os \<Rightarrow> insert_saga_refs os (guid (IdStr i))) db = (Inr u, db')"
    by (auto simp: sqlite_commit_one_def split: if_splits sum.splits)
  then obtain db1 where ins: "insertEventQuery (event_row_of dt m i e) db = (Inr (), db1)"
    and refs: "(case sagaOrigins e of None \<Rightarrow> act_return () | Some os \<Rightarrow> insert_saga_refs os (guid (IdStr i))) db1 = (Inr u, db')"
    by (auto simp: act_bind_Inr_iff)
  from ins have new: "guid (IdStr i) \<notin> r_id ` set (tbl_events db)"
    and db1: "db1 = db\<lparr>tbl_events := tbl_events db @ [event_row_of dt m i e]\<rparr>"
    by (auto simp: insertEventQuery_def list_ex_iff event_row_of_def split: if_splits)
  have "db' = db1\<lparr>tbl_event_sagas := tbl_event_sagas db1 @ new_refs i e\<rparr>"
    using refs insert_saga_refs_Inr by (auto simp: new_refs_def act_simps split: option.splits)
  with i(1) new free db1 that show thesis
    by (auto simp: assert_id_string_def split: option.splits ident.splits if_splits)
qed

lemma version_conflict_None:
  assumes "version_conflict e db = None" and "\<forall>i. aggregateId e = Some i \<longrightarrow> id_truthy i"
  shows "set (row_keys db) \<inter> set (keyed guid [e]) = {}"
  using assms checkConcurrencyQuery_iff
  by (auto simp: version_conflict_def version_key_iff split: option.splits if_splits)

lemma sqlite_commit_each_keys:
  "fits id_truthy es \<Longrightarrow> sqlite_commit_each dt m ig es db = (Inr u, db') \<Longrightarrow>
     row_keys db' = row_keys db @ keyed guid es \<and>
     (\<not> ig \<longrightarrow> set (row_keys db) \<inter> set (keyed guid es) = {} \<and> distinct (keyed guid es))"
proof (induction es arbitrary: db)
  case (Cons e es)
  then obtain db1 where one: "sqlite_commit_one dt m ig e db = (Inr (), db1)"
    and rest: "sqlite_commit_each dt m ig es db1 = (Inr u, db')" by (auto simp: act_bind_Inr_iff)
  obtain i where i: "ig \<or> version_conflict e db = None"
    "db1 = db\<lparr>tbl_events := tbl_events db @ [event_row_of dt m i e], tbl_event_sagas := tbl_event_sagas db @ new_refs i e\<rparr>"
    using sqlite_commit_one_Inr [OF one] by blast
  have keys: "row_keys db1 = row_keys db @ keyed guid [e]"
    by (simp add: i(2) row_key_of List.map_filter_def row_keys_def split: option.split)
  have fit: "fits id_truthy es" "\<forall>i. aggregateId e = Some i \<longrightarrow> id_truthy i" using Cons.prems(1) by auto
  note IH = Cons.IH [OF fit(1) rest]
  have eq: "keyed guid (e # es) = keyed guid [e] @ keyed guid es" by (simp split: option.split)
  have "\<not> ig \<Longrightarrow> set (row_keys db) \<inter> set (keyed guid [e]) = {}"
    using i(1) version_conflict_None [OF _ fit(2)] by blast
  with IH keys show ?case unfolding eq by (auto split: option.splits)
qed (simp add: act_simps)

lemma sqlite_commitEvents_Inr:
  "sqlite_commitEvents dt meta evs ig db = (Inr r, db') \<longleftrightarrow>
     r = evs \<and> sqlite_commit_each dt (Option.bind meta (json dt)) ig evs db = (Inr (), db')"
  by (auto simp: sqlite_commitEvents_def split: prod.splits sum.splits)

lemma sqlite_commitEvents_Inl: "sqlite_commitEvents dt meta evs ig db = (Inl err, db') \<Longrightarrow> db' = db"
  by (auto simp: sqlite_commitEvents_def split: prod.splits sum.splits)

interpretation sqlite_log: event_log "sqlite_commitEvents dt meta" row_keys guid id_truthy for dt meta
proof
  fix es ig s r s' e
  show "fits id_truthy es \<Longrightarrow> sqlite_commitEvents dt meta es ig s = (Inr r, s') \<Longrightarrow> row_keys s' = row_keys s @ keyed guid es"
    unfolding sqlite_commitEvents_Inr using sqlite_commit_each_keys by blast
  show "sqlite_commitEvents dt meta es ig s = (Inl e, s') \<Longrightarrow> row_keys s' = row_keys s"
    by (drule sqlite_commitEvents_Inl) simp
  show "fits id_truthy es \<Longrightarrow> sqlite_commitEvents dt meta es False s = (Inr r, s') \<Longrightarrow>
      set (row_keys s) \<inter> set (keyed guid es) = {}"
    unfolding sqlite_commitEvents_Inr using sqlite_commit_each_keys by blast
qed

section \<open>Reading back\<close>

lemma new_ok: "sqlite_events_ok new_sqlite_events"
  by (simp add: sqlite_events_ok_def new_sqlite_events_def)

lemma refs_old:
  assumes "j \<noteq> guid (IdStr i)"
  shows "getSagaRefsQuery j (db\<lparr>tbl_events := rs, tbl_event_sagas := tbl_event_sagas db @ new_refs i e\<rparr>) = getSagaRefsQuery j db"
  using assms by (auto simp: getSagaRefsQuery_def new_refs_def filter_empty_conv)

lemma refs_new:
  assumes "guid (IdStr i) \<notin> r_id ` set (tbl_events db)" and "sqlite_events_ok db"
  shows "getSagaRefsQuery (guid (IdStr i)) (db\<lparr>tbl_events := rs, tbl_event_sagas := tbl_event_sagas db @ new_refs i e\<rparr>)
    = map (\<lambda>(d, x). (d, guid (IdStr x))) (case sagaOrigins e of None \<Rightarrow> [] | Some os \<Rightarrow> os)"
proof -
  have "filter (\<lambda>(d, oid, k). k = guid (IdStr i)) (tbl_event_sagas db) = []"
    using assms by (auto simp: sqlite_events_ok_def filter_empty_conv)
  then show ?thesis by (simp add: getSagaRefsQuery_def new_refs_def filter_map o_def case_prod_beta)
qed

lemma commit_one_read_back:
  assumes ok: "sqlite_events_ok db" and one: "sqlite_commit_one dt m ig e db = (Inr u, db')"
  shows "sqlite_events_ok db' \<and> read_back db' = read_back db @ [stored_form dt e]"
proof -
  obtain i where i: "event_id e = Some (IdStr i)" and new: "guid (IdStr i) \<notin> r_id ` set (tbl_events db)"
    and db': "db' = db\<lparr>tbl_events := tbl_events db @ [event_row_of dt m i e],
       tbl_event_sagas := tbl_event_sagas db @ new_refs i e\<rparr>"
    using sqlite_commit_one_Inr [OF one] by blast
  let ?row = "event_row_of dt m i e"
  have row: "r_id ?row = guid (IdStr i)" "r_type ?row = msg_type (r_data ?row)"
    "r_aggregate_version ?row = aggregateVersion (r_data ?row)" "\<forall>b \<in> set (r_id ?row). b < 256"
    using hex_bytes_bound by (simp_all add: event_row_of_def json_event_def guid_def)
  have "\<forall>(d, oid, k) \<in> set (new_refs i e). k = guid (IdStr i)" by (auto simp: new_refs_def)
  with ok new row have ok': "sqlite_events_ok db'" by (fastforce simp: sqlite_events_ok_def db')
  have "reconstructEvent db' r = reconstructEvent db r" if "r \<in> set (tbl_events db)" for r
  proof -
    have "r_id r \<noteq> guid (IdStr i)" using that new by (metis imageI)
    then show ?thesis by (simp add: reconstructEvent_def getSagaOriginsForEvent_def db' refs_old)
  qed
  moreover have "reconstructEvent db' ?row = stored_form dt e"
    using refs_new [OF new ok] row(1) i
    by (simp add: reconstructEvent_def getSagaOriginsForEvent_def stored_form_def db' Let_def event_row_of_def)
  ultimately have "read_back db' = read_back db @ [stored_form dt e]" by (simp add: read_back_def db')
  with ok' show ?thesis by blast
qed

lemma commit_each_read_back:
  "sqlite_events_ok db \<Longrightarrow> sqlite_commit_each dt m ig es db = (Inr u, db') \<Longrightarrow>
     sqlite_events_ok db' \<and> read_back db' = read_back db @ map (stored_form dt) es"
proof (induction es arbitrary: db)
  case (Cons e es)
  then obtain db1 where one: "sqlite_commit_one dt m ig e db = (Inr (), db1)"
    and rest: "sqlite_commit_each dt m ig es db1 = (Inr u, db')" by (auto simp: act_bind_Inr_iff)
  from Cons.IH [OF _ rest] commit_one_read_back [OF Cons.prems(1) one] show ?case by simp
qed (simp add: act_simps)

text \<open>Identifiers that are stored without a loss: lower case hexadecimal text of whole bytes.\<close>

lemma below_16: "n < 16 \<Longrightarrow> n \<in> set [0 :: nat, 1, 2, 3, 4, 5, 6, 7, 8, 9, 10, 11, 12, 13, 14, 15]"
  by simp arith

lemma hex_digit_char: "n < 16 \<Longrightarrow> hex_digit (hex_char n) = Some n"
  by (drule below_16) (auto simp: hex_digit_def hex_char_def Let_def)

lemma hex_char_no_dash: "n < 16 \<Longrightarrow> hex_char n \<noteq> CHR ''-''"
  by (drule below_16) (auto simp: hex_char_def)

lemma guid_bufferToGuid:
  assumes "\<forall>b \<in> set bs. b < 256"
  shows "guid (IdStr (bufferToGuid bs)) = bs"
proof -
  have "filter (\<lambda>c. c \<noteq> CHR ''-'') (bufferToGuid bs) = bufferToGuid bs"
    using assms by (auto simp: bufferToGuid_def filter_id_conv hex_char_no_dash)
  moreover have "hex_bytes (bufferToGuid bs) = bs"
    using assms by (induction bs) (auto simp: bufferToGuid_def hex_digit_char)
  ultimately show ?thesis by (simp add: guid_def)
qed

definition hex_id :: "string \<Rightarrow> bool" where
  "hex_id i \<longleftrightarrow> bufferToGuid (guid (IdStr i)) = i"

lemma hex_id_iff: "hex_id i \<longleftrightarrow> (\<exists>bs. (\<forall>b \<in> set bs. b < 256) \<and> i = bufferToGuid bs)"
proof
  show "hex_id i \<Longrightarrow> \<exists>bs. (\<forall>b \<in> set bs. b < 256) \<and> i = bufferToGuid bs"
    unfolding hex_id_def guid_def using hex_bytes_bound by metis
qed (auto simp: hex_id_def guid_bufferToGuid)

lemma origins_of_map:
  "distinct (map fst (pre @ os)) \<Longrightarrow> \<forall>x \<in> snd ` set os. hex_id x \<Longrightarrow>
     fold (\<lambda>(d, oid) m. AList.update d (bufferToGuid oid) m) (map (\<lambda>(d, x). (d, guid (IdStr x))) os) pre = pre @ os"
proof (induction os arbitrary: pre)
  case (Cons x os)
  obtain d y where x: "x = (d, y)" by fastforce
  have d: "d \<notin> fst ` set pre" using Cons.prems(1) x by auto
  have "fold (\<lambda>(d, oid) m. AList.update d (bufferToGuid oid) m) (map (\<lambda>(d, x). (d, guid (IdStr x))) os) (pre @ [(d, y)])
      = (pre @ [(d, y)]) @ os" using Cons.prems x by (intro Cons.IH) auto
  moreover have "bufferToGuid (guid (IdStr y)) = y" using Cons.prems(2) x by (simp add: hex_id_def)
  ultimately show ?case using update_append [OF d, of y "[]"] x by simp
qed simp

definition lossless :: "(int \<Rightarrow> string) \<Rightarrow> event \<Rightarrow> bool" where
  "lossless dt e \<longleftrightarrow> json_event dt e = e \<and> (\<exists>i. event_id e = Some (IdStr i) \<and> hex_id i) \<and>
     (case sagaOrigins e of None \<Rightarrow> True
      | Some os \<Rightarrow> os \<noteq> [] \<and> distinct (map fst os) \<and> (\<forall>x \<in> snd ` set os. hex_id x))"

lemma stored_form_lossless:
  assumes "lossless dt e"
  shows "stored_form dt e = e"
proof -
  obtain i where i: "event_id e = Some (IdStr i)" "bufferToGuid (guid (IdStr i)) = i" "json_event dt e = e"
    using assms by (auto simp: lossless_def hex_id_def)
  show ?thesis
  proof (cases "sagaOrigins e")
    case None
    with i show ?thesis by (simp add: stored_form_def origins_of_def Let_def)
  next
    case (Some os)
    with assms have os: "os \<noteq> []" "distinct (map fst ([] @ os))" "\<forall>x \<in> snd ` set os. hex_id x" by (simp_all add: lossless_def)
    from origins_of_map [OF os(2,3)] os(1) i Some show ?thesis
      by (simp add: stored_form_def origins_of_def Let_def)
  qed
qed

section \<open>Reading like the in-memory storage\<close>

lemma reconstructEvent_sel [simp]:
  "msg_type (reconstructEvent db r) = msg_type (r_data r)"
  "aggregateId (reconstructEvent db r) = aggregateId (r_data r)"
  "aggregateVersion (reconstructEvent db r) = aggregateVersion (r_data r)"
  "event_id (reconstructEvent db r) = Some (IdStr (bufferToGuid (r_id r)))"
  by (simp_all add: reconstructEvent_def Let_def)

lemma query_with_tail:
  assumes "distinct (map r_id own)"
  shows "(if own = [] then [] else filter (\<lambda>r. T r \<or> tail \<and> r_id r = r_id (last own)) own)
    = filter T own @ (if tail \<and> own \<noteq> [] \<and> \<not> T (last own) then [last own] else [])"
proof (cases own rule: rev_cases)
  case (snoc ys y)
  then have "\<forall>r \<in> set ys. r_id r \<noteq> r_id y" using assms by (auto simp: image_iff)
  then have "filter (\<lambda>r. T r \<or> tail \<and> r_id r = r_id y) ys = filter T ys" by (intro filter_cong) auto
  with snoc show ?thesis by simp
qed simp

lemma sqlite_aggregate_stream:
  assumes ok: "sqlite_events_ok db"
    and ids: "\<forall>r \<in> set (tbl_events db). r_aggregate_id r = Some (guid a) \<longleftrightarrow> aggregateId (r_data r) = Some a"
    and zero: "Option.bind (q_snapshot q) aggregateVersion \<noteq> Some 0"
  shows "sqlite_getAggregateEvents a q db = aggregate_stream a q (read_back db)"
proof -
  define own where "own = filter (\<lambda>r. r_aggregate_id r = Some (guid a) \<and> (case Option.bind (q_snapshot q) aggregateVersion of
      None \<Rightarrow> True | Some v \<Rightarrow> (case r_aggregate_version r of None \<Rightarrow> False | Some w \<Rightarrow> v < w))) (tbl_events db)"
  have "filter ((\<lambda>e. aggregateId e = Some a \<and> newer_than (q_snapshot q) e) \<circ> reconstructEvent db) (tbl_events db) = own"
    unfolding own_def
    by (rule filter_cong) (use ok ids zero in \<open>auto simp: sqlite_events_ok_def newer_than_def split: option.splits\<close>)
  then have stream: "filter (\<lambda>e. aggregateId e = Some a \<and> newer_than (q_snapshot q) e) (read_back db) = map (reconstructEvent db) own"
    by (simp add: read_back_def filter_map)
  have types: "filter (of_types (q_eventTypes q) \<circ> reconstructEvent db) own
      = filter (\<lambda>r. case q_eventTypes q of None \<Rightarrow> True | Some ts \<Rightarrow> r_type r \<in> set ts) own"
    by (rule filter_cong) (use ok in \<open>auto simp: own_def sqlite_events_ok_def of_types_def split: option.splits\<close>)
  have "distinct (map r_id own)" using ok by (simp add: own_def sqlite_events_ok_def distinct_map_filter)
  note tail = query_with_tail [OF this, of "\<lambda>r. case q_eventTypes q of None \<Rightarrow> True | Some ts \<Rightarrow> r_type r \<in> set ts" "tail_last q"]
  have last: "own \<noteq> [] \<Longrightarrow> of_types (q_eventTypes q) (reconstructEvent db (last own))
      = (case q_eventTypes q of None \<Rightarrow> True | Some ts \<Rightarrow> r_type (last own) \<in> set ts)"
  proof -
    assume "own \<noteq> []"
    then have "last own \<in> set (tbl_events db)" using last_in_set [of own] by (simp add: own_def)
    with ok show ?thesis by (auto simp: sqlite_events_ok_def of_types_def split: option.split)
  qed
  have "sqlite_getAggregateEvents a q db = map (reconstructEvent db)
      (filter (\<lambda>r. case q_eventTypes q of None \<Rightarrow> True | Some ts \<Rightarrow> r_type r \<in> set ts) own
        @ (if tail_last q \<and> own \<noteq> [] \<and> \<not> (case q_eventTypes q of None \<Rightarrow> True | Some ts \<Rightarrow> r_type (last own) \<in> set ts)
           then [last own] else []))"
    unfolding sqlite_getAggregateEvents_def getAggregateEventsQuery_def Let_def own_def [symmetric] tail [symmetric] by simp
  also have "\<dots> = aggregate_stream a q (read_back db)"
    using last by (cases "own = []") (simp_all add: aggregate_stream_def stream Let_def filter_map types last_map)
  finally show ?thesis .
qed

lemma rowid_split:
  assumes "getRowidQuery i db = Some n"
  obtains pre r post where "tbl_events db = pre @ r # post" "r_id r = i" "\<forall>x \<in> set pre. r_id x \<noteq> i" "n = Suc (length pre)"
proof -
  from assms obtain m where m: "n = Suc m" "findIndex (\<lambda>r. r_id r = i) (tbl_events db) = Some m"
    by (auto simp: getRowidQuery_def)
  note f = findIndex_Some [OF m(2)]
  let ?rs = "tbl_events db"
  have "?rs = take m ?rs @ ?rs ! m # drop (Suc m) ?rs" using f by (simp add: id_take_nth_drop)
  moreover have "\<forall>x \<in> set (take m ?rs). r_id x \<noteq> i" using f by (auto simp: in_set_conv_nth)
  ultimately show thesis using that [of "take m ?rs" "?rs ! m" "drop (Suc m) ?rs"] f m(1) by auto
qed

lemma findIndex_None: "findIndex P xs = None \<longleftrightarrow> (\<forall>x \<in> set xs. \<not> P x)"
  by (induction xs) auto

lemma read_back_id:
  assumes "sqlite_events_ok db" and "r \<in> set (tbl_events db)" and "hex_id i"
  shows "event_id (reconstructEvent db r) = Some (IdStr i) \<longleftrightarrow> r_id r = guid (IdStr i)"
  using assms guid_bufferToGuid [of "r_id r"] by (auto simp: sqlite_events_ok_def hex_id_def)

lemma sqlite_types_stream:
  assumes ok: "sqlite_events_ok db"
    and hex: "\<forall>ev i. afterEvent = Some ev \<longrightarrow> event_id ev = Some (IdStr i) \<longrightarrow> hex_id i"
  shows "sqlite_getEventsByTypes ts afterEvent db = getEventsByTypes ts afterEvent \<lparr>nextId = n, events = read_back db\<rparr>"
proof -
  have types: "map (reconstructEvent db) (filter (\<lambda>r. r_type r \<in> set ts) rs)
      = filter (\<lambda>e. msg_type e \<in> set ts) (map (reconstructEvent db) rs)" if "set rs \<subseteq> set (tbl_events db)" for rs
  proof -
    have "filter (\<lambda>r. r_type r \<in> set ts) rs = filter ((\<lambda>e. msg_type e \<in> set ts) \<circ> reconstructEvent db) rs"
      by (rule filter_cong) (use ok that in \<open>auto simp: sqlite_events_ok_def\<close>)
    then show ?thesis by (simp add: filter_map)
  qed
  show ?thesis
  proof (cases "\<exists>ev i. afterEvent = Some ev \<and> assert_id_string (event_id ev) ''options.afterEvent.id'' = Inr i")
    case False
    show ?thesis
    proof (cases afterEvent)
      case None
      with types [of "tbl_events db"] show ?thesis
        by (simp add: sqlite_getEventsByTypes_def getEventsByTypes_all getEventsByTypesQuery_def read_back_def Let_def)
    next
      case (Some ev)
      with False obtain err where "assert_id_string (event_id ev) ''options.afterEvent.id'' = Inl err"
        by (cases "assert_id_string (event_id ev) ''options.afterEvent.id''") auto
      with Some show ?thesis by (simp add: sqlite_getEventsByTypes_def getEventsByTypes_def)
    qed
  next
    case True
    then obtain ev i where ev: "afterEvent = Some ev" "assert_id_string (event_id ev) ''options.afterEvent.id'' = Inr i" by blast
    then have i: "event_id ev = Some (IdStr i)" "i \<noteq> []"
      by (auto simp: assert_id_string_def split: option.splits ident.splits if_splits)
    have hi: "hex_id i" using hex ev(1) i(1) by blast
    have mem: "getEventsByTypes ts afterEvent \<lparr>nextId = n, events = read_back db\<rparr>
        = Inr (scan_after (Some (IdStr i)) ts False (read_back db))"
      using ev i by (simp add: getEventsByTypes_def opt_id_truthy_def assert_id_string_def)
    show ?thesis
    proof (cases "getRowidQuery (guid (IdStr i)) db")
      case None
      then have "\<forall>r \<in> set (tbl_events db). r_id r \<noteq> guid (IdStr i)" by (simp add: getRowidQuery_def findIndex_None)
      then have "\<forall>r \<in> set (tbl_events db). event_id (reconstructEvent db r) \<noteq> Some (IdStr i)"
        using read_back_id [OF ok _ hi] by blast
      then have "Some (IdStr i) \<notin> set (map event_id (read_back db))"
        unfolding read_back_def set_map by (metis (no_types, lifting) imageE)
      from scan_after_absent [OF this] None mem ev show ?thesis by (simp add: sqlite_getEventsByTypes_def)
    next
      case (Some m)
      then obtain pre r post where rs: "tbl_events db = pre @ r # post" "r_id r = guid (IdStr i)"
        "\<forall>x \<in> set pre. r_id x \<noteq> guid (IdStr i)" "m = Suc (length pre)" by (rule rowid_split)
      have "Some (IdStr i) \<notin> set (map event_id (map (reconstructEvent db) pre))"
      proof -
        have "\<forall>r \<in> set pre. event_id (reconstructEvent db r) \<noteq> Some (IdStr i)"
          using read_back_id [OF ok _ hi] rs(1,3) by auto
        then show ?thesis unfolding set_map by (metis (no_types, lifting) imageE)
      qed
      moreover have "event_id (reconstructEvent db r) = Some (IdStr i)" using hi rs(2) by (simp add: hex_id_def)
      ultimately have "scan_after (Some (IdStr i)) ts False (read_back db)
          = filter (\<lambda>e. msg_type e \<in> set ts) (map (reconstructEvent db) post)"
        unfolding read_back_def rs(1) map_append list.map by (rule scan_after_split)
      moreover have "sqlite_getEventsByTypes ts afterEvent db
          = Inr (map (reconstructEvent db) (filter (\<lambda>r. r_type r \<in> set ts) post))"
        using ev Some rs(1,4) by (simp add: sqlite_getEventsByTypes_def getEventsByTypesQuery_def)
      moreover have "set post \<subseteq> set (tbl_events db)" using rs(1) by auto
      ultimately show ?thesis using mem types [of post] by simp
    qed
  qed
qed

section \<open>The events of a saga\<close>

text \<open>From the starter event on, up to but without the given event: the starter, and what refers to it.\<close>

lemma sqlite_saga_stream:
  assumes "parseSagaId sid = Inr (d, oid)" and "saga_origin b d = Some oid"
    and "event_id b = Some (IdStr i)" and "i \<noteq> []" and "distinct (map r_id (tbl_events db))"
    and rows: "tbl_events db = pre @ org # mid @ bef # post"
    and "r_id org = guid (IdStr oid)" and "r_id bef = guid (IdStr i)"
  shows "sqlite_getSagaEvents sid b db = Inr (map (reconstructEvent db)
    (org # filter (\<lambda>r. (d, guid (IdStr oid), r_id r) \<in> set (tbl_event_sagas db)) mid))"
proof -
  have d: "distinct (map r_id (pre @ org # mid @ bef # post))" using assms(5) rows by metis
  have "\<forall>x \<in> set pre. r_id x \<noteq> guid (IdStr oid)" using d assms(7) by (auto simp: image_iff)
  then have o1: "getRowidQuery (guid (IdStr oid)) db = Some (Suc (length pre))"
    using assms(7) findIndex_append [of "\<lambda>r. r_id r = guid (IdStr oid)" pre org] by (simp add: getRowidQuery_def rows)
  have "\<forall>x \<in> set (pre @ org # mid). r_id x \<noteq> guid (IdStr i)" using d assms(8) by (auto simp: image_iff)
  then have "findIndex (\<lambda>r. r_id r = guid (IdStr i)) ((pre @ org # mid) @ bef # post) = Some (length (pre @ org # mid))"
    unfolding findIndex_append using assms(8) by blast
  then have o2: "getRowidQuery (guid (IdStr i)) db = Some (Suc (length pre + Suc (length mid)))"
    by (simp add: getRowidQuery_def rows)
  let ?P = "\<lambda>r. r_id r = guid (IdStr oid) \<or> (d, guid (IdStr oid), r_id r) \<in> set (tbl_event_sagas db)"
  have drop_low: "filter (\<lambda>(n, r). a \<le> n \<and> n < c \<and> Q r) (enumerate k xs) = []" if "k + length xs \<le> a" for a c k :: nat and Q xs
    using that by (auto simp: filter_empty_conv in_set_enumerate_eq)
  have drop_high: "filter (\<lambda>(n, r). a \<le> n \<and> n < c \<and> Q r) (enumerate k xs) = []" if "c \<le> k" for a c k :: nat and Q xs
    using that by (auto simp: filter_empty_conv in_set_enumerate_eq)
  have keep: "map snd (filter (\<lambda>(n, r). a \<le> n \<and> n < c \<and> Q r) (enumerate k xs)) = filter Q xs"
    if "a \<le> k" "k + length xs \<le> c" for a c k :: nat and Q xs
    using that by (induction xs arbitrary: k) auto
  have "\<forall>r \<in> set mid. r_id r \<noteq> guid (IdStr oid)" using d assms(7) by (auto simp: image_iff)
  then have mid: "filter ?P mid = filter (\<lambda>r. (d, guid (IdStr oid), r_id r) \<in> set (tbl_event_sagas db)) mid"
    by (intro filter_cong) auto
  have en: "enumerate 1 (tbl_events db) = enumerate 1 pre @ enumerate (Suc (length pre)) (org # mid)
      @ enumerate (Suc (length pre + Suc (length mid))) (bef # post)"
    unfolding rows by (simp add: enumerate_append_eq)
  have "getSagaEventsQuery d (guid (IdStr oid)) (Suc (length pre)) (Suc (length pre + Suc (length mid))) db
      = filter ?P (org # mid)"
    unfolding getSagaEventsQuery_def en filter_append map_append
    by (subst drop_low, simp, subst drop_high, simp, subst keep) auto
  with mid assms(1-4,7) o1 o2 show ?thesis by (simp add: sqlite_getSagaEvents_def assert_id_string_def)
qed

section \<open>Properties\<close>







end
