(* ===== verification/MongoEventStorage.thy ===== *)
theory MongoEventStorage
  imports SqliteEventStorage "HOL-Library.Char_ord" "HOL-Library.List_Lexorder" "HOL-Library.Option_ord"
begin

text \<open>
  The event storage on MongoDB (\<open>src/mongodb/MongoEventStorage.ts\<close>). A commit is one request per
  event, and other processes act between the requests; a batch that fails takes back what it had
  inserted. The collection is the list of its documents in the order of their insertion, kept by
  two unique indexes: on \<open>_id\<close> and on aggregate and version. The driver (object ids, BSON, failing
  requests) is a parameter, \<open>mongo_driver\<close>.
\<close>

section \<open>Object ids and documents\<close>

text \<open>An object id is known by its text and ordered like it.\<close>

datatype object_id = ObjectId (toHexString: string)

instantiation object_id :: linorder
begin

definition less_eq_object_id :: "object_id \<Rightarrow> object_id \<Rightarrow> bool" where
  "less_eq_object_id a b = (toHexString a \<le> toHexString b)"

definition less_object_id :: "object_id \<Rightarrow> object_id \<Rightarrow> bool" where
  "less_object_id a b = (toHexString a < toHexString b)"

instance
  by standard (auto simp: less_eq_object_id_def less_object_id_def less_le_not_le object_id.expand)

end

text \<open>
  \<open>new ObjectId(text)\<close>, the ids that \<open>new ObjectId()\<close> makes in turn, a value as it is read back after
  it was stored, and the requests to insert a document that fail for another reason than a
  duplicate key: the error, and whether the server had inserted the document nevertheless.
\<close>

record mongo_driver =
  new_ObjectId :: "string \<Rightarrow> object_id result"
  generated_id :: "nat \<Rightarrow> object_id"
  bson_value :: "jsval \<Rightarrow> jsval"
  insert_failure :: "object_id \<Rightarrow> (js_error \<times> bool) option"

record event_doc =
  d_id :: object_id
  d_aggregateId :: "(object_id + string) option"
  d_rest :: event

definition isHexObjectId :: "ident \<Rightarrow> bool" where
  "isHexObjectId i = (case i of
     IdStr s \<Rightarrow> length s = 24 \<and> list_all (\<lambda>c. hex_digit c \<noteq> None) s | _ \<Rightarrow> False)"

definition toObjectId :: "mongo_driver \<Rightarrow> ident \<Rightarrow> object_id result" where
  "toObjectId drv i = new_ObjectId drv (String_of i)"

definition toObjectIdOrString :: "mongo_driver \<Rightarrow> ident \<Rightarrow> (object_id + string) result" where
  "toObjectIdOrString drv i = (if isHexObjectId i then res_bind (toObjectId drv i) (\<lambda>x. Inr (Inl x))
     else Inr (Inr (String_of i)))"

definition toEvent :: "event_doc \<Rightarrow> event" where
  "toEvent d = (d_rest d)\<lparr>event_id := Some (IdStr (toHexString (d_id d))),
     aggregateId := (case d_aggregateId d of
         None \<Rightarrow> None
       | Some (Inl x) \<Rightarrow> Some (IdStr (toHexString x))
       | Some (Inr s) \<Rightarrow> if s = [] then None else Some (IdStr s))\<rparr>"

text \<open>Returns how many ids the driver has made by then.\<close>

definition toEventDocument :: "mongo_driver \<Rightarrow> event \<Rightarrow> nat \<Rightarrow> event_doc result \<times> nat" where
  "toEventDocument drv e n =
     (let rest = e\<lparr>event_id := None, aggregateId := None, payload := bson_value drv (payload e),
            msg_context := map_option (bson_value drv) (msg_context e)\<rparr>;
          (oid, m) = (case event_id e of None \<Rightarrow> (Inr (generated_id drv n), Suc n) | Some i \<Rightarrow> (toObjectId drv i, n))
      in (res_bind oid (\<lambda>x. res_bind
            (if opt_id_truthy (aggregateId e) then res_bind (toObjectIdOrString drv (the (aggregateId e))) (\<lambda>a. Inr (Some a))
             else Inr None)
            (\<lambda>a. Inr \<lparr>d_id = x, d_aggregateId = a, d_rest = rest\<rparr>)), m))"

fun toEventDocuments :: "mongo_driver \<Rightarrow> event list \<Rightarrow> nat \<Rightarrow> event_doc list result \<times> nat" where
  "toEventDocuments drv [] n = (Inr [], n)"
| "toEventDocuments drv (e # es) n = (case toEventDocument drv e n of
     (Inl err, m) \<Rightarrow> (Inl err, m)
   | (Inr d, m) \<Rightarrow> (case toEventDocuments drv es m of
       (Inl err, k) \<Rightarrow> (Inl err, k) | (Inr ds, k) \<Rightarrow> (Inr (d # ds), k)))"

section \<open>Committing\<close>

record mongo_events =
  ev_docs :: "event_doc list"
  ids_made :: nat

text \<open>The sparse unique index: a document is in it if it has an aggregate or a version.\<close>

definition index_key :: "event_doc \<Rightarrow> ((object_id + string) option \<times> int option) option" where
  "index_key d = (case (d_aggregateId d, aggregateVersion (d_rest d)) of (None, None) \<Rightarrow> None | k \<Rightarrow> Some k)"

definition duplicate_key :: "event_doc \<Rightarrow> event_doc list \<Rightarrow> bool" where
  "duplicate_key d docs = list_ex (\<lambda>x. d_id x = d_id d \<or> index_key d \<noteq> None \<and> index_key x = index_key d) docs"

datatype insert_error = Code_11000 | Other_error js_error

definition insertOne :: "mongo_driver \<Rightarrow> event_doc \<Rightarrow> event_doc list \<Rightarrow> insert_error option \<times> event_doc list" where
  "insertOne drv d docs = (case insert_failure drv (d_id d) of
       Some (err, applied) \<Rightarrow> (Some (Other_error err), if applied \<and> \<not> duplicate_key d docs then docs @ [d] else docs)
     | None \<Rightarrow> if duplicate_key d docs then (Some Code_11000, docs) else (None, docs @ [d]))"

text \<open>\<open>env n\<close> is what other processes do to the collection before the n-th request of the batch.\<close>

primrec insert_each :: "mongo_driver \<Rightarrow> (nat \<Rightarrow> event_doc list \<Rightarrow> event_doc list) \<Rightarrow> event_doc list \<Rightarrow>
    object_id list \<Rightarrow> event_doc list \<Rightarrow> insert_error option \<times> object_id list \<times> event_doc list" where
  "insert_each drv env [] insertedIds docs = (None, insertedIds, docs)"
| "insert_each drv env (d # ds) insertedIds docs =
     (case insertOne drv d (env (length insertedIds) docs) of
        (None, docs1) \<Rightarrow> insert_each drv env ds (insertedIds @ [d_id d]) docs1
      | (Some err, docs1) \<Rightarrow> (Some err, insertedIds, docs1))"

definition deleteMany :: "object_id list \<Rightarrow> event_doc list \<Rightarrow> event_doc list" where
  "deleteMany ids docs = filter (\<lambda>d. d_id d \<notin> set ids) docs"

definition commit_error :: "insert_error \<Rightarrow> js_error" where
  "commit_error err = (case err of
     Code_11000 \<Rightarrow> ConcurrencyError ''Concurrency conflict: duplicate event version'' | Other_error e \<Rightarrow> e)"

definition mongo_commitEvents :: "mongo_driver \<Rightarrow> (nat \<Rightarrow> event_doc list \<Rightarrow> event_doc list) \<Rightarrow>
    event list \<Rightarrow> bool \<Rightarrow> (mongo_events, event list) act" where
  "mongo_commitEvents drv env evs ignoreConc s =
     (if ignoreConc then (Inl (GenericError ''ignoreConcurrencyError is not supported by MongoEventStorage''), s)
      else (case toEventDocuments drv evs (ids_made s) of
          (Inl err, n) \<Rightarrow> (Inl err, s\<lparr>ids_made := n\<rparr>)
        | (Inr docs, n) \<Rightarrow> (case insert_each drv env docs [] (ev_docs s) of
              (Some err, insertedIds, c) \<Rightarrow> (Inl (commit_error err), \<lparr>ev_docs =
                 (if insertedIds = [] then c else deleteMany insertedIds (env (Suc (length insertedIds)) c)), ids_made = n\<rparr>)
            | (None, insertedIds, c) \<Rightarrow>
                (Inr (map2 (\<lambda>e d. e\<lparr>event_id := Some (IdStr (toHexString (d_id d)))\<rparr>) evs docs), \<lparr>ev_docs = c, ids_made = n\<rparr>))))"

definition mongo_getNewId :: "mongo_driver \<Rightarrow> mongo_events \<Rightarrow> string \<times> mongo_events" where
  "mongo_getNewId drv s = (toHexString (generated_id drv (ids_made s)), s\<lparr>ids_made := Suc (ids_made s)\<rparr>)"

definition mongo_process :: "mongo_driver \<Rightarrow> (nat \<Rightarrow> event_doc list \<Rightarrow> event_doc list) \<Rightarrow> batch \<Rightarrow> (mongo_events, batch) act" where
  "mongo_process drv env bt s = (case batch_events bt of
       Inl err \<Rightarrow> (Inl err, s)
     | Inr evs \<Rightarrow> act_bind (mongo_commitEvents drv env evs (case bt of [] \<Rightarrow> False | b # _ \<Rightarrow> ignoreConcurrencyError b))
         (\<lambda>_. act_return bt) s)"

section \<open>Reading\<close>

text \<open>\<open>aggregateVersion: { $gt: v }\<close>, which no document without a version satisfies.\<close>

definition version_gt :: "int \<Rightarrow> event_doc \<Rightarrow> bool" where
  "version_gt v d = (case aggregateVersion (d_rest d) of None \<Rightarrow> False | Some w \<Rightarrow> v < w)"

definition by_version :: "event_doc list \<Rightarrow> event_doc list" where
  "by_version docs = sort_key (\<lambda>d. aggregateVersion (d_rest d)) docs"

definition has_type_filter :: "aggregate_query \<Rightarrow> bool" where
  "has_type_filter q = (case q_eventTypes q of None \<Rightarrow> False | Some ts \<Rightarrow> ts \<noteq> [])"

definition mongo_getAggregateEvents :: "mongo_driver \<Rightarrow> ident \<Rightarrow> aggregate_query \<Rightarrow> event_doc list \<Rightarrow> event list result" where
  "mongo_getAggregateEvents drv aid q docs = res_bind (toObjectIdOrString drv aid) (\<lambda>a.
     let snapshotVersion = Option.bind (q_snapshot q) aggregateVersion;
         found = by_version (filter (\<lambda>d. d_aggregateId d = Some a
           \<and> (case snapshotVersion of None \<Rightarrow> True | Some v \<Rightarrow> version_gt v d)
           \<and> (has_type_filter q \<longrightarrow> msg_type (d_rest d) \<in> set (the (q_eventTypes q)))) docs);
         tailFound = by_version (filter (\<lambda>d. d_aggregateId d = Some a
           \<and> (case snapshotVersion of None \<Rightarrow> True | Some v \<Rightarrow> v \<noteq> 0 \<longrightarrow> version_gt v d)) docs)
     in Inr (map toEvent (found @
         (if tail_last q \<and> has_type_filter q \<and> tailFound \<noteq> [] \<and> (found = [] \<or> d_id (last tailFound) \<noteq> d_id (last found))
          then [last tailFound] else []))))"

text \<open>
  The path \<open>sagaOrigins.<descriptor>\<close> of a query. Origins are text, so a descriptor with a dot is a
  path that leads nowhere.
\<close>

definition saga_path :: "event_doc \<Rightarrow> string \<Rightarrow> string option" where
  "saga_path d descriptor = (if CHR ''.'' \<in> set descriptor then None else saga_origin (d_rest d) descriptor)"

definition mongo_getSagaEvents :: "mongo_driver \<Rightarrow> ident \<Rightarrow> event \<Rightarrow> event_doc list \<Rightarrow> event list result" where
  "mongo_getSagaEvents drv sagaId beforeEvent docs =
     res_bind (assert_id_string (event_id beforeEvent) ''beforeEvent.id'') (\<lambda>beforeId.
     res_bind (parseSagaId sagaId) (\<lambda>(sagaDescriptor, originEventId).
       if saga_origin beforeEvent sagaDescriptor \<noteq> Some originEventId
       then Inl (TypeError ''beforeEvent.sagaOrigins does not match sagaId'')
       else res_bind (toObjectId drv (IdStr originEventId)) (\<lambda>originObjectId.
       res_bind (toObjectId drv (IdStr beforeId)) (\<lambda>beforeObjectId.
         if \<not> list_ex (\<lambda>d. d_id d = originObjectId) docs
         then Inl (GenericError (''origin event '' @ originEventId @ '' not found''))
         else if \<not> list_ex (\<lambda>d. d_id d = beforeObjectId) docs
         then Inl (GenericError (''beforeEvent '' @ beforeId @ '' not found''))
         else Inr (map toEvent (sort_key d_id (filter (\<lambda>d. d_id d = originObjectId \<or>
           saga_path d sagaDescriptor = Some originEventId \<and> originObjectId < d_id d \<and> d_id d < beforeObjectId) docs)))))))"

definition mongo_getEventsByTypes :: "mongo_driver \<Rightarrow> string list \<Rightarrow> event option \<Rightarrow> event_doc list \<Rightarrow> event list result" where
  "mongo_getEventsByTypes drv eventTypes afterEvent docs =
     (let found = (\<lambda>P. map toEvent (sort_key d_id (filter (\<lambda>d. msg_type (d_rest d) \<in> set eventTypes \<and> P d) docs)))
      in case afterEvent of
           None \<Rightarrow> Inr (found (\<lambda>_. True))
         | Some ev \<Rightarrow> res_bind (assert_id_string (event_id ev) ''options.afterEvent.id'') (\<lambda>i.
             res_bind (toObjectId drv (IdStr i)) (\<lambda>x. Inr (found (\<lambda>d. x < d_id d)))))"

section \<open>What a commit does\<close>

text \<open>The two unique indexes.\<close>

definition index_keys :: "event_doc list \<Rightarrow> ((object_id + string) option \<times> int option) list" where
  "index_keys docs = List.map_filter index_key docs"

definition index_ok :: "event_doc list \<Rightarrow> bool" where
  "index_ok docs \<longleftrightarrow> distinct (map d_id docs) \<and> distinct (index_keys docs)"

text \<open>No request fails after the server has carried it out.\<close>

definition failures_clean :: "mongo_driver \<Rightarrow> bool" where
  "failures_clean drv \<longleftrightarrow> (\<forall>x e b. insert_failure drv x = Some (e, b) \<longrightarrow> \<not> b)"

definition alone :: "nat \<Rightarrow> event_doc list \<Rightarrow> event_doc list" where
  "alone n docs = docs"

lemma alone_id: "alone n docs = docs"
  by (simp add: alone_def)

lemma index_keys_simps [simp]:
  "index_keys [] = []"
  "index_keys (d # ds) = (case index_key d of None \<Rightarrow> index_keys ds | Some k \<Rightarrow> k # index_keys ds)"
  "index_keys (docs @ ds) = index_keys docs @ index_keys ds"
  by (simp_all add: index_keys_def List.map_filter_def split: option.split)

lemma mem_index: "k \<in> set (index_keys docs) \<longleftrightarrow> (\<exists>d \<in> set docs. index_key d = Some k)"
  by (force simp: index_keys_def List.map_filter_def)

lemma duplicate_key_iff:
  "duplicate_key d docs \<longleftrightarrow> d_id d \<in> d_id ` set docs \<or> (\<exists>k. index_key d = Some k \<and> k \<in> set (index_keys docs))"
proof -
  have "(\<exists>x \<in> set docs. index_key d \<noteq> None \<and> index_key x = index_key d) \<longleftrightarrow>
      (\<exists>k. index_key d = Some k \<and> k \<in> set (index_keys docs))"
    by (cases "index_key d") (auto simp: mem_index)
  then show ?thesis by (auto simp: duplicate_key_def list_ex_iff image_iff eq_commute [of "d_id d"])
qed

lemma insertOne_None: "insertOne drv d docs = (None, docs') \<Longrightarrow> \<not> duplicate_key d docs \<and> docs' = docs @ [d]"
  by (auto simp: insertOne_def split: option.splits if_splits)

lemma insertOne_Some: "failures_clean drv \<Longrightarrow> insertOne drv d docs = (Some err, docs') \<Longrightarrow> docs' = docs"
  unfolding failures_clean_def insertOne_def
  by (cases "insert_failure drv (d_id d)") (simp, auto split: if_splits, blast)

lemma index_ok_insert: "index_ok docs \<Longrightarrow> index_ok (snd (insertOne drv d docs))"
  by (auto simp: insertOne_def index_ok_def duplicate_key_iff split: option.split)

lemma index_ok_deleteMany: "index_ok docs \<Longrightarrow> index_ok (deleteMany ids docs)"
proof -
  have "distinct (index_keys docs) \<Longrightarrow> distinct (index_keys (filter P docs))" for P
    by (induction docs) (auto simp: mem_index split: option.split)
  then show "index_ok docs \<Longrightarrow> index_ok (deleteMany ids docs)"
    by (simp add: index_ok_def deleteMany_def distinct_map_filter)
qed

lemma index_ok_insert_each:
  "\<lbrakk>index_ok docs; \<And>n c. index_ok c \<Longrightarrow> index_ok (env n c); insert_each drv env ds ids docs = (r, ids', docs')\<rbrakk> \<Longrightarrow> index_ok docs'"
proof (induction ds arbitrary: ids docs)
  case (Cons d ds)
  obtain r1 c1 where o: "insertOne drv d (env (length ids) docs) = (r1, c1)" by (cases "insertOne drv d (env (length ids) docs)")
  then have "index_ok c1" using index_ok_insert [OF Cons.prems(2) [OF Cons.prems(1)], of drv d "length ids"] by simp
  with Cons o show ?case by (cases r1) auto
qed simp

text \<open>The documents of the batch that are there: others act only on documents of their own.\<close>

lemma insert_each_own:
  "\<lbrakk>failures_clean drv; \<And>n c. filter (\<lambda>d. d_id d \<in> I) (env n c) = filter (\<lambda>d. d_id d \<in> I) c; d_id ` set ds \<subseteq> I;
     insert_each drv env ds ids docs = (r, ids', docs')\<rbrakk> \<Longrightarrow>
   \<exists>ins rest. ds = ins @ rest \<and> ids' = ids @ map d_id ins \<and> (r = None \<longleftrightarrow> rest = [])
     \<and> filter (\<lambda>d. d_id d \<in> I) docs' = filter (\<lambda>d. d_id d \<in> I) docs @ ins"
proof (induction ds arbitrary: ids docs)
  case (Cons d ds)
  obtain r1 c1 where o: "insertOne drv d (env (length ids) docs) = (r1, c1)" by (cases "insertOne drv d (env (length ids) docs)")
  show ?case
  proof (cases r1)
    case None
    with o Cons.prems(4) have rest: "insert_each drv env ds (ids @ [d_id d]) c1 = (r, ids', docs')" by simp
    have c1: "c1 = env (length ids) docs @ [d]" using insertOne_None o None by blast
    from Cons.IH [OF Cons.prems(1,2) _ rest] Cons.prems(3) obtain ins rst where
      "ds = ins @ rst" "ids' = (ids @ [d_id d]) @ map d_id ins" "r = None \<longleftrightarrow> rst = []"
      "filter (\<lambda>d. d_id d \<in> I) docs' = filter (\<lambda>d. d_id d \<in> I) c1 @ ins" by auto
    with c1 Cons.prems(2,3) show ?thesis by - (rule exI [of _ "d # ins"], rule exI [of _ rst], simp)
  next
    case (Some err)
    with o Cons.prems(4) have "r = Some err" "ids' = ids" "docs' = c1" by auto
    moreover have "c1 = env (length ids) docs" using insertOne_Some [OF Cons.prems(1)] o Some by blast
    ultimately show ?thesis using Cons.prems(2) by (intro exI [of _ "[]"] exI [of _ "d # ds"]) simp
  qed
qed simp

lemma filter_own_deleteMany: "filter P (deleteMany ids docs) = deleteMany ids (filter P docs)"
  by (simp add: deleteMany_def conj_commute)

lemma insert_each_alone:
  "\<lbrakk>failures_clean drv; insert_each drv alone ds ids docs = (r, ids', docs')\<rbrakk> \<Longrightarrow>
   \<exists>ins rest. ds = ins @ rest \<and> ids' = ids @ map d_id ins \<and> (r = None \<longleftrightarrow> rest = []) \<and> docs' = docs @ ins
     \<and> d_id ` set docs \<inter> d_id ` set ins = {}
     \<and> set (index_keys docs) \<inter> set (index_keys ins) = {}"
proof (induction ds arbitrary: ids docs)
  case (Cons d ds)
  obtain r1 c1 where o: "insertOne drv d (alone (length ids) docs) = (r1, c1)" by (cases "insertOne drv d (alone (length ids) docs)")
  show ?case
  proof (cases r1)
    case None
    with o Cons.prems(2) have rest: "insert_each drv alone ds (ids @ [d_id d]) c1 = (r, ids', docs')" by simp
    have c1: "c1 = docs @ [d]" and new: "\<not> duplicate_key d docs" using insertOne_None o None unfolding alone_id by blast+
    from Cons.IH [OF Cons.prems(1) rest] obtain ins rst where
      "ds = ins @ rst" "ids' = (ids @ [d_id d]) @ map d_id ins" "r = None \<longleftrightarrow> rst = []" "docs' = c1 @ ins"
      "d_id ` set c1 \<inter> d_id ` set ins = {}"
      "set (index_keys c1) \<inter> set (index_keys ins) = {}" by auto
    moreover have "set (index_keys docs) \<inter> set (index_keys (d # ins)) = {}"
      using calculation(6) c1 new by (auto simp: duplicate_key_iff split: option.splits)
    ultimately show ?thesis using c1 new
      by - (rule exI [of _ "d # ins"], rule exI [of _ rst], auto simp: duplicate_key_iff)
  next
    case (Some err)
    with o Cons.prems(2) have "r = Some err" "ids' = ids" "docs' = c1" by auto
    moreover have "c1 = docs" using insertOne_Some [OF Cons.prems(1)] o Some unfolding alone_id by blast
    ultimately show ?thesis by (intro exI [of _ "[]"] exI [of _ "d # ds"]) simp
  qed
qed simp

lemma toEventDocuments_length: "toEventDocuments drv es n = (Inr ds, m) \<Longrightarrow> length ds = length es"
  by (induction es arbitrary: n ds m) (auto split: prod.splits sum.splits)

section \<open>The contract of an event log\<close>

definition doc_key :: "event_doc \<Rightarrow> ((object_id + string) \<times> int) option" where
  "doc_key d = (case (d_aggregateId d, aggregateVersion (d_rest d)) of (Some a, Some v) \<Rightarrow> Some (a, v) | _ \<Rightarrow> None)"

definition doc_keys :: "event_doc list \<Rightarrow> ((object_id + string) \<times> int) list" where
  "doc_keys docs = List.map_filter doc_key docs"

definition mongo_key :: "mongo_driver \<Rightarrow> ident \<Rightarrow> object_id + string" where
  "mongo_key drv i = (case toObjectIdOrString drv i of Inr k \<Rightarrow> k | Inl _ \<Rightarrow> Inr [])"

lemma doc_keys_simps [simp]:
  "doc_keys [] = []"
  "doc_keys (d # ds) = (case doc_key d of None \<Rightarrow> doc_keys ds | Some k \<Rightarrow> k # doc_keys ds)"
  "doc_keys (docs @ ds) = doc_keys docs @ doc_keys ds"
  by (simp_all add: doc_keys_def List.map_filter_def split: option.split)

lemma mem_doc_keys: "k \<in> set (doc_keys docs) \<longleftrightarrow> (\<exists>d \<in> set docs. doc_key d = Some k)"
  by (force simp: doc_keys_def List.map_filter_def)

lemma doc_key_iff: "doc_key d = Some (a, v) \<longleftrightarrow> d_aggregateId d = Some a \<and> aggregateVersion (d_rest d) = Some v"
  by (auto simp: doc_key_def split: option.splits)

lemma index_key_of: "doc_key d = Some (a, v) \<Longrightarrow> index_key d = Some (Some a, Some v)"
  by (simp add: doc_key_iff index_key_def)

lemma doc_keys_disjoint:
  assumes "set (index_keys docs) \<inter> set (index_keys ds) = {}"
  shows "set (doc_keys docs) \<inter> set (doc_keys ds) = {}"
proof -
  have "(Some a, Some v) \<in> set (index_keys xs)" if "(a, v) \<in> set (doc_keys xs)" for a v xs
    using that index_key_of by (auto simp: mem_doc_keys mem_index)
  with assms show ?thesis by fast
qed

lemma toEventDocument_Inr:
  assumes "toEventDocument drv e n = (Inr d, m)"
  shows "d_rest d = e\<lparr>event_id := None, aggregateId := None, payload := bson_value drv (payload e),
      msg_context := map_option (bson_value drv) (msg_context e)\<rparr>"
    and "(if opt_id_truthy (aggregateId e) then (\<exists>a. toObjectIdOrString drv (the (aggregateId e)) = Inr a \<and> d_aggregateId d = Some a)
      else d_aggregateId d = None)"
    and "(case event_id e of None \<Rightarrow> d_id d = generated_id drv n | Some i \<Rightarrow> toObjectId drv i = Inr (d_id d))"
proof -
  obtain oid k where o: "(case event_id e of None \<Rightarrow> (Inr (generated_id drv n), Suc n) | Some i \<Rightarrow> (toObjectId drv i, n)) = (oid, k)"
    by fastforce
  let ?a = "if opt_id_truthy (aggregateId e) then res_bind (toObjectIdOrString drv (the (aggregateId e))) (\<lambda>a. Inr (Some a)) else Inr None"
  obtain x a where xa: "oid = Inr x" "?a = Inr a" and d: "d = \<lparr>d_id = x, d_aggregateId = a,
      d_rest = e\<lparr>event_id := None, aggregateId := None, payload := bson_value drv (payload e),
      msg_context := map_option (bson_value drv) (msg_context e)\<rparr>\<rparr>"
    using assms unfolding toEventDocument_def o Let_def by (cases oid; cases ?a) auto
  show "d_rest d = e\<lparr>event_id := None, aggregateId := None, payload := bson_value drv (payload e),
      msg_context := map_option (bson_value drv) (msg_context e)\<rparr>" by (simp add: d)
  show "if opt_id_truthy (aggregateId e) then \<exists>a. toObjectIdOrString drv (the (aggregateId e)) = Inr a \<and> d_aggregateId d = Some a
      else d_aggregateId d = None"
    using xa(2) d by (cases "toObjectIdOrString drv (the (aggregateId e))") (auto split: if_splits)
  show "case event_id e of None \<Rightarrow> d_id d = generated_id drv n | Some i \<Rightarrow> toObjectId drv i = Inr (d_id d)"
    using o xa(1) d by (auto split: option.splits)
qed

lemma doc_key_of:
  assumes "toEventDocument drv e n = (Inr d, m)" and "\<forall>i. aggregateId e = Some i \<longrightarrow> id_truthy i"
  shows "doc_key d = map_option (\<lambda>(a, v). (mongo_key drv a, v)) (version_key e)"
  using toEventDocument_Inr(1,2) [OF assms(1)] assms(2)
  by (cases "aggregateId e")
    (auto simp: doc_key_def version_key_def opt_id_truthy_def mongo_key_def split: option.split)

lemma doc_keys_of:
  "\<lbrakk>toEventDocuments drv es n = (Inr ds, m); fits id_truthy es\<rbrakk> \<Longrightarrow> doc_keys ds = keyed (mongo_key drv) es"
proof (induction es arbitrary: n ds)
  case (Cons e es)
  then obtain d k ds' where d: "toEventDocument drv e n = (Inr d, k)" and ds: "toEventDocuments drv es k = (Inr ds', m)"
    "ds = d # ds'" by (auto split: prod.splits sum.splits)
  with doc_key_of [OF d] Cons show ?case by (auto split: option.split)
qed simp

lemma mongo_commitEvents_Inr:
  assumes "failures_clean drv" and "mongo_commitEvents drv alone es ig s = (Inr r, s')"
  obtains ds n where "\<not> ig" "toEventDocuments drv es (ids_made s) = (Inr ds, n)" "ev_docs s' = ev_docs s @ ds" "ids_made s' = n"
    "d_id ` set (ev_docs s) \<inter> d_id ` set ds = {}" "set (index_keys (ev_docs s)) \<inter> set (index_keys ds) = {}"
    "r = map2 (\<lambda>e d. e\<lparr>event_id := Some (IdStr (toHexString (d_id d)))\<rparr>) es ds"
proof -
  have "\<not> ig" using assms(2) by (auto simp: mongo_commitEvents_def)
  then obtain ds n where t: "toEventDocuments drv es (ids_made s) = (Inr ds, n)"
    using assms(2) by (auto simp: mongo_commitEvents_def split: prod.splits sum.splits)
  obtain r1 ids c where i: "insert_each drv alone ds [] (ev_docs s) = (r1, ids, c)" by (rule prod_cases3)
  then have r: "r1 = None" "ev_docs s' = c" "ids_made s' = n"
      "r = map2 (\<lambda>e d. e\<lparr>event_id := Some (IdStr (toHexString (d_id d)))\<rparr>) es ds"
    using assms(2) t \<open>\<not> ig\<close> by (auto simp: mongo_commitEvents_def split: option.splits)
  from insert_each_alone [OF assms(1) i] r(1) have "c = ev_docs s @ ds"
    "d_id ` set (ev_docs s) \<inter> d_id ` set ds = {}" "set (index_keys (ev_docs s)) \<inter> set (index_keys ds) = {}" by auto
  with that [OF \<open>\<not> ig\<close> t] r show thesis by simp
qed

lemma mongo_commitEvents_Inl:
  assumes "failures_clean drv" and "mongo_commitEvents drv alone es ig s = (Inl e, s')"
  shows "ev_docs s' = ev_docs s"
proof (cases "\<exists>ds n. \<not> ig \<and> toEventDocuments drv es (ids_made s) = (Inr ds, n)")
  case True
  then obtain ds n where t: "\<not> ig" "toEventDocuments drv es (ids_made s) = (Inr ds, n)" by blast
  obtain r1 ids c where i: "insert_each drv alone ds [] (ev_docs s) = (r1, ids, c)" by (rule prod_cases3)
  from insert_each_alone [OF assms(1) i] obtain ins where
    ins: "ids = map d_id ins" "c = ev_docs s @ ins" "d_id ` set (ev_docs s) \<inter> d_id ` set ins = {}" by auto
  have "ev_docs s' = (if ids = [] then c else deleteMany ids c)"
    using assms(2) t i by (auto simp: mongo_commitEvents_def alone_id split: option.splits)
  moreover have "deleteMany ids c = ev_docs s"
    using ins by (auto simp: deleteMany_def filter_empty_conv filter_id_conv)
  ultimately show ?thesis using ins by auto
qed (use assms(2) in \<open>auto simp: mongo_commitEvents_def split: if_splits prod.splits sum.splits\<close>)

lemma mongo_event_log:
  assumes "failures_clean drv"
  shows "event_log (mongo_commitEvents drv alone) (\<lambda>s. doc_keys (ev_docs s)) (mongo_key drv) id_truthy"
proof
  fix es ig s r s' e
  show "doc_keys (ev_docs s') = doc_keys (ev_docs s) @ keyed (mongo_key drv) es"
    if "fits id_truthy es" "mongo_commitEvents drv alone es ig s = (Inr r, s')"
    using mongo_commitEvents_Inr [OF assms that(2)] doc_keys_of [OF _ that(1)] by (metis doc_keys_simps(3))
  show "doc_keys (ev_docs s') = doc_keys (ev_docs s)" if "mongo_commitEvents drv alone es ig s = (Inl e, s')"
    using mongo_commitEvents_Inl [OF assms that] by simp
  show "set (doc_keys (ev_docs s)) \<inter> set (keyed (mongo_key drv) es) = {}"
    if "fits id_truthy es" "mongo_commitEvents drv alone es False s = (Inr r, s')"
    using mongo_commitEvents_Inr [OF assms that(2)] doc_keys_of [OF _ that(1)] doc_keys_disjoint by metis
qed

section \<open>Commits among others\<close>

lemma mongo_commitEvents_refused:
  assumes "toEventDocuments drv es (ids_made s) = (Inr ds, n)" and "insert_each drv env ds [] (ev_docs s) = (Some err, ids, c)"
  shows "mongo_commitEvents drv env es False s = (Inl (commit_error err), \<lparr>ev_docs =
      (if ids = [] then c else deleteMany ids (env (Suc (length ids)) c)), ids_made = n\<rparr>)"
  using assms by (simp add: mongo_commitEvents_def)

lemma mongo_versions_gapless_alone:
  assumes "failures_clean drv" and "ev_docs s0 = []"
    and "sys_run (mongo_commitEvents drv alone) (\<lambda>s. doc_keys (ev_docs s)) (mongo_key drv) id_truthy (init_system s0) t"
  shows "gapless (doc_keys (ev_docs (world t)))"
proof -
  have "(\<lambda>s. doc_keys (ev_docs s)) s0 = []" using assms(2) by simp
  from event_log.sys_inv_run [OF mongo_event_log [OF assms(1)] assms(3) init_inv [where stored = "\<lambda>s. doc_keys (ev_docs s)", OF this]]
  show ?thesis by (simp add: sys_inv_def)
qed

text \<open>Others keep the unique indexes and leave the documents of the batch alone.\<close>

definition others_ok :: "object_id set \<Rightarrow> (nat \<Rightarrow> event_doc list \<Rightarrow> event_doc list) \<Rightarrow> bool" where
  "others_ok I env \<longleftrightarrow> (\<forall>n c. (index_ok c \<longrightarrow> index_ok (env n c))
     \<and> filter (\<lambda>d. d_id d \<in> I) (env n c) = filter (\<lambda>d. d_id d \<in> I) c)"


text \<open>A driver for the examples: an id is its own text.\<close>

definition demo_driver :: mongo_driver where
  "demo_driver = \<lparr>new_ObjectId = (\<lambda>t. Inr (ObjectId t)), generated_id = (\<lambda>n. ObjectId (replicate n CHR ''f'')),
     bson_value = (\<lambda>v. v), insert_failure = (\<lambda>_. None)\<rparr>"

definition demo_doc :: "string \<Rightarrow> int \<Rightarrow> string \<Rightarrow> event_doc" where
  "demo_doc a v i = \<lparr>d_id = ObjectId i, d_aggregateId = Some (Inr a),
     d_rest = (demo_event ''T'' a v i)\<lparr>event_id := None, aggregateId := None\<rparr>\<rparr>"

lemma demo_driver_clean: "failures_clean demo_driver"
  by (simp add: failures_clean_def demo_driver_def)

lemma demo_toEventDocument:
  "a \<noteq> [] \<Longrightarrow> length a < 24 \<Longrightarrow> toEventDocument demo_driver (demo_event ''T'' a v i) n = (Inr (demo_doc a v i), n)"
  by (simp add: toEventDocument_def demo_driver_def demo_event_def demo_doc_def toObjectId_def toObjectIdOrString_def
      isHexObjectId_def opt_id_truthy_def)


text \<open>
  C26: a process that restores an aggregate while another one is half way through its batch sees the
  first event of the batch. When it commits the event that follows, the other batch is refused and
  takes its first event back: the collection keeps version \<open>v + 1\<close> of the aggregate without \<open>v\<close>.
\<close>

theorem mongo_commit_leaves_gap:
  assumes "\<forall>x. insert_failure drv x = None" and "0 \<le> v"
    and "toEventDocuments drv [e1, e2] (ids_made s) = (Inr [d1, d2], n)" "doc_key d1 = Some (a, v)" "doc_key d2 = Some (a, v + 1)"
    and "toEventDocuments drv [f] m = (Inr [d3], m')" "doc_key d3 = Some (a, v + 1)"
    and "gapless (doc_keys (ev_docs s))" "next_version a (doc_keys (ev_docs s)) = v"
    and "distinct [d_id d1, d_id d3]" "d_id d1 \<notin> d_id ` set (ev_docs s)" "d_id d3 \<notin> d_id ` set (ev_docs s)"
  shows "\<exists>err s'. mongo_commitEvents drv (\<lambda>k c. if k = 1
        then ev_docs (snd (mongo_commitEvents drv alone [f] False \<lparr>ev_docs = c, ids_made = m\<rparr>)) else c) [e1, e2] False s = (Inl err, s')
      \<and> is_concurrency_error err \<and> doc_keys (ev_docs s') = doc_keys (ev_docs s) @ [(a, v + 1)] \<and> \<not> gapless (doc_keys (ev_docs s'))"
proof -
  let ?f = "\<lambda>c. ev_docs (snd (mongo_commitEvents drv alone [f] False \<lparr>ev_docs = c, ids_made = m\<rparr>))"
  let ?env = "\<lambda>k c. if k = (1::nat) then ?f c else c"
  let ?docs = "ev_docs s"
  have keys: "(a, v) \<notin> set (doc_keys ?docs)" "(a, v + 1) \<notin> set (doc_keys ?docs)"
    using gapless_mem [OF assms(8)] assms(9) by auto
  have new: "\<not> duplicate_key d (?docs @ ds)" if "doc_key d = Some (a, w)" "w \<in> {v, v + 1}" "d_id d \<notin> d_id ` set (?docs @ ds)"
    "\<forall>x \<in> set ds. doc_key x \<noteq> Some (a, w)" for d w ds
  proof -
    have "doc_key x \<noteq> Some (a, w)" if "x \<in> set (?docs @ ds)" for x
      using that \<open>w \<in> _\<close> keys \<open>\<forall>x \<in> set ds. _\<close> by (auto simp: mem_doc_keys)
    then have "index_key x \<noteq> Some (Some a, Some w)" if "x \<in> set (?docs @ ds)" for x
      using that by (auto simp: index_key_def doc_key_iff split: option.splits)
    then show ?thesis using that(1,3) index_key_of [OF that(1)] by (auto simp: duplicate_key_iff mem_index)
  qed
  have i1: "insertOne drv d1 ?docs = (None, ?docs @ [d1])"
    using new [OF assms(4), of "[]"] assms(1,11) by (simp add: insertOne_def)
  have i3: "insertOne drv d3 (?docs @ [d1]) = (None, ?docs @ [d1, d3])"
    using new [OF assms(7), of "[d1]"] assms(1,4,10,12) by (simp add: insertOne_def eq_commute)
  have f: "?f (?docs @ [d1]) = ?docs @ [d1, d3]" using assms(6) i3 by (simp add: mongo_commitEvents_def alone_id)
  have "duplicate_key d2 (?docs @ [d1, d3])"
    using index_key_of [OF assms(5)] index_key_of [OF assms(7)] by (simp add: duplicate_key_def)
  then have i2: "insertOne drv d2 (?f (?docs @ [d1])) = (Some Code_11000, ?docs @ [d1, d3])"
    using f assms(1) by (simp add: insertOne_def)
  have each: "insert_each drv ?env [d1, d2] [] ?docs = (Some Code_11000, [d_id d1], ?docs @ [d1, d3])"
    using i1 i2 by simp
  have del: "deleteMany [d_id d1] (?docs @ [d1, d3]) = ?docs @ [d3]"
    using assms(10,11) by (auto simp: deleteMany_def filter_id_conv image_iff eq_commute [of "d_id d1"])
  have run: "mongo_commitEvents drv ?env [e1, e2] False s = (Inl (commit_error Code_11000), \<lparr>ev_docs = ?docs @ [d3], ids_made = n\<rparr>)"
    using mongo_commitEvents_refused [OF assms(3) each] del by simp
  have "\<not> gapless (doc_keys (?docs @ [d3]))"
  proof
    assume g: "gapless (doc_keys (?docs @ [d3]))"
    have "(a, v + 1) \<in> set (doc_keys (?docs @ [d3]))" using assms(7) by simp
    then have "v + 1 < next_version a (doc_keys (?docs @ [d3]))" using gapless_mem [OF g] by blast
    then have "(a, v) \<in> set (doc_keys (?docs @ [d3]))" using gapless_mem [OF g] assms(2) by simp
    with keys(1) assms(7) show False by simp
  qed
  with run assms(7) show ?thesis by (simp add: commit_error_def)
qed

lemma mongo_commit_leaves_gap_witness:
  "\<exists>err s'. mongo_commitEvents demo_driver (\<lambda>k c. if k = 1
        then ev_docs (snd (mongo_commitEvents demo_driver alone [demo_event ''T'' ''a'' 1 ''3''] False \<lparr>ev_docs = c, ids_made = 0\<rparr>)) else c)
      [demo_event ''T'' ''a'' 0 ''1'', demo_event ''T'' ''a'' 1 ''2''] False \<lparr>ev_docs = [], ids_made = 0\<rparr> = (Inl err, s')
    \<and> is_concurrency_error err \<and> \<not> gapless (doc_keys (ev_docs s'))"
proof -
  have k: "doc_key (demo_doc ''a'' v i) = Some (Inr ''a'', v)" for v i
    by (simp add: doc_key_def demo_doc_def demo_event_def)
  have i: "d_id (demo_doc a v i) = ObjectId i" for a v i by (simp add: demo_doc_def)
  let ?s = "\<lparr>ev_docs = [], ids_made = 0\<rparr>"
  have empty: "gapless (doc_keys (ev_docs ?s))" "next_version (Inr ''a'') (doc_keys (ev_docs ?s)) = 0"
    by (simp_all add: gapless_def versions_of_def next_version_def)
  have nofail: "\<forall>x. insert_failure demo_driver x = None" by (simp add: demo_driver_def)
  from mongo_commit_leaves_gap [of demo_driver 0 "demo_event ''T'' ''a'' 0 ''1''" "demo_event ''T'' ''a'' 1 ''2''" ?s
      "demo_doc ''a'' 0 ''1''" "demo_doc ''a'' 1 ''2''" 0 "Inr ''a''" "demo_event ''T'' ''a'' 1 ''3''" 0 "demo_doc ''a'' 1 ''3''" 0, OF nofail _ _ _ _ _ _ empty]
  show ?thesis by (simp add: k i demo_toEventDocument) blast
qed

section \<open>What is read back\<close>

lemma toEvent_simps [simp]:
  "msg_type (toEvent d) = msg_type (d_rest d)" "aggregateVersion (toEvent d) = aggregateVersion (d_rest d)"
  "event_id (toEvent d) = Some (IdStr (toHexString (d_id d)))"
  by (simp_all add: toEvent_def)

text \<open>What the storage keeps of an event: everything, if ids that are object ids have their text form.\<close>

definition mongo_lossless :: "mongo_driver \<Rightarrow> event \<Rightarrow> bool" where
  "mongo_lossless drv e \<longleftrightarrow> bson_value drv (payload e) = payload e
     \<and> map_option (bson_value drv) (msg_context e) = msg_context e
     \<and> (case aggregateId e of None \<Rightarrow> True
        | Some (IdStr t) \<Rightarrow> t \<noteq> [] \<and> (isHexObjectId (IdStr t) \<longrightarrow> new_ObjectId drv t = Inr (ObjectId t))
        | Some _ \<Rightarrow> False)"

lemma toEvent_toEventDocument:
  assumes "mongo_lossless drv e" and "toEventDocument drv e n = (Inr d, m)"
  shows "toEvent d = e\<lparr>event_id := Some (IdStr (toHexString (d_id d)))\<rparr>"
proof (cases "aggregateId e")
  case None
  with assms(1) toEventDocument_Inr(1,2) [OF assms(2)] show ?thesis
    by (simp add: toEvent_def mongo_lossless_def opt_id_truthy_def)
next
  case (Some i)
  with assms(1) obtain t where t: "i = IdStr t" "t \<noteq> []" "isHexObjectId (IdStr t) \<Longrightarrow> new_ObjectId drv t = Inr (ObjectId t)"
    by (auto simp: mongo_lossless_def split: ident.splits)
  with toEventDocument_Inr(2) [OF assms(2)] Some
  have "d_aggregateId d = (if isHexObjectId i then Some (Inl (ObjectId t)) else Some (Inr t))"
    by (auto simp: opt_id_truthy_def toObjectIdOrString_def toObjectId_def)
  with toEventDocument_Inr(1) [OF assms(2)] assms(1) Some t show ?thesis
    by (simp add: toEvent_def mongo_lossless_def)
qed

lemma toEvents_toEventDocuments:
  "\<lbrakk>\<forall>e \<in> set es. mongo_lossless drv e; toEventDocuments drv es n = (Inr ds, m)\<rbrakk> \<Longrightarrow>
     map toEvent ds = map2 (\<lambda>e d. e\<lparr>event_id := Some (IdStr (toHexString (d_id d)))\<rparr>) es ds"
proof (induction es arbitrary: n ds)
  case (Cons e es)
  then obtain d k ds' where "toEventDocument drv e n = (Inr d, k)" "toEventDocuments drv es k = (Inr ds', m)" "ds = d # ds'"
    by (auto split: prod.splits sum.splits)
  with Cons toEvent_toEventDocument [of drv e n d k] show ?case by simp
qed simp

text \<open>
  A batch committed to MongoDB is read back as the commit returned it, in order and after what
  was there, which is as it was given but for the ids; a batch that fails leaves no trace.
\<close>

theorem mongo_commit_roundtrip:
  assumes "failures_clean drv" and "\<forall>e \<in> set es. mongo_lossless drv e" and "mongo_commitEvents drv alone es ig s = (r, s')"
  shows "map toEvent (ev_docs s') = map toEvent (ev_docs s) @ (case r of Inl _ \<Rightarrow> [] | Inr es' \<Rightarrow> es')
    \<and> (case r of Inl _ \<Rightarrow> ev_docs s' = ev_docs s
       | Inr es' \<Rightarrow> map (\<lambda>e. e\<lparr>event_id := None\<rparr>) es' = map (\<lambda>e. e\<lparr>event_id := None\<rparr>) es)"
proof (cases r)
  case (Inl err)
  with assms(3) mongo_commitEvents_Inl [OF assms(1)] show ?thesis by simp
next
  case (Inr es')
  then obtain ds n where t: "toEventDocuments drv es (ids_made s) = (Inr ds, n)" "ev_docs s' = ev_docs s @ ds"
    "es' = map2 (\<lambda>e d. e\<lparr>event_id := Some (IdStr (toHexString (d_id d)))\<rparr>) es ds"
    using mongo_commitEvents_Inr [OF assms(1)] assms(3) by metis
  have "map (\<lambda>e. e\<lparr>event_id := None\<rparr>) (map2 (\<lambda>e d. e\<lparr>event_id := x d\<rparr>) es ds) = map (\<lambda>e. e\<lparr>event_id := None\<rparr>) es"
    if "length ds = length es" for x :: "event_doc \<Rightarrow> ident option" and ds
    using that by (induction ds es rule: list_induct2) auto
  with t toEvents_toEventDocuments [OF assms(2) t(1)] toEventDocuments_length [OF t(1)] Inr show ?thesis by simp
qed

lemma demo_lossless: "a \<noteq> [] \<Longrightarrow> length a < 24 \<Longrightarrow> mongo_lossless demo_driver (demo_event ''T'' a v i)"
  by (simp add: mongo_lossless_def demo_driver_def demo_event_def isHexObjectId_def)

lemma mongo_commit_roundtrip_witness:
  "map toEvent (ev_docs (snd (mongo_commitEvents demo_driver alone [demo_event ''T'' ''a'' 0 ''1''] False
     \<lparr>ev_docs = [], ids_made = 0\<rparr>))) = [demo_event ''T'' ''a'' 0 ''1'']"
proof -
  have run: "mongo_commitEvents demo_driver alone [demo_event ''T'' ''a'' 0 ''1''] False \<lparr>ev_docs = [], ids_made = 0\<rparr>
      = (Inr [demo_event ''T'' ''a'' 0 ''1''], \<lparr>ev_docs = [demo_doc ''a'' 0 ''1''], ids_made = 0\<rparr>)"
    by (simp add: mongo_commitEvents_def demo_toEventDocument alone_id insertOne_def duplicate_key_def)
      (simp add: demo_driver_def demo_doc_def demo_event_def)
  from mongo_commit_roundtrip [OF demo_driver_clean _ run] demo_lossless [of "''a''"] run show ?thesis by simp
qed

text \<open>The documents of an aggregate in the order of their versions, as commits of its events leave them.\<close>

definition in_order :: "(object_id + string) \<Rightarrow> event_doc list \<Rightarrow> bool" where
  "in_order k docs \<longleftrightarrow> sorted (map (\<lambda>d. aggregateVersion (d_rest d)) (filter (\<lambda>d. d_aggregateId d = Some k) docs))"

lemma by_version_own:
  assumes "in_order k docs"
  shows "by_version (filter (\<lambda>d. d_aggregateId d = Some k \<and> P d) docs) = filter P (filter (\<lambda>d. d_aggregateId d = Some k) docs)"
proof -
  have "filter (\<lambda>d. d_aggregateId d = Some k \<and> P d) docs = filter P (filter (\<lambda>d. d_aggregateId d = Some k) docs)"
    by (simp add: conj_commute)
  moreover have "sorted (map (\<lambda>d. aggregateVersion (d_rest d)) (filter P (filter (\<lambda>d. d_aggregateId d = Some k) docs)))"
    using assms unfolding in_order_def by (rule sorted_filter)
  ultimately show ?thesis by (simp add: by_version_def sort_key_id_if_sorted)
qed

lemma last_of_filter:
  assumes "xs \<noteq> []" and "distinct (map f xs)"
  shows "(filter P xs = [] \<or> f (last xs) \<noteq> f (last (filter P xs))) \<longleftrightarrow> \<not> P (last xs)"
proof -
  obtain ys x where x: "xs = ys @ [x]" using assms(1) rev_exhaust by blast
  show ?thesis
  proof (cases "P x")
    case False
    have "f (last (filter P ys)) \<noteq> f x" if "filter P ys \<noteq> []"
    proof -
      have "last (filter P ys) \<in> set ys" using last_in_set [OF that] by simp
      then have "f (last (filter P ys)) \<in> f ` set ys" by (rule imageI)
      moreover have "f x \<notin> f ` set ys" using assms(2) x by simp
      ultimately show ?thesis by metis
    qed
    with x False show ?thesis by auto
  qed (simp add: x)
qed

lemma mongo_aggregate_stream:
  assumes "toObjectIdOrString drv a = Inr k" and "in_order k docs" and "distinct (map d_id docs)"
    and ids: "\<forall>d \<in> set docs. d_aggregateId d = Some k \<longleftrightarrow> aggregateId (toEvent d) = Some a"
    and zero: "Option.bind (q_snapshot q) aggregateVersion \<noteq> Some 0" and types: "q_eventTypes q \<noteq> Some []"
  shows "mongo_getAggregateEvents drv a q docs = Inr (aggregate_stream a q (map toEvent docs))"
proof -
  define snap where "snap = Option.bind (q_snapshot q) aggregateVersion"
  define own where "own = filter (\<lambda>d. case snap of None \<Rightarrow> True | Some v \<Rightarrow> version_gt v d) (filter (\<lambda>d. d_aggregateId d = Some k) docs)"
  define T where "T = (\<lambda>d. of_types (q_eventTypes q) (toEvent d))"
  have T: "T d \<longleftrightarrow> (has_type_filter q \<longrightarrow> msg_type (d_rest d) \<in> set (the (q_eventTypes q)))" for d
    using types by (auto simp: T_def of_types_def has_type_filter_def split: option.splits)
  have newer: "newer_than (q_snapshot q) (toEvent d) \<longleftrightarrow> (case snap of None \<Rightarrow> True | Some v \<Rightarrow> version_gt v d)" for d
    using zero by (auto simp: newer_than_def snap_def version_gt_def split: option.splits)
  have "filter ((\<lambda>e. aggregateId e = Some a \<and> newer_than (q_snapshot q) e) \<circ> toEvent) docs = own"
    unfolding own_def filter_filter by (rule filter_cong) (use ids newer in \<open>auto simp: conj_commute\<close>)
  then have stream: "filter (\<lambda>e. aggregateId e = Some a \<and> newer_than (q_snapshot q) e) (map toEvent docs) = map toEvent own"
    by (simp add: filter_map)
  have tailFound: "by_version (filter (\<lambda>d. d_aggregateId d = Some k
      \<and> (case snap of None \<Rightarrow> True | Some v \<Rightarrow> v \<noteq> 0 \<longrightarrow> version_gt v d)) docs) = own"
    unfolding by_version_own [OF assms(2)] own_def
    by (rule filter_cong) (use zero in \<open>auto simp: snap_def split: option.split\<close>)
  have found: "by_version (filter (\<lambda>d. d_aggregateId d = Some k \<and> (case snap of None \<Rightarrow> True | Some v \<Rightarrow> version_gt v d)
      \<and> (has_type_filter q \<longrightarrow> msg_type (d_rest d) \<in> set (the (q_eventTypes q)))) docs) = filter T own"
    unfolding by_version_own [OF assms(2)] own_def filter_filter by (rule filter_cong) (auto simp: T)
  have "distinct (map d_id own)" using assms(3) by (simp add: own_def distinct_map_filter)
  note tail = last_of_filter [OF _ this, of T]
  have none: "\<not> has_type_filter q \<Longrightarrow> T d" for d by (simp add: T)
  have "mongo_getAggregateEvents drv a q docs = Inr (map toEvent (filter T own @
      (if tail_last q \<and> has_type_filter q \<and> own \<noteq> [] \<and> (filter T own = [] \<or> d_id (last own) \<noteq> d_id (last (filter T own)))
       then [last own] else [])))"
    using found tailFound unfolding mongo_getAggregateEvents_def assms(1) Let_def snap_def by simp
  also have "(tail_last q \<and> has_type_filter q \<and> own \<noteq> [] \<and> (filter T own = [] \<or> d_id (last own) \<noteq> d_id (last (filter T own))))
      \<longleftrightarrow> tail_last q \<and> own \<noteq> [] \<and> \<not> T (last own)"
    using tail none by blast
  also have "Inr (map toEvent (filter T own @ (if tail_last q \<and> own \<noteq> [] \<and> \<not> T (last own) then [last own] else [])))
      = (Inr (aggregate_stream a q (map toEvent docs)) :: event list result)"
    unfolding aggregate_stream_def stream Let_def
    by (cases "own = []") (simp_all add: filter_map T_def o_def last_map)
  finally show ?thesis .
qed

lemma sorted_ids_after:
  assumes "sorted (map d_id (pre @ d # post))" and "distinct (map d_id (pre @ d # post))"
  shows "filter (\<lambda>x. P x \<and> d_id d < d_id x) (pre @ d # post) = filter P post"
proof -
  have "\<forall>x \<in> set pre. d_id x \<le> d_id d" using assms(1) by (auto simp: sorted_append)
  then have "filter (\<lambda>x. P x \<and> d_id d < d_id x) pre = []" by (auto simp: filter_empty_conv)
  moreover have "\<forall>x \<in> set post. d_id d < d_id x" using assms by (auto simp: sorted_append less_le image_iff)
  then have "filter (\<lambda>x. P x \<and> d_id d < d_id x) post = filter P post" by (auto intro: filter_cong)
  ultimately show ?thesis by simp
qed

lemma mongo_types_stream:
  assumes "sorted (map d_id docs)" and "distinct (map d_id docs)" and "d \<in> set docs" and "toHexString (d_id d) = i" and "i \<noteq> []"
    and "new_ObjectId drv i = Inr (d_id d)" and "event_id seen = Some (IdStr i)"
  shows "mongo_getEventsByTypes drv ts (Some seen) docs = getEventsByTypes ts (Some seen) \<lparr>nextId = n, events = map toEvent docs\<rparr>"
proof -
  from assms(3) obtain pre post where docs: "docs = pre @ d # post" using split_list by fast
  have "sorted (map d_id (filter P docs))" for P using assms(1) by (rule sorted_filter)
  then have "sort_key d_id (filter P docs) = filter P docs" for P by (simp add: sort_key_id_if_sorted)
  then have "mongo_getEventsByTypes drv ts (Some seen) docs
      = Inr (map toEvent (filter (\<lambda>x. msg_type (d_rest x) \<in> set ts \<and> d_id d < d_id x) docs))"
    using assms(5-7) by (simp add: mongo_getEventsByTypes_def assert_id_string_def toObjectId_def)
  also have "filter (\<lambda>x. msg_type (d_rest x) \<in> set ts \<and> d_id d < d_id x) docs = filter (\<lambda>d. msg_type (d_rest d) \<in> set ts) post"
    unfolding docs by (rule sorted_ids_after) (use assms(1,2) docs in auto)
  finally have "mongo_getEventsByTypes drv ts (Some seen) docs = Inr (map toEvent (filter (\<lambda>d. msg_type (d_rest d) \<in> set ts) post))" .
  moreover have "Some (IdStr i) \<notin> set (map event_id (map toEvent pre))"
    using assms(2,4) by (auto simp: docs image_iff object_id.expand)
  then have "scan_after (Some (IdStr i)) ts False (map toEvent pre @ toEvent d # map toEvent post)
      = filter (\<lambda>e. msg_type e \<in> set ts) (map toEvent post)"
    by (rule scan_after_split) (simp add: assms(4))
  ultimately show ?thesis using assms(5,7)
    by (simp add: getEventsByTypes_def assert_id_string_def opt_id_truthy_def docs filter_map o_def)
qed



lemma mongo_docs_grow:
  "failures_clean drv \<Longrightarrow> \<exists>ds. ev_docs (commit_run (mongo_commitEvents drv alone) cs s) = ev_docs s @ ds"
proof (induction cs arbitrary: s)
  case (Cons c cs)
  obtain r s' where c: "mongo_commitEvents drv alone (fst c) (snd c) s = (r, s')" by fastforce
  then have "\<exists>ds. ev_docs s' = ev_docs s @ ds"
    by (cases r) (use mongo_commitEvents_Inl [OF Cons.prems] mongo_commitEvents_Inr [OF Cons.prems] in fastforce)+
  then obtain ds where "ev_docs s' = ev_docs s @ ds" by blast
  moreover obtain ds' where "ev_docs (commit_run (mongo_commitEvents drv alone) cs s') = ev_docs s' @ ds'"
    using Cons.IH [OF Cons.prems] by blast
  ultimately show ?case using c by simp
qed simp

text \<open>
  C27: an event committed to MongoDB whose id is smaller than that of another event is never among
  the events after that one, although it is stored: a projection that has seen the other event and
  asks for what came since is not given it, whatever is committed later.
\<close>

theorem mongo_late_event_missed:
  assumes "failures_clean drv" and "mongo_commitEvents drv alone [e] False s = (Inr [e'], s1)"
    and "event_id seen = Some (IdStr i)" and "new_ObjectId drv i = Inr x"
    and "event_id e' = Some (IdStr j)" and "ObjectId j < x"
    and "docs = ev_docs (commit_run (mongo_commitEvents drv alone) cs s1)"
    and "mongo_getEventsByTypes drv ts (Some seen) docs = Inr es"
  shows "event_id e' \<in> event_id ` toEvent ` set docs \<and> event_id e' \<notin> event_id ` set es"
proof
  from mongo_commitEvents_Inr [OF assms(1,2)] obtain ds n where
    t: "toEventDocuments drv [e] (ids_made s) = (Inr ds, n)" "ev_docs s1 = ev_docs s @ ds"
    "[e'] = map2 (\<lambda>e d. e\<lparr>event_id := Some (IdStr (toHexString (d_id d)))\<rparr>) [e] ds" by metis
  from t(3) obtain d where d: "ds = [d]" by (cases ds) (use toEventDocuments_length [OF t(1)] in auto)
  then have "event_id e' = event_id (toEvent d)" using t(3) by simp
  moreover have "d \<in> set docs" using mongo_docs_grow [OF assms(1), of cs s1] t(2) d assms(7) by auto
  ultimately show "event_id e' \<in> event_id ` toEvent ` set docs" by (metis imageI)
  have "es = map toEvent (sort_key d_id (filter (\<lambda>d. msg_type (d_rest d) \<in> set ts \<and> x < d_id d) docs))"
    using assms(3,4,8) by (cases "i = []") (auto simp: mongo_getEventsByTypes_def assert_id_string_def toObjectId_def)
  then have "\<forall>e'' \<in> set es. \<exists>d. e'' = toEvent d \<and> x < d_id d" by auto
  then show "event_id e' \<notin> event_id ` set es"
    using assms(5,6) by (fastforce simp: less_object_id_def)
qed

lemma mongo_late_event_missed_witness:
  "case mongo_getEventsByTypes demo_driver [''T''] (Some (demo_event ''T'' ''a'' 0 ''2'')) [demo_doc ''a'' 0 ''2'', demo_doc ''b'' 0 ''1''] of
     Inl err \<Rightarrow> False | Inr es \<Rightarrow> Some (IdStr ''1'') \<notin> event_id ` set es"
proof -
  let ?docs = "[demo_doc ''a'' 0 ''2'', demo_doc ''b'' 0 ''1'']"
  have run: "mongo_commitEvents demo_driver alone [demo_event ''T'' ''b'' 0 ''1''] False \<lparr>ev_docs = [demo_doc ''a'' 0 ''2''], ids_made = 0\<rparr>
      = (Inr [demo_event ''T'' ''b'' 0 ''1''], \<lparr>ev_docs = ?docs, ids_made = 0\<rparr>)"
    by (simp add: mongo_commitEvents_def demo_toEventDocument alone_id insertOne_def duplicate_key_def index_key_def)
      (simp add: demo_driver_def demo_doc_def demo_event_def)
  obtain es where es: "mongo_getEventsByTypes demo_driver [''T''] (Some (demo_event ''T'' ''a'' 0 ''2'')) ?docs = Inr es"
    by (simp add: mongo_getEventsByTypes_def assert_id_string_def toObjectId_def demo_event_def demo_driver_def)
  have "Some (IdStr ''1'') \<notin> event_id ` set es"
    using mongo_late_event_missed [OF demo_driver_clean run, of "demo_event ''T'' ''a'' 0 ''2''" "''2''" "ObjectId ''2''" "''1''" ?docs
        "[]" "[''T'']" es] es
    by (simp add: demo_event_def demo_driver_def less_object_id_def)
  with es show ?thesis by simp
qed

end
