(* ===== verification/RabbitGateway.thy ===== *)
theory RabbitGateway
  imports Messages "HOL-Library.Multiset"
begin

text \<open>
  The RabbitMQ gateway (\<open>src/rabbitmq/RabbitMqGateway.ts\<close>): one connection, a channel per queue, a
  consumer per queue, and the list of subscriptions that is set up again after a reconnect. What
  amqplib and the broker answer is a parameter, \<open>amqp\<close>, which may depend on all requests made so
  far; any request may fail, and the close of a connection may arrive during any of them. The
  operations that change the connection run one at a time under the gateway's lock.
\<close>

section \<open>Requests\<close>

datatype amqp_request =
    Connect
  | CreateChannel nat
  | CreateConfirmChannel nat
  | AssertExchange nat string
  | AssertQueue nat string bool bool "(string \<times> jsval) list"
  | BindQueue nat string string string
  | Prefetch nat jsval
  | Consume nat "string option" bool
  | Cancel nat string
  | CloseConnection nat
  | Publish nat string string event "(string \<times> jsval) list"

text \<open>
  A reply: the connection or channel made, the queue with its ready messages and consumers, the
  consumer's tag, whether the channel's buffer took the message. Beside it comes the connection
  whose \<open>close\<close> event arrives while the request is awaited, if any.
\<close>

record amqp_reply =
  re_ref :: nat
  re_queue :: string
  re_messages :: nat
  re_consumers :: nat
  re_tag :: string
  re_written :: bool

type_synonym amqp = "amqp_request list \<Rightarrow> amqp_request \<Rightarrow> amqp_reply result \<times> nat option"

section \<open>State\<close>

text \<open>\<open>EstablishedSubscription\<close>; a handler is named by its reference, options not given are \<open>JUndef\<close>.\<close>

record subscription =
  s_exchange :: string
  s_queueName :: "string option"
  s_eventType :: "string option"
  s_handler :: nat
  s_ignoreOwn :: bool
  s_concurrentLimit :: jsval
  s_noAck :: bool
  s_handlerProcessTimeout :: jsval
  s_queueExpires :: jsval
  s_singleActiveConsumer :: bool
  s_deadLetterQueue :: "bool option"
  s_messageTtl :: jsval
  s_queueGivenName :: "string option"

datatype gateway_event = Connected | Disconnected string

record gateway =
  gw_desired :: bool
  gw_connection :: "nat option"
  gw_pubChannel :: "nat option"
  gw_exclusiveQueueName :: "string option"
  gw_queueChannels :: "(string, nat) jsmap"
  gw_queueConsumers :: "(string option, nat \<times> string) jsmap"
  gw_subscriptions :: "subscription list"
  gw_reconnectTimer :: bool
  gw_pendingConnects :: nat
  gw_appId :: "string option"
  gw_requests :: "amqp_request list"
  gw_emitted :: "gateway_event list"

definition new_gateway :: gateway where
  "new_gateway = \<lparr>gw_desired = False, gw_connection = None, gw_pubChannel = None, gw_exclusiveQueueName = None,
     gw_queueChannels = [], gw_queueConsumers = [], gw_subscriptions = [], gw_reconnectTimer = False,
     gw_pendingConnects = 0, gw_appId = None, gw_requests = [], gw_emitted = []\<rparr>"

definition isConnected :: "gateway \<Rightarrow> bool" where
  "isConnected g = (gw_connection g \<noteq> None)"

text \<open>\<open>!name\<close> is false for a name that is given and not empty.\<close>

definition named :: "string option \<Rightarrow> bool" where
  "named n = (case n of None \<Rightarrow> False | Some q \<Rightarrow> q \<noteq> [])"

definition ALL_EVENTS_WILDCARD :: string where
  "ALL_EVENTS_WILDCARD = ''*''"

definition HANDLER_PROCESS_TIMEOUT :: int where
  "HANDLER_PROCESS_TIMEOUT = 60 * 60 * 1000"

definition isSystemQueue :: "string \<Rightarrow> bool" where
  "isSystemQueue q = (take 4 q = ''amq.'')"

section \<open>Losing the connection\<close>

definition gw_cleanup :: "gateway \<Rightarrow> gateway" where
  "gw_cleanup g = g\<lparr>gw_connection := None, gw_pubChannel := None, gw_exclusiveQueueName := None,
     gw_queueChannels := [], gw_queueConsumers := []\<rparr>"

text \<open>
  The part of \<open>connect()\<close> before it waits for the lock. A call made by the gateway itself is counted
  in \<open>gw_pendingConnects\<close> until its turn comes.
\<close>

definition connect_enter :: "gateway \<Rightarrow> gateway" where
  "connect_enter g = g\<lparr>gw_desired := True, gw_reconnectTimer := False\<rparr>"

definition gw_reconnect :: "gateway \<Rightarrow> gateway" where
  "gw_reconnect g = (if \<not> gw_desired g \<or> isConnected g then g
     else (connect_enter g)\<lparr>gw_pendingConnects := Suc (gw_pendingConnects g)\<rparr>)"

definition onConnectionClosed :: "nat \<Rightarrow> gateway \<Rightarrow> gateway" where
  "onConnectionClosed c g = (if gw_connection g \<noteq> Some c then g
     else let g1 = gw_cleanup g in
       if gw_desired g1 then gw_reconnect (g1\<lparr>gw_emitted := gw_emitted g1 @ [Disconnected ''Connection closed'']\<rparr>) else g1)"

definition scheduleReconnect :: "gateway \<Rightarrow> gateway" where
  "scheduleReconnect g = (if \<not> gw_desired g then g else g\<lparr>gw_reconnectTimer := True\<rparr>)"

text \<open>Awaiting a request.\<close>

definition request :: "amqp \<Rightarrow> amqp_request \<Rightarrow> (gateway, amqp_reply) act" where
  "request amqp r g = (case amqp (gw_requests g) r of (reply, closed) \<Rightarrow>
     let g1 = g\<lparr>gw_requests := gw_requests g @ [r]\<rparr>
     in (reply, case closed of None \<Rightarrow> g1 | Some c \<Rightarrow> onConnectionClosed c g1))"

section \<open>Setting up a subscription\<close>

definition same_subscription :: "subscription \<Rightarrow> subscription \<Rightarrow> bool" where
  "same_subscription s t = (s_exchange s = s_exchange t \<and> s_queueName s = s_queueName t
     \<and> s_eventType s = s_eventType t \<and> s_handler s = s_handler t)"

definition findSubscription :: "subscription \<Rightarrow> gateway \<Rightarrow> subscription option" where
  "findSubscription s g = find (\<lambda>t. same_subscription t s) (gw_subscriptions g)"

definition describeSub :: "subscription \<Rightarrow> string" where
  "describeSub s = (let n = (case s_queueName s of None \<Rightarrow> s_queueGivenName s | Some q \<Rightarrow> Some q)
     in ''to'' @ (if named n then '' queue '' @ [CHR 0x22] @ the n @ [CHR 0x22] @ '' of'' else [])
        @ '' exchange '' @ [CHR 0x22] @ s_exchange s @ [CHR 0x22])"

definition assertQueueChannel :: "amqp \<Rightarrow> string option \<Rightarrow> (gateway, nat) act" where
  "assertQueueChannel amqp queueName g = (let key = (case queueName of None \<Rightarrow> [] | Some q \<Rightarrow> q) in
     case map_of (gw_queueChannels g) key of
       Some ch \<Rightarrow> (Inr ch, g)
     | None \<Rightarrow> (case gw_connection g of
         None \<Rightarrow> (Inl (GenericError ''No connection established to create channel''), g)
       | Some c \<Rightarrow> act_bind (request amqp (CreateChannel c)) (\<lambda>reply g1.
           (Inr (re_ref reply), g1\<lparr>gw_queueChannels := AList.update key (re_ref reply) (gw_queueChannels g1)\<rparr>)) g))"

definition assertBinding :: "amqp \<Rightarrow> nat \<Rightarrow> string \<Rightarrow> string \<Rightarrow> string option \<Rightarrow> (gateway, unit) act" where
  "assertBinding amqp ch exchange queueGivenName eventType =
     (let pattern = (if \<not> named eventType \<or> eventType = Some ALL_EVENTS_WILDCARD then ''#'' else the eventType)
      in act_bind (request amqp (BindQueue ch queueGivenName exchange pattern)) (\<lambda>_. act_return ()))"

record queue_options =
  qo_durable :: bool
  qo_exclusive :: bool
  qo_singleActiveConsumer :: bool
  qo_deadLetterExchangeName :: "string option"
  qo_queueExpires :: jsval
  qo_handlerProcessTimeout :: jsval
  qo_messageTtl :: jsval

text \<open>The defaults of the destructuring.\<close>

definition default_queue_options :: queue_options where
  "default_queue_options = \<lparr>qo_durable = True, qo_exclusive = False, qo_singleActiveConsumer = False,
     qo_deadLetterExchangeName = None, qo_queueExpires = JUndef,
     qo_handlerProcessTimeout = JNum HANDLER_PROCESS_TIMEOUT, qo_messageTtl = JUndef\<rparr>"

fun plus_second :: "jsval \<Rightarrow> jsval" where
  "plus_second (JNum n) = JNum (n + 1000)"
| "plus_second v = v"

definition queue_arguments :: "queue_options \<Rightarrow> (string \<times> jsval) list" where
  "queue_arguments opts = (if named (qo_deadLetterExchangeName opts) then [(''x-dead-letter-exchange'', JStr (the (qo_deadLetterExchangeName opts)))] else [])
     @ (if qo_durable opts then [(''x-queue-type'', JStr ''quorum'')] else [])
     @ (if truthy (qo_queueExpires opts) then [(''x-expires'', qo_queueExpires opts)] else [])
     @ (if qo_singleActiveConsumer opts then [(''x-single-active-consumer'', JBool True)] else [])
     @ (if truthy (qo_handlerProcessTimeout opts) then [(''x-consumer-timeout'', plus_second (qo_handlerProcessTimeout opts))] else [])
     @ (if truthy (qo_messageTtl opts) then [(''x-message-ttl'', qo_messageTtl opts)] else [])"

definition assetQueue :: "amqp \<Rightarrow> nat \<Rightarrow> string \<Rightarrow> string \<Rightarrow> string option \<Rightarrow> queue_options \<Rightarrow> (gateway, amqp_reply) act" where
  "assetQueue amqp ch exchange queueName eventType options =
     act_bind (request amqp (AssertExchange ch exchange)) (\<lambda>_.
     act_bind (request amqp (AssertQueue ch queueName (qo_exclusive options) (qo_durable options) (queue_arguments options))) (\<lambda>reply.
     act_bind (assertBinding amqp ch exchange (re_queue reply) eventType) (\<lambda>_. act_return reply)))"

definition setPrefetch :: "amqp \<Rightarrow> nat \<Rightarrow> subscription \<Rightarrow> (gateway, unit) act" where
  "setPrefetch amqp ch s = (if s_concurrentLimit s = JUndef then act_return ()
     else act_check (assertNonNegativeInteger (s_concurrentLimit s) ''options.concurrentLimit'')
       (act_bind (request amqp (Prefetch ch (s_concurrentLimit s))) (\<lambda>_. act_return ())))"

definition assertConsumer :: "amqp \<Rightarrow> string option \<Rightarrow> nat \<Rightarrow> subscription \<Rightarrow> (gateway, bool) act" where
  "assertConsumer amqp queueGivenName ch s g =
     (if map_has (gw_queueConsumers g) queueGivenName then (Inr False, g)
      else act_bind (setPrefetch amqp ch s) (\<lambda>_.
        act_bind (request amqp (Consume ch queueGivenName (s_noAck s))) (\<lambda>reply g1.
          (Inr True, g1\<lparr>gw_queueConsumers := AList.update queueGivenName (ch, re_tag reply) (gw_queueConsumers g1)\<rparr>))) g)"

section \<open>Subscribing\<close>

text \<open>The exclusive queue: made once per connection, bound again for every subscription.\<close>

definition subscribe_exclusive :: "amqp \<Rightarrow> nat \<Rightarrow> subscription \<Rightarrow> (gateway, string option \<times> nat \<times> nat) act" where
  "subscribe_exclusive amqp ch s g = (if \<not> named (gw_exclusiveQueueName g)
     then act_bind (assetQueue amqp ch (s_exchange s) [] (s_eventType s)
         (default_queue_options\<lparr>qo_exclusive := True, qo_durable := False, qo_messageTtl := s_messageTtl s\<rparr>))
       (\<lambda>reply g1. (Inr (Some (re_queue reply), re_messages reply, re_consumers reply),
          g1\<lparr>gw_exclusiveQueueName := Some (re_queue reply)\<rparr>)) g
     else act_bind (assertBinding amqp ch (s_exchange s) (the (gw_exclusiveQueueName g)) (s_eventType s))
       (\<lambda>_ g1. (Inr (gw_exclusiveQueueName g1, 0, 0), g1)) g)"

definition durable_options :: "subscription \<Rightarrow> string option \<Rightarrow> queue_options" where
  "durable_options s deadLetterExchangeName = default_queue_options\<lparr>
     qo_singleActiveConsumer := s_singleActiveConsumer s, qo_deadLetterExchangeName := deadLetterExchangeName,
     qo_queueExpires := s_queueExpires s, qo_messageTtl := s_messageTtl s,
     qo_handlerProcessTimeout := (if s_handlerProcessTimeout s = JUndef then JNum HANDLER_PROCESS_TIMEOUT else s_handlerProcessTimeout s)\<rparr>"

definition subscribe_durable :: "amqp \<Rightarrow> nat \<Rightarrow> bool \<Rightarrow> subscription \<Rightarrow> string \<Rightarrow> (gateway, string option \<times> nat \<times> nat) act" where
  "subscribe_durable amqp ch deadLetterQueue s q =
     (let dlx = (if deadLetterQueue then Some (s_exchange s @ ''.failed'') else None)
      in act_bind (case dlx of None \<Rightarrow> act_return ()
           | Some x \<Rightarrow> act_bind (assetQueue amqp ch x (q @ ''.failed'') None default_queue_options) (\<lambda>_. act_return ())) (\<lambda>_.
         act_bind (assetQueue amqp ch (s_exchange s) q (s_eventType s) (durable_options s dlx)) (\<lambda>reply.
         act_return (Some q, re_messages reply, re_consumers reply))))"

text \<open>The first record of the list that is found gets the queue's name.\<close>

fun set_given :: "subscription \<Rightarrow> string option \<Rightarrow> subscription list \<Rightarrow> subscription list" where
  "set_given s q [] = []"
| "set_given s q (t # ts) = (if same_subscription t s then t\<lparr>s_queueGivenName := q\<rparr> # ts else t # set_given s q ts)"

record subscribe_result =
  sr_queue :: "string option"
  sr_consumerCreated :: bool
  sr_messageCount :: nat
  sr_consumerCount :: nat

definition wants_dead_letters :: "subscription \<Rightarrow> bool" where
  "wants_dead_letters s = (case s_deadLetterQueue s of None \<Rightarrow> named (s_queueName s) | Some b \<Rightarrow> b)"

definition gw_subscribe_now :: "amqp \<Rightarrow> subscription \<Rightarrow> (gateway, subscribe_result) act" where
  "gw_subscribe_now amqp s g =
     (if findSubscription s g \<noteq> None
      then (Inl (GenericError (''Subscription '' @ describeSub s @ '' already exists'')), g)
      else let g1 = g\<lparr>gw_subscriptions := gw_subscriptions g @ [s]\<rparr> in
        if wants_dead_letters s \<and> \<not> named (s_queueName s)
        then (Inl (GenericError ''deadLetterQueue requires a durable queue (queueName must be set)''), g1)
        else act_bind (assertQueueChannel amqp (s_queueName s)) (\<lambda>ch.
             act_bind (if named (s_queueName s) then subscribe_durable amqp ch (wants_dead_letters s) s (the (s_queueName s))
               else subscribe_exclusive amqp ch s) (\<lambda>(given, messages, consumers) g2.
             act_bind (assertConsumer amqp given ch s) (\<lambda>consumerCreated. act_return
                 \<lparr>sr_queue = given, sr_consumerCreated = consumerCreated, sr_messageCount = messages, sr_consumerCount = consumers\<rparr>)
               (g2\<lparr>gw_subscriptions := set_given s given (gw_subscriptions g2)\<rparr>))) g1)"

section \<open>Connecting and disconnecting\<close>

text \<open>
  One turn of the loop takes the first subscription off the list and sets it up again, which puts
  it at the end: the list is as long as before, so there are as many turns as subscriptions.
\<close>

primrec restore_turns :: "amqp \<Rightarrow> nat \<Rightarrow> (gateway, unit) act" where
  "restore_turns amqp 0 = act_return ()"
| "restore_turns amqp (Suc n) = (\<lambda>g. case gw_subscriptions g of
     [] \<Rightarrow> (Inr (), g)
   | s # rest \<Rightarrow> act_bind (gw_subscribe_now amqp s) (\<lambda>_. restore_turns amqp n) (g\<lparr>gw_subscriptions := rest\<rparr>))"

definition restoreSubscriptions :: "amqp \<Rightarrow> (gateway, unit) act" where
  "restoreSubscriptions amqp g = restore_turns amqp (length (gw_subscriptions g)) g"

definition emit_event :: "gateway_event \<Rightarrow> gateway \<Rightarrow> gateway" where
  "emit_event e g = g\<lparr>gw_emitted := gw_emitted g @ [e]\<rparr>"

definition gw_connect_now :: "amqp \<Rightarrow> (gateway, nat option) act" where
  "gw_connect_now amqp g =
     (case act_bind (request amqp Connect) (\<lambda>reply g1.
         act_bind (restoreSubscriptions amqp) (\<lambda>_. act_return ()) (g1\<lparr>gw_connection := Some (re_ref reply)\<rparr>)) g of
        (Inl err, g2) \<Rightarrow> (Inl err, scheduleReconnect g2)
      | (Inr _, g2) \<Rightarrow> (Inr (gw_connection g2), emit_event Connected g2))"

text \<open>The part of \<open>connect()\<close> under the lock.\<close>

definition connect_locked :: "amqp \<Rightarrow> (gateway, nat option) act" where
  "connect_locked amqp g = (if isConnected g then (Inr (gw_connection g), g) else gw_connect_now amqp g)"

definition gw_connect :: "amqp \<Rightarrow> (gateway, nat option) act" where
  "gw_connect amqp g = connect_locked amqp (connect_enter g)"

text \<open>The turn of a call of \<open>connect()\<close> that waits for the lock; its failure is ignored.\<close>

definition gw_run_pending :: "amqp \<Rightarrow> gateway \<Rightarrow> gateway" where
  "gw_run_pending amqp g = (case gw_pendingConnects g of
       0 \<Rightarrow> g
     | Suc n \<Rightarrow> snd (connect_locked amqp (g\<lparr>gw_pendingConnects := n\<rparr>)))"

definition gw_subscribe :: "amqp \<Rightarrow> subscription \<Rightarrow> (gateway, subscribe_result) act" where
  "gw_subscribe amqp s = act_check
     (res_bind (if s_handlerProcessTimeout s = JUndef then Inr ()
        else assertNonNegativeInteger (s_handlerProcessTimeout s) ''subscription.handlerProcessTimeout'') (\<lambda>_.
      res_bind (if s_queueExpires s = JUndef then Inr ()
        else assertNonNegativeInteger (s_queueExpires s) ''subscription.queueExpires'') (\<lambda>_.
      res_bind (if s_messageTtl s = JUndef then Inr ()
        else assertNonNegativeInteger (s_messageTtl s) ''subscription.messageTtl'') (\<lambda>_.
      if named (s_queueName s) then Inr () else assertNotDefined (s_queueExpires s) ''subscription.queueExpires''))))
     (\<lambda>g. let g1 = connect_enter g in
        act_bind (if isConnected g1 then act_return None else gw_connect_now amqp) (\<lambda>_. gw_subscribe_now amqp s) g1)"

primrec cancel_each :: "amqp \<Rightarrow> (string option \<times> nat \<times> string) list \<Rightarrow> gateway \<Rightarrow> gateway" where
  "cancel_each amqp [] g = g"
| "cancel_each amqp (c # cs) g = (case c of (q, ch, tag) \<Rightarrow> case request amqp (Cancel ch tag) g of
       (Inl err, g1) \<Rightarrow> cancel_each amqp cs g1
     | (Inr _, g1) \<Rightarrow> cancel_each amqp cs (g1\<lparr>gw_queueConsumers := AList.delete q (gw_queueConsumers g1)\<rparr>))"

definition stopConsuming :: "amqp \<Rightarrow> gateway \<Rightarrow> gateway" where
  "stopConsuming amqp g = cancel_each amqp (gw_queueConsumers g) g"

text \<open>Every failure on the way is caught; without a connection left \<open>this.#connection.close()\<close> is one.\<close>

definition gw_disconnect :: "amqp \<Rightarrow> gateway \<Rightarrow> gateway" where
  "gw_disconnect amqp g = (let g1 = g\<lparr>gw_desired := False, gw_reconnectTimer := False\<rparr> in
     if \<not> isConnected g1 then g1
     else let g2 = stopConsuming amqp g1 in case gw_connection g2 of
       None \<Rightarrow> g2
     | Some c \<Rightarrow> (case request amqp (CloseConnection c) g2 of
         (Inl err, g3) \<Rightarrow> g3
       | (Inr _, g3) \<Rightarrow> emit_event (Disconnected ''Disconnected by request'') (if isConnected g3 then gw_cleanup g3 else g3)))"

section \<open>Unsubscribing\<close>

definition tryDropConsumer :: "amqp \<Rightarrow> subscription \<Rightarrow> (gateway, unit) act" where
  "tryDropConsumer amqp s g =
     (if \<not> named (s_queueGivenName s) \<or> list_ex (\<lambda>t. s_queueGivenName t = s_queueGivenName s) (gw_subscriptions g)
      then (Inr (), g)
      else case map_of (gw_queueConsumers g) (s_queueGivenName s) of
        None \<Rightarrow> (Inr (), g)
      | Some (ch, tag) \<Rightarrow> act_bind (request amqp (Cancel ch tag)) (\<lambda>_. act_return ())
          (g\<lparr>gw_queueConsumers := AList.delete (s_queueGivenName s) (gw_queueConsumers g)\<rparr>))"

fun remove_first :: "('a \<Rightarrow> bool) \<Rightarrow> 'a list \<Rightarrow> 'a list" where
  "remove_first P [] = []"
| "remove_first P (x # xs) = (if P x then xs else x # remove_first P xs)"

definition gw_unsubscribe :: "amqp \<Rightarrow> subscription \<Rightarrow> (gateway, unit) act" where
  "gw_unsubscribe amqp s g = (case findSubscription s g of
       None \<Rightarrow> (Inl (GenericError ''Such subscription does not exist''), g)
     | Some t \<Rightarrow> tryDropConsumer amqp t
         (g\<lparr>gw_subscriptions := remove_first (\<lambda>u. same_subscription u s) (gw_subscriptions g)\<rparr>))"

section \<open>Publishing\<close>

definition getAppId :: "string result \<Rightarrow> (gateway, string) act" where
  "getAppId provided g = (case gw_appId g of
       Some a \<Rightarrow> (res_bind (assertString (JStr a) ''appId'') (\<lambda>_. Inr a), g)
     | None \<Rightarrow> (case provided of
         Inl err \<Rightarrow> (Inl err, g)
       | Inr a \<Rightarrow> (res_bind (assertString (JStr a) ''appId'') (\<lambda>_. Inr a), g\<lparr>gw_appId := Some a\<rparr>)))"

text \<open>The origin of the only saga a message belongs to.\<close>

definition saga_correlation :: "event \<Rightarrow> jsval" where
  "saga_correlation m = (case sagaOrigins m of Some [(d, x)] \<Rightarrow> JStr x | _ \<Rightarrow> JUndef)"

definition timestamp_of :: "int \<Rightarrow> event \<Rightarrow> jsval" where
  "timestamp_of now m = (let ts = (case msg_context m of None \<Rightarrow> JUndef | Some c \<Rightarrow> js_get c ''ts'')
     in if ts = JUndef \<or> ts = JNull then JNum now else ts)"

definition publish_properties :: "int \<Rightarrow> string \<Rightarrow> event \<Rightarrow> (string \<times> jsval) list" where
  "publish_properties now appId m =
     [(''contentType'', JStr ''application/json''), (''contentEncoding'', JStr ''utf8''), (''persistent'', JBool True),
      (''timestamp'', timestamp_of now m), (''appId'', JStr appId), (''type'', JStr (msg_type m)),
      (''messageId'', case event_id m of Some (IdStr i) \<Rightarrow> JStr i | _ \<Rightarrow> JUndef),
      (''correlationId'', saga_correlation m)]"

definition assertPubChannel :: "amqp \<Rightarrow> string \<Rightarrow> (gateway, unit) act" where
  "assertPubChannel amqp exchange g = (if gw_pubChannel g \<noteq> None then (Inr (), g)
     else act_bind (\<lambda>g. if isConnected g then (Inr (gw_connection g), g) else gw_connect amqp g) (\<lambda>conn.
          case conn of
            None \<Rightarrow> act_throw (TypeError ''connection is undefined'')
          | Some c \<Rightarrow> act_bind (request amqp (CreateConfirmChannel c)) (\<lambda>reply g1.
              act_bind (request amqp (AssertExchange (re_ref reply) exchange)) (\<lambda>_. act_return ())
                (g1\<lparr>gw_pubChannel := Some (re_ref reply)\<rparr>))) g)"

text \<open>
  The message is handed to the channel first; that its buffer was full is noticed afterwards. A
  refusal by the broker comes as the error of the request.
\<close>

definition gw_publish :: "amqp \<Rightarrow> string result \<Rightarrow> int \<Rightarrow> string \<Rightarrow> event \<Rightarrow> (gateway, unit) act" where
  "gw_publish amqp appId now exchange m = act_check
     (res_bind (assertString (JStr exchange) ''exchange'') (\<lambda>_.
        if message_ok m then Inr () else Inl (TypeError ''message must be a valid IMessage'')))
     (act_bind (assertPubChannel amqp exchange) (\<lambda>_.
      act_bind (getAppId appId) (\<lambda>a g. case gw_pubChannel g of
          None \<Rightarrow> (Inl (GenericError ''No channel available for publishing''), g)
        | Some ch \<Rightarrow> act_bind (request amqp (Publish ch exchange (msg_type m) m (publish_properties now a m)))
            (\<lambda>reply. if re_written reply then act_return ()
               else act_throw (GenericError (''Failed to send event '' @ describe m @ '', channel buffer is full''))) g)))"

section \<open>A delivered message\<close>

definition matches_type :: "string \<Rightarrow> subscription \<Rightarrow> bool" where
  "matches_type t s = (\<not> named (s_eventType s) \<or> s_eventType s = Some ALL_EVENTS_WILDCARD \<or> s_eventType s = Some t)"

definition getHandlers :: "string \<Rightarrow> string \<Rightarrow> gateway \<Rightarrow> subscription list" where
  "getHandlers queueGivenName eventType g =
     filter (\<lambda>s. s_queueGivenName s = Some queueGivenName \<and> matches_type eventType s) (gw_subscriptions g)"

datatype finalization = Ack | Nack

text \<open>
  The state of the consumer's callback for one message that is to be acknowledged (\<open>noAck\<close> is not
  set): the handlers still to run, whether it is
  still running, whether its timer is armed, \<open>messageFinalized\<close>, what the channel was told of the
  message, and whether the promise of the callback was rejected, which nobody handles.
\<close>

record delivery =
  dl_handlers :: "nat list"
  dl_running :: bool
  dl_timer :: bool
  dl_finalized :: bool
  dl_calls :: "finalization list"
  dl_unhandled :: bool

definition start_timer :: "jsval \<Rightarrow> bool" where
  "start_timer timeout = (timeout = JUndef \<or> truthy timeout)"

text \<open>\<open>#rejectMessage\<close> catches what \<open>nack\<close> throws.\<close>

definition fail_delivery :: "delivery \<Rightarrow> delivery" where
  "fail_delivery d = (if dl_finalized d then d else d\<lparr>dl_calls := dl_calls d @ [Nack], dl_finalized := True\<rparr>)
     \<lparr>dl_running := False, dl_timer := False\<rparr>"

text \<open>
  From the delivery to the first handler. \<open>content\<close> is the parsed message, \<open>None\<close> where
  \<open>JSON.parse\<close> throws; \<open>appId\<close> is the result of \<open>getAppId\<close>.
\<close>

definition start_delivery :: "jsval \<Rightarrow> string \<Rightarrow> string result \<Rightarrow> event option \<Rightarrow> string option \<Rightarrow> gateway \<Rightarrow> delivery" where
  "start_delivery timeout queueGivenName appId content msgAppId g =
     (let d = \<lparr>dl_handlers = [], dl_running = True, dl_timer = start_timer timeout, dl_finalized = False, dl_calls = [], dl_unhandled = False\<rparr>
      in case content of
        None \<Rightarrow> d\<lparr>dl_running := False, dl_unhandled := True\<rparr>
      | Some m \<Rightarrow> let hs = getHandlers queueGivenName (msg_type m) g in
          if hs = [] \<and> \<not> isSystemQueue queueGivenName then fail_delivery d
          else case (if list_ex s_ignoreOwn hs then map_sum id Some appId else Inr None) of
            Inl err \<Rightarrow> fail_delivery d
          | Inr own \<Rightarrow> d\<lparr>dl_handlers := map s_handler (filter (\<lambda>s. \<not> (s_ignoreOwn s \<and> msgAppId = own)) hs)\<rparr>)"

text \<open>
  What happens next: the timer fires, the handler at hand resolves or rejects, or all handlers are
  done and the message is acknowledged, which may throw when the channel is closed.
\<close>

inductive delivery_step :: "delivery \<Rightarrow> delivery \<Rightarrow> bool" where
  timed_out: "dl_timer d \<Longrightarrow>
     delivery_step d (d\<lparr>dl_calls := dl_calls d @ [Nack], dl_finalized := True, dl_timer := False\<rparr>)"
| handler_resolved: "dl_running d \<Longrightarrow> dl_handlers d = h # hs \<Longrightarrow> delivery_step d (d\<lparr>dl_handlers := hs\<rparr>)"
| handler_rejected: "dl_running d \<Longrightarrow> dl_handlers d = h # hs \<Longrightarrow> delivery_step d (fail_delivery d)"
| acknowledged: "dl_running d \<Longrightarrow> dl_handlers d = [] \<Longrightarrow> \<not> dl_finalized d \<Longrightarrow>
     delivery_step d (d\<lparr>dl_calls := dl_calls d @ [Ack], dl_running := False, dl_timer := False\<rparr>)"
| ack_failed: "dl_running d \<Longrightarrow> dl_handlers d = [] \<Longrightarrow> \<not> dl_finalized d \<Longrightarrow> delivery_step d (fail_delivery d)"
| too_late: "dl_running d \<Longrightarrow> dl_handlers d = [] \<Longrightarrow> dl_finalized d \<Longrightarrow>
     delivery_step d (d\<lparr>dl_running := False, dl_timer := False\<rparr>)"

inductive_cases delivery_stepE: "delivery_step d d'"
inductive_simps delivery_step_iff: "delivery_step d d'"

section \<open>Deliveries\<close>

text \<open>The channel is told once, and a message is rejected exactly if it is marked as finalized.\<close>

definition delivery_ok :: "delivery \<Rightarrow> bool" where
  "delivery_ok d \<longleftrightarrow> (dl_finalized d \<longleftrightarrow> dl_calls d = [Nack]) \<and> dl_calls d \<in> {[], [Ack], [Nack]}
     \<and> (dl_running d \<longrightarrow> dl_calls d \<noteq> [Ack]) \<and> (dl_timer d \<longrightarrow> dl_calls d = [])
     \<and> (dl_calls d = [Ack] \<longrightarrow> dl_handlers d = [])"

lemma fail_delivery_simps [simp]:
  "dl_running (fail_delivery d) = False" "dl_timer (fail_delivery d) = False" "dl_handlers (fail_delivery d) = dl_handlers d"
  "dl_unhandled (fail_delivery d) = dl_unhandled d" "dl_finalized (fail_delivery d) = True"
  "dl_calls (fail_delivery d) = (if dl_finalized d then dl_calls d else dl_calls d @ [Nack])"
  by (auto simp: fail_delivery_def)

lemma delivery_ok_step: "delivery_step d d' \<Longrightarrow> delivery_ok d \<Longrightarrow> delivery_ok d'"
  by (induction rule: delivery_step.induct) (auto simp: delivery_ok_def)

lemma unhandled_step: "delivery_step d d' \<Longrightarrow> dl_unhandled d' = dl_unhandled d"
  by (induction rule: delivery_step.induct) simp_all

lemma delivery_ok_start: "delivery_ok (start_delivery timeout q appId content a g)"
  by (auto simp: start_delivery_def delivery_ok_def Let_def split: option.split sum.split)

lemma start_unhandled [simp]: "dl_unhandled (start_delivery timeout q appId content a g) \<longleftrightarrow> content = None"
  by (auto simp: start_delivery_def Let_def split: option.split sum.split)

text \<open>As long as the channel was told nothing, the callback is running or, after a parse error, its timer.\<close>

lemma told_or_running_start:
  "dl_calls (start_delivery timeout q appId content a g) \<noteq> [] \<or> dl_running (start_delivery timeout q appId content a g)
     \<or> content = None \<and> dl_timer (start_delivery timeout q appId content a g) = start_timer timeout"
  by (auto simp: start_delivery_def Let_def split: option.split sum.split)

lemma delivery_stuck: "(\<nexists>d'. delivery_step d d') \<longleftrightarrow> \<not> dl_running d \<and> \<not> dl_timer d"
proof
  assume stuck: "\<nexists>d'. delivery_step d d'"
  have "\<not> dl_running d"
  proof
    assume "dl_running d"
    then have "\<exists>d'. delivery_step d d'"
      by (cases "dl_handlers d"; cases "dl_finalized d") (blast intro: delivery_step.intros)+
    with stuck show False by blast
  qed
  moreover have "\<not> dl_timer d" using stuck timed_out by blast
  ultimately show "\<not> dl_running d \<and> \<not> dl_timer d" ..
qed (auto elim: delivery_step.cases)

text \<open>Every step uses up a handler, the callback or the timer.\<close>

definition delivery_left :: "delivery \<Rightarrow> nat" where
  "delivery_left d = length (dl_handlers d) + (if dl_running d then 1 else 0) + (if dl_timer d then 1 else 0)"

lemma delivery_left_step: "delivery_step d d' \<Longrightarrow> delivery_left d' < delivery_left d"
  by (induction rule: delivery_step.induct) (auto simp: delivery_left_def)

text \<open>
  C24: however its handlers, its timer and the channel behave, the processing of a message comes to
  an end after a bounded number of steps, and then the channel was told exactly once: \<open>ack\<close> if all
  handlers resolved, \<open>nack\<close> else. The exception is a message that cannot be parsed on a subscription
  without a timeout: it is never finalized. Parsing errors are unhandled rejections.
\<close>

theorem message_finalized_once:
  assumes "(delivery_step ^^ n) (start_delivery timeout q appId content a g) d"
  shows "n \<le> delivery_left (start_delivery timeout q appId content a g)
    \<and> ((\<nexists>d'. delivery_step d d') \<longrightarrow>
        (if content \<noteq> None \<or> start_timer timeout then dl_calls d = [Nack] \<or> dl_calls d = [Ack] \<and> dl_handlers d = []
         else dl_calls d = []))
    \<and> (dl_unhandled d \<longleftrightarrow> content = None)"
proof -
  let ?d = "start_delivery timeout q appId content a g"
  have run: "delivery_left d + n \<le> delivery_left ?d \<and> delivery_ok d \<and> dl_unhandled d = dl_unhandled ?d
      \<and> (content \<noteq> None \<longrightarrow> dl_calls d \<noteq> [] \<or> dl_running d)
      \<and> (content = None \<longrightarrow> \<not> dl_running d \<and> (dl_calls d \<noteq> [] \<or> dl_timer d) = start_timer timeout \<and> dl_calls d \<noteq> [Ack])"
    using assms
  proof (induction n arbitrary: d)
    case 0
    have "content = None \<Longrightarrow> ?d = \<lparr>dl_handlers = [], dl_running = False, dl_timer = start_timer timeout, dl_finalized = False,
        dl_calls = [], dl_unhandled = True\<rparr>" by (simp add: start_delivery_def)
    with 0 delivery_ok_start [of timeout q appId content a g] told_or_running_start [of timeout q appId content a g]
    show ?case by auto
  next
    case (Suc n)
    then obtain d1 where d1: "(delivery_step ^^ n) ?d d1" and step: "delivery_step d1 d" by auto
    note ih = Suc.IH [OF d1]
    have "content \<noteq> None \<longrightarrow> dl_calls d \<noteq> [] \<or> dl_running d"
      using step ih by (induction rule: delivery_step.induct) (auto simp: delivery_ok_def)
    moreover have "content = None \<longrightarrow> \<not> dl_running d \<and> (dl_calls d \<noteq> [] \<or> dl_timer d) = start_timer timeout \<and> dl_calls d \<noteq> [Ack]"
      using step ih by (induction rule: delivery_step.induct) (auto simp: delivery_ok_def)
    ultimately show ?case
      using ih delivery_left_step [OF step] delivery_ok_step [OF step] unhandled_step [OF step] by auto
  qed
  show ?thesis using run unfolding delivery_stuck by (auto simp: delivery_ok_def)
qed

definition demo_sub :: "string option \<Rightarrow> string \<Rightarrow> nat \<Rightarrow> subscription" where
  "demo_sub q t h = \<lparr>s_exchange = ''x'', s_queueName = q, s_eventType = Some t, s_handler = h, s_ignoreOwn = False,
     s_concurrentLimit = JUndef, s_noAck = False, s_handlerProcessTimeout = JUndef, s_queueExpires = JUndef,
     s_singleActiveConsumer = False, s_deadLetterQueue = Some False, s_messageTtl = JUndef, s_queueGivenName = None\<rparr>"

lemma message_finalized_once_witness:
  "\<exists>d. (delivery_step ^^ 2) (start_delivery JUndef ''q'' (Inr ''app'') (Some (demo_event ''T'' ''a'' 0 ''e'')) None
       (new_gateway\<lparr>gw_subscriptions := [(demo_sub (Some ''q'') ''T'' 7)\<lparr>s_queueGivenName := Some ''q''\<rparr>]\<rparr>)) d
     \<and> (dl_calls d = [Nack] \<or> dl_calls d = [Ack] \<and> dl_handlers d = [])"
proof -
  let ?g = "new_gateway\<lparr>gw_subscriptions := [(demo_sub (Some ''q'') ''T'' 7)\<lparr>s_queueGivenName := Some ''q''\<rparr>]\<rparr>"
  let ?d = "start_delivery JUndef ''q'' (Inr ''app'') (Some (demo_event ''T'' ''a'' 0 ''e'')) None ?g"
  have d: "?d = \<lparr>dl_handlers = [7], dl_running = True, dl_timer = True, dl_finalized = False, dl_calls = [], dl_unhandled = False\<rparr>"
    by (simp add: start_delivery_def start_timer_def getHandlers_def matches_type_def named_def demo_sub_def demo_event_def Let_def)
  obtain d1 where s1: "delivery_step ?d d1" and d1: "d1 = ?d\<lparr>dl_handlers := []\<rparr>"
    using handler_resolved [of ?d 7 "[]"] d by simp
  obtain d2 where s2: "delivery_step d1 d2" and d2: "d2 = d1\<lparr>dl_calls := dl_calls d1 @ [Ack], dl_running := False, dl_timer := False\<rparr>"
    using acknowledged [of d1] d d1 by simp
  have two: "(delivery_step ^^ 2) ?d d2" unfolding numeral_2_eq_2 using s1 s2 by auto
  have "\<nexists>d'. delivery_step d2 d'" unfolding delivery_stuck by (simp add: d2)
  with message_finalized_once [OF two] two show ?thesis by auto
qed

section \<open>What actions keep\<close>

text \<open>What an action does to the gateway, whether it throws or not.\<close>

definition preserves :: "('s \<Rightarrow> 's \<Rightarrow> bool) \<Rightarrow> ('s, 'a) act \<Rightarrow> bool" where
  "preserves R m \<longleftrightarrow> (\<forall>g. R g (snd (m g)))"

named_theorems preserves_intros \<open>how actions keep a relation\<close>

lemma preservesD: "preserves R m \<Longrightarrow> m g = (r, g') \<Longrightarrow> R g g'"
  by (auto simp: preserves_def dest: spec [of _ g])

lemma preserves_apply: "preserves R m \<Longrightarrow> R g (snd (m g))"
  by (simp add: preserves_def)

lemma preserves_return [preserves_intros]: "reflp R \<Longrightarrow> preserves R (act_return a)"
  by (simp add: preserves_def act_return_def reflpD)

lemma preserves_throw [preserves_intros]: "reflp R \<Longrightarrow> preserves R (act_throw e)"
  by (simp add: preserves_def act_throw_def reflpD)

lemma preserves_check [preserves_intros]: "reflp R \<Longrightarrow> preserves R m \<Longrightarrow> preserves R (act_check r m)"
  by (simp add: preserves_def act_check_def reflpD split: sum.split)

lemma preserves_bind [preserves_intros]:
  assumes "transp R" and "preserves R m" and "\<And>a. preserves R (f a)"
  shows "preserves R (act_bind m f)"
  using assms unfolding preserves_def act_bind_def
  by (auto split: prod.split sum.split) (metis snd_conv transpD)+

text \<open>
  A relation that every request and every update of the fields a subscription touches keeps is kept
  by setting a subscription up, wherever that stops.
\<close>

locale gateway_relation =
  fixes amqp :: amqp and R :: "gateway \<Rightarrow> gateway \<Rightarrow> bool"
  assumes R_refl: "R g g" and R_trans: "R g h \<Longrightarrow> R h k \<Longrightarrow> R g k"
    and R_request: "R g (snd (request amqp r g))"
    and R_channels: "R g (g\<lparr>gw_queueChannels := chs\<rparr>)"
    and R_exclusive: "R g (g\<lparr>gw_exclusiveQueueName := x\<rparr>)"
    and R_consumer: "R g (g\<lparr>gw_queueConsumers := AList.update q c (gw_queueConsumers g)\<rparr>)"
begin

lemma order [preserves_intros]: "reflp R" "transp R"
  using R_refl R_trans by (auto simp: reflp_def intro: transpI)

lemma request_keeps [preserves_intros]: "preserves R (request amqp r)"
  using R_request by (simp add: preserves_def)

lemma update_keeps [preserves_intros]: "(\<And>g. R g (f g)) \<Longrightarrow> preserves R (\<lambda>g. (r g, f g))"
  by (simp add: preserves_def)

lemma binding_keeps [preserves_intros]: "preserves R (assertBinding amqp ch x q t)"
  unfolding assertBinding_def Let_def by (intro preserves_intros)

lemma queue_keeps [preserves_intros]: "preserves R (assetQueue amqp ch x q t opts)"
  unfolding assetQueue_def by (intro preserves_intros)

lemma durable_keeps [preserves_intros]: "preserves R (subscribe_durable amqp ch dl s q)"
  unfolding subscribe_durable_def Let_def
  by (cases dl; simp only: if_True if_False option.case; intro preserves_intros)

lemma exclusive_keeps [preserves_intros]: "preserves R (subscribe_exclusive amqp ch s)"
proof -
  have new: "preserves R (act_bind (assetQueue amqp ch (s_exchange s) [] (s_eventType s)
         (default_queue_options\<lparr>qo_exclusive := True, qo_durable := False, qo_messageTtl := s_messageTtl s\<rparr>))
       (\<lambda>reply g1. (Inr (Some (re_queue reply), re_messages reply, re_consumers reply) :: (string option \<times> nat \<times> nat) result,
          g1\<lparr>gw_exclusiveQueueName := Some (re_queue reply)\<rparr>)))"
    by (intro preserves_intros R_exclusive)
  have old: "preserves R (act_bind (assertBinding amqp ch x q t)
       (\<lambda>_ g1. (Inr (gw_exclusiveQueueName g1, 0, 0) :: (string option \<times> nat \<times> nat) result, g1)))" for x q t
    by (intro preserves_intros R_refl)
  show ?thesis using new old unfolding preserves_def subscribe_exclusive_def by simp
qed

lemma channel_keeps [preserves_intros]: "preserves R (assertQueueChannel amqp q)"
proof -
  have b: "preserves R (act_bind (request amqp (CreateChannel c)) (\<lambda>reply g1.
      (Inr (re_ref reply) :: nat result, g1\<lparr>gw_queueChannels := AList.update key (re_ref reply) (gw_queueChannels g1)\<rparr>)))" for c key
    by (intro preserves_intros R_channels)
  show ?thesis
    using b R_refl unfolding preserves_def assertQueueChannel_def Let_def by (simp split: option.split)
qed

lemma prefetch_keeps [preserves_intros]: "preserves R (setPrefetch amqp ch s)"
  unfolding setPrefetch_def by (cases "s_concurrentLimit s = JUndef"; simp; intro preserves_intros)

lemma consumer_keeps [preserves_intros]: "preserves R (assertConsumer amqp q ch s)"
proof -
  have "preserves R (act_bind (setPrefetch amqp ch s)
        (\<lambda>_. act_bind (request amqp (Consume ch q (s_noAck s))) (\<lambda>reply g1.
          (Inr True :: bool result, g1\<lparr>gw_queueConsumers := AList.update q (ch, re_tag reply) (gw_queueConsumers g1)\<rparr>))))"
    by (intro preserves_intros R_consumer)
  then show ?thesis using R_refl unfolding preserves_def assertConsumer_def by simp
qed

end

text \<open>One that the naming of the queue keeps, too, is kept by the whole.\<close>

locale subscription_relation = gateway_relation +
  assumes R_given: "R g (g\<lparr>gw_subscriptions := set_given s q (gw_subscriptions g)\<rparr>)"
begin

lemma given_keeps: "preserves R m \<Longrightarrow> preserves R (\<lambda>g. m (g\<lparr>gw_subscriptions := set_given s q (gw_subscriptions g)\<rparr>))"
  using R_given R_trans unfolding preserves_def by blast

lemma subscribe_now_keeps:
  assumes "findSubscription s g = None"
  shows "R (g\<lparr>gw_subscriptions := gw_subscriptions g @ [s]\<rparr>) (snd (gw_subscribe_now amqp s g))"
proof -
  have queue_up: "preserves R (if named (s_queueName s) then subscribe_durable amqp ch (wants_dead_letters s) s (the (s_queueName s))
      else subscribe_exclusive amqp ch s)" for ch
    by (cases "named (s_queueName s)"; simp; intro preserves_intros)
  have "preserves R (act_bind (assertQueueChannel amqp (s_queueName s)) (\<lambda>ch.
      act_bind (if named (s_queueName s) then subscribe_durable amqp ch (wants_dead_letters s) s (the (s_queueName s))
          else subscribe_exclusive amqp ch s) (\<lambda>x g2.
      act_bind (assertConsumer amqp (fst x) ch s) (\<lambda>consumerCreated. act_return
          \<lparr>sr_queue = fst x, sr_consumerCreated = consumerCreated, sr_messageCount = fst (snd x), sr_consumerCount = snd (snd x)\<rparr>)
        (g2\<lparr>gw_subscriptions := set_given s (fst x) (gw_subscriptions g2)\<rparr>))))"
    by (intro preserves_intros queue_up given_keeps)
  from preserves_apply [OF this] R_refl assms show ?thesis
    by (simp add: gw_subscribe_now_def Let_def case_prod_unfold)
qed

end

section \<open>No subscription is forgotten\<close>

text \<open>Subscriptions are told apart by exchange, queue, type and handler; what changes is their queue's name.\<close>

definition sub_key :: "subscription \<Rightarrow> string \<times> string option \<times> string option \<times> nat" where
  "sub_key s = (s_exchange s, s_queueName s, s_eventType s, s_handler s)"

definition subs_ok :: "gateway \<Rightarrow> bool" where
  "subs_ok g \<longleftrightarrow> distinct (map sub_key (gw_subscriptions g))"

definition core :: "subscription \<Rightarrow> subscription" where
  "core s = s\<lparr>s_queueGivenName := None\<rparr>"

definition core_list :: "gateway \<Rightarrow> subscription list" where
  "core_list g = map core (gw_subscriptions g)"

lemma same_subscription_iff: "same_subscription s t \<longleftrightarrow> sub_key s = sub_key t"
  by (auto simp: same_subscription_def sub_key_def)

lemma sub_key_core [simp]: "sub_key (core s) = sub_key s" "sub_key (s\<lparr>s_queueGivenName := q\<rparr>) = sub_key s"
  "core (core s) = core s" "core (s\<lparr>s_queueGivenName := q\<rparr>) = core s"
  by (simp_all add: sub_key_def core_def)

lemma findSubscription_None: "findSubscription s g = None \<longleftrightarrow> sub_key s \<notin> sub_key ` set (gw_subscriptions g)"
  by (auto simp: findSubscription_def find_None_iff same_subscription_iff image_iff eq_commute [of "sub_key s"])

lemma map_core_set_given [simp]: "map core (set_given s q ts) = map core ts" "map sub_key (set_given s q ts) = map sub_key ts"
  by (induction ts) auto

lemma subs_ok_core: "mset (core_list g') = mset (core_list g) \<Longrightarrow> subs_ok g' = subs_ok g"
proof -
  have keys: "map sub_key (gw_subscriptions g) = map sub_key (core_list g)" for g by (simp add: core_list_def)
  assume "mset (core_list g') = mset (core_list g)"
  then have "mset (map sub_key (core_list g')) = mset (map sub_key (core_list g))" by simp
  then show ?thesis unfolding subs_ok_def keys using mset_eq_imp_distinct_iff by blast
qed

lemma subscriptions_kept [simp]:
  "gw_subscriptions (gw_cleanup g) = gw_subscriptions g" "gw_subscriptions (connect_enter g) = gw_subscriptions g"
  "gw_subscriptions (gw_reconnect g) = gw_subscriptions g" "gw_subscriptions (scheduleReconnect g) = gw_subscriptions g"
  "gw_subscriptions (onConnectionClosed c g) = gw_subscriptions g" "gw_subscriptions (emit_event e g) = gw_subscriptions g"
  "gw_subscriptions (snd (request amqp r g)) = gw_subscriptions g"
  by (simp_all add: gw_cleanup_def connect_enter_def gw_reconnect_def scheduleReconnect_def onConnectionClosed_def
      emit_event_def request_def Let_def split: prod.split option.split)

interpretation kept: subscription_relation amqp "\<lambda>g g'. core_list g' = core_list g" for amqp
  by unfold_locales (simp_all add: core_list_def)

lemma subscribe_now_cores:
  "findSubscription s g = None \<Longrightarrow> core_list (snd (gw_subscribe_now amqp s g)) = core_list g @ [core s]"
  by (drule kept.subscribe_now_keeps) (simp add: core_list_def)

lemma subscribe_now_length:
  "gw_subscribe_now amqp s g = (Inr r, g') \<Longrightarrow> length (gw_subscriptions g') = Suc (length (gw_subscriptions g))"
proof -
  assume run: "gw_subscribe_now amqp s g = (Inr r, g')"
  then have "findSubscription s g = None" by (auto simp: gw_subscribe_now_def split: if_splits)
  from subscribe_now_cores [OF this, of amqp] run have "length (core_list g') = Suc (length (core_list g))" by simp
  then show ?thesis by (simp add: core_list_def)
qed

text \<open>The operations keep the subscriptions, in whatever order.\<close>

definition keeps_subs :: "gateway \<Rightarrow> gateway \<Rightarrow> bool" where
  "keeps_subs g g' \<longleftrightarrow> (subs_ok g \<longrightarrow> mset (core_list g') = mset (core_list g))"

lemma keeps_subs_refl [simp]: "keeps_subs g g"
  by (simp add: keeps_subs_def)

lemma keeps_subs_trans: "keeps_subs g h \<Longrightarrow> keeps_subs h k \<Longrightarrow> keeps_subs g k"
  using subs_ok_core [of h g] by (simp add: keeps_subs_def)

lemma keeps_subs_order: "reflp keeps_subs" "transp keeps_subs"
  using keeps_subs_trans by (simp add: reflp_def, blast intro: transpI)

lemma keeps_subs_bind:
  "keeps_subs g (snd (m h)) \<Longrightarrow> (\<And>a. preserves keeps_subs (f a)) \<Longrightarrow> keeps_subs g (snd (act_bind m f h))"
  using keeps_subs_trans preserves_apply unfolding act_bind_def
  by (cases "m h"; cases "fst (m h)") (simp, fastforce)+

lemma keeps_subs_same: "gw_subscriptions g' = gw_subscriptions g \<Longrightarrow> keeps_subs g g'"
  by (simp add: keeps_subs_def core_list_def)

lemma request_keeps_subs: "preserves keeps_subs (request amqp r)"
  by (simp add: preserves_def keeps_subs_same)

lemma restore_turns_keeps: "preserves keeps_subs (restore_turns amqp n)"
proof (induction n)
  case 0
  show ?case by (simp add: preserves_def act_return_def)
next
  case (Suc n)
  have "keeps_subs g (snd (restore_turns amqp (Suc n) g))" for g
  proof (cases "gw_subscriptions g")
    case (Cons s rest)
    let ?g = "g\<lparr>gw_subscriptions := rest\<rparr>"
    show ?thesis
    proof (cases "subs_ok g")
      case True
      then have "findSubscription s ?g = None" using Cons by (simp add: findSubscription_None subs_ok_def)
      from subscribe_now_cores [OF this, of amqp] have "keeps_subs g (snd (gw_subscribe_now amqp s ?g))"
        using Cons by (simp add: keeps_subs_def core_list_def)
      then have "keeps_subs g (snd (act_bind (gw_subscribe_now amqp s) (\<lambda>_. restore_turns amqp n) ?g))"
        by (rule keeps_subs_bind) (rule Suc)
      then show ?thesis using Cons by simp
    qed (simp add: keeps_subs_def)
  qed simp
  then show ?case by (simp add: preserves_def)
qed

lemma connect_now_keeps: "keeps_subs g (snd (gw_connect_now amqp g))"
proof -
  let ?m = "act_bind (request amqp Connect) (\<lambda>reply g1.
      act_bind (restoreSubscriptions amqp) (\<lambda>_. act_return ()) (g1\<lparr>gw_connection := Some (re_ref reply)\<rparr>))"
  have "preserves keeps_subs (\<lambda>g1. act_bind (restoreSubscriptions amqp) (\<lambda>_. act_return ()) (g1\<lparr>gw_connection := Some x\<rparr>))" for x
  proof -
    have "keeps_subs h (snd (act_bind (restoreSubscriptions amqp) (\<lambda>_. act_return ()) h))" for h
      using preserves_apply [OF restore_turns_keeps, of h amqp "length (gw_subscriptions h)"]
      by (cases "restoreSubscriptions amqp h") (auto simp: act_bind_def act_return_def restoreSubscriptions_def split: sum.split)
    then have "keeps_subs g1 (snd (act_bind (restoreSubscriptions amqp) (\<lambda>_. act_return ()) (g1\<lparr>gw_connection := Some x\<rparr>)))" for g1
      using keeps_subs_trans [OF keeps_subs_same [of "g1\<lparr>gw_connection := Some x\<rparr>" g1]] by simp
    then show ?thesis by (simp add: preserves_def)
  qed
  then have "preserves keeps_subs ?m" by (intro preserves_bind keeps_subs_order request_keeps_subs)
  then have "keeps_subs g (snd (?m g))" by (rule preserves_apply)
  then obtain r g2 where m: "?m g = (r, g2)" "keeps_subs g g2" by (metis prod.collapse)
  have "snd (gw_connect_now amqp g) \<in> {scheduleReconnect g2, emit_event Connected g2}"
    unfolding gw_connect_now_def m by (cases r) auto
  moreover have "keeps_subs g2 (scheduleReconnect g2)" "keeps_subs g2 (emit_event Connected g2)"
    by (auto intro: keeps_subs_same)
  ultimately show ?thesis using keeps_subs_trans [OF m(2)] by auto
qed

lemma connect_locked_keeps: "keeps_subs g (snd (connect_locked amqp g))"
  by (simp add: connect_locked_def connect_now_keeps)

lemma connect_keeps: "keeps_subs g (snd (gw_connect amqp g))"
  using keeps_subs_trans [OF keeps_subs_same connect_locked_keeps] by (simp add: gw_connect_def)

lemma run_pending_keeps: "keeps_subs g (gw_run_pending amqp g)"
proof (cases "gw_pendingConnects g")
  case (Suc n)
  have "keeps_subs g (g\<lparr>gw_pendingConnects := n\<rparr>)" by (rule keeps_subs_same) simp
  from keeps_subs_trans [OF this connect_locked_keeps] Suc show ?thesis by (simp add: gw_run_pending_def)
qed (simp add: gw_run_pending_def)

lemma cancel_each_subscriptions: "gw_subscriptions (cancel_each amqp cs g) = gw_subscriptions g"
proof (induction cs arbitrary: g)
  case (Cons c cs)
  obtain q ch tag where c: "c = (q, ch, tag)" by (cases c)
  obtain r g1 where r: "request amqp (Cancel ch tag) g = (r, g1)" by fastforce
  then have "gw_subscriptions g1 = gw_subscriptions g" using subscriptions_kept(7) by (metis snd_conv)
  with Cons c r show ?case by (cases r) simp_all
qed simp

lemma disconnect_keeps: "keeps_subs g (gw_disconnect amqp g)"
proof (rule keeps_subs_same)
  have "gw_subscriptions g3 = gw_subscriptions g2" if "request amqp r g2 = (x, g3)" for r g2 x g3
    using that subscriptions_kept(7) by (metis snd_conv)
  then show "gw_subscriptions (gw_disconnect amqp g) = gw_subscriptions g"
    by (auto simp: gw_disconnect_def Let_def stopConsuming_def cancel_each_subscriptions
        split: option.split prod.split sum.split)
qed

lemma publish_keeps: "keeps_subs g (snd (gw_publish amqp a now x m g))"
proof -
  note ord = keeps_subs_order request_keeps_subs
  have upd: "preserves keeps_subs (\<lambda>g. f (g\<lparr>gw_pubChannel := c\<rparr>))" if "preserves keeps_subs f" for f :: "(gateway, unit) act" and c
  proof -
    have "keeps_subs g (g\<lparr>gw_pubChannel := c\<rparr>)" for g by (rule keeps_subs_same) simp
    from keeps_subs_trans [OF this preserves_apply [OF that]] show ?thesis by (simp add: preserves_def)
  qed
  have conn: "preserves keeps_subs (\<lambda>g. if isConnected g then (Inr (gw_connection g), g) else gw_connect amqp g)"
    by (simp add: preserves_def connect_keeps)
  have "preserves keeps_subs (case c of None \<Rightarrow> act_throw (TypeError ''connection is undefined'')
      | Some c \<Rightarrow> act_bind (request amqp (CreateConfirmChannel c)) (\<lambda>reply g1.
          act_bind (request amqp (AssertExchange (re_ref reply) x)) (\<lambda>_. act_return ()) (g1\<lparr>gw_pubChannel := Some (re_ref reply)\<rparr>)))" for c
    by (cases c) (simp_all only: option.case, intro preserves_throw ord, intro preserves_bind upd preserves_return ord)
  then have b: "preserves keeps_subs (act_bind (\<lambda>g. if isConnected g then (Inr (gw_connection g), g) else gw_connect amqp g)
      (\<lambda>conn. case conn of None \<Rightarrow> act_throw (TypeError ''connection is undefined'')
      | Some c \<Rightarrow> act_bind (request amqp (CreateConfirmChannel c)) (\<lambda>reply g1.
          act_bind (request amqp (AssertExchange (re_ref reply) x)) (\<lambda>_. act_return ()) (g1\<lparr>gw_pubChannel := Some (re_ref reply)\<rparr>))))"
    by (intro preserves_bind conn ord)
  have chan: "preserves keeps_subs (assertPubChannel amqp x)"
    using b unfolding preserves_def assertPubChannel_def by simp
  have app: "preserves keeps_subs (getAppId a)"
    unfolding preserves_def getAppId_def by (auto intro: keeps_subs_same split: option.split sum.split)
  have send: "preserves keeps_subs (\<lambda>g. case gw_pubChannel g of None \<Rightarrow> (Inl (GenericError ''No channel available for publishing''), g)
      | Some ch \<Rightarrow> act_bind (request amqp (Publish ch x (msg_type m) m (publish_properties now i m)))
          (\<lambda>reply. if re_written reply then act_return () else act_throw (f reply)) g)" for i f
  proof -
    have "preserves keeps_subs (act_bind (request amqp r) (\<lambda>reply. if re_written reply then act_return () else act_throw (f reply)))" for r
      by (intro preserves_bind ord) (simp add: preserves_return preserves_throw ord)
    then show ?thesis unfolding preserves_def by (simp split: option.split)
  qed
  have "preserves keeps_subs (gw_publish amqp a now x m)"
    unfolding gw_publish_def by (intro preserves_check preserves_bind ord chan app send)
  then show ?thesis by (rule preserves_apply)
qed

inductive gateway_step :: "amqp \<Rightarrow> gateway \<Rightarrow> gateway \<Rightarrow> bool" for amqp where
  gs_connect: "gateway_step amqp g (snd (gw_connect amqp g))"
| gs_disconnect: "gateway_step amqp g (gw_disconnect amqp g)"
| gs_closed: "gateway_step amqp g (onConnectionClosed c g)"
| gs_timer: "gw_reconnectTimer g \<Longrightarrow> gateway_step amqp g (gw_reconnect g)"
| gs_pending: "gateway_step amqp g (gw_run_pending amqp g)"
| gs_publish: "gateway_step amqp g (snd (gw_publish amqp appId now exchange m g))"

lemma gateway_step_keeps: "gateway_step amqp g g' \<Longrightarrow> keeps_subs g g'"
  by (induction rule: gateway_step.induct)
    (simp_all add: connect_keeps disconnect_keeps run_pending_keeps publish_keeps keeps_subs_same)

lemma gateway_run_keeps: "(gateway_step amqp)\<^sup>*\<^sup>* g g' \<Longrightarrow> keeps_subs g g'"
  by (induction rule: rtranclp_induct) (auto dest: gateway_step_keeps intro: keeps_subs_trans)

text \<open>
  C23: whatever requests fail and whenever the connection is lost, connecting, reconnecting,
  disconnecting and publishing in any order keep the gateway's subscriptions: none is lost, doubled
  or changed but for the name of its queue.
\<close>

theorem gateway_keeps_subscriptions:
  assumes "subs_ok g" and "(gateway_step amqp)\<^sup>*\<^sup>* g g'"
  shows "subs_ok g' \<and> mset (core_list g') = mset (core_list g)"
proof -
  have "mset (core_list g') = mset (core_list g)"
    using gateway_run_keeps [OF assms(2)] assms(1) by (simp add: keeps_subs_def)
  with assms(1) subs_ok_core show ?thesis by blast
qed

definition unreachable :: amqp where
  "unreachable h r = (Inl (GenericError ''ECONNREFUSED''), None)"

definition answering :: amqp where
  "answering h r = (Inr \<lparr>re_ref = 1, re_queue = (case r of AssertQueue ch q x d args \<Rightarrow> if q = [] then ''amq.gen'' else q | _ \<Rightarrow> []),
     re_messages = 0, re_consumers = 0, re_tag = ''tag'', re_written = True\<rparr>, None)"

lemma gateway_keeps_subscriptions_witness:
  "mset (core_list (snd (gw_connect unreachable (new_gateway\<lparr>gw_subscriptions := [demo_sub (Some ''q'') ''T'' 7]\<rparr>))))
    = {#core (demo_sub (Some ''q'') ''T'' 7)#}"
proof -
  let ?g = "new_gateway\<lparr>gw_subscriptions := [demo_sub (Some ''q'') ''T'' 7]\<rparr>"
  have "subs_ok ?g" by (simp add: subs_ok_def)
  moreover have "(gateway_step unreachable)\<^sup>*\<^sup>* ?g (snd (gw_connect unreachable ?g))" by (rule r_into_rtranclp, rule gs_connect)
  ultimately show ?thesis using gateway_keeps_subscriptions [of ?g unreachable "snd (gw_connect unreachable ?g)"]
    by (simp add: core_list_def)
qed

section \<open>Failures while subscriptions are restored\<close>

lemma subscribe_now_Inr:
  "gw_subscribe_now amqp s g = (Inr r, g') \<Longrightarrow> findSubscription s g = None \<and> (named (s_queueName s) \<or> \<not> wants_dead_letters s)"
  by (auto simp: gw_subscribe_now_def Let_def split: if_splits)

definition undeliverable :: "subscription \<Rightarrow> bool" where
  "undeliverable s \<longleftrightarrow> wants_dead_letters s \<and> \<not> named (s_queueName s)"

lemma undeliverable_core [simp]: "undeliverable (core s) = undeliverable s"
  by (cases "s_deadLetterQueue s") (simp_all add: undeliverable_def wants_dead_letters_def core_def)

lemma restore_turns_blocked:
  "\<exists>s \<in> set (take n (core_list g)). undeliverable s \<Longrightarrow> \<exists>err. fst (restore_turns amqp n g) = Inl err"
proof (induction n arbitrary: g)
  case (Suc n)
  then obtain s rest where g: "gw_subscriptions g = s # rest"
    by (cases "gw_subscriptions g") (auto simp: core_list_def)
  let ?g = "g\<lparr>gw_subscriptions := rest\<rparr>"
  show ?case
  proof (cases "gw_subscribe_now amqp s ?g")
    case (Pair r g1)
    show ?thesis
    proof (cases r)
      case (Inr x)
      with Pair subscribe_now_Inr have s: "findSubscription s ?g = None" "\<not> undeliverable s"
        unfolding undeliverable_def by blast+
      from subscribe_now_cores [OF s(1), of amqp] Pair have g1: "core_list g1 = map core rest @ [core s]"
        by (simp add: core_list_def)
      have "\<exists>s \<in> set (take n (map core rest)). undeliverable s"
        using Suc.prems g s(2) by (auto simp: core_list_def)
      then have "\<exists>s \<in> set (take n (core_list g1)). undeliverable s" unfolding g1 by auto
      from Suc.IH [OF this] g Pair Inr show ?thesis by (simp add: act_bind_def)
    qed (use g Pair in \<open>simp add: act_bind_def\<close>)
  qed
qed simp

lemma connect_blocked:
  assumes "\<exists>s \<in> set (core_list g). undeliverable s" and "\<not> isConnected g"
  shows "\<exists>err g'. gw_connect amqp g = (Inl err, g')"
proof -
  have "\<exists>err. fst (restoreSubscriptions amqp h) = Inl err" if "core_list h = core_list g" for h
  proof -
    have "take (length (gw_subscriptions h)) (core_list h) = core_list h" by (simp add: core_list_def)
    with that restore_turns_blocked [of "length (gw_subscriptions h)" h amqp] assms(1) show ?thesis
      by (simp add: restoreSubscriptions_def)
  qed
  note blocked = this
  obtain r g1 where req: "request amqp Connect (connect_enter g) = (r, g1)" by fastforce
  have "\<exists>err g2. act_bind (request amqp Connect) (\<lambda>reply g1.
      act_bind (restoreSubscriptions amqp) (\<lambda>_. act_return ()) (g1\<lparr>gw_connection := Some (re_ref reply)\<rparr>)) (connect_enter g) = (Inl err, g2)"
  proof (cases r)
    case (Inr reply)
    let ?h = "g1\<lparr>gw_connection := Some (re_ref reply)\<rparr>"
    have "core_list ?h = core_list g"
      using req subscriptions_kept(7) [of amqp Connect "connect_enter g"] by (simp add: core_list_def)
    then obtain err g2 where "restoreSubscriptions amqp ?h = (Inl err, g2)" using blocked by (metis prod.collapse)
    with req Inr show ?thesis by (simp add: act_bind_def)
  qed (use req in \<open>simp add: act_bind_def\<close>)
  then obtain err g2 where run: "act_bind (request amqp Connect) (\<lambda>reply g1.
      act_bind (restoreSubscriptions amqp) (\<lambda>_. act_return ()) (g1\<lparr>gw_connection := Some (re_ref reply)\<rparr>)) (connect_enter g) = (Inl err, g2)"
    by blast
  have "\<not> isConnected (connect_enter g)" using assms(2) by (simp add: isConnected_def connect_enter_def)
  with run show ?thesis by (simp add: gw_connect_def connect_locked_def gw_connect_now_def)
qed

lemma gw_subscribe_checked:
  assumes "s_handlerProcessTimeout s = JUndef" and "s_queueExpires s = JUndef" and "s_messageTtl s = JUndef"
  shows "gw_subscribe amqp s g = (let g1 = connect_enter g in
      act_bind (if isConnected g1 then act_return None else gw_connect_now amqp) (\<lambda>_. gw_subscribe_now amqp s) g1)"
  using assms by (simp add: gw_subscribe_def act_check_def assertNotDefined_def)

text \<open>
  C28: a subscription that asks for a dead letter queue without naming its queue is refused, but stays
  in the list: after the connection is lost, no later attempt to connect can succeed, whatever the
  broker answers, until that subscription is removed.
\<close>

theorem refused_subscription_blocks_connect:
  assumes "subs_ok g" and "isConnected g" and "findSubscription s g = None"
    and "s_deadLetterQueue s = Some True" and "\<not> named (s_queueName s)"
    and "s_handlerProcessTimeout s = JUndef" "s_queueExpires s = JUndef" "s_messageTtl s = JUndef"
    and "gw_subscribe amqp s g = (r, g1)" and "(gateway_step amqp)\<^sup>*\<^sup>* g1 g2" and "\<not> isConnected g2"
  shows "(\<exists>err. r = Inl err) \<and> (\<exists>err g3. gw_connect amqp g2 = (Inl err, g3))"
proof -
  have bad: "undeliverable s" using assms(4,5) by (simp add: undeliverable_def wants_dead_letters_def)
  have e: "isConnected (connect_enter g)" "findSubscription s (connect_enter g) = None"
    using assms(2,3) by (simp_all add: isConnected_def connect_enter_def findSubscription_def)
  have run: "gw_subscribe_now amqp s (connect_enter g) = (r, g1)"
    using assms(9) e(1) unfolding gw_subscribe_checked [OF assms(6-8)] by (simp add: Let_def act_bind_def act_return_def)
  from subscribe_now_cores [OF e(2), of amqp] run have g1: "core_list g1 = core_list g @ [core s]"
    by (simp add: core_list_def)
  have "findSubscription s g = None \<Longrightarrow> subs_ok g1"
  proof -
    have "map sub_key (core_list h) = map sub_key (gw_subscriptions h)" for h by (simp add: core_list_def)
    with g1 have "map sub_key (gw_subscriptions g1) = map sub_key (gw_subscriptions g) @ [sub_key s]" by (metis list.simps(8,9) map_append sub_key_core(1))
    with assms(1,3) show "subs_ok g1" by (simp add: subs_ok_def findSubscription_None)
  qed
  with assms(3) gateway_run_keeps [OF assms(10)] have "mset (core_list g2) = mset (core_list g1)" by (simp add: keeps_subs_def)
  then have "set (core_list g2) = set (core_list g1)" by (rule mset_eq_setD)
  with g1 bad have "\<exists>s \<in> set (core_list g2). undeliverable s" by auto
  from connect_blocked [OF this assms(11)] have "\<exists>err g3. gw_connect amqp g2 = (Inl err, g3)" .
  moreover have "\<exists>err. r = Inl err"
    using subscribe_now_Inr [of amqp s "connect_enter g" _ g1] run bad by (cases r) (auto simp: undeliverable_def)
  ultimately show ?thesis by blast
qed

lemma refused_subscription_blocks_connect_witness:
  "\<exists>err g3. gw_connect answering (onConnectionClosed 1 (snd (gw_subscribe answering
      ((demo_sub None ''T'' 7)\<lparr>s_deadLetterQueue := Some True\<rparr>) (new_gateway\<lparr>gw_connection := Some 1\<rparr>)))) = (Inl err, g3)"
proof -
  let ?s = "(demo_sub None ''T'' 7)\<lparr>s_deadLetterQueue := Some True\<rparr>"
  let ?g = "new_gateway\<lparr>gw_connection := Some 1\<rparr>"
  have simps: "s_handlerProcessTimeout ?s = JUndef" "s_queueExpires ?s = JUndef" "s_messageTtl ?s = JUndef"
    "s_deadLetterQueue ?s = Some True" "\<not> named (s_queueName ?s)" by (simp_all add: demo_sub_def named_def)
  have g: "subs_ok ?g" "isConnected ?g" "findSubscription ?s ?g = None"
    by (simp_all add: subs_ok_def new_gateway_def isConnected_def findSubscription_def)
  obtain r g1 where run: "gw_subscribe answering ?s ?g = (r, g1)" by fastforce
  have "gw_connection g1 = Some 1"
    using run simps unfolding gw_subscribe_checked [OF simps(1-3)]
    by (simp add: Let_def isConnected_def connect_enter_def act_bind_def act_return_def gw_subscribe_now_def new_gateway_def
        findSubscription_def wants_dead_letters_def split: if_splits) auto
  then have "\<not> isConnected (onConnectionClosed 1 g1)"
    by (simp add: onConnectionClosed_def gw_cleanup_def gw_reconnect_def connect_enter_def isConnected_def Let_def)
  moreover have "(gateway_step answering)\<^sup>*\<^sup>* g1 (onConnectionClosed 1 g1)" by (rule r_into_rtranclp, rule gs_closed)
  ultimately show ?thesis
    using refused_subscription_blocks_connect [OF g simps(4,5,1,2,3) run] run by simp
qed

text \<open>Nothing of this changes what is desired.\<close>

lemma desired_kept [simp]:
  "gw_desired (gw_cleanup g) = gw_desired g" "gw_desired (connect_enter g)"
  "gw_desired g \<Longrightarrow> gw_desired (gw_reconnect g)" "gw_desired g \<Longrightarrow> gw_desired (onConnectionClosed c g)"
  "gw_desired g \<Longrightarrow> gw_desired (snd (request amqp r g))"
  by (simp_all add: gw_cleanup_def connect_enter_def gw_reconnect_def onConnectionClosed_def request_def Let_def
      split: prod.split option.split)

interpretation wanted: subscription_relation amqp "\<lambda>g g'. gw_desired g \<longrightarrow> gw_desired g'" for amqp
  by unfold_locales simp_all

lemma restore_turns_desired: "gw_desired g \<Longrightarrow> gw_desired (snd (restore_turns amqp n g))"
proof (induction n arbitrary: g)
  case (Suc n)
  show ?case
  proof (cases "gw_subscriptions g")
    case (Cons s rest)
    let ?g = "g\<lparr>gw_subscriptions := rest\<rparr>"
    obtain r g1 where r: "gw_subscribe_now amqp s ?g = (r, g1)" by fastforce
    have "gw_desired g1"
    proof (cases "findSubscription s ?g")
      case None
      from wanted.subscribe_now_keeps [OF this, of amqp] r Suc.prems show ?thesis by simp
    next
      case (Some t)
      with r Suc.prems show ?thesis by (auto simp: gw_subscribe_now_def)
    qed
    from Suc.IH [OF this] Cons r show ?thesis by (cases r) (simp_all add: act_bind_def \<open>gw_desired g1\<close>)
  qed (use Suc.prems in simp)
qed (simp add: act_return_def)

lemma desired_kept_connect:
  assumes "act_bind (request amqp Connect) (\<lambda>reply g1.
      act_bind (restoreSubscriptions amqp) (\<lambda>_. act_return ()) (g1\<lparr>gw_connection := Some (re_ref reply)\<rparr>)) g = (r, g2)"
  shows "gw_desired g \<Longrightarrow> gw_desired g2"
proof -
  assume "gw_desired g"
  obtain x g1 where req: "request amqp Connect g = (x, g1)" by fastforce
  then have g1: "gw_desired g1" using desired_kept(5) [OF \<open>gw_desired g\<close>, of amqp Connect] by simp
  show "gw_desired g2"
  proof (cases x)
    case (Inr reply)
    let ?h = "g1\<lparr>gw_connection := Some (re_ref reply)\<rparr>"
    have "gw_desired (snd (restoreSubscriptions amqp ?h))"
      unfolding restoreSubscriptions_def by (rule restore_turns_desired) (simp add: g1)
    moreover have "g2 = snd (restoreSubscriptions amqp ?h)"
      using assms req Inr by (auto simp: act_bind_def act_return_def split: prod.splits sum.splits)
    ultimately show ?thesis by simp
  qed (use assms req g1 in \<open>auto simp: act_bind_def\<close>)
qed

text \<open>
  C29: when connecting fails while subscriptions are restored, the gateway keeps the connection, and
  nothing restores the rest: the timer it has set does nothing, and every later \<open>connect()\<close> returns
  that connection without a single request.
\<close>

theorem failed_restore_is_final:
  assumes "gw_connect amqp g = (Inl err, g1)" and "isConnected g1"
  shows "gw_reconnectTimer g1 \<and> gw_reconnect g1 = g1
    \<and> gw_connect amqp g1 = (Inr (gw_connection g1), connect_enter g1) \<and> gw_requests (connect_enter g1) = gw_requests g1
    \<and> gw_emitted g1 = gw_emitted (connect_enter g1)"
proof -
  have "isConnected (connect_enter g1)" "gw_connection (connect_enter g1) = gw_connection g1"
    using assms(2) by (simp_all add: isConnected_def connect_enter_def)
  moreover have "gw_reconnectTimer g1"
  proof -
    have "\<not> isConnected (connect_enter g)" using assms(1) by (auto simp: gw_connect_def connect_locked_def split: if_splits)
    then obtain g2 where g2: "g1 = scheduleReconnect g2" and run: "act_bind (request amqp Connect) (\<lambda>reply g1.
        act_bind (restoreSubscriptions amqp) (\<lambda>_. act_return ()) (g1\<lparr>gw_connection := Some (re_ref reply)\<rparr>)) (connect_enter g) = (Inl err, g2)"
      using assms(1) by (auto simp: gw_connect_def connect_locked_def gw_connect_now_def split: prod.splits sum.splits)
    have "gw_desired g2" using desired_kept_connect [OF run] by (simp add: connect_enter_def)
    then show ?thesis by (simp add: g2 scheduleReconnect_def)
  qed
  ultimately show ?thesis
    using assms(2) by (simp add: gw_reconnect_def gw_connect_def connect_locked_def) (simp add: connect_enter_def)
qed

text \<open>A broker that refuses to bind queues.\<close>

definition unbinding :: amqp where
  "unbinding h r = (case r of BindQueue ch q x p \<Rightarrow> (Inl (GenericError ''NOT_ALLOWED''), None) | _ \<Rightarrow> answering h r)"

lemma failed_restore_is_final_witness:
  "gw_queueConsumers (snd (gw_connect unbinding (snd (gw_connect unbinding
      (new_gateway\<lparr>gw_subscriptions := [demo_sub (Some ''q'') ''T'' 7]\<rparr>))))) = []
   \<and> fst (gw_connect unbinding (snd (gw_connect unbinding (new_gateway\<lparr>gw_subscriptions := [demo_sub (Some ''q'') ''T'' 7]\<rparr>)))) = Inr (Some 1)"
proof -
  let ?g = "new_gateway\<lparr>gw_subscriptions := [demo_sub (Some ''q'') ''T'' 7]\<rparr>"
  note eval = gw_connect_def connect_locked_def gw_connect_now_def isConnected_def connect_enter_def new_gateway_def
    request_def unbinding_def answering_def act_bind_def act_return_def restoreSubscriptions_def gw_subscribe_now_def
    findSubscription_def wants_dead_letters_def demo_sub_def named_def assertQueueChannel_def subscribe_durable_def
    assetQueue_def assertBinding_def scheduleReconnect_def
  obtain err g1 where run: "gw_connect unbinding ?g = (Inl err, g1)" and g1: "gw_connection g1 = Some 1" "gw_queueConsumers g1 = []"
    by (simp add: eval)
  have "isConnected g1" using g1(1) by (simp add: isConnected_def)
  from failed_restore_is_final [OF run this] g1 run show ?thesis by (simp add: connect_enter_def)
qed

section \<open>Restoring succeeds\<close>

text \<open>No connection is closed while requests are awaited.\<close>

definition no_closes :: "amqp \<Rightarrow> bool" where
  "no_closes amqp \<longleftrightarrow> (\<forall>h r. snd (amqp h r) = None)"

lemma request_no_closes:
  "no_closes amqp \<Longrightarrow> request amqp r g = (fst (amqp (gw_requests g) r), g\<lparr>gw_requests := gw_requests g @ [r]\<rparr>)"
  by (simp add: no_closes_def request_def Let_def split: prod.split) (metis option.simps(4) snd_conv)

text \<open>A subscription's queue has a consumer.\<close>

definition served :: "gateway \<Rightarrow> subscription \<Rightarrow> bool" where
  "served g s \<longleftrightarrow> s_queueGivenName s \<noteq> None \<and> map_has (gw_queueConsumers g) (s_queueGivenName s)"

interpretation growing: subscription_relation amqp "\<lambda>g g'. no_closes amqp \<longrightarrow>
    (\<forall>q. map_has (gw_queueConsumers g) q \<longrightarrow> map_has (gw_queueConsumers g') q)" for amqp
  by unfold_locales (auto simp: request_no_closes)

interpretation same_list: gateway_relation amqp "\<lambda>g g'. gw_subscriptions g' = gw_subscriptions g" for amqp
  by unfold_locales simp_all

lemma assertConsumer_serves:
  "assertConsumer amqp q ch s g = (Inr b, g') \<Longrightarrow> no_closes amqp \<Longrightarrow> map_has (gw_queueConsumers g') q"
  by (auto simp: assertConsumer_def act_bind_Inr_iff split: if_splits)

lemma queue_named:
  assumes "no_closes amqp" and "(if named (s_queueName s) then subscribe_durable amqp ch d s (the (s_queueName s))
      else subscribe_exclusive amqp ch s) g = (Inr (q, ms, cs), g')"
  shows "q \<noteq> None"
proof (cases "named (s_queueName s)")
  case True
  with assms(2) show ?thesis by (auto simp: subscribe_durable_def Let_def act_bind_Inr_iff act_return_def)
next
  case False
  have "gw_exclusiveQueueName g' = gw_exclusiveQueueName g" if "assertBinding amqp ch x n t g = (r, g')" for x n t r g'
    using that by (auto simp: assertBinding_def Let_def act_bind_def act_return_def request_no_closes [OF assms(1)] split: sum.splits)
  with assms(2) False show ?thesis
    by (auto simp: subscribe_exclusive_def act_bind_Inr_iff named_def split: if_splits option.splits)
qed

lemma set_given_new: "sub_key s \<notin> sub_key ` set ts \<Longrightarrow> set_given s q (ts @ [s]) = ts @ [s\<lparr>s_queueGivenName := q\<rparr>]"
  by (induction ts) (auto simp: same_subscription_iff)

lemma subscribe_now_serves:
  assumes "no_closes amqp" and "gw_subscribe_now amqp s g = (Inr r, g')" and "\<forall>t \<in> set (gw_subscriptions g). served g t \<or> \<not> T t"
  shows "\<exists>s'. gw_subscriptions g' = gw_subscriptions g @ [s'] \<and> served g' s' \<and> sub_key s' = sub_key s
    \<and> (\<forall>t \<in> set (gw_subscriptions g). served g' t \<or> \<not> T t)"
proof -
  let ?g1 = "g\<lparr>gw_subscriptions := gw_subscriptions g @ [s]\<rparr>"
  have new: "findSubscription s g = None" using assms(2) subscribe_now_Inr by blast
  obtain ch h where ch: "assertQueueChannel amqp (s_queueName s) ?g1 = (Inr ch, h)"
    and rest: "act_bind (if named (s_queueName s) then subscribe_durable amqp ch (wants_dead_letters s) s (the (s_queueName s))
         else subscribe_exclusive amqp ch s) (\<lambda>(given, messages, consumers) g2.
       act_bind (assertConsumer amqp given ch s) (\<lambda>consumerCreated. act_return
           \<lparr>sr_queue = given, sr_consumerCreated = consumerCreated, sr_messageCount = messages, sr_consumerCount = consumers\<rparr>)
         (g2\<lparr>gw_subscriptions := set_given s given (gw_subscriptions g2)\<rparr>)) h = (Inr r, g')"
    using assms(2) new by (auto simp: gw_subscribe_now_def Let_def act_bind_Inr_iff split: if_splits)
  obtain q ms cs k where up: "(if named (s_queueName s) then subscribe_durable amqp ch (wants_dead_letters s) s (the (s_queueName s))
         else subscribe_exclusive amqp ch s) h = (Inr (q, ms, cs), k)"
    and fin: "act_bind (assertConsumer amqp q ch s) (\<lambda>consumerCreated. act_return
           \<lparr>sr_queue = q, sr_consumerCreated = consumerCreated, sr_messageCount = ms, sr_consumerCount = cs\<rparr>)
         (k\<lparr>gw_subscriptions := set_given s q (gw_subscriptions k)\<rparr>) = (Inr r, g')"
    using iffD1 [OF act_bind_Inr_iff rest] by (elim exE conjE) (simp split: prod.splits)
  let ?k = "k\<lparr>gw_subscriptions := set_given s q (gw_subscriptions k)\<rparr>"
  obtain b where con: "assertConsumer amqp q ch s ?k = (Inr b, g')"
    using fin by (auto simp: act_bind_Inr_iff act_return_def)
  have l1: "gw_subscriptions h = gw_subscriptions g @ [s]" using preservesD [OF same_list.channel_keeps ch] by simp
  have "gw_subscriptions k = gw_subscriptions h"
  proof (cases "named (s_queueName s)")
    case True
    with up have "subscribe_durable amqp ch (wants_dead_letters s) s (the (s_queueName s)) h = (Inr (q, ms, cs), k)" by simp
    from preservesD [OF same_list.durable_keeps this] show ?thesis .
  next
    case False
    with up have "subscribe_exclusive amqp ch s h = (Inr (q, ms, cs), k)" by simp
    from preservesD [OF same_list.exclusive_keeps this] show ?thesis .
  qed
  with l1 have "gw_subscriptions ?k = gw_subscriptions g @ [s\<lparr>s_queueGivenName := q\<rparr>]"
    using set_given_new [of s "gw_subscriptions g" q] new by (simp add: findSubscription_None)
  with preservesD [OF same_list.consumer_keeps con] have list: "gw_subscriptions g' = gw_subscriptions g @ [s\<lparr>s_queueGivenName := q\<rparr>]" by simp
  have "served g' (s\<lparr>s_queueGivenName := q\<rparr>)"
    using assertConsumer_serves [OF con assms(1)] queue_named [OF assms(1) up] by (simp add: served_def)
  moreover have "map_has (gw_queueConsumers g') x" if "map_has (gw_queueConsumers g) x" for x
    using growing.subscribe_now_keeps [OF new, of amqp] assms(1,2) that by simp
  then have "served g t \<Longrightarrow> served g' t" for t by (simp add: served_def)
  ultimately show ?thesis using list assms(3) by auto
qed

lemma restore_turns_serves:
  "\<lbrakk>no_closes amqp; restore_turns amqp n g = (Inr u, g'); gw_subscriptions g = todo @ ready; length todo = n;
    \<forall>t \<in> set ready. served g t\<rbrakk> \<Longrightarrow> \<forall>t \<in> set (gw_subscriptions g'). served g' t"
proof (induction n arbitrary: g todo ready)
  case 0
  then show ?case by (simp add: act_return_def)
next
  case (Suc n)
  then obtain s rest where todo: "todo = s # rest" "length rest = n" by (cases todo) auto
  let ?g = "g\<lparr>gw_subscriptions := rest @ ready\<rparr>"
  obtain r g1 where sub: "gw_subscribe_now amqp s ?g = (Inr r, g1)" and turns: "restore_turns amqp n g1 = (Inr u, g')"
    using Suc.prems(2,3) todo(1) by (auto simp: act_bind_Inr_iff)
  have "served ?g t = served g t" for t by (simp add: served_def)
  then have "\<forall>t \<in> set (gw_subscriptions ?g). served ?g t \<or> \<not> t \<in> set ready" using Suc.prems(5) by auto
  from subscribe_now_serves [OF Suc.prems(1) sub this] obtain s' where
    "gw_subscriptions g1 = rest @ ready @ [s']" "\<forall>t \<in> set (ready @ [s']). served g1 t" by auto
  from Suc.IH [OF Suc.prems(1) turns this(1) todo(2) this(2)] show ?case .
qed

interpretation silent: subscription_relation amqp "\<lambda>g g'. no_closes amqp \<longrightarrow> gw_emitted g' = gw_emitted g" for amqp
  by unfold_locales (auto simp: request_no_closes)

lemma restore_turns_silent: "no_closes amqp \<Longrightarrow> gw_emitted (snd (restore_turns amqp n g)) = gw_emitted g"
proof (induction n arbitrary: g)
  case (Suc n)
  show ?case
  proof (cases "gw_subscriptions g")
    case (Cons s rest)
    let ?g = "g\<lparr>gw_subscriptions := rest\<rparr>"
    obtain r g1 where r: "gw_subscribe_now amqp s ?g = (r, g1)" by fastforce
    have "gw_emitted g1 = gw_emitted g"
    proof (cases "findSubscription s ?g")
      case None
      from silent.subscribe_now_keeps [OF this, of amqp] r Suc.prems show ?thesis by simp
    next
      case (Some t)
      with r show ?thesis by (auto simp: gw_subscribe_now_def)
    qed
    with Suc.IH [OF Suc.prems, of g1] Cons r show ?thesis by (cases r) (simp_all add: act_bind_def)
  qed simp
qed (simp add: act_return_def)

text \<open>
  When connecting succeeds and the connection is not lost meanwhile, the queue of every recorded
  subscription has a consumer, and the gateway says so with \<open>connected\<close>.
\<close>

theorem connected_serves_all:
  assumes "no_closes amqp" and "\<not> isConnected g" and "gw_connect amqp g = (Inr c, g')"
  shows "(\<forall>s \<in> set (gw_subscriptions g'). served g' s) \<and> c = gw_connection g' \<and> gw_emitted g' = gw_emitted g @ [Connected]"
proof -
  have nc: "\<not> isConnected (connect_enter g)" using assms(2) by (simp add: isConnected_def connect_enter_def)
  obtain g2 where g': "g' = emit_event Connected g2" "c = gw_connection g2" and run: "act_bind (request amqp Connect) (\<lambda>reply g1.
      act_bind (restoreSubscriptions amqp) (\<lambda>_. act_return ()) (g1\<lparr>gw_connection := Some (re_ref reply)\<rparr>)) (connect_enter g) = (Inr (), g2)"
    using assms(3) nc by (auto simp: gw_connect_def connect_locked_def gw_connect_now_def split: prod.splits sum.splits)
  then obtain reply g1 where req: "request amqp Connect (connect_enter g) = (Inr reply, g1)"
    and res: "restoreSubscriptions amqp (g1\<lparr>gw_connection := Some (re_ref reply)\<rparr>) = (Inr (), g2)"
    by (auto simp: act_bind_Inr_iff act_return_def)
  have "\<forall>t \<in> set (gw_subscriptions g2). served g2 t"
    using restore_turns_serves [OF assms(1) res [unfolded restoreSubscriptions_def], where todo = "gw_subscriptions g1" and ready = "[]"] by simp
  moreover have "gw_emitted g2 = gw_emitted g"
  proof -
    have "gw_emitted g1 = gw_emitted g"
      using req by (auto simp: request_no_closes [OF assms(1)] connect_enter_def)
    moreover have "gw_emitted g2 = gw_emitted g1"
      using restore_turns_silent [OF assms(1), of "length (gw_subscriptions g1)" "g1\<lparr>gw_connection := Some (re_ref reply)\<rparr>"] res
      by (simp add: restoreSubscriptions_def)
    ultimately show ?thesis by simp
  qed
  ultimately show ?thesis using g' by (simp add: emit_event_def served_def)
qed

lemma connected_serves_all_witness:
  "served (snd (gw_connect answering (new_gateway\<lparr>gw_subscriptions := [demo_sub None ''T'' 7]\<rparr>)))
     ((demo_sub None ''T'' 7)\<lparr>s_queueGivenName := Some ''amq.gen''\<rparr>)"
proof -
  let ?g = "new_gateway\<lparr>gw_subscriptions := [demo_sub None ''T'' 7]\<rparr>"
  have nc: "no_closes answering" by (simp add: no_closes_def answering_def)
  have off: "\<not> isConnected ?g" by (simp add: isConnected_def new_gateway_def)
  note eval = gw_connect_def connect_locked_def gw_connect_now_def isConnected_def connect_enter_def new_gateway_def
    request_def answering_def act_bind_def act_return_def restoreSubscriptions_def gw_subscribe_now_def emit_event_def
    findSubscription_def wants_dead_letters_def demo_sub_def named_def assertQueueChannel_def subscribe_exclusive_def
    assetQueue_def assertBinding_def assertConsumer_def setPrefetch_def map_has_def same_subscription_def default_queue_options_def
  obtain c g' where run: "gw_connect answering ?g = (Inr c, g')"
    and list: "gw_subscriptions g' = [(demo_sub None ''T'' 7)\<lparr>s_queueGivenName := Some ''amq.gen''\<rparr>]"
    by (simp add: eval)
  from connected_serves_all [OF nc off run] run list show ?thesis by simp
qed

section \<open>Publishing and subscribing without luck\<close>

text \<open>
  On an open channel a valid message is handed to the broker exactly once and nothing else of
  the gateway changes, whatever the outcome: also where the call fails because the buffer is full.
\<close>

theorem publish_sends_once:
  assumes "gw_pubChannel g = Some ch" and "gw_appId g = Some a" and "a \<noteq> []" and "exchange \<noteq> []" and "message_ok m"
    and "no_closes amqp"
  shows "gw_publish amqp provided now exchange m g =
     ((case fst (amqp (gw_requests g) (Publish ch exchange (msg_type m) m (publish_properties now a m))) of
         Inl err \<Rightarrow> Inl err
       | Inr reply \<Rightarrow> if re_written reply then Inr ()
           else Inl (GenericError (''Failed to send event '' @ describe m @ '', channel buffer is full''))),
      g\<lparr>gw_requests := gw_requests g @ [Publish ch exchange (msg_type m) m (publish_properties now a m)]\<rparr>)"
  using assms(1-5)
  by (simp add: gw_publish_def act_check_def act_bind_def assertPubChannel_def getAppId_def assertString_def
      request_no_closes [OF assms(6)] act_return_def act_throw_def split: sum.split)

text \<open>A channel whose buffer is full.\<close>

definition flooded :: amqp where
  "flooded h r = (Inr \<lparr>re_ref = 1, re_queue = [], re_messages = 0, re_consumers = 0, re_tag = [], re_written = False\<rparr>, None)"

lemma publish_sends_once_witness:
  "\<exists>err g'. gw_publish flooded (Inr ''app'') 5 ''x'' (demo_event ''T'' ''a'' 0 ''e'')
      (new_gateway\<lparr>gw_pubChannel := Some 1, gw_appId := Some ''app''\<rparr>) = (Inl err, g')
    \<and> gw_requests g' = [Publish 1 ''x'' ''T'' (demo_event ''T'' ''a'' 0 ''e'') (publish_properties 5 ''app'' (demo_event ''T'' ''a'' 0 ''e''))]"
proof -
  have "no_closes flooded" by (simp add: no_closes_def flooded_def)
  from publish_sends_once [OF _ _ _ _ _ this, of "new_gateway\<lparr>gw_pubChannel := Some 1, gw_appId := Some ''app''\<rparr>" 1 "''app''" "''x''"
      "demo_event ''T'' ''a'' 0 ''e''" "Inr ''app''" 5]
  show ?thesis by (simp add: message_ok_def demo_event_def flooded_def new_gateway_def)
qed

text \<open>
  \<open>subscribe\<close> while the broker cannot be reached: the call fails and a reconnect is scheduled, but
  the subscription is not recorded, so no later connection sets it up.
\<close>

theorem unreachable_subscription_forgotten:
  assumes "\<not> isConnected g" and "amqp (gw_requests g) Connect = (Inl err, None)"
    and "s_handlerProcessTimeout s = JUndef" "s_queueExpires s = JUndef" "s_messageTtl s = JUndef"
    and "findSubscription s g = None"
  shows "\<exists>g'. gw_subscribe amqp s g = (Inl err, g') \<and> gw_reconnectTimer g' \<and> gw_subscriptions g' = gw_subscriptions g
    \<and> findSubscription s g' = None"
proof -
  have "\<not> isConnected (connect_enter g)" using assms(1) by (simp add: isConnected_def connect_enter_def)
  then have "gw_subscribe amqp s g = (Inl err, scheduleReconnect ((connect_enter g)\<lparr>gw_requests := gw_requests g @ [Connect]\<rparr>))"
    using assms(2) unfolding gw_subscribe_checked [OF assms(3-5)]
    by (simp add: Let_def act_bind_def gw_connect_now_def request_def) (simp add: connect_enter_def)
  with assms(6) show ?thesis by (simp add: scheduleReconnect_def findSubscription_def connect_enter_def)
qed

lemma unreachable_subscription_forgotten_witness:
  "\<exists>g'. gw_subscribe unreachable (demo_sub None ''T'' 7) new_gateway = (Inl (GenericError ''ECONNREFUSED''), g')
    \<and> findSubscription (demo_sub None ''T'' 7) g' = None"
  using unreachable_subscription_forgotten [of new_gateway unreachable "GenericError ''ECONNREFUSED''" "demo_sub None ''T'' 7"]
  by (simp add: isConnected_def new_gateway_def unreachable_def demo_sub_def findSubscription_def) blast

end
