(* ===== verification/RabbitBuses.thy ===== *)
theory RabbitBuses
  imports RabbitGateway MessageBus
begin

text \<open>
  The command bus and the event bus on RabbitMQ (\<open>src/rabbitmq/RabbitMqCommandBus.ts\<close>,
  \<open>RabbitMqEventBus.ts\<close>, \<open>utils/resolveProvider.ts\<close>): a configuration that is resolved and checked at
  the first use, and subscriptions and messages handed to the gateway. A state is the bus with its
  gateway. Spans are left out.
\<close>

section \<open>Configuration\<close>

text \<open>A configuration, or a function that returns one or throws.\<close>

datatype config_provider = Provided jsval | Provider "jsval result"

fun resolveProvider :: "config_provider \<Rightarrow> jsval result" where
  "resolveProvider (Provided v) = Inr v"
| "resolveProvider (Provider r) = r"

record bus_config =
  bc_exchange :: string
  bc_queueName :: "string option"
  bc_ignoreOwn :: bool
  bc_concurrentLimit :: jsval
  bc_handlerProcessTimeout :: jsval
  bc_queueExpires :: jsval
  bc_deadLetterQueue :: "bool option"
  bc_messageTtl :: jsval

text \<open>A property of the configuration, with a default where it is \<open>undefined\<close>; \<open>?? {}\<close> before.\<close>

definition setting :: "jsval \<Rightarrow> string \<Rightarrow> jsval \<Rightarrow> jsval" where
  "setting c name dflt = (let v = (if c = JUndef \<or> c = JNull then JUndef else js_get c name) in if v = JUndef then dflt else v)"

fun js_text :: "jsval \<Rightarrow> string" where
  "js_text (JStr s) = s"
| "js_text _ = []"

definition js_text_option :: "jsval \<Rightarrow> string option" where
  "js_text_option v = (if v = JUndef then None else Some (js_text v))"

definition unless_undefined :: "jsval \<Rightarrow> unit result \<Rightarrow> unit result" where
  "unless_undefined v check = (if v = JUndef then Inr () else check)"

definition check_all :: "unit result list \<Rightarrow> unit result" where
  "check_all rs = foldr (\<lambda>r rest. res_bind r (\<lambda>_. rest)) rs (Inr ())"

definition read_config :: "jsval \<Rightarrow> jsval \<Rightarrow> jsval \<Rightarrow> jsval \<Rightarrow> jsval \<Rightarrow> bus_config" where
  "read_config c exchange qname ignoreOwn deadLetterQueue =
     \<lparr>bc_exchange = js_text exchange, bc_queueName = js_text_option qname, bc_ignoreOwn = (ignoreOwn = JBool True),
      bc_concurrentLimit = setting c ''concurrentLimit'' JUndef, bc_handlerProcessTimeout = setting c ''handlerProcessTimeout'' JUndef,
      bc_queueExpires = setting c ''queueExpires'' JUndef,
      bc_deadLetterQueue = (if deadLetterQueue = JUndef then None else Some (deadLetterQueue = JBool True)),
      bc_messageTtl = setting c ''messageTtl'' JUndef\<rparr>"

definition check_numbers :: "string \<Rightarrow> jsval \<Rightarrow> string list \<Rightarrow> unit result list" where
  "check_numbers prefix c names = map (\<lambda>n. unless_undefined (setting c n JUndef)
     (assertNonNegativeInteger (setting c n JUndef) (prefix @ n))) names"

definition resolve_command_config :: "config_provider \<Rightarrow> bus_config result" where
  "resolve_command_config p = res_bind (resolveProvider p) (\<lambda>c.
     let exchange = setting c ''exchange'' (JStr ''node-cqrs.commands'');
         qname = setting c ''queueName'' (JStr ''node-cqrs.commands.default'');
         ignoreOwn = setting c ''ignoreOwn'' (JBool False);
         deadLetterQueue = setting c ''deadLetterQueue'' JUndef
     in res_bind (check_all ([assertString exchange ''rabbitMqCommandConfig.exchange'',
            assertString qname ''rabbitMqCommandConfig.queueName'',
            assertBoolean ignoreOwn ''rabbitMqCommandConfig.ignoreOwn'']
          @ check_numbers ''rabbitMqCommandConfig.'' c [''concurrentLimit'', ''handlerProcessTimeout'', ''queueExpires'']
          @ [unless_undefined deadLetterQueue (assertBoolean deadLetterQueue ''rabbitMqCommandConfig.deadLetterQueue'')]
          @ check_numbers ''rabbitMqCommandConfig.'' c [''messageTtl'']))
        (\<lambda>_. Inr (read_config c exchange qname ignoreOwn deadLetterQueue)))"

definition resolve_event_config :: "config_provider \<Rightarrow> bus_config result" where
  "resolve_event_config p = res_bind (resolveProvider p) (\<lambda>c.
     let exchange = setting c ''exchange'' (JStr ''node-cqrs.events'');
         qname = setting c ''queueName'' JUndef;
         ignoreOwn = setting c ''ignoreOwn'' (JBool True);
         deadLetterQueue = setting c ''deadLetterQueue'' (JBool False)
     in res_bind (check_all ([assertString exchange ''rabbitMqEventConfig.exchange'',
            assertBoolean ignoreOwn ''rabbitMqEventConfig.ignoreOwn'']
          @ check_numbers ''rabbitMqEventConfig.'' c [''concurrentLimit'', ''handlerProcessTimeout'']
          @ [unless_undefined qname (assertString qname ''rabbitMqEventConfig.queueName'')]
          @ check_numbers ''rabbitMqEventConfig.'' c [''queueExpires'']
          @ [assertBoolean deadLetterQueue ''rabbitMqEventConfig.deadLetterQueue'']
          @ check_numbers ''rabbitMqEventConfig.'' c [''messageTtl'']))
        (\<lambda>_. Inr (read_config c exchange qname ignoreOwn deadLetterQueue)))"

section \<open>The command bus\<close>

record command_bus =
  cb_provider :: config_provider
  cb_config :: "bus_config option"

definition command_bus_config :: "(command_bus \<times> gateway, bus_config) act" where
  "command_bus_config = (\<lambda>(b, g). case cb_config b of
       Some c \<Rightarrow> (Inr c, b, g)
     | None \<Rightarrow> (case resolve_command_config (cb_provider b) of
         Inl err \<Rightarrow> (Inl err, b, g) | Inr c \<Rightarrow> (Inr c, b\<lparr>cb_config := Some c\<rparr>, g)))"

definition on_gateway :: "(gateway, 'a) act \<Rightarrow> ('b \<times> gateway, 'a) act" where
  "on_gateway m = (\<lambda>(b, g). case m g of (r, g') \<Rightarrow> (r, b, g'))"

definition bus_subscription :: "bus_config \<Rightarrow> string \<Rightarrow> nat \<Rightarrow> bool \<Rightarrow> subscription" where
  "bus_subscription c eventType handler single =
     \<lparr>s_exchange = bc_exchange c, s_queueName = bc_queueName c, s_eventType = Some eventType, s_handler = handler,
      s_ignoreOwn = bc_ignoreOwn c, s_concurrentLimit = bc_concurrentLimit c, s_noAck = False,
      s_handlerProcessTimeout = bc_handlerProcessTimeout c, s_queueExpires = bc_queueExpires c,
      s_singleActiveConsumer = single, s_deadLetterQueue = bc_deadLetterQueue c, s_messageTtl = bc_messageTtl c,
      s_queueGivenName = None\<rparr>"

definition command_bus_on :: "amqp \<Rightarrow> string \<Rightarrow> nat \<Rightarrow> (command_bus \<times> gateway, unit) act" where
  "command_bus_on amqp messageType handler = act_bind command_bus_config (\<lambda>c.
     act_bind (on_gateway (gw_subscribe amqp (bus_subscription c messageType handler False))) (\<lambda>_. act_return ()))"

definition command_bus_off :: "amqp \<Rightarrow> string \<Rightarrow> nat \<Rightarrow> (command_bus \<times> gateway, unit) act" where
  "command_bus_off amqp messageType handler = act_bind command_bus_config (\<lambda>c.
     on_gateway (gw_unsubscribe amqp (bus_subscription c messageType handler False)))"

text \<open>A command given as such, or made of a type, an aggregate id and options; it has no id of its own.\<close>

datatype command_to_send = Command event | CommandOfType string "ident option" "command_options option"

fun command_message :: "command_to_send \<Rightarrow> event" where
  "command_message (Command m) = m"
| "command_message (CommandOfType t aid options) = message.extend (build_command t aid options) (event.fields None)"

definition command_bus_send :: "amqp \<Rightarrow> string result \<Rightarrow> int \<Rightarrow> command_to_send \<Rightarrow> (command_bus \<times> gateway, unit) act" where
  "command_bus_send amqp appId now x = (let m = command_message x in act_check
     (if message_ok m then Inr () else Inl (TypeError ''command must be a valid IMessage''))
     (act_bind command_bus_config (\<lambda>c. on_gateway (gw_publish amqp appId now (bc_exchange c) m))))"

section \<open>The event bus\<close>

record event_bus =
  eb_provider :: config_provider
  eb_config :: "bus_config option"
  eb_queues :: "(string, bus_config option) jsmap"

definition event_bus_config :: "(event_bus \<times> gateway, bus_config) act" where
  "event_bus_config = (\<lambda>(b, g). case eb_config b of
       Some c \<Rightarrow> (Inr c, b, g)
     | None \<Rightarrow> (case resolve_event_config (eb_provider b) of
         Inl err \<Rightarrow> (Inl err, b, g) | Inr c \<Rightarrow> (Inr c, b\<lparr>eb_config := Some c\<rparr>, g)))"

definition event_bus_publish :: "amqp \<Rightarrow> string result \<Rightarrow> int \<Rightarrow> event \<Rightarrow> (event_bus \<times> gateway, unit) act" where
  "event_bus_publish amqp appId now m = act_bind event_bus_config (\<lambda>c. on_gateway (gw_publish amqp appId now (bc_exchange c) m))"

definition event_bus_on :: "amqp \<Rightarrow> string \<Rightarrow> nat \<Rightarrow> (event_bus \<times> gateway, subscribe_result) act" where
  "event_bus_on amqp eventType handler = act_bind event_bus_config (\<lambda>c.
     on_gateway (gw_subscribe amqp (bus_subscription c eventType handler True)))"

definition event_bus_off :: "amqp \<Rightarrow> string \<Rightarrow> nat \<Rightarrow> (event_bus \<times> gateway, unit) act" where
  "event_bus_off amqp eventType handler = act_bind event_bus_config (\<lambda>c.
     on_gateway (gw_unsubscribe amqp (bus_subscription c eventType handler True)))"

text \<open>
  \<open>queue(name)\<close>: a command bus, made once per name and known here by its resolved configuration,
  which it makes of the event bus's own.
\<close>

definition event_bus_queue :: "string \<Rightarrow> event_bus \<Rightarrow> event_bus" where
  "event_bus_queue qn b = (if map_has (eb_queues b) qn then b else b\<lparr>eb_queues := AList.update qn None (eb_queues b)\<rparr>)"

definition optional_bool :: "bool option \<Rightarrow> jsval" where
  "optional_bool v = (case v of None \<Rightarrow> JUndef | Some x \<Rightarrow> JBool x)"

definition queue_config :: "bus_config \<Rightarrow> string \<Rightarrow> jsval" where
  "queue_config c qn = JObj [(''exchange'', JStr (bc_exchange c)), (''queueName'', JStr qn),
     (''concurrentLimit'', bc_concurrentLimit c), (''handlerProcessTimeout'', bc_handlerProcessTimeout c),
     (''queueExpires'', bc_queueExpires c), (''deadLetterQueue'', optional_bool (bc_deadLetterQueue c)),
     (''messageTtl'', bc_messageTtl c)]"

text \<open>
  What subscribing and unsubscribing on the queue of that name does, \<open>m\<close>, on the gateway of its
  event bus. Both ask for the configuration first.
\<close>

definition in_queue :: "string \<Rightarrow> (command_bus \<times> gateway, unit) act \<Rightarrow> (event_bus \<times> gateway, unit) act" where
  "in_queue qn m = (\<lambda>(b, g). case map_of (eb_queues b) qn of
       Some (Some c) \<Rightarrow> (case m (\<lparr>cb_provider = Provided JUndef, cb_config = Some c\<rparr>, g) of (r, cb, g') \<Rightarrow> (r, b, g'))
     | _ \<Rightarrow> (case event_bus_config (b, g) of (res, b1, g1) \<Rightarrow>
         (case m (\<lparr>cb_provider = Provider (res_bind res (\<lambda>c. Inr (queue_config c qn))), cb_config = None\<rparr>, g1) of
            (r, cb, g') \<Rightarrow> (r, b1\<lparr>eb_queues := AList.update qn (cb_config cb) (eb_queues b1)\<rparr>, g'))))"

definition event_queue_on :: "amqp \<Rightarrow> string \<Rightarrow> string \<Rightarrow> nat \<Rightarrow> (event_bus \<times> gateway, unit) act" where
  "event_queue_on amqp qn messageType handler = in_queue qn (command_bus_on amqp messageType handler)"

definition event_queue_off :: "amqp \<Rightarrow> string \<Rightarrow> string \<Rightarrow> nat \<Rightarrow> (event_bus \<times> gateway, unit) act" where
  "event_queue_off amqp qn messageType handler = in_queue qn (command_bus_off amqp messageType handler)"

section \<open>What the buses subscribe to\<close>

lemma check_all_Inr [simp]: "check_all rs = Inr () \<longleftrightarrow> (\<forall>r \<in> set rs. r = Inr ())"
  by (induction rs) (auto simp: check_all_def res_bind_Inr_iff)

lemma assertString_text: "assertString v n = Inr () \<Longrightarrow> js_text v \<noteq> [] \<and> v \<noteq> JUndef"
  by (cases v) (auto simp: assertString_def split: if_splits)

lemma command_config_named:
  "resolve_command_config p = Inr c \<Longrightarrow> named (bc_queueName c) \<and> bc_exchange c \<noteq> []"
  by (auto simp: resolve_command_config_def res_bind_Inr_iff Let_def read_config_def js_text_option_def named_def
      dest!: assertString_text)

text \<open>Every subscription of a command bus names its queue, so the gateway never refuses it for want of a name.\<close>

lemma command_bus_deliverable:
  "resolve_command_config p = Inr c \<Longrightarrow> \<not> undeliverable (bus_subscription c t h single)"
  using command_config_named [of p c] by (simp add: undeliverable_def bus_subscription_def)

text \<open>An event bus without a queue name has none unless it is told to keep dead letters.\<close>

lemma event_bus_deliverable:
  assumes "resolve_event_config p = Inr c" and "undeliverable (bus_subscription c t h single)"
  shows "bc_deadLetterQueue c = Some True \<and> bc_queueName c = None"
  using assms
  by (auto simp: resolve_event_config_def res_bind_Inr_iff Let_def read_config_def js_text_option_def
      undeliverable_def bus_subscription_def wants_dead_letters_def named_def unless_undefined_def
      dest!: assertString_text split: if_splits option.splits)

section \<open>Subscribing and unsubscribing\<close>

lemma remove_new: "sub_key s \<notin> sub_key ` set ts \<Longrightarrow> map core us = map core ts @ [core s] \<Longrightarrow>
    map core (remove_first (\<lambda>u. same_subscription u s) us) = map core ts"
proof (induction ts arbitrary: us)
  case Nil
  then obtain u where "us = [u]" "core u = core s" by auto
  moreover have "sub_key u = sub_key s" using sub_key_core(1) calculation(2) by metis
  ultimately show ?case by (simp add: same_subscription_iff)
next
  case (Cons t ts)
  then obtain u us' where u: "us = u # us'" "core u = core t" "map core us' = map core ts @ [core s]" by auto
  moreover have "sub_key u = sub_key t" using sub_key_core(1) u(2) by metis
  ultimately show ?case using Cons.prems(1) Cons.IH [of us'] by (auto simp: same_subscription_iff)
qed

lemma unsubscribe_cores:
  assumes "findSubscription s g = None" and "core_list g1 = core_list g @ [core s]"
  shows "core_list (snd (gw_unsubscribe amqp s g1)) = core_list g"
proof -
  let ?g1 = "g1\<lparr>gw_subscriptions := remove_first (\<lambda>u. same_subscription u s) (gw_subscriptions g1)\<rparr>"
  have kept: "core_list ?g1 = core_list g"
    using remove_new [of s "gw_subscriptions g" "gw_subscriptions g1"] assms
    by (simp add: core_list_def findSubscription_None)
  have "core s \<in> core ` set (gw_subscriptions g1)" using assms(2) unfolding core_list_def by (metis in_set_conv_decomp list.set_map)
  then have "sub_key s \<in> sub_key ` set (gw_subscriptions g1)" by (metis (no_types, lifting) image_iff sub_key_core(1))
  then obtain t where t: "findSubscription s g1 = Some t" using findSubscription_None [of s g1] by fastforce
  have "gw_subscriptions (snd (tryDropConsumer amqp t h)) = gw_subscriptions h" for h
  proof -
    have "gw_subscriptions (snd (act_bind (request amqp r) (\<lambda>_. act_return ()) k)) = gw_subscriptions k" for r k
      using subscriptions_kept(7) [of amqp r k] by (cases "request amqp r k"; cases "fst (request amqp r k)")
        (auto simp: act_bind_def act_return_def)
    then show ?thesis by (auto simp: tryDropConsumer_def split: option.split)
  qed
  with kept t show ?thesis by (simp add: gw_unsubscribe_def core_list_def)
qed

text \<open>
  On a connected gateway, a handler that a command bus registers and removes
  again leaves the gateway's subscriptions as they were, in their order, whatever requests fail and
  whether or not the registration got through.
\<close>

theorem rabbit_on_off:
  assumes "cb_config b = Some c" and "isConnected g" and "findSubscription (bus_subscription c t h False) g = None"
    and "s_handlerProcessTimeout (bus_subscription c t h False) = JUndef" "bc_queueExpires c = JUndef" "bc_messageTtl c = JUndef"
    and "command_bus_on amqp t h (b, g) = (r1, b1, g1)" and "command_bus_off amqp t h (b1, g1) = (r2, b2, g2)"
  shows "core_list g1 = core_list g @ [core (bus_subscription c t h False)] \<and> core_list g2 = core_list g"
proof -
  let ?s = "bus_subscription c t h False"
  have e: "findSubscription ?s (connect_enter g) = None" "isConnected (connect_enter g)" "core_list (connect_enter g) = core_list g"
    using assms(2,3) by (simp_all add: findSubscription_def isConnected_def connect_enter_def core_list_def)
  obtain x g' where sub: "gw_subscribe amqp ?s g = (x, g')" by fastforce
  have checks: "s_queueExpires ?s = JUndef" "s_messageTtl ?s = JUndef" using assms(5,6) by (simp_all add: bus_subscription_def)
  have "gw_subscribe_now amqp ?s (connect_enter g) = (x, g')"
    using sub e(2) unfolding gw_subscribe_checked [OF assms(4) checks] by (simp add: Let_def act_bind_def act_return_def)
  with subscribe_now_cores [OF e(1), of amqp] e(3) have g': "core_list g' = core_list g @ [core ?s]" by simp
  have b1: "b1 = b" "g1 = g'"
    using assms(1,7) sub by (auto simp: command_bus_on_def command_bus_config_def on_gateway_def act_bind_def act_return_def
        split: sum.splits)
  have "g2 = snd (gw_unsubscribe amqp ?s g1)"
    using assms(1,8) b1(1) by (auto simp: command_bus_off_def command_bus_config_def on_gateway_def act_bind_def split: prod.splits)
  with unsubscribe_cores [OF assms(3) g'] g' b1(2) show ?thesis by simp
qed

lemma default_command_config:
  "resolve_command_config (Provided JUndef) = Inr \<lparr>bc_exchange = ''node-cqrs.commands'', bc_queueName = Some ''node-cqrs.commands.default'',
     bc_ignoreOwn = False, bc_concurrentLimit = JUndef, bc_handlerProcessTimeout = JUndef, bc_queueExpires = JUndef,
     bc_deadLetterQueue = None, bc_messageTtl = JUndef\<rparr>"
  by (simp add: resolve_command_config_def setting_def check_all_def check_numbers_def assertString_def
      assertBoolean_def unless_undefined_def read_config_def js_text_option_def Let_def)

lemma rabbit_on_off_witness:
  "\<exists>c. resolve_command_config (Provided JUndef) = Inr c \<and>
     core_list (snd (snd (command_bus_off answering ''T'' 7 (snd (command_bus_on answering ''T'' 7
       (\<lparr>cb_provider = Provided JUndef, cb_config = Some c\<rparr>, new_gateway\<lparr>gw_connection := Some 1\<rparr>)))))) = []"
proof -
  obtain c where c: "resolve_command_config (Provided JUndef) = Inr c"
    and f: "bc_handlerProcessTimeout c = JUndef" "bc_queueExpires c = JUndef" "bc_messageTtl c = JUndef"
    using default_command_config by auto
  let ?b = "\<lparr>cb_provider = Provided JUndef, cb_config = Some c\<rparr>"
  let ?g = "new_gateway\<lparr>gw_connection := Some 1\<rparr>"
  obtain r1 b1 g1 where on: "command_bus_on answering ''T'' 7 (?b, ?g) = (r1, b1, g1)" by (rule prod_cases3)
  obtain r2 b2 g2 where off: "command_bus_off answering ''T'' 7 (b1, g1) = (r2, b2, g2)" by (rule prod_cases3)
  have "core_list g2 = core_list ?g"
    using rabbit_on_off [OF _ _ _ _ f(2,3) on off] f(1)
    by (simp add: isConnected_def findSubscription_def new_gateway_def bus_subscription_def)
  then have "core_list g2 = []" by (simp add: core_list_def new_gateway_def)
  with c on off show ?thesis by simp
qed

end
