(* ===== verification/Workers.thy ===== *)
theory Workers
  imports Projection
begin

text \<open>
  Projections in a worker thread (\<open>src/workers/\<close>): starting the worker and the instance in it
  (\<open>utils/createWorker.ts\<close>, \<open>utils/createWorkerInstance.ts\<close>, \<open>AbstractWorkerProjection.ts\<close>), the proxy
  in the main thread (\<open>WorkerProxyProjection.ts\<close>) and its factory (\<open>utils/workerProxyFactory.ts\<close>).
  The world \<open>'w\<close> is that of \<open>Projection\<close>: what the remote instance, its view and the lockers act
  on. The channel between the threads is the package comlink: what it makes of an error, and what
  it answers after its release, are parameters.
\<close>

section \<open>Messages between the threads\<close>

definition isWorkerData :: "jsval \<Rightarrow> bool" where
  "isWorkerData obj \<longleftrightarrow> typeof_object obj \<and> obj \<noteq> JNull
     \<and> js_in ''projectionPort'' obj \<and> truthy (js_get obj ''projectionPort'')
     \<and> js_in ''viewPort'' obj \<and> truthy (js_get obj ''viewPort'')"

definition isWorkerInitMessage :: "jsval \<Rightarrow> bool" where
  "isWorkerInitMessage msg \<longleftrightarrow> typeof_object msg \<and> msg \<noteq> JNull
     \<and> js_in ''type'' msg \<and> js_get msg ''type'' = JStr ''ready''"

section \<open>Starting a worker\<close>

text \<open>\<open>isAbsolute\<close> and \<open>resolve\<close> are those of \<open>node:path\<close>.\<close>

definition worker_entrypoint :: "(string \<Rightarrow> bool) \<Rightarrow> (string \<Rightarrow> string \<Rightarrow> string) \<Rightarrow> string \<Rightarrow> string \<Rightarrow> string" where
  "worker_entrypoint isAbsolute resolve cwd workerModulePath =
     (if isAbsolute workerModulePath then workerModulePath else resolve cwd workerModulePath)"

datatype worker_event = WMessage jsval | WError js_error | WExit int

text \<open>The promise of the handshake. Once it is settled the three listeners are gone.\<close>

datatype handshake = Waiting | Started | NotStarted js_error

fun handshake_event :: "worker_event \<Rightarrow> handshake \<Rightarrow> handshake" where
  "handshake_event (WMessage msg) Waiting = (if isWorkerInitMessage msg then Started else Waiting)"
| "handshake_event (WError err) Waiting = NotStarted err"
| "handshake_event (WExit code) Waiting =
     NotStarted (GenericError (''Worker exited prematurely with exit code '' @ show_int code))"
| "handshake_event _ settled = settled"

text \<open>
  In the worker: the methods of the instance that are exposed. \<open>made\<close> is what \<open>new\<close> or the
  factory gives, as a prototype chain.
\<close>

primrec wire_each :: "chain \<Rightarrow> string list \<Rightarrow> (string \<times> jsval) list result" where
  "wire_each inst [] = Inr []"
| "wire_each inst (methodName # ms) =
     (let m = (case method_of inst methodName of None \<Rightarrow> JUndef | Some f \<Rightarrow> f)
      in res_bind (assertFunction m methodName) (\<lambda>_.
         res_bind (wire_each inst ms) (\<lambda>api. Inr ((methodName, m) # api))))"

definition createWorkerInstance ::
  "bool \<Rightarrow> jsval \<Rightarrow> chain result \<Rightarrow> string list option \<Rightarrow> (chain \<times> (string \<times> jsval) list) result" where
  "createWorkerInstance parentPort workerData made projectionMethodsToWire =
     (if \<not> parentPort then Inl (GenericError ''createWorkerInstance can only be called from a Worker thread'')
      else if \<not> isWorkerData workerData then Inl (GenericError ''workerData does not contain projectionPort and viewPort'')
      else res_bind made (\<lambda>projection.
        res_bind (case projectionMethodsToWire of
            Some ms \<Rightarrow> Inr ms | None \<Rightarrow> getMessageHandlerNames (tl projection)) (\<lambda>methodsToWire.
        res_bind (wire_each projection methodsToWire) (\<lambda>projectionApi. Inr (projection, projectionApi)))))"

definition projectionMethodsToWire :: "string list" where
  "projectionMethodsToWire = [''project'', ''_projectBatch'', ''ping'', ''getLastProjectedEvent'']"

definition createInstanceInWorkerThread ::
  "bool \<Rightarrow> bool \<Rightarrow> jsval \<Rightarrow> chain result \<Rightarrow> (chain \<times> (string \<times> jsval) list) option result" where
  "createInstanceInWorkerThread isMainThread parentPort workerData made =
     (if isMainThread then Inr None
      else res_bind (createWorkerInstance parentPort workerData made (Some projectionMethodsToWire)) (\<lambda>p. Inr (Some p)))"

definition ping :: bool where
  "ping = True"

text \<open>\<open>_projectBatch\<close> stops at the first error; \<open>getLastProjectedEvent\<close>.\<close>

primrec project_batch :: "'w projection \<Rightarrow> event list \<Rightarrow> ('w, unit) act" where
  "project_batch p [] = act_return ()"
| "project_batch p (e # es) = act_bind (project_event p e) (\<lambda>_. project_batch p es)"

definition getLastProjectedEvent :: "'w projection \<Rightarrow> ('w, event option) act" where
  "getLastProjectedEvent p = (case pj_event_locker p of None \<Rightarrow> act_return None | Some el \<Rightarrow> el_get_last el)"

section \<open>The proxy\<close>

record channel =
  ch_error :: "js_error \<Rightarrow> js_error"
  ch_released :: js_error

text \<open>
  \<open>wp_worker\<close> is \<open>#workerInit\<close>, and \<open>#worker\<close> is set exactly if it is \<open>Started\<close>;
  \<open>wp_terminated\<close>: \<open>terminate\<close> was called on the worker.
\<close>

record 'w worker_proxy =
  wp_worker :: handshake
  wp_terminated :: bool
  wp_disposed :: bool
  wp_messageTypes :: "string list"
  wp_locker :: "'w view_locker_ops option"
  wp_remote :: "'w projection"
  wp_channel :: channel

definition new_worker_proxy ::
  "jsval \<Rightarrow> jsval \<Rightarrow> 'w view_locker_ops \<Rightarrow> 'w projection \<Rightarrow> channel \<Rightarrow> 'w worker_proxy result" where
  "new_worker_proxy workerModulePath messageTypes inMemoryLock remote ch =
     res_bind (assertString workerModulePath ''workerModulePath'') (\<lambda>_.
     res_bind (assertStringArray messageTypes ''messageTypes'') (\<lambda>_.
       Inr \<lparr>wp_worker = Waiting, wp_terminated = False, wp_disposed = False,
         wp_messageTypes = List.map_filter (\<lambda>v. case v of JStr s \<Rightarrow> Some s | _ \<Rightarrow> None)
           (case array_items messageTypes of None \<Rightarrow> [] | Some vs \<Rightarrow> vs),
         wp_locker = Some inMemoryLock, wp_remote = remote, wp_channel = ch\<rparr>))"

definition on_worker_event :: "worker_event \<Rightarrow> 'w worker_proxy \<Rightarrow> 'w worker_proxy" where
  "on_worker_event ev p = p\<lparr>wp_worker := handshake_event ev (wp_worker p)\<rparr>"

definition dispose :: "'w worker_proxy \<Rightarrow> 'w worker_proxy" where
  "dispose p = (if wp_disposed p then p
     else p\<lparr>wp_disposed := True, wp_terminated := (wp_terminated p \<or> wp_worker p = Started)\<rparr>)"

text \<open>\<open>if (!this.#worker) await this.#workerInit\<close>: \<open>None\<close> while the worker has not answered.\<close>

definition with_worker :: "'w worker_proxy \<Rightarrow> ('w, 'a) act \<Rightarrow> 'w \<Rightarrow> ('a result \<times> 'w) option" where
  "with_worker p m w = (case wp_worker p of
       Waiting \<Rightarrow> None | NotStarted err \<Rightarrow> Some (Inl err, w) | Started \<Rightarrow> Some (m w))"

definition ensureWorkerReady :: "'w worker_proxy \<Rightarrow> 'w \<Rightarrow> (unit result \<times> 'w) option" where
  "ensureWorkerReady p = with_worker p (act_return ())"

definition carried :: "channel \<Rightarrow> ('w, 'a) act \<Rightarrow> ('w, 'a) act" where
  "carried ch m w = (case m w of (Inl err, w1) \<Rightarrow> (Inl (ch_error ch err), w1) | (Inr a, w1) \<Rightarrow> (Inr a, w1))"

definition remote_call :: "'w worker_proxy \<Rightarrow> ('w, 'a) act \<Rightarrow> ('w, 'a) act" where
  "remote_call p m w = (if wp_disposed p then (Inl (ch_released (wp_channel p)), w) else carried (wp_channel p) m w)"

text \<open>\<open>project\<close>: \<open>None\<close> while it waits, here for the proxy's lock or the worker, there for the view.\<close>

definition proxy_project :: "'w worker_proxy \<Rightarrow> event \<Rightarrow> 'w \<Rightarrow> (unit result \<times> 'w) option" where
  "proxy_project p e w =
     (if (case wp_locker p of Some vl \<Rightarrow> \<not> vw_ready vl w | None \<Rightarrow> False) then None
      else case with_worker p (act_return ()) w of
        None \<Rightarrow> None
      | Some (Inl err, w1) \<Rightarrow> Some (Inl err, w1)
      | Some (Inr _, w1) \<Rightarrow> if wp_disposed p then Some (Inl (ch_released (wp_channel p)), w1)
          else map_option (\<lambda>(r, w2). remote_call p (\<lambda>_. (r, w2)) w2) (project (wp_remote p) e w1))"

definition proxy_projectBatch :: "'w worker_proxy \<Rightarrow> event list \<Rightarrow> ('w, unit) act" where
  "proxy_projectBatch p batch = remote_call p (project_batch (wp_remote p) batch)"

definition RESTORE_BATCH_SIZE :: nat where
  "RESTORE_BATCH_SIZE = 5000"

text \<open>The loop of \<open>_restore\<close> with what follows it; \<open>batch\<close> holds what is not sent yet.\<close>

primrec batch_loop :: "nat \<Rightarrow> (event list \<Rightarrow> ('w, unit) act) \<Rightarrow> event list \<Rightarrow> event list \<Rightarrow> ('w, unit) act" where
  "batch_loop limit send batch [] = (if batch \<noteq> [] then send batch else act_return ())"
| "batch_loop limit send batch (e # es) =
     (if limit \<le> length batch + 1 then act_bind (send (batch @ [e])) (\<lambda>_. batch_loop limit send [] es)
      else batch_loop limit send (batch @ [e]) es)"

definition proxy_restore_view ::
  "nat \<Rightarrow> 'w worker_proxy \<Rightarrow> (string list \<Rightarrow> event option \<Rightarrow> event list result) \<Rightarrow> 'w \<Rightarrow> (unit result \<times> 'w) option" where
  "proxy_restore_view limit p reader = with_worker p
     (act_bind (remote_call p (getLastProjectedEvent (wp_remote p))) (\<lambda>lastEvent w.
       case reader (wp_messageTypes p) lastEvent of
         Inl err \<Rightarrow> (Inl err, w)
       | Inr es \<Rightarrow> batch_loop limit (proxy_projectBatch p) [] es w))"

text \<open>\<open>restore\<close>: an error leaves the proxy locked.\<close>

definition proxy_restore ::
  "'w worker_proxy \<Rightarrow> (string list \<Rightarrow> event option \<Rightarrow> event list result) \<Rightarrow> 'w \<Rightarrow> (unit result \<times> 'w) option" where
  "proxy_restore p reader w =
     (case (case wp_locker p of None \<Rightarrow> Some (Inr True, w) | Some vl \<Rightarrow> vw_lock vl w) of
        None \<Rightarrow> None
      | Some (Inl err, w1) \<Rightarrow> Some (Inl err, w1)
      | Some (Inr _, w1) \<Rightarrow> (case proxy_restore_view RESTORE_BATCH_SIZE p reader w1 of
            None \<Rightarrow> None
          | Some (Inl err, w2) \<Rightarrow> Some (Inl err, w2)
          | Some (Inr _, w2) \<Rightarrow> Some (Inr (), case wp_locker p of None \<Rightarrow> w2 | Some vl \<Rightarrow> snd (vw_unlock vl w2))))"

section \<open>The factory of proxies\<close>

text \<open>
  What the static members of the projection class give: \<open>workerModulePath\<close> throws where it is not
  overridden. The result is the parameters the proxy is made with.
\<close>

definition abstract_workerModulePath :: "jsval result" where
  "abstract_workerModulePath = Inl (GenericError ''not implemented'')"

definition workerProxyFactory ::
  "jsval \<Rightarrow> jsval result \<Rightarrow> jsval result \<Rightarrow> jsval \<Rightarrow> (jsval \<times> jsval) result" where
  "workerProxyFactory WorkerProjectionType workerModulePath handles ProxyProjectionType =
     res_bind (assertClass WorkerProjectionType ''WorkerProjectionType'') (\<lambda>_.
     res_bind workerModulePath (\<lambda>path.
     res_bind (assertString path ''WorkerProjectionType.workerModulePath'') (\<lambda>_.
     res_bind handles (\<lambda>ts.
     res_bind (assertStringArray ts ''WorkerProjectionType.handles'') (\<lambda>_.
     res_bind (assertClass ProxyProjectionType ''ProxyProjectionType'') (\<lambda>_. Inr (path, ts)))))))"

section \<open>The handshake\<close>

text \<open>The first message that says ready, error or exit decides; what comes later changes nothing.\<close>

fun decisive :: "worker_event \<Rightarrow> bool" where
  "decisive (WMessage msg) = isWorkerInitMessage msg"
| "decisive _ = True"

lemma handshake_settled: "h \<noteq> Waiting \<Longrightarrow> fold handshake_event evs h = h"
proof (induction evs arbitrary: h)
  case (Cons ev evs)
  then have "handshake_event ev h = h" by (cases h; cases ev) simp_all
  with Cons show ?case by simp
qed simp

lemma handshake_decided:
  "fold handshake_event evs Waiting = (case find decisive evs of None \<Rightarrow> Waiting | Some ev \<Rightarrow> handshake_event ev Waiting)"
proof (induction evs)
  case (Cons ev evs)
  show ?case
  proof (cases "decisive ev")
    case True
    then have "handshake_event ev Waiting \<noteq> Waiting" by (cases ev) simp_all
    with True show ?thesis by (simp add: handshake_settled)
  next
    case False
    then obtain msg where "ev = WMessage msg" "\<not> isWorkerInitMessage msg" by (cases ev) simp_all
    with Cons show ?thesis by simp
  qed
qed simp

lemma worker_events: "wp_worker (fold on_worker_event evs p) = fold handshake_event evs (wp_worker p)"
  by (induction evs arbitrary: p) (simp_all add: on_worker_event_def)

lemma worker_events_frame:
  "wp_terminated (fold on_worker_event evs p) = wp_terminated p" "wp_disposed (fold on_worker_event evs p) = wp_disposed p"
  by (induction evs arbitrary: p) (simp_all add: on_worker_event_def)

section \<open>Batches\<close>

text \<open>The chunks of \<open>n\<close> that a list falls into, the last one possibly shorter.\<close>

fun chunks :: "nat \<Rightarrow> 'a list \<Rightarrow> 'a list list" where
  "chunks n xs = (if xs = [] then [] else if n = 0 then [xs] else take n xs # chunks n (drop n xs))"

declare chunks.simps [simp del]

lemma concat_chunks: "concat (chunks n xs) = xs"
proof (induction n xs rule: chunks.induct)
  case (1 n xs)
  then show ?case by (subst chunks.simps) simp
qed

lemma chunks_bound: "0 < n \<Longrightarrow> c \<in> set (chunks n xs) \<Longrightarrow> c \<noteq> [] \<and> length c \<le> n"
proof (induction n xs rule: chunks.induct)
  case (1 n xs)
  from "1.prems"(2) show ?case
  proof (subst (asm) chunks.simps, cases "xs = []")
    case False
    assume "c \<in> set (if xs = [] then [] else if n = 0 then [xs] else take n xs # chunks n (drop n xs))"
    with False "1.prems"(1) have "c = take n xs \<or> c \<in> set (chunks n (drop n xs))" by simp
    with "1.IH" False "1.prems"(1) show ?thesis by auto
  qed simp
qed

text \<open>Sending one after the other.\<close>

primrec send_all :: "('b \<Rightarrow> ('w, unit) act) \<Rightarrow> 'b list \<Rightarrow> ('w, unit) act" where
  "send_all send [] = act_return ()"
| "send_all send (b # bs) = act_bind (send b) (\<lambda>_. send_all send bs)"

lemma batch_loop_chunks:
  "0 < n \<Longrightarrow> length batch < n \<Longrightarrow> batch_loop n send batch es = send_all send (chunks n (batch @ es))"
proof (induction es arbitrary: batch)
  case Nil
  show ?case
  proof (cases "batch = []")
    case False
    with Nil show ?thesis
      by (subst chunks.simps) (simp add: chunks.simps [of n "[]"] act_bind_def act_return_def fun_eq_iff split: prod.splits sum.splits)
  qed (simp add: chunks.simps [of n "[]"])
next
  case (Cons e es)
  show ?case
  proof (cases "n \<le> length batch + 1")
    case True
    with Cons.prems have n: "n = Suc (length batch)" by simp
    have "chunks n (batch @ e # es) = (batch @ [e]) # chunks n es"
      by (subst chunks.simps) (simp add: n)
    with Cons.IH [of "[]"] Cons.prems True show ?thesis by simp
  next
    case False
    with Cons.IH [of "batch @ [e]"] Cons.prems show ?thesis by simp
  qed
qed

text \<open>A way of sending that does not mind where batches are cut.\<close>

locale batched =
  fixes send :: "'e list \<Rightarrow> ('w, unit) act"
  assumes send_none: "send [] = act_return ()"
    and send_append: "send (xs @ ys) = act_bind (send xs) (\<lambda>_. send ys)"
begin

lemma send_chunks: "send_all send bs = send (concat bs)"
  by (induction bs) (simp_all add: send_none send_append)

lemma send_each: "send_all (\<lambda>e. send [e]) es = send es"
proof (induction es)
  case (Cons e es)
  have "send (e # es) = act_bind (send [e]) (\<lambda>_. send es)" using send_append [of "[e]" es] by simp
  with Cons show ?case by simp
qed (simp add: send_none)

end

lemma act_bind_assoc: "act_bind (act_bind m f) g = act_bind m (\<lambda>a. act_bind (f a) g)"
  by (auto simp: act_bind_def fun_eq_iff split: prod.splits sum.splits)

lemma act_bind_return [simp]: "act_bind (act_return a) f = f a"
  by (simp add: act_bind_def act_return_def)

lemma carried_return: "carried ch (act_return a) = act_return a"
  by (simp add: carried_def act_return_def fun_eq_iff)

lemma carried_bind: "carried ch (act_bind m f) = act_bind (carried ch m) (\<lambda>a. carried ch (f a))"
  by (auto simp: carried_def act_bind_def fun_eq_iff split: prod.splits sum.splits)

lemma carried_world [simp]: "snd (carried ch m w) = snd (m w)"
  by (simp add: carried_def split: prod.splits sum.splits)

lemma project_batch_append:
  "project_batch p (xs @ ys) = act_bind (project_batch p xs) (\<lambda>_. project_batch p ys)"
  by (induction xs) (simp_all add: act_bind_assoc)

interpretation remote: batched "\<lambda>es. carried ch (project_batch p es)" for ch p
  by unfold_locales (simp_all add: carried_return project_batch_append carried_bind)

lemma proxy_projectBatch_live:
  "\<not> wp_disposed p \<Longrightarrow> proxy_projectBatch p = (\<lambda>es. carried (wp_channel p) (project_batch (wp_remote p) es))"
  by (simp add: proxy_projectBatch_def remote_call_def fun_eq_iff)

text \<open>Without a handler of restore errors of its own, a projection restores like a batch.\<close>

lemma restore_each_batch:
  "pj_on_error p = onRestoringError \<Longrightarrow> restore_each p es l w = (case project_batch p es w of
     (Inl err, w1) \<Rightarrow> (Inl err, w1) | (Inr _, w1) \<Rightarrow> (Inr (if es = [] then l else Some (last es)), w1))"
proof (induction es arbitrary: l w)
  case (Cons e es)
  obtain r w1 where m: "project_event p e w = (r, w1)" by fastforce
  show ?case
  proof (cases r)
    case (Inl err)
    with m Cons.prems show ?thesis by (simp add: onRestoringError_def)
  next
    case (Inr u)
    with m Cons.IH [OF Cons.prems, of "Some e" w1] show ?thesis by (simp split: prod.splits sum.splits)
  qed
qed (simp add: act_return_def)

section \<open>Properties\<close>

text \<open>
  A worker projection is restored in calls of at most 5000 events to the worker: none is
  empty, and together they carry the events to restore, in their order.
\<close>

theorem restored_in_batches:
  "batch_loop RESTORE_BATCH_SIZE send [] es = send_all send (chunks RESTORE_BATCH_SIZE es)
     \<and> concat (chunks RESTORE_BATCH_SIZE es) = es
     \<and> list_all (\<lambda>c. c \<noteq> [] \<and> length c \<le> RESTORE_BATCH_SIZE) (chunks RESTORE_BATCH_SIZE es)"
proof -
  have n: "0 < RESTORE_BATCH_SIZE" by (simp add: RESTORE_BATCH_SIZE_def)
  then have "batch_loop RESTORE_BATCH_SIZE send [] es = send_all send (chunks RESTORE_BATCH_SIZE es)"
    using batch_loop_chunks [of RESTORE_BATCH_SIZE "[]" send es] by simp
  with chunks_bound [OF n, of _ es] show ?thesis by (simp add: concat_chunks list_all_iff)
qed



definition demo_remote :: "(event option \<times> event list) projection" where
  "demo_remote = \<lparr>pj_instance = demo_chain, pj_handles = Some [''incremented''],
     pj_call = \<lambda>h e w. (Inr (), fst w, snd w @ [e]), pj_view_locker = None,
     pj_event_locker = Some \<lparr>el_try = \<lambda>e. act_return True, el_mark = \<lambda>e. act_return (),
       el_mark_last = \<lambda>e w. (Inr (), Some e, snd w), el_get_last = \<lambda>w. (Inr (fst w), w)\<rparr>,
     pj_records = \<lambda>_. False, pj_on_error = onRestoringError\<rparr>"

definition demo_proxy :: "'w projection \<Rightarrow> 'w worker_proxy" where
  "demo_proxy q = \<lparr>wp_worker = Started, wp_terminated = False, wp_disposed = False, wp_messageTypes = [''incremented''],
     wp_locker = None, wp_remote = q, wp_channel = \<lparr>ch_error = id, ch_released = GenericError ''released''\<rparr>\<rparr>"




text \<open>
  \<open>dispose\<close> terminates the worker exactly if its handshake is over by then, that is if the
  first decisive message was that it is ready. A worker that gets ready later is never terminated,
  also not by disposing again.
\<close>

theorem dispose_terminates_started:
  assumes "wp_worker p = Waiting" "\<not> wp_disposed p" "\<not> wp_terminated p"
  shows "wp_terminated (dispose (fold on_worker_event later (dispose (fold on_worker_event before p))))
    \<longleftrightarrow> (case find decisive before of Some (WMessage _) \<Rightarrow> True | _ \<Rightarrow> False)"
proof -
  let ?p = "fold on_worker_event before p"
  have h: "wp_worker ?p = (case find decisive before of None \<Rightarrow> Waiting | Some ev \<Rightarrow> handshake_event ev Waiting)"
    using assms(1) by (simp add: worker_events handshake_decided)
  have "decisive ev" if "find decisive before = Some ev" for ev
    using that by (auto simp: find_Some_iff)
  then have "wp_worker ?p = Started \<longleftrightarrow> (case find decisive before of Some (WMessage _) \<Rightarrow> True | _ \<Rightarrow> False)"
    by (auto simp: h split: option.splits worker_event.splits)
  moreover have "wp_terminated (dispose (fold on_worker_event later (dispose ?p))) = (wp_worker ?p = Started)"
    using assms(2,3) by (simp add: dispose_def worker_events_frame)
  ultimately show ?thesis by simp
qed

lemma dispose_terminates_started_witness:
  "\<not> wp_terminated (dispose (fold on_worker_event [WMessage (JObj [(''type'', JStr ''ready'')])]
      (dispose (fold on_worker_event [] ((demo_proxy demo_remote)\<lparr>wp_worker := Waiting\<rparr>)))))"
  using dispose_terminates_started [of "(demo_proxy demo_remote)\<lparr>wp_worker := Waiting\<rparr>"
      "[WMessage (JObj [(''type'', JStr ''ready'')])]" "[]"]
  by (simp add: demo_proxy_def)


text \<open>
  A worker that does not start fails the restore and leaves the proxy locked: from then on
  \<open>project\<close> never reports the failure, it waits.
\<close>

theorem failed_worker_blocks_projecting:
  assumes "wp_worker p = NotStarted err" "wp_locker p = Some mem_lock_ops" "mem_lock_ready w"
  shows "proxy_restore p reader w = Some (Inl err, w\<lparr>lockMarker := True\<rparr>)
    \<and> proxy_project p e (w\<lparr>lockMarker := True\<rparr>) = None"
  using assms
  by (simp add: proxy_restore_def proxy_project_def proxy_restore_view_def with_worker_def mem_lock_ops_def
      mem_lock_ready_def mem_lock_lock_def)

text \<open>Disposed, the proxy answers every call with the error of the released channel.\<close>

lemma disposed_proxy_refuses:
  assumes "wp_disposed p" "wp_worker p = Started" "wp_locker p = None"
  shows "proxy_project p e w = Some (Inl (ch_released (wp_channel p)), w)"
    and "proxy_restore p reader w = Some (Inl (ch_released (wp_channel p)), w)"
  using assms
  by (simp_all add: proxy_project_def proxy_restore_def proxy_restore_view_def with_worker_def remote_call_def act_return_def)

end
