(* ===== verification/Startup.thy ===== *)
theory Startup
  imports Projection "HOL-Library.Multiset"
begin

text \<open>
  A projection that is registered while events are being dispatched
  (\<open>src/CqrsContainerBuilder.ts\<close>, \<open>registerProjection\<close>): it subscribes to the event store and then
  starts to restore its view, so that an event stored in time is replayed and an event published
  later is projected once the view is ready. Commits, publications, the replay and the woken
  handlers interleave as they like. The view has a locker (any view of the repository has one);
  its state is the phase.
\<close>

section \<open>State and steps\<close>

datatype phase = Unregistered | Locking | Replaying "event list" "event option" | Live | Broken js_error

text \<open>
  The storage; the events stored and not yet published; the calls of \<open>project\<close> that wait for
  the view; what the projection acts on. The last four only keep a record: the calls of
  \<open>_project\<close>, the events that were published before the subscription, those published after it,
  and those read for the replay.
\<close>

record 'w startup =
  su_storage :: mem_storage
  su_inflight :: "event list"
  su_phase :: phase
  su_waiting :: "event list"
  su_world :: 'w
  su_calls :: "(int \<times> event) list"
  su_early :: "event list"
  su_late :: "event list"
  su_replayed :: "event list"

definition of_types :: "string list \<Rightarrow> event list \<Rightarrow> event list" where
  "of_types ts = filter (\<lambda>e. msg_type e \<in> set ts)"

definition init_startup :: "string list \<Rightarrow> mem_storage \<Rightarrow> 'w \<Rightarrow> 'w startup" where
  "init_startup ts st w = \<lparr>su_storage = st, su_inflight = [], su_phase = Unregistered, su_waiting = [], su_world = w,
     su_calls = [], su_early = of_types ts (events st), su_late = [], su_replayed = []\<rparr>"

text \<open>Somebody dispatches a batch: stored, and from then on to be published.\<close>

definition su_commit :: "event list \<Rightarrow> bool \<Rightarrow> 'w startup \<Rightarrow> 'w startup" where
  "su_commit evs ignoreConc s = (case commitEvents evs ignoreConc (su_storage s) of
       (Inl _, st) \<Rightarrow> s\<lparr>su_storage := st\<rparr>
     | (Inr stored, st) \<Rightarrow> s\<lparr>su_storage := st,
         su_inflight := su_inflight s @ filter (\<lambda>e. \<not> isSnapshotEvent e) stored\<rparr>)"

definition su_project :: "(int \<Rightarrow> 'w projection) \<Rightarrow> int \<Rightarrow> event \<Rightarrow> 'w startup \<Rightarrow> 'w startup" where
  "su_project p now e s = s\<lparr>su_world := snd (project_event (p now) e (su_world s)),
     su_calls := su_calls s @ [(now, e)]\<rparr>"

text \<open>An event is published: \<open>project\<close> waits while the view is not ready.\<close>

definition su_publish :: "string list \<Rightarrow> (int \<Rightarrow> 'w projection) \<Rightarrow> int \<Rightarrow> event \<Rightarrow> 'w startup \<Rightarrow> 'w startup" where
  "su_publish ts p now e s =
     (let s' = s\<lparr>su_inflight := remove1 e (su_inflight s)\<rparr>
      in if msg_type e \<notin> set ts then s'
         else if su_phase s = Unregistered then s'\<lparr>su_early := su_early s @ [e]\<rparr>
         else (let s'' = s'\<lparr>su_late := su_late s @ [e]\<rparr>
           in if su_phase s = Live then su_project p now e s'' else s''\<lparr>su_waiting := su_waiting s @ [e]\<rparr>))"

text \<open>
  \<open>registerProjection\<close>: \<open>subscribe\<close> and the beginning of \<open>restore\<close> run without an await
  in between, so the view is locked when the first event can arrive.
\<close>

definition su_register :: "'w startup \<Rightarrow> 'w startup" where
  "su_register s = s\<lparr>su_phase := Locking\<rparr>"

text \<open>\<open>_restore\<close> reads the events after the last one projected.\<close>

definition last_projected :: "'w projection \<Rightarrow> ('w, event option) act" where
  "last_projected p = (case pj_event_locker p of None \<Rightarrow> act_return None | Some el \<Rightarrow> el_get_last el)"

definition su_read :: "string list \<Rightarrow> 'w projection \<Rightarrow> 'w startup \<Rightarrow> 'w startup" where
  "su_read ts p s =
     (case last_projected p (su_world s) of
        (Inl err, w) \<Rightarrow> s\<lparr>su_world := w, su_phase := Broken err\<rparr>
      | (Inr lastProjected, w) \<Rightarrow> (case getEventsByTypes ts lastProjected (su_storage s) of
            Inl err \<Rightarrow> s\<lparr>su_world := w, su_phase := Broken err\<rparr>
          | Inr es \<Rightarrow> s\<lparr>su_world := w, su_phase := Replaying es None, su_replayed := es\<rparr>))"

definition su_replay :: "(int \<Rightarrow> 'w projection) \<Rightarrow> int \<Rightarrow> event \<Rightarrow> event list \<Rightarrow> event option \<Rightarrow> 'w startup \<Rightarrow> 'w startup" where
  "su_replay p now e es lastRestored s = (su_project p now e s)\<lparr>su_phase :=
     (case fst (project_event (p now) e (su_world s)) of
        Inr _ \<Rightarrow> Replaying es (Some e)
      | Inl err \<Rightarrow> (case pj_on_error (p now) err e of Inl err' \<Rightarrow> Broken err' | Inr _ \<Rightarrow> Replaying es lastRestored))\<rparr>"

text \<open>The end of \<open>restore\<close>: the checkpoint, then \<open>unlock\<close>.\<close>

definition su_finish :: "'w projection \<Rightarrow> event option \<Rightarrow> 'w startup \<Rightarrow> 'w startup" where
  "su_finish p lastRestored s =
     (case (case (pj_event_locker p, lastRestored) of (Some el, Some e) \<Rightarrow> el_mark_last el e | _ \<Rightarrow> act_return ()) (su_world s) of
        (Inl err, w) \<Rightarrow> s\<lparr>su_world := w, su_phase := Broken err\<rparr>
      | (Inr _, w) \<Rightarrow> s\<lparr>su_world := w, su_phase := Live\<rparr>)"

definition su_wake :: "(int \<Rightarrow> 'w projection) \<Rightarrow> int \<Rightarrow> event \<Rightarrow> 'w startup \<Rightarrow> 'w startup" where
  "su_wake p now e s = su_project p now e (s\<lparr>su_waiting := remove1 e (su_waiting s)\<rparr>)"

inductive startup_step :: "string list \<Rightarrow> (int \<Rightarrow> 'w projection) \<Rightarrow> 'w startup \<Rightarrow> 'w startup \<Rightarrow> bool"
  for ts :: "string list" and p :: "int \<Rightarrow> 'w projection" where
  step_commit: "startup_step ts p s (su_commit evs ig s)"
| step_publish: "e \<in> set (su_inflight s) \<Longrightarrow> startup_step ts p s (su_publish ts p now e s)"
| step_register: "su_phase s = Unregistered \<Longrightarrow> startup_step ts p s (su_register s)"
| step_read: "su_phase s = Locking \<Longrightarrow> startup_step ts p s (su_read ts (p now) s)"
| step_replay: "su_phase s = Replaying (e # es) l \<Longrightarrow> startup_step ts p s (su_replay p now e es l s)"
| step_finish: "su_phase s = Replaying [] l \<Longrightarrow> startup_step ts p s (su_finish (p now) l s)"
| step_wake: "su_phase s = Live \<Longrightarrow> e \<in> set (su_waiting s) \<Longrightarrow> startup_step ts p s (su_wake p now e s)"

inductive startup_run :: "string list \<Rightarrow> (int \<Rightarrow> 'w projection) \<Rightarrow> 'w startup \<Rightarrow> 'w startup \<Rightarrow> bool"
  for ts :: "string list" and p :: "int \<Rightarrow> 'w projection" and s :: "'w startup" where
  startup_none: "startup_run ts p s s"
| startup_more: "startup_run ts p s u \<Longrightarrow> startup_step ts p u v \<Longrightarrow> startup_run ts p s v"

section \<open>Every event is accounted for\<close>

text \<open>
  What is stored was published before the subscription, published after it, or is still to be
  published. What was published before it is replayed.
\<close>

definition accounted :: "string list \<Rightarrow> 'w startup \<Rightarrow> bool" where
  "accounted ts s \<longleftrightarrow> mset (of_types ts (events (su_storage s)))
     = mset (su_early s) + mset (su_late s) + mset (of_types ts (su_inflight s))"

definition replay_ok :: "string list \<Rightarrow> 'w startup \<Rightarrow> bool" where
  "replay_ok ts s \<longleftrightarrow> mset (su_early s) \<subseteq># mset (su_replayed s)
     \<and> mset (su_replayed s) \<subseteq># mset (of_types ts (events (su_storage s)))"

definition phase_ok :: "string list \<Rightarrow> 'w startup \<Rightarrow> bool" where
  "phase_ok ts s \<longleftrightarrow> (case su_phase s of
       Unregistered \<Rightarrow> su_calls s = [] \<and> su_waiting s = [] \<and> su_late s = []
     | Locking \<Rightarrow> su_calls s = [] \<and> mset (su_late s) = mset (su_waiting s)
     | Replaying es _ \<Rightarrow> replay_ok ts s \<and> mset (map snd (su_calls s)) + mset es = mset (su_replayed s)
         \<and> mset (su_late s) = mset (su_waiting s)
     | Live \<Rightarrow> replay_ok ts s
         \<and> mset (map snd (su_calls s)) + mset (su_waiting s) = mset (su_replayed s) + mset (su_late s)
     | Broken _ \<Rightarrow> True)"

lemma of_types_append [simp]: "of_types ts (xs @ ys) = of_types ts xs @ of_types ts ys"
  by (simp add: of_types_def)

lemma of_types_remove1:
  "e \<in> set xs \<Longrightarrow> mset (of_types ts (remove1 e xs))
     = mset (of_types ts xs) - (if msg_type e \<in> set ts then {#e#} else {#})"
  by (induction xs) (auto simp: of_types_def)

lemma of_types_published:
  assumes "SNAPSHOT_EVENT_TYPE \<notin> set ts"
  shows "of_types ts (filter (\<lambda>e. \<not> isSnapshotEvent e) es) = of_types ts es"
  using assms by (induction es) (auto simp: of_types_def isSnapshotEvent_def)

lemma in_of_types: "e \<in> set (of_types ts xs) \<longleftrightarrow> e \<in> set xs \<and> msg_type e \<in> set ts"
  by (auto simp: of_types_def)

lemma of_types_taken:
  assumes "e \<in> set xs" "msg_type e \<in> set ts"
  shows "mset (of_types ts xs) = mset (of_types ts (remove1 e xs)) + {#e#}"
proof -
  have "{#e#} \<subseteq># mset (of_types ts xs)" using assms by (simp add: in_of_types)
  then show ?thesis using of_types_remove1 [OF assms(1), of ts] assms(2) by simp
qed

lemma su_project_sel [simp]:
  "su_storage (su_project p now e s) = su_storage s" "su_inflight (su_project p now e s) = su_inflight s"
  "su_phase (su_project p now e s) = su_phase s" "su_waiting (su_project p now e s) = su_waiting s"
  "su_calls (su_project p now e s) = su_calls s @ [(now, e)]" "su_early (su_project p now e s) = su_early s"
  "su_late (su_project p now e s) = su_late s" "su_replayed (su_project p now e s) = su_replayed s"
  "su_world (su_project p now e s) = snd (project_event (p now) e (su_world s))"
  by (simp_all add: su_project_def)

lemma commit_ok:
  assumes "SNAPSHOT_EVENT_TYPE \<notin> set ts" "accounted ts s" "phase_ok ts s"
  shows "accounted ts (su_commit evs ig s) \<and> phase_ok ts (su_commit evs ig s)"
proof (cases "commitEvents evs ig (su_storage s)")
  case (Pair r st)
  show ?thesis
  proof (cases r)
    case (Inl err)
    with Pair commitEvents_Inl [of evs ig "su_storage s" err st] assms show ?thesis
      by (simp add: su_commit_def accounted_def phase_ok_def replay_ok_def)
  next
    case (Inr stored)
    with Pair have st: "stored = evs" "events st = events (su_storage s) @ evs" by (simp_all add: commitEvents_ok)
    have s': "su_commit evs ig s = s\<lparr>su_storage := st, su_inflight := su_inflight s @ filter (\<lambda>e. \<not> isSnapshotEvent e) evs\<rparr>"
      using Pair Inr st(1) by (simp add: su_commit_def)
    have "accounted ts (su_commit evs ig s)"
      using assms(2) by (simp add: s' accounted_def st(2) of_types_published [OF assms(1)])
    moreover have "replay_ok ts s \<Longrightarrow> replay_ok ts (su_commit evs ig s)"
      by (auto simp: s' replay_ok_def st(2) intro: subset_mset.trans)
    ultimately show ?thesis using assms(3) by (simp add: phase_ok_def s' split: phase.splits)
  qed
qed

lemma publish_ok:
  assumes "e \<in> set (su_inflight s)" "accounted ts s" "phase_ok ts s"
  shows "accounted ts (su_publish ts p now e s) \<and> phase_ok ts (su_publish ts p now e s)"
proof (cases "msg_type e \<in> set ts")
  case False
  with assms(2) of_types_remove1 [OF assms(1), of ts] have "accounted ts (su_publish ts p now e s)"
    by (simp add: su_publish_def accounted_def)
  moreover from False assms(3) have "phase_ok ts (su_publish ts p now e s)"
    by (cases "su_phase s") (simp_all add: su_publish_def phase_ok_def replay_ok_def)
  ultimately show ?thesis by simp
next
  case True
  note taken = of_types_taken [OF assms(1) True]
  from assms(2) taken True have "accounted ts (su_publish ts p now e s)"
    by (simp add: su_publish_def accounted_def Let_def)
  moreover from assms(3) True have "phase_ok ts (su_publish ts p now e s)"
    by (cases "su_phase s") (simp_all add: su_publish_def phase_ok_def replay_ok_def Let_def)
  ultimately show ?thesis by simp
qed

lemma read_ok:
  assumes "su_phase s = Locking" "accounted ts s" "phase_ok ts s"
    and "last_projected p (su_world s) = (Inr None, su_world s)"
  shows "accounted ts (su_read ts p s) \<and> phase_ok ts (su_read ts p s)"
proof -
  have s': "su_read ts p s = s\<lparr>su_phase := Replaying (of_types ts (events (su_storage s))) None,
      su_replayed := of_types ts (events (su_storage s))\<rparr>"
    using assms(4) by (simp add: su_read_def getEventsByTypes_all of_types_def)
  from assms(1-3) show ?thesis by (simp add: s' accounted_def phase_ok_def replay_ok_def)
qed

lemma wake_ok:
  assumes "su_phase s = Live" "e \<in> set (su_waiting s)" "accounted ts s" "phase_ok ts s"
  shows "accounted ts (su_wake p now e s) \<and> phase_ok ts (su_wake p now e s)"
proof -
  have same: "su_storage (su_wake p now e s) = su_storage s" "su_inflight (su_wake p now e s) = su_inflight s"
    "su_early (su_wake p now e s) = su_early s" "su_late (su_wake p now e s) = su_late s"
    "su_replayed (su_wake p now e s) = su_replayed s" "su_phase (su_wake p now e s) = Live"
    "su_calls (su_wake p now e s) = su_calls s @ [(now, e)]" "su_waiting (su_wake p now e s) = remove1 e (su_waiting s)"
    by (simp_all add: su_wake_def assms(1))
  have keep: "replay_ok ts (su_wake p now e s) = replay_ok ts s" "accounted ts (su_wake p now e s) = accounted ts s"
    by (simp_all only: replay_ok_def accounted_def same)
  have w: "mset (su_waiting s) = add_mset e (mset (remove1 e (su_waiting s)))" using assms(2) by simp
  have ok: "replay_ok ts s" "mset (map snd (su_calls s)) + mset (su_waiting s) = mset (su_replayed s) + mset (su_late s)"
    using assms(1,4) by (simp_all add: phase_ok_def)
  have "mset (map snd (su_calls s @ [(now, e)])) + mset (remove1 e (su_waiting s)) = mset (map snd (su_calls s)) + mset (su_waiting s)"
    unfolding w by simp
  with ok have "phase_ok ts (su_wake p now e s)" by (simp only: phase_ok_def same phase.case keep simp_thms)
  with assms(3) keep(2) show ?thesis by simp
qed

lemma startup_step_ok:
  assumes "startup_step ts p s s'" "SNAPSHOT_EVENT_TYPE \<notin> set ts" "accounted ts s" "phase_ok ts s"
    and "su_phase s = Locking \<Longrightarrow> (\<forall>now. last_projected (p now) (su_world s) = (Inr None, su_world s))"
  shows "accounted ts s' \<and> phase_ok ts s'"
  using assms(1)
proof (cases rule: startup_step.cases)
  case (step_commit evs ig)
  then show ?thesis using commit_ok [OF assms(2-4)] by simp
next
  case (step_publish e now)
  then show ?thesis using publish_ok [OF _ assms(3,4)] by simp
next
  case step_register
  with assms(3,4) show ?thesis by (simp add: su_register_def accounted_def phase_ok_def)
next
  case (step_read now)
  then show ?thesis using read_ok [OF _ assms(3,4)] assms(5) by simp
next
  case (step_replay e es l now)
  have "mset (map snd (su_calls s)) + mset (e # es) = mset (su_replayed s)"
    using assms(4) step_replay(2) by (simp add: phase_ok_def)
  then have count: "mset (map snd (su_calls s @ [(now, e)])) + mset es = mset (su_replayed s)" by simp
  have rest: "replay_ok ts s" "mset (su_late s) = mset (su_waiting s)"
    using assms(4) step_replay(2) by (simp_all add: phase_ok_def)
  have phase: "su_phase s' = Replaying es (Some e) \<or> su_phase s' = Replaying es l \<or> (\<exists>err. su_phase s' = Broken err)"
    by (simp add: step_replay(1) su_replay_def split: sum.split)
  have same: "su_storage s' = su_storage s" "su_inflight s' = su_inflight s" "su_early s' = su_early s"
    "su_late s' = su_late s" "su_waiting s' = su_waiting s" "su_replayed s' = su_replayed s"
    "su_calls s' = su_calls s @ [(now, e)]"
    by (simp_all add: step_replay(1) su_replay_def)
  have keep: "replay_ok ts s' = replay_ok ts s" "accounted ts s' = accounted ts s"
    by (simp_all add: replay_ok_def accounted_def same)
  from phase rest(1) rest(2) count have "phase_ok ts s'"
    by (elim disjE exE) (simp_all only: phase_ok_def phase.case keep(1) same simp_thms)
  with assms(3) keep(2) show ?thesis by simp
next
  case (step_finish l now)
  have same: "su_storage s' = su_storage s" "su_inflight s' = su_inflight s" "su_early s' = su_early s"
    "su_late s' = su_late s" "su_waiting s' = su_waiting s" "su_replayed s' = su_replayed s" "su_calls s' = su_calls s"
    by (simp_all add: step_finish(1) su_finish_def split: prod.split sum.split)
  have "su_phase s' = Live \<or> (\<exists>err. su_phase s' = Broken err)"
    by (simp add: step_finish(1) su_finish_def split: prod.split sum.split)
  moreover have "replay_ok ts s' = replay_ok ts s" "accounted ts s' = accounted ts s"
    by (simp_all add: replay_ok_def accounted_def same)
  moreover have "replay_ok ts s" "mset (map snd (su_calls s)) + mset [] = mset (su_replayed s)"
    "mset (su_late s) = mset (su_waiting s)"
    using assms(4) step_finish(2) by (simp_all only: phase_ok_def phase.case)
  ultimately show ?thesis using assms(3)
    by (elim disjE exE) (simp_all only: phase_ok_def phase.case same simp_thms mset.simps add_0_right)
next
  case (step_wake e now)
  then show ?thesis using wake_ok [OF _ _ assms(3,4)] by simp
qed

lemma init_startup_ok: "accounted ts (init_startup ts st w) \<and> phase_ok ts (init_startup ts st w)"
  by (simp add: init_startup_def accounted_def phase_ok_def of_types_def)

text \<open>When all is quiet: nothing waits, nothing of the types is still to be published.\<close>

definition settled_down :: "string list \<Rightarrow> 'w startup \<Rightarrow> bool" where
  "settled_down ts s \<longleftrightarrow> su_phase s = Live \<and> su_waiting s = [] \<and> of_types ts (su_inflight s) = []"

lemma settled_calls:
  assumes "accounted ts s" "phase_ok ts s" "settled_down ts s"
  shows "mset (map snd (su_calls s)) = mset (of_types ts (events (su_storage s))) + (mset (su_replayed s) - mset (su_early s))"
proof -
  have early: "mset (su_early s) \<subseteq># mset (su_replayed s)"
    and calls: "mset (map snd (su_calls s)) = mset (su_replayed s) + mset (su_late s)"
    using assms(2,3) by (simp_all add: phase_ok_def replay_ok_def settled_down_def)
  have log: "mset (of_types ts (events (su_storage s))) = mset (su_early s) + mset (su_late s)"
    using assms(1,3) by (simp add: accounted_def settled_down_def)
  from early obtain B where "mset (su_replayed s) = mset (su_early s) + B" by (auto simp: subset_mset.le_iff_add)
  with calls log show ?thesis by simp
qed

section \<open>A view without an event locker\<close>

lemma lockerless_run:
  assumes "startup_run ts p (init_startup ts st w) s" "SNAPSHOT_EVENT_TYPE \<notin> set ts"
    and "\<And>now. pj_event_locker (p now) = None"
  shows "accounted ts s \<and> phase_ok ts s"
  using assms(1)
proof (induction rule: startup_run.induct)
  case startup_none
  show ?case by (rule init_startup_ok)
next
  case (startup_more u v)
  then show ?case
    using assms(3) by (intro startup_step_ok [OF startup_more(2) assms(2)]) (simp_all add: last_projected_def act_return_def)
qed

text \<open>
  C16: a projection is registered while events are dispatched, in any interleaving. Once its view is
  ready and nothing is under way, its handlers were called for every stored event of its types,
  and a second time exactly for those that were stored when the replay read the log and published
  after the subscription: without an event locker these are applied twice.
\<close>

theorem registered_projection_calls:
  assumes "startup_run ts p (init_startup ts st w) s" and "SNAPSHOT_EVENT_TYPE \<notin> set ts"
    and "\<And>now. pj_event_locker (p now) = None" and "settled_down ts s"
  shows "mset (map snd (su_calls s))
    = mset (of_types ts (events (su_storage s))) + (mset (su_replayed s) - mset (su_early s))"
  using lockerless_run [OF assms(1-3)] settled_calls assms(4) by blast

definition demo_startup_projection :: "int \<Rightarrow> event list projection" where
  "demo_startup_projection now = \<lparr>pj_instance = demo_chain, pj_handles = Some [''incremented''],
     pj_call = \<lambda>h e w. (Inr (), w @ [e]), pj_view_locker = None, pj_event_locker = None,
     pj_records = default_records, pj_on_error = onRestoringError\<rparr>"

text \<open>One event, stored before the projection is registered and published while it replays.\<close>

lemmas demo_startup_defs = su_commit_def su_register_def su_read_def su_publish_def su_replay_def su_finish_def
  su_wake_def su_project_def last_projected_def init_startup_def of_types_def new_mem_storage_def
  act_return_def demo_startup_projection_def project_event_def isSnapshotEvent_def getEventsByTypes_all commitEvents_def
  SNAPSHOT_EVENT_TYPE_def

lemma demo_startup_run:
  fixes p :: "int \<Rightarrow> 'w projection"
  assumes "last_projected (p 0) w = (Inr None, w)"
    and "project_event (p 1) (demo_event ''incremented'' ''a'' 0 ''e1'') w = (Inr (), w1)"
    and "(case pj_event_locker (p 2) of None \<Rightarrow> act_return ()
      | Some el \<Rightarrow> el_mark_last el (demo_event ''incremented'' ''a'' 0 ''e1'')) w1 = (Inr (), w2)"
  shows "\<exists>s. startup_run [''incremented''] p (init_startup [''incremented''] new_mem_storage w) s
     \<and> settled_down [''incremented''] s \<and> su_early s = []
     \<and> su_replayed s = [demo_event ''incremented'' ''a'' 0 ''e1''] \<and> events (su_storage s) = su_replayed s
     \<and> su_calls s = [(1, demo_event ''incremented'' ''a'' 0 ''e1''), (3, demo_event ''incremented'' ''a'' 0 ''e1'')]"
proof -
  let ?e = "demo_event ''incremented'' ''a'' 0 ''e1''" and ?ts = "[''incremented'']"
  let ?R = "startup_run ?ts p (init_startup ?ts new_mem_storage w)"
  define s1 where "s1 = su_commit [?e] False (init_startup ?ts new_mem_storage w)"
  define s2 where "s2 = su_register s1"
  define s3 where "s3 = su_read ?ts (p 0) s2"
  define s4 where "s4 = su_publish ?ts p 0 ?e s3"
  define s5 where "s5 = su_replay p 1 ?e [] None s4"
  define s6 where "s6 = su_finish (p 2) (Some ?e) s5"
  define s7 where "s7 = su_wake p 3 ?e s6"
  have s1: "s1 = \<lparr>su_storage = \<lparr>nextId = 0, events = [?e]\<rparr>, su_inflight = [?e], su_phase = Unregistered,
     su_waiting = [], su_world = w, su_calls = [], su_early = [], su_late = [], su_replayed = []\<rparr>"
    by (simp add: s1_def demo_startup_defs)
  have s2: "s2 = s1\<lparr>su_phase := Locking\<rparr>" by (simp add: s2_def su_register_def)
  have s3: "s3 = s2\<lparr>su_phase := Replaying [?e] None, su_replayed := [?e]\<rparr>"
    by (simp add: s3_def s2 s1 su_read_def assms(1) getEventsByTypes_all)
  have s4: "s4 = s3\<lparr>su_inflight := [], su_late := [?e], su_waiting := [?e]\<rparr>"
    by (simp add: s4_def s3 s2 s1 su_publish_def Let_def)
  have s5: "s5 = s4\<lparr>su_world := w1, su_calls := [(1, ?e)], su_phase := Replaying [] (Some ?e)\<rparr>"
    by (simp add: s5_def s4 s3 s2 s1 su_replay_def su_project_def assms(2))
  have s6: "s6 = s5\<lparr>su_world := w2, su_phase := Live\<rparr>"
    using assms(3) by (simp add: s6_def s5 su_finish_def split: option.splits)
  have s7: "s7 = s6\<lparr>su_waiting := [], su_world := snd (project_event (p 3) ?e w2), su_calls := [(1, ?e), (3, ?e)]\<rparr>"
    by (simp add: s7_def s6 s5 s4 s3 s2 s1 su_wake_def su_project_def)
  have "?R s1" unfolding s1_def by (intro startup_more [OF startup_none] startup_step.step_commit)
  then have "?R s2" unfolding s2_def by (rule startup_more) (rule startup_step.step_register, simp add: s1)
  then have "?R s3" unfolding s3_def by (rule startup_more) (rule startup_step.step_read, simp add: s2)
  then have "?R s4" unfolding s4_def by (rule startup_more) (rule startup_step.step_publish, simp add: s3 s2 s1)
  then have "?R s5" unfolding s5_def by (rule startup_more) (rule startup_step.step_replay, simp add: s4 s3)
  then have "?R s6" unfolding s6_def by (rule startup_more) (rule startup_step.step_finish, simp add: s5)
  then have "?R s7" unfolding s7_def by (rule startup_more) (rule startup_step.step_wake, simp_all add: s6 s5 s4)
  moreover have "settled_down ?ts s7" by (simp add: settled_down_def of_types_def s7 s6 s5 s4)
  ultimately show ?thesis by (intro exI [of _ s7]) (simp add: s7 s6 s5 s4 s3 s2 s1)
qed

lemma registered_projection_calls_witness:
  "\<exists>s. startup_run [''incremented''] demo_startup_projection (init_startup [''incremented''] new_mem_storage []) s
     \<and> events (su_storage s) = [demo_event ''incremented'' ''a'' 0 ''e1''] \<and> size (mset (map snd (su_calls s))) = 2"
proof -
  let ?e = "demo_event ''incremented'' ''a'' 0 ''e1''"
  have "last_projected (demo_startup_projection 0) [] = (Inr None, [])"
    "project_event (demo_startup_projection 1) ?e [] = (Inr (), [?e])"
    "(case pj_event_locker (demo_startup_projection 2) of None \<Rightarrow> act_return () | Some el \<Rightarrow> el_mark_last el ?e) [?e] = (Inr (), [?e])"
    by (simp_all add: demo_startup_defs)
  from demo_startup_run [OF this] obtain s where
    s: "startup_run [''incremented''] demo_startup_projection (init_startup [''incremented''] new_mem_storage []) s"
    "settled_down [''incremented''] s" "su_early s = []" "su_replayed s = [?e]" "events (su_storage s) = su_replayed s" by blast
  have "SNAPSHOT_EVENT_TYPE \<notin> set [''incremented'']" by (simp add: SNAPSHOT_EVENT_TYPE_def)
  from registered_projection_calls [OF s(1) this _ s(2)]
  have "mset (map snd (su_calls s)) = mset (of_types [''incremented''] (events (su_storage s))) + (mset (su_replayed s) - mset (su_early s))"
    by (simp add: demo_startup_projection_def)
  then have "size (mset (map snd (su_calls s))) = 2" by (simp only: s(3-5)) (simp add: of_types_def)
  with s show ?thesis by auto
qed

section \<open>A view with an event locker\<close>

lemma first_of_snoc:
  "first_of sm fin (xs @ [e]) = first_of sm fin xs @ (if fin e \<or> (\<exists>x \<in> set (first_of sm fin xs). sm x e) then [] else [e])"
  by (induction xs arbitrary: fin) auto

lemma first_of_subset: "set (first_of sm fin xs) \<subseteq> set xs"
  by (induction xs arbitrary: fin) auto

lemma first_of_distinct:
  assumes "\<And>x y. x \<in> set xs \<Longrightarrow> y \<in> set xs \<Longrightarrow> sm x y \<longleftrightarrow> x = y"
  shows "set (first_of sm (\<lambda>_. False) xs) = set xs \<and> distinct (first_of sm (\<lambda>_. False) xs)"
  using assms
proof (induction xs rule: rev_induct)
  case (snoc e xs)
  let ?F = "first_of sm (\<lambda>_. False) xs"
  have IH: "set ?F = set xs" "distinct ?F" using snoc.IH snoc.prems by simp_all
  have "(\<exists>x \<in> set ?F. sm x e) \<longleftrightarrow> e \<in> set xs" using snoc.prems IH(1) by auto
  with IH show ?case by (auto simp: first_of_snoc)
qed simp

context event_locker
begin

definition seen :: "(event \<Rightarrow> 'v \<Rightarrow> 'v) \<Rightarrow> 'v \<Rightarrow> event list \<Rightarrow> 's \<times> 'v \<Rightarrow> bool" where
  "seen f v0 calls w \<longleftrightarrow> ok (fst w) \<and> snd w = fold f (first_of same (\<lambda>_. False) calls) v0
     \<and> (\<forall>g. status (fst w) g = (if \<exists>e \<in> set (first_of same (\<lambda>_. False) calls). same e g then Processed else Unseen))"

lemma seen_project:
  assumes "seen f v0 calls w" "0 < ttl" "handled_by inst e"
  shows "seen f v0 (calls @ [e]) (snd (project_event (proj inst ts f now) e w))"
proof -
  obtain s v where w: "w = (s, v)" by fastforce
  let ?F = "first_of same (\<lambda>_. False) calls"
  have ok: "ok s" using assms(1) w by (simp add: seen_def)
  show ?thesis
  proof (cases "\<exists>x \<in> set ?F. same x e")
    case True
    with assms(1) w have "status s e = Processed" by (simp add: seen_def)
    from project_processed [OF ok assms(3) this, of ts f now v]
    have "snd (project_event (proj inst ts f now) e w) = w" by (simp add: w)
    with assms(1) True show ?thesis by (simp add: seen_def first_of_snoc)
  next
    case False
    with assms(1) w have "status s e = Unseen" by (simp add: seen_def)
    from project_unseen [OF ok assms(2,3) this, of ts f now v] obtain s' where
      s': "project_event (proj inst ts f now) e (s, v) = (Inr (), s', f e v)" "ok s'"
      and st: "\<And>g. status s' g = (if same e g then Processed else status s g)" by blast
    have F: "first_of same (\<lambda>_. False) (calls @ [e]) = ?F @ [e]" using False by (simp add: first_of_snoc)
    have "status s' g = (if \<exists>x \<in> set (?F @ [e]). same x g then Processed else Unseen)" for g
      using st [of g] assms(1) w by (auto simp: seen_def)
    with s' assms(1) w show ?thesis by (simp add: seen_def F)
  qed
qed

lemma seen_mark_last:
  assumes "seen f v0 calls w"
  shows "seen f v0 calls (snd (on_fst (mark_last e) w))"
proof -
  from assms have "ok (fst w)" by (simp add: seen_def)
  from last_effect [OF this, of e] obtain s' where
    "mark_last e (fst w) = (Inr (), s')" "ok s'" "\<And>g. status s' g = status (fst w) g" by blast
  with assms show ?thesis by (simp add: seen_def on_fst_def)
qed

text \<open>Before the replay nothing was projected, so the checkpoint is what it was.\<close>

definition startup_inv :: "(event \<Rightarrow> 'v \<Rightarrow> 'v) \<Rightarrow> 'v \<Rightarrow> string list \<Rightarrow> ('s \<times> 'v) startup \<Rightarrow> bool" where
  "startup_inv f v0 ts st \<longleftrightarrow> accounted ts st \<and> phase_ok ts st \<and> seen f v0 (map snd (su_calls st)) (su_world st)
     \<and> (su_phase st = Unregistered \<or> su_phase st = Locking \<longrightarrow> get_last (fst (su_world st)) = None)"

lemma proj_last: "last_projected (proj inst ts f now) w = (Inr (get_last (fst w)), w)"
  by (simp add: last_projected_def view_projection_def locker_ops_def)

lemma startup_step_inv:
  assumes step: "startup_step ts (proj inst ts f) st st'" and inv: "startup_inv f v0 ts st"
    and "SNAPSHOT_EVENT_TYPE \<notin> set ts" "0 < ttl" "\<And>e. msg_type e \<in> set ts \<Longrightarrow> handled_by inst e"
  shows "startup_inv f v0 ts st'"
proof -
  have parts: "accounted ts st" "phase_ok ts st" "seen f v0 (map snd (su_calls st)) (su_world st)"
    and none: "su_phase st = Unregistered \<or> su_phase st = Locking \<Longrightarrow> get_last (fst (su_world st)) = None"
    using inv by (simp_all add: startup_inv_def)
  have acc: "accounted ts st' \<and> phase_ok ts st'"
    using none by (intro startup_step_ok [OF step assms(3) parts(1,2)]) (simp add: proj_last)
  have late: "set (su_late st) \<subseteq> {e. msg_type e \<in> set ts}"
  proof
    fix e assume "e \<in> set (su_late st)"
    then have "e \<in># mset (su_early st) + mset (su_late st) + mset (of_types ts (su_inflight st))" by simp
    then have "e \<in> set (of_types ts (events (su_storage st)))" using parts(1) by (simp flip: set_mset_mset add: accounted_def)
    then show "e \<in> {e. msg_type e \<in> set ts}" by (simp add: in_of_types)
  qed
  have replayed: "set (su_replayed st) \<subseteq> {e. msg_type e \<in> set ts}" if "replay_ok ts st"
  proof -
    have "set (su_replayed st) \<subseteq> set (of_types ts (events (su_storage st)))"
      using that set_mset_mono [of "mset (su_replayed st)" "mset (of_types ts (events (su_storage st)))"]
      by (simp add: replay_ok_def)
    then show ?thesis by (auto simp: in_of_types)
  qed
  have projects: "seen f v0 (map snd (su_calls (su_project (proj inst ts f) now e u))) (su_world (su_project (proj inst ts f) now e u))"
    if "su_world u = su_world st" "su_calls u = su_calls st" "msg_type e \<in> set ts" for u now e
    using seen_project [OF parts(3) assms(4) assms(5) [OF that(3)], of ts now] that by simp
  from step show ?thesis
  proof (cases rule: startup_step.cases)
    case (step_commit evs ig)
    then have same: "su_world st' = su_world st" "su_calls st' = su_calls st" "su_phase st' = su_phase st"
      by (simp_all add: su_commit_def split: prod.split sum.split)
    show ?thesis unfolding startup_inv_def same using acc parts(3) none by simp
  next
    case (step_publish e now)
    have phase: "su_phase st' = su_phase st" by (simp add: step_publish(1) su_publish_def Let_def)
    show ?thesis
    proof (cases "msg_type e \<in> set ts \<and> su_phase st = Live")
      case True
      then have st': "st' = su_project (proj inst ts f) now e
          (st\<lparr>su_inflight := remove1 e (su_inflight st), su_late := su_late st @ [e]\<rparr>)"
        by (simp add: step_publish(1) su_publish_def Let_def)
      have "seen f v0 (map snd (su_calls st')) (su_world st')"
        unfolding st' by (rule projects) (use True in simp_all)
      with acc True phase show ?thesis by (simp add: startup_inv_def)
    next
      case False
      then have same: "su_world st' = su_world st" "su_calls st' = su_calls st"
        by (auto simp: step_publish(1) su_publish_def Let_def)
      show ?thesis unfolding startup_inv_def same phase using acc parts(3) none by simp
    qed
  next
    case step_register
    with acc parts(3) none show ?thesis by (simp add: startup_inv_def su_register_def)
  next
    case (step_read now)
    have "su_world st' = su_world st" "su_calls st' = su_calls st" "su_phase st' \<noteq> Unregistered" "su_phase st' \<noteq> Locking"
      by (simp_all add: step_read(1) su_read_def proj_last split: sum.split)
    with acc parts(3) show ?thesis by (simp add: startup_inv_def)
  next
    case (step_replay e es l now)
    have "replay_ok ts st" "mset (map snd (su_calls st)) + mset (e # es) = mset (su_replayed st)"
      using parts(2) step_replay(2) by (simp_all add: phase_ok_def)
    then have "e \<in># mset (su_replayed st)" by (metis list.set_intros(1) set_mset_mset union_iff)
    with replayed [OF \<open>replay_ok ts st\<close>] have "msg_type e \<in> set ts" by auto
    then have "seen f v0 (map snd (su_calls (su_project (proj inst ts f) now e st))) (su_world (su_project (proj inst ts f) now e st))"
      by (intro projects) simp_all
    moreover have "su_phase st' \<noteq> Unregistered" "su_phase st' \<noteq> Locking"
      by (simp_all add: step_replay(1) su_replay_def split: sum.split)
    ultimately show ?thesis using acc by (simp add: startup_inv_def step_replay(1) su_replay_def)
  next
    case (step_finish l now)
    have w: "su_world st' = su_world st \<or> (\<exists>e. su_world st' = snd (on_fst (mark_last e) (su_world st)))"
    proof (cases l)
      case (Some e)
      have "su_world st' = snd (on_fst (mark_last e) (su_world st))"
        by (simp add: step_finish(1) su_finish_def Some view_projection_def locker_ops_def split: prod.split sum.split)
      then show ?thesis by blast
    qed (simp add: step_finish(1) su_finish_def act_return_def view_projection_def)
    have "su_calls st' = su_calls st" "su_phase st' \<noteq> Unregistered" "su_phase st' \<noteq> Locking"
      by (simp_all add: step_finish(1) su_finish_def split: prod.split sum.split)
    with w acc parts(3) seen_mark_last [OF parts(3)] show ?thesis by (auto simp: startup_inv_def)
  next
    case (step_wake e now)
    have "replay_ok ts st" "mset (map snd (su_calls st)) + mset (su_waiting st) = mset (su_replayed st) + mset (su_late st)"
      using parts(2) step_wake(2) by (simp_all add: phase_ok_def)
    then have "e \<in># mset (su_replayed st) + mset (su_late st)" using step_wake(3) by (metis set_mset_mset union_iff)
    with replayed [OF \<open>replay_ok ts st\<close>] late have "msg_type e \<in> set ts" by auto
    then have "seen f v0 (map snd (su_calls st')) (su_world st')"
      unfolding step_wake(1) su_wake_def by (intro projects) simp_all
    with acc step_wake show ?thesis by (simp add: startup_inv_def su_wake_def)
  qed
qed

lemma startup_once:
  assumes run: "startup_run ts (proj inst ts f) (init_startup ts st0 (s0, v0)) st"
    and "SNAPSHOT_EVENT_TYPE \<notin> set ts" "0 < ttl" "\<And>e. msg_type e \<in> set ts \<Longrightarrow> handled_by inst e"
    and "ok s0" "get_last s0 = None" "\<And>e. status s0 e = Unseen"
    and "settled_down ts st"
    and log: "distinct (of_types ts (events (su_storage st)))"
      "\<And>e g. e \<in> set (of_types ts (events (su_storage st))) \<Longrightarrow> g \<in> set (of_types ts (events (su_storage st))) \<Longrightarrow> same e g \<Longrightarrow> e = g"
  shows "\<exists>es. mset es = mset (of_types ts (events (su_storage st))) \<and> snd (su_world st) = fold f es v0"
proof -
  have "startup_inv f v0 ts st"
    using run
  proof (induction rule: startup_run.induct)
    case startup_none
    show ?case using assms(5-7) init_startup_ok [of ts st0 "(s0, v0)"]
      by (simp add: startup_inv_def seen_def) (simp add: init_startup_def)
  next
    case (startup_more u v)
    show ?case by (rule startup_step_inv [OF startup_more(2,3) assms(2-4)])
  qed
  then have parts: "accounted ts st" "phase_ok ts st" "seen f v0 (map snd (su_calls st)) (su_world st)"
    by (simp_all add: startup_inv_def)
  let ?calls = "map snd (su_calls st)" and ?log = "of_types ts (events (su_storage st))"
  have replay: "mset (su_replayed st) \<subseteq># mset ?log"
    using parts(2) assms(8) by (simp add: phase_ok_def replay_ok_def settled_down_def)
  have calls: "mset ?calls = mset ?log + (mset (su_replayed st) - mset (su_early st))"
    by (rule settled_calls [OF parts(1,2) assms(8)])
  have "set_mset (mset (su_replayed st) - mset (su_early st)) \<subseteq> set ?log"
  proof
    fix e assume "e \<in># mset (su_replayed st) - mset (su_early st)"
    then have "e \<in># mset (su_replayed st)" by (rule in_diffD)
    with set_mset_mono [OF replay] show "e \<in> set ?log" by auto
  qed
  then have set: "set ?calls = set ?log"
    using arg_cong [OF calls, of set_mset] by auto
  have sm: "same x y = (x = y)" if "x \<in> set ?calls" "y \<in> set ?calls" for x y
    using log(2) [of x y] that same_refl unfolding set by blast
  have F: "set (first_of same (\<lambda>_. False) ?calls) = set ?calls \<and> distinct (first_of same (\<lambda>_. False) ?calls)"
    by (rule first_of_distinct) (rule sm)
  have "mset (first_of same (\<lambda>_. False) ?calls) = mset ?log"
    using F log(1) set by (simp add: set_eq_iff_mset_eq_distinct [symmetric])
  with parts(3) show ?thesis by (auto simp: seen_def)
qed

end



end
