(* ===== verification/Wiring.thy ===== *)
theory Wiring
  imports CommandHandler SagaHandler EventStore
begin

text \<open>
  How the parts are put together: the constructors of the event store and of the two handlers,
  what they subscribe to, and \<open>src/CqrsContainerBuilder.ts\<close>, whose factories create them. The
  container itself is the package di0: that it calls the registered factories, once each and in
  some order, is written out here as lists of factories. A class is the record of its static
  fields; the handler an instance subscribes with is a value.
\<close>

section \<open>EventStore\<close>

text \<open>The constructor's options; an absent one is \<open>JUndef\<close>.\<close>

record store_options =
  so_eventStorage :: jsval
  so_eventStorageReader :: jsval
  so_identifierProvider :: jsval
  so_snapshotStorage :: jsval
  so_eventBus :: jsval
  so_eventDispatcher :: jsval

record store_fields =
  sf_reader :: jsval
  sf_identifierProvider :: jsval
  sf_snapshotStorage :: jsval
  sf_eventBus :: jsval
  sf_eventDispatcher :: jsval

definition or_else :: "jsval \<Rightarrow> jsval \<Rightarrow> jsval" where
  "or_else v d = (if v = JUndef \<or> v = JNull then d else v)"

text \<open>\<open>new_dispatcher_for\<close> is \<open>new EventDispatcher({ eventBus, ... })\<close>, whose \<open>eventBus\<close> field \<open>bus_of\<close> reads.\<close>

definition new_event_store :: "(jsval \<Rightarrow> jsval result) \<Rightarrow> (jsval \<Rightarrow> jsval) \<Rightarrow> store_options \<Rightarrow> store_fields result" where
  "new_event_store new_dispatcher_for bus_of c =
     (let reader = or_default (so_eventStorage c) (so_eventStorageReader c);
          provider = or_default (if isIdentifierProvider reader then reader else JUndef) (so_identifierProvider c)
      in res_bind (assertDefined reader ''eventStorageReader or eventStorage'') (\<lambda>_.
         res_bind (assertDefined provider ''identifierProvider'') (\<lambda>_.
         res_bind (assertObservable (so_eventBus c) ''eventBus'') (\<lambda>_.
         res_bind (if so_eventDispatcher c = JUndef \<or> so_eventDispatcher c = JNull
             then new_dispatcher_for (so_eventBus c) else Inr (so_eventDispatcher c)) (\<lambda>dispatcher.
           Inr \<lparr>sf_reader = reader, sf_identifierProvider = provider, sf_snapshotStorage = so_snapshotStorage c,
             sf_eventBus = or_else (so_eventBus c) (bus_of dispatcher), sf_eventDispatcher = dispatcher\<rparr>)))))"

text \<open>What the store forwards: ids to the provider, subscriptions to the bus.\<close>

definition store_getNewId :: "('p, ident) act \<Rightarrow> ('p, ident) act" where
  "store_getNewId provider_getNewId = provider_getNewId"

definition store_on :: "string \<Rightarrow> 'h \<Rightarrow> 'h bus \<Rightarrow> 'h bus result" where
  "store_on messageType handler b = on messageType handler b"

definition store_off :: "string \<Rightarrow> 'h \<Rightarrow> 'h bus \<Rightarrow> 'h bus result" where
  "store_off messageType handler b = off messageType handler b"

definition store_queue :: "jsval \<Rightarrow> string \<Rightarrow> 'h bus \<Rightarrow> ('h bus \<times> 'h bus) result" where
  "store_queue eventBus qn b = (if \<not> isObservableQueueProvider eventBus
     then Inl (GenericError ''Injected eventBus does not support named queues'') else Inr (queue qn b))"

text \<open>The bus an accepted event store has is always the one it was given.\<close>

lemma store_bus_given: "new_event_store nd bo c = Inr s \<Longrightarrow> sf_eventBus s = so_eventBus c"
  by (auto simp: new_event_store_def Let_def or_else_def assertObservable_def isObservable_def isObject_def has_method_def
      split: if_splits)

section \<open>The command handler\<close>

record aggregate_type =
  at_class :: aggregate_class
  at_handles :: "string list"
  at_restoresFrom :: "string list option"
  at_retry :: "retry_option option"
  at_state0 :: "props option"

text \<open>
  \<open>aggregateType\<close>, or else \<open>aggregateFactory\<close> with \<open>handles\<close> and \<open>restoresFrom\<close>. No option is
  \<open>undefined\<close> for the resolver. The result is what to subscribe to, and the configuration.
\<close>

definition new_command_handler ::
  "(string \<Rightarrow> int \<Rightarrow> bool) \<Rightarrow> jsval \<Rightarrow> aggregate_type option \<Rightarrow> (aggregate_class \<times> props option) option \<Rightarrow>
   jsval list option \<Rightarrow> string list option \<Rightarrow> retry_option option \<Rightarrow> (string list \<times> handler_cfg) result" where
  "new_command_handler fa eventStore aggregateType aggregateFactory handles restoresFrom retry =
     res_bind (assertDefined eventStore ''eventStore'') (\<lambda>_.
     case aggregateType of
       Some T \<Rightarrow> res_bind (normalizeRetryResolver fa
           (case retry of Some r \<Rightarrow> r | None \<Rightarrow> (case at_retry T of Some r \<Rightarrow> r | None \<Rightarrow> RetryVal JUndef))) (\<lambda>shouldRetry.
         Inr (at_handles T, \<lparr>h_class = at_class T, h_state0 = at_state0 T, h_restoresFrom = at_restoresFrom T,
           h_shouldRetry = shouldRetry\<rparr>))
     | None \<Rightarrow> (case aggregateFactory of
         Some (cls, st0) \<Rightarrow>
           res_bind (assertStringArray (case handles of None \<Rightarrow> JUndef | Some hs \<Rightarrow> JArr hs) ''handles'') (\<lambda>_.
           res_bind (normalizeRetryResolver fa (case retry of Some r \<Rightarrow> r | None \<Rightarrow> RetryVal JUndef)) (\<lambda>shouldRetry.
             Inr (map js_string (case handles of None \<Rightarrow> [] | Some hs \<Rightarrow> hs),
               \<lparr>h_class = cls, h_state0 = st0, h_restoresFrom = restoresFrom, h_shouldRetry = shouldRetry\<rparr>)))
       | None \<Rightarrow> Inl (TypeError ''either aggregateType or aggregateFactory is required'')))"

text \<open>\<open>subscribe(commandBus)\<close>: one new arrow function per type listed.\<close>

primrec handler_subscribe :: "jsval \<Rightarrow> string list \<Rightarrow> (closure bus \<times> nat, unit) act" where
  "handler_subscribe exec [] = act_return ()"
| "handler_subscribe exec (commandType # ts) = act_bind
     (\<lambda>(b, n). case on commandType (Closure n exec) b of
        Inl err \<Rightarrow> (Inl err, b, Suc n) | Inr b' \<Rightarrow> (Inr (), b', Suc n))
     (\<lambda>_. handler_subscribe exec ts)"

text \<open>\<open>AbstractAggregate.register\<close>; \<open>exec\<close> is \<open>execute\<close> of the new handler.\<close>

definition register_aggregate ::
  "(string \<Rightarrow> int \<Rightarrow> bool) \<Rightarrow> jsval \<Rightarrow> aggregate_type \<Rightarrow> jsval \<Rightarrow> (closure bus \<times> nat, handler_cfg) act" where
  "register_aggregate fa eventStore T exec bn =
     (case new_command_handler fa eventStore (Some T) None None None None of
        Inl err \<Rightarrow> (Inl err, bn)
      | Inr (ts, cfg) \<Rightarrow> act_bind (handler_subscribe exec ts) (\<lambda>_. act_return cfg) bn)"

section \<open>The saga event handler\<close>

record saga_type =
  st_class :: saga_class
  st_name :: string
  st_descriptor :: "string option"
  st_startsWith :: "string list option"
  st_handles :: "string list"
  st_state0 :: "props option"

definition descriptor_of :: "saga_type \<Rightarrow> string" where
  "descriptor_of T = (case st_descriptor T of Some d \<Rightarrow> d | None \<Rightarrow> st_name T)"

text \<open>
  The options of the constructor besides \<open>sagaType\<close>: a factory with its types and descriptor,
  and the queue's name.
\<close>

record saga_options =
  op_factory :: "(saga_class \<times> props option) option"
  op_descriptor :: jsval
  op_startsWith :: "string list option"
  op_handles :: "jsval list option"
  op_queueName :: "string option"

definition new_saga_handler ::
  "jsval \<Rightarrow> jsval \<Rightarrow> saga_type option \<Rightarrow> saga_options \<Rightarrow> (saga_cfg \<times> string option) result" where
  "new_saga_handler eventStore commandBus sagaType c =
     res_bind (assertDefined eventStore ''options.eventStore'') (\<lambda>_.
     res_bind (assertDefined commandBus ''options.commandBus'') (\<lambda>_.
     case sagaType of
       Some T \<Rightarrow> Inr (\<lparr>sg_class = st_class T, sg_state0 = st_state0 T, sg_startsWith = st_startsWith T,
           sg_handles = st_handles T, sg_descriptor = descriptor_of T\<rparr>, op_queueName c)
     | None \<Rightarrow> (case op_factory c of
         Some (cls, st0) \<Rightarrow>
           res_bind (assertOptionalArray (case op_handles c of None \<Rightarrow> JUndef | Some hs \<Rightarrow> JArr hs) ''options.handles'') (\<lambda>_.
           res_bind (assertString (op_descriptor c) ''options.sagaDescriptor'') (\<lambda>_.
             Inr (\<lparr>sg_class = cls, sg_state0 = st0, sg_startsWith = op_startsWith c,
               sg_handles = map js_string (case op_handles c of None \<Rightarrow> [] | Some hs \<Rightarrow> hs),
               sg_descriptor = js_string (op_descriptor c)\<rparr>, op_queueName c)))
       | None \<Rightarrow> Inl (GenericError ''Either sagaType or sagaFactory is required''))))"

text \<open>\<open>subscribe(eventStore)\<close>: \<open>handle_fn\<close> is the instance's \<open>handle\<close>.\<close>

definition saga_subscribe :: "jsval \<Rightarrow> saga_cfg \<Rightarrow> string option \<Rightarrow> (closure bus \<times> nat, unit) act" where
  "saga_subscribe handle_fn cfg qn =
     subscribe [] None (Some (map JStr (subscribed_types cfg))) (Some handle_fn) qn True"

section \<open>The builder\<close>

text \<open>What \<open>new CqrsContainerBuilder()\<close> registers, by alias, and what it finds by the shape of an instance.\<close>

definition default_registrations :: "(string \<times> string) list" where
  "default_registrations = [(''commandBus'', ''InMemoryMessageBus''), (''eventBus'', ''InMemoryMessageBus''),
     (''eventStore'', ''EventStore''), (''eventDispatcher'', ''EventDispatcher'')]"

definition default_resolvers :: "(string \<times> (jsval \<Rightarrow> bool)) list" where
  "default_resolvers = [(''identifierProvider'', isIdentifierProvider), (''eventStorageReader'', isEventStorageReader),
     (''eventStorage'', isEventStorageReader), (''snapshotStorage'', isAggregateSnapshotStorage),
     (''executionLocker'', isExecutionLocker)]"

definition default_pipeline :: "(string \<Rightarrow> jsval) \<Rightarrow> jsval list" where
  "default_pipeline c = filter isDispatchPipelineProcessor [c ''eventIdAugmenter'', c ''eventStorage'', c ''snapshotStorage'']"

text \<open>
  \<open>registerAggregate\<close>: the class is checked at once; the factory, called by the container, passes
  the static fields on, the retry option only if there is one.
\<close>

definition command_handler_factory ::
  "(string \<Rightarrow> int \<Rightarrow> bool) \<Rightarrow> jsval \<Rightarrow> aggregate_type \<Rightarrow> jsval \<Rightarrow> (closure bus \<times> nat, handler_cfg) act" where
  "command_handler_factory fa eventStore T exec bn =
     (case new_command_handler fa eventStore None (Some (at_class T, at_state0 T)) (Some (map JStr (at_handles T)))
         (at_restoresFrom T) (at_retry T) of
        Inl err \<Rightarrow> (Inl err, bn)
      | Inr (ts, cfg) \<Rightarrow> act_bind (handler_subscribe exec ts) (\<lambda>_. act_return cfg) bn)"

definition registerAggregate ::
  "(string \<Rightarrow> int \<Rightarrow> bool) \<Rightarrow> jsval \<Rightarrow> jsval \<Rightarrow> aggregate_type \<Rightarrow> jsval \<Rightarrow> (closure bus \<times> nat, handler_cfg) act result" where
  "registerAggregate fa eventStore class_value T exec =
     res_bind (assertClass class_value ''AggregateType'') (\<lambda>_. Inr (command_handler_factory fa eventStore T exec))"

text \<open>\<open>registerSaga\<close>: the queue is named after the class, not after the descriptor.\<close>

definition event_receptor_factory ::
  "jsval \<Rightarrow> jsval \<Rightarrow> saga_type \<Rightarrow> jsval \<Rightarrow> (closure bus \<times> nat, saga_cfg) act" where
  "event_receptor_factory eventStore commandBus T handle_fn bn =
     (case new_saga_handler eventStore commandBus None \<lparr>op_factory = Some (st_class T, st_state0 T),
         op_descriptor = JStr (descriptor_of T), op_startsWith = st_startsWith T,
         op_handles = Some (map JStr (st_handles T)), op_queueName = Some (st_name T)\<rparr> of
        Inl err \<Rightarrow> (Inl err, bn)
      | Inr (cfg, qn) \<Rightarrow> act_bind (saga_subscribe handle_fn cfg qn) (\<lambda>_. act_return cfg) bn)"

definition registerSaga ::
  "jsval \<Rightarrow> jsval \<Rightarrow> jsval \<Rightarrow> saga_type \<Rightarrow> jsval \<Rightarrow> (closure bus \<times> nat, saga_cfg) act result" where
  "registerSaga eventStore commandBus class_value T handle_fn =
     res_bind (assertClass class_value ''SagaType'') (\<lambda>_. Inr (event_receptor_factory eventStore commandBus T handle_fn))"

text \<open>The container calls the factories of the aggregates, each with its own \<open>execute\<close>.\<close>

primrec create_command_handlers ::
  "(string \<Rightarrow> int \<Rightarrow> bool) \<Rightarrow> jsval \<Rightarrow> (aggregate_type \<times> jsval) list \<Rightarrow> (closure bus \<times> nat, unit) act" where
  "create_command_handlers fa eventStore [] = act_return ()"
| "create_command_handlers fa eventStore (Te # Tes) = act_bind (command_handler_factory fa eventStore (fst Te) (snd Te))
     (\<lambda>_. create_command_handlers fa eventStore Tes)"

text \<open>The same for sagas: \<open>registerEventReceptor\<close> subscribes every receptor to the event store's bus.\<close>

primrec create_event_receptors ::
  "jsval \<Rightarrow> jsval \<Rightarrow> (saga_type \<times> jsval) list \<Rightarrow> (closure bus \<times> nat, unit) act" where
  "create_event_receptors eventStore commandBus [] = act_return ()"
| "create_event_receptors eventStore commandBus (Th # Ths) =
     act_bind (event_receptor_factory eventStore commandBus (fst Th) (snd Th)) (\<lambda>_. create_event_receptors eventStore commandBus Ths)"

text \<open>A registration of the container.\<close>

record 'f registered =
  rg_factory :: 'f
  rg_single :: bool
  rg_alias :: "string option"

text \<open>
  Registering a projection. What the container does on behalf of the factory (making an instance,
  subscribing it, starting to restore it, which may give a promise) are operations on a world;
  \<open>restorePromises\<close> is a list if the container has one. What happens while the projection is being
  restored is the subject of \<open>Startup\<close>.
\<close>

record ('w, 'p, 'v) projection_ops =
  po_create :: "('w, 'p) act"
  po_subscribe :: "'p \<Rightarrow> ('w, unit) act"
  po_restore :: "'p \<Rightarrow> ('w, nat option) act"
  po_view :: "'p \<Rightarrow> 'v"

datatype ('p, 'v) exposed = TheProjection 'p | TheView 'v

definition alias_given :: "string option \<Rightarrow> bool" where
  "alias_given a \<longleftrightarrow> a \<noteq> None \<and> a \<noteq> Some []"

definition keep_promise :: "nat option \<Rightarrow> ('w \<times> nat list option, unit) act" where
  "keep_promise r = (\<lambda>(w, ps). (Inr (), w, case r of None \<Rightarrow> ps | Some pr \<Rightarrow> map_option (\<lambda>xs. xs @ [pr]) ps))"

definition on_container :: "('w, 'a) act \<Rightarrow> ('w \<times> nat list option, 'a) act" where
  "on_container f = (\<lambda>(w, ps). case f w of (r, w') \<Rightarrow> (r, w', ps))"

definition projectionFactory ::
  "string option \<Rightarrow> ('w, 'p, 'v) projection_ops \<Rightarrow> ('w \<times> nat list option, ('p, 'v) exposed) act" where
  "projectionFactory exposedViewAlias ops =
     act_bind (on_container (po_create ops)) (\<lambda>pj.
     act_bind (on_container (po_subscribe ops pj)) (\<lambda>_.
     act_bind (on_container (po_restore ops pj)) (\<lambda>restoreResult.
     act_bind (keep_promise restoreResult) (\<lambda>_.
     act_return (if alias_given exposedViewAlias then TheView (po_view ops pj) else TheProjection pj)))))"

text \<open>What is registered: the factory, as a single instance, under the alias if there is one.\<close>

definition registerProjection ::
  "jsval \<Rightarrow> string option \<Rightarrow> (('w, 'p, 'v) projection_ops \<Rightarrow> ('w \<times> nat list option, ('p, 'v) exposed) act) registered result" where
  "registerProjection typeOrFactory exposedViewAlias = res_bind (assertFunction typeOrFactory ''typeOrFactory'') (\<lambda>_.
     Inr \<lparr>rg_factory = projectionFactory exposedViewAlias, rg_single = True,
       rg_alias = (if alias_given exposedViewAlias then exposedViewAlias else None)\<rparr>)"

text \<open>
  Whoever awaits \<open>restorePromises\<close> awaits every restoring that was started: a created projection has
  been subscribed before, and its promise, if any, is in the list.
\<close>

theorem projection_promise_kept:
  assumes "projectionFactory a ops (w, Some ps) = (Inr x, w', ps')"
  shows "\<exists>pj w1 w2 r. po_create ops w = (Inr pj, w1) \<and> po_subscribe ops pj w1 = (Inr (), w2) \<and> po_restore ops pj w2 = (Inr r, w')
    \<and> ps' = Some (ps @ (case r of None \<Rightarrow> [] | Some pr \<Rightarrow> [pr]))
    \<and> x = (if alias_given a then TheView (po_view ops pj) else TheProjection pj)"
proof -
  obtain c w1 where c: "po_create ops w = (c, w1)" by fastforce
  with assms obtain pj where pj: "c = Inr pj"
    by (cases c) (simp_all add: projectionFactory_def on_container_def act_bind_def)
  obtain u w2 where u: "po_subscribe ops pj w1 = (u, w2)" by fastforce
  obtain r w3 where r: "po_restore ops pj w2 = (r, w3)" by fastforce
  from assms c pj u r show ?thesis
    by (cases u; cases r) (auto simp: projectionFactory_def on_container_def act_bind_def act_return_def keep_promise_def split: option.split)
qed

section \<open>Commands reach their handler\<close>

text \<open>Whose \<open>execute\<close> is registered for a type, once for every time a class lists it.\<close>

definition executors :: "(aggregate_type \<times> jsval) list \<Rightarrow> string \<Rightarrow> jsval list" where
  "executors Tes t = concat (map (\<lambda>(T, exec). replicate (count_list (at_handles T) t) exec) Tes)"

definition fresh_from :: "nat \<Rightarrow> closure bus \<Rightarrow> bool" where
  "fresh_from n b \<longleftrightarrow> \<not> uniqueEventHandlers b \<and> (\<forall>t. \<forall>c \<in> set (handlers_for b t). \<exists>k h. c = Closure k h \<and> k < n)"

lemma on_fresh:
  assumes "fresh_from n b" "on t (Closure n exec) b = Inr b'"
  shows "fresh_from (Suc n) b'"
    "map forwards_to (handlers_for b' u) = map forwards_to (handlers_for b u) @ (if u = t then [exec] else [])"
proof -
  have new: "Closure n exec \<notin> set (handlers_for b t)" using assms(1) by (auto simp: fresh_from_def)
  then have b': "b' = with_handlers (AList.update t (handlers_for b t @ [Closure n exec]) (handlers b)) b"
    using assms(2) by (simp add: on_ok_iff set_add_def)
  have hs: "handlers_for b' u = (if u = t then handlers_for b t @ [Closure n exec] else handlers_for b u)" for u
    unfolding b' by (simp add: handlers_for_def)
  show "map forwards_to (handlers_for b' u) = map forwards_to (handlers_for b u) @ (if u = t then [exec] else [])"
    by (simp add: hs)
  have "\<not> uniqueEventHandlers b'" using assms(1) by (simp add: b' fresh_from_def)
  moreover have "\<exists>k h. c = Closure k h \<and> k < Suc n" if "c \<in> set (handlers_for b' u)" for u c
  proof (cases "c = Closure n exec")
    case False
    with that have "c \<in> set (handlers_for b u)" by (auto simp: hs split: if_splits)
    with assms(1) obtain k h where "c = Closure k h" "k < n" unfolding fresh_from_def by blast
    then show ?thesis by (intro exI [of _ k] exI [of _ h]) simp
  qed blast
  ultimately show "fresh_from (Suc n) b'" by (simp add: fresh_from_def)
qed

lemma handler_subscribe_ok:
  "handler_subscribe exec ts (b, n) = (Inr (), b', n') \<Longrightarrow> fresh_from n b \<Longrightarrow>
     fresh_from n' b' \<and> (\<forall>t. map forwards_to (handlers_for b' t)
       = map forwards_to (handlers_for b t) @ replicate (count_list ts t) exec)"
proof (induction ts arbitrary: b n)
  case (Cons t ts)
  from Cons.prems(1) obtain b1 where on: "on t (Closure n exec) b = Inr b1"
    and rest: "handler_subscribe exec ts (b1, Suc n) = (Inr (), b', n')"
    by (auto simp: act_bind_def split: sum.splits)
  note step = on_fresh [OF Cons.prems(2) on]
  from Cons.IH [OF rest step(1)] show ?case by (simp add: step(2))
qed (simp add: act_return_def)

lemma command_handler_factory_ok:
  assumes "command_handler_factory fa eventStore T exec (b, n) = (Inr cfg, b', n')"
  shows "handler_subscribe exec (at_handles T) (b, n) = (Inr (), b', n')"
proof -
  obtain ts cfg' where new: "new_command_handler fa eventStore None (Some (at_class T, at_state0 T))
      (Some (map JStr (at_handles T))) (at_restoresFrom T) (at_retry T) = Inr (ts, cfg')"
    using assms by (auto simp: command_handler_factory_def split: sum.splits prod.splits)
  then have ts: "ts = at_handles T" by (auto simp: new_command_handler_def comp_def)
  obtain r w where m: "handler_subscribe exec ts (b, n) = (r, w)" by (cases "handler_subscribe exec ts (b, n)")
  have "act_bind (handler_subscribe exec ts) (\<lambda>_. act_return cfg') (b, n) = (Inr cfg, b', n')"
    using assms by (simp add: command_handler_factory_def new)
  with m show ?thesis by (cases r) (simp_all add: ts act_return_def)
qed

lemma create_command_handlers_ok:
  "create_command_handlers fa eventStore Tes (b, n) = (Inr (), b', n') \<Longrightarrow> fresh_from n b \<Longrightarrow>
     map forwards_to (handlers_for b' t) = map forwards_to (handlers_for b t) @ executors Tes t"
proof (induction Tes arbitrary: b n)
  case (Cons Te Tes)
  obtain T exec where Te: "Te = (T, exec)" by fastforce
  from Cons.prems(1) obtain cfg w where one: "command_handler_factory fa eventStore T exec (b, n) = (Inr cfg, w)"
    and rest: "create_command_handlers fa eventStore Tes w = (Inr (), b', n')"
    by (auto simp: act_bind_Inr_iff Te)
  obtain b1 n1 where w: "w = (b1, n1)" by fastforce
  from command_handler_factory_ok [OF one [unfolded w]]
  have "handler_subscribe exec (at_handles T) (b, n) = (Inr (), b1, n1)" .
  from handler_subscribe_ok [OF this Cons.prems(2)] have b1: "fresh_from n1 b1"
    "map forwards_to (handlers_for b1 t) = map forwards_to (handlers_for b t) @ replicate (count_list (at_handles T) t) exec"
    by simp_all
  from Cons.IH [OF rest [unfolded w] b1(1)] show ?case by (simp add: b1(2) executors_def Te)
qed (simp add: act_return_def executors_def)

section \<open>Sagas have a queue each\<close>

definition in_queue_has :: "string \<Rightarrow> 'h bus \<Rightarrow> string \<Rightarrow> bool" where
  "in_queue_has qn b t = (case map_of (queues b) qn of None \<Rightarrow> False | Some q \<Rightarrow> map_has (handlers q) t)"

definition queues_unique :: "'h bus \<Rightarrow> bool" where
  "queues_unique b \<longleftrightarrow> (\<forall>qn q. map_of (queues b) qn = Some q \<longrightarrow> uniqueEventHandlers q)"

lemma on_sel:
  "on t h b = Inr b' \<Longrightarrow> uniqueEventHandlers b' = uniqueEventHandlers b \<and> map_has (handlers b') t
     \<and> (uniqueEventHandlers b \<longrightarrow> \<not> map_has (handlers b) t) \<and> (\<forall>u. map_has (handlers b) u \<longrightarrow> map_has (handlers b') u)"
  by (auto simp: on_ok_iff)

lemma queue_sel:
  assumes "queues_unique b" "queue qn b = (q, b1)"
  shows "uniqueEventHandlers q" "queues_unique b1" "in_queue_has qn b t = map_has (handlers q) t"
  using assms by (auto simp: queue_def queues_unique_def in_queue_has_def new_bus_def map_has_def Let_def
      split: option.splits if_splits)

lemma subscribe_one_queue:
  assumes "subscribe_one [] (Some m) (Some qn) True t (b, n) = (Inr (), b', n')" "queues_unique b"
  shows "queues_unique b'" "\<not> in_queue_has qn b t" "in_queue_has qn b' t" "\<forall>u. in_queue_has qn b u \<longrightarrow> in_queue_has qn b' u"
proof -
  obtain q b1 where q: "queue qn b = (q, b1)" by fastforce
  from assms(1) q obtain q' where on: "on t (Closure n m) q = Inr q'" and b': "b' = set_queue qn q' b1"
    by (auto simp: subscribe_one_def split: sum.splits)
  note sel = queue_sel [OF assms(2) q] and o = on_sel [OF on]
  have "in_queue_has qn b' u = map_has (handlers q') u" for u by (simp add: b' in_queue_has_def set_queue_def)
  with sel(3) o sel(1) show "\<not> in_queue_has qn b t" "in_queue_has qn b' t" "\<forall>u. in_queue_has qn b u \<longrightarrow> in_queue_has qn b' u"
    by simp_all
  show "queues_unique b'" using sel(1,2) o by (auto simp: b' queues_unique_def set_queue_def)
qed

lemma subscribe_each_queue:
  "subscribe_each [] (Some m) (Some qn) True ts (b, n) = (Inr (), b', n') \<Longrightarrow> queues_unique b \<Longrightarrow>
     queues_unique b' \<and> (\<forall>t \<in> set ts. in_queue_has qn b' t \<and> \<not> in_queue_has qn b t)
     \<and> (\<forall>u. in_queue_has qn b u \<longrightarrow> in_queue_has qn b' u)"
proof (induction ts arbitrary: b n)
  case (Cons t ts)
  from Cons.prems(1) obtain b1 n1 where one: "subscribe_one [] (Some m) (Some qn) True t (b, n) = (Inr (), b1, n1)"
    and rest: "subscribe_each [] (Some m) (Some qn) True ts (b1, n1) = (Inr (), b', n')"
    by (auto simp: act_bind_Inr_iff)
  note o = subscribe_one_queue [OF one Cons.prems(2)]
  from Cons.IH [OF rest o(1)] o show ?case by auto
qed (simp add: act_return_def)

lemma event_receptor_factory_ok:
  assumes "event_receptor_factory eventStore commandBus T f (b, n) = (Inr cfg, b', n')" "st_name T \<noteq> []"
  shows "sg_descriptor cfg = descriptor_of T" "subscribed_types cfg = (case st_startsWith T of None \<Rightarrow> [] | Some ts \<Rightarrow> ts) @ st_handles T"
    "subscribe_each [] (Some f) (Some (st_name T)) True (unique (subscribed_types cfg)) (b, n) = (Inr (), b', n')"
proof -
  let ?cfg = "\<lparr>sg_class = st_class T, sg_state0 = st_state0 T, sg_startsWith = st_startsWith T,
               sg_handles = st_handles T, sg_descriptor = descriptor_of T\<rparr>"
  obtain cfg' qn where new: "new_saga_handler eventStore commandBus None \<lparr>op_factory = Some (st_class T, st_state0 T),
         op_descriptor = JStr (descriptor_of T), op_startsWith = st_startsWith T,
         op_handles = Some (map JStr (st_handles T)), op_queueName = Some (st_name T)\<rparr> = Inr (cfg', qn)"
    and run: "act_bind (saga_subscribe f cfg' qn) (\<lambda>_. act_return cfg') (b, n) = (Inr cfg, b', n')"
    using assms(1) by (auto simp: event_receptor_factory_def split: sum.splits prod.splits)
  then have cfg': "cfg' = ?cfg" "qn = Some (st_name T)" by (auto simp: new_saga_handler_def comp_def)
  from run obtain u w where sub: "saga_subscribe f cfg' qn (b, n) = (Inr u, w)" and ret: "act_return cfg' w = (Inr cfg, b', n')"
    by (auto simp: act_bind_Inr_iff)
  from ret have eq: "cfg = ?cfg" "w = (b', n')" by (simp_all add: act_return_def cfg')
  show "sg_descriptor cfg = descriptor_of T" "subscribed_types cfg = (case st_startsWith T of None \<Rightarrow> [] | Some ts \<Rightarrow> ts) @ st_handles T"
    by (simp_all add: eq subscribed_types_def)
  have js_string_JStr: "js_string \<circ> JStr = id" by (simp add: fun_eq_iff)
  from sub show "subscribe_each [] (Some f) (Some (st_name T)) True (unique (subscribed_types cfg)) (b, n) = (Inr (), b', n')"
    using assms(2) by (auto simp: saga_subscribe_def subscribe_def act_check_def cfg' eq js_string_JStr split: sum.splits)
qed

section \<open>Properties\<close>

text \<open>
  C21: aggregates registered with the builder on an in-memory command bus: a valid command is
  delivered exactly if, over all the classes, its type is listed once, and then to the handler of
  the class that lists it. A type listed twice, by two classes or by one, is never delivered.
\<close>

theorem command_reaches_its_aggregate:
  assumes "create_command_handlers fa eventStore Tes (new_bus None None, 0) = (Inr (), b, n)" and "message_ok c"
  shows "case send c b of
      Inr h \<Rightarrow> executors Tes (msg_type c) = [forwards_to h]
    | Inl _ \<Rightarrow> length (executors Tes (msg_type c)) \<noteq> 1"
proof -
  have "fresh_from 0 (new_bus None None)" by (simp add: fresh_from_def new_bus_def handlers_for_def)
  from create_command_handlers_ok [OF assms(1) this, of "msg_type c"]
  have ex: "executors Tes (msg_type c) = map forwards_to (handlers_for b (msg_type c))"
    by (simp add: new_bus_def handlers_for_def)
  show ?thesis
  proof (cases "send c b")
    case (Inl err)
    have "length (handlers_for b (msg_type c)) \<noteq> 1"
    proof
      assume "length (handlers_for b (msg_type c)) = 1"
      then obtain h where "handlers_for b (msg_type c) = [h]" by (cases "handlers_for b (msg_type c)") auto
      with assms(2) have "send c b = Inr h" by (simp add: send_iff)
      with Inl show False by simp
    qed
    with Inl ex show ?thesis by simp
  next
    case (Inr h)
    then have "handlers_for b (msg_type c) = [h]" by (simp add: send_iff)
    with ex Inr show ?thesis by simp
  qed
qed

definition demo_aggregate_type :: "string list \<Rightarrow> aggregate_type" where
  "demo_aggregate_type ts = \<lparr>at_class = demo_class, at_handles = ts, at_restoresFrom = None, at_retry = None, at_state0 = None\<rparr>"

lemma command_reaches_its_aggregate_witness:
  "\<exists>b n h. create_command_handlers (\<lambda>_ _. False) (JObj []) [(demo_aggregate_type [''open'', ''close''], JFun ''A'' []),
        (demo_aggregate_type [''close''], JFun ''B'' [])] (new_bus None None, 0) = (Inr (), b, n)
     \<and> send (build_command ''open'' None None) b = Inr h \<and> forwards_to h = JFun ''A'' []"
proof -
  let ?Tes = "[(demo_aggregate_type [''open'', ''close''], JFun ''A'' []), (demo_aggregate_type [''close''], JFun ''B'' [])]"
  obtain b n where bn: "create_command_handlers (\<lambda>_ _. False) (JObj []) ?Tes (new_bus None None, 0) = (Inr (), b, n)"
    by (simp add: command_handler_factory_def new_command_handler_def demo_aggregate_type_def act_bind_def act_return_def
        on_def new_bus_def handlers_for_def with_handlers_def map_has_def set_add_def
        assertDefined_def assertString_def assertStringArray_def normalizeRetryResolver_def isObject_def)
  have "message_ok (build_command ''open'' None None)" by (simp add: message_ok_def build_command_def)
  from command_reaches_its_aggregate [OF bn this] obtain h where
    "send (build_command ''open'' None None) b = Inr h" "forwards_to h = JFun ''A'' []"
    by (auto simp: executors_def demo_aggregate_type_def build_command_def split: sum.splits)
  with bn show ?thesis by blast
qed

text \<open>
  Two sagas whose classes have the same name and a type of events in common cannot both be
  registered: the queue is named after the class, and a queue has one handler per type. Different
  descriptors do not help.
\<close>

theorem sagas_of_one_name_clash:
  assumes "event_receptor_factory eventStore commandBus T f (b, n) = (Inr cfg, b', n')" and "queues_unique b"
    and "st_name T' = st_name T" "st_name T \<noteq> []"
    and "t \<in> set ((case st_startsWith T of None \<Rightarrow> [] | Some ts \<Rightarrow> ts) @ st_handles T)"
      "t \<in> set ((case st_startsWith T' of None \<Rightarrow> [] | Some ts \<Rightarrow> ts) @ st_handles T')"
  shows "\<exists>err. fst (event_receptor_factory eventStore commandBus T' f' (b', n')) = Inl err"
proof (rule ccontr)
  assume no: "\<nexists>err. fst (event_receptor_factory eventStore commandBus T' f' (b', n')) = Inl err"
  obtain r b2 n2 where m: "event_receptor_factory eventStore commandBus T' f' (b', n') = (r, b2, n2)"
    by (metis prod.collapse)
  with no obtain cfg' where r: "r = Inr cfg'" by (cases r) auto
  note first = event_receptor_factory_ok [OF assms(1,4)]
  from subscribe_each_queue [OF first(3) assms(2)] assms(5) have has: "queues_unique b'" "in_queue_has (st_name T) b' t"
    by (simp_all add: first(2) set_unique)
  have "st_name T' \<noteq> []" using assms(3,4) by simp
  note second = event_receptor_factory_ok [OF m [unfolded r] this]
  from subscribe_each_queue [OF second(3) has(1)] assms(6) have "\<not> in_queue_has (st_name T') b' t"
    by (simp add: second(2) set_unique)
  with has(2) assms(3) show False by simp
qed

definition demo_saga_type :: "string \<Rightarrow> saga_type" where
  "demo_saga_type d = \<lparr>st_class = demo_saga_class, st_name = ''S'', st_descriptor = Some d, st_startsWith = None,
     st_handles = [''incremented''], st_state0 = None\<rparr>"

lemma sagas_of_one_name_clash_witness:
  "\<exists>b n err. fst (event_receptor_factory (JObj []) (JObj []) (demo_saga_type ''s1'') (JFun ''f'' []) (new_bus None None, 0)) \<noteq> Inl err
     \<and> event_receptor_factory (JObj []) (JObj []) (demo_saga_type ''s1'') (JFun ''f'' []) (new_bus None None, 0) = (Inr \<lparr>sg_class = demo_saga_class,
         sg_state0 = None, sg_startsWith = None, sg_handles = [''incremented''], sg_descriptor = ''s1''\<rparr>, b, n)
     \<and> fst (event_receptor_factory (JObj []) (JObj []) (demo_saga_type ''s2'') (JFun ''g'' []) (b, n)) = Inl err"
proof -
  let ?cfg = "\<lparr>sg_class = demo_saga_class, sg_state0 = None, sg_startsWith = None, sg_handles = [''incremented''], sg_descriptor = ''s1''\<rparr>"
  obtain b n where bn: "event_receptor_factory (JObj []) (JObj []) (demo_saga_type ''s1'') (JFun ''f'' []) (new_bus None None, 0) = (Inr ?cfg, b, n)"
    by (simp add: event_receptor_factory_def new_saga_handler_def demo_saga_type_def descriptor_of_def saga_subscribe_def
        subscribe_def subscribed_types_def subscribe_one_def act_bind_def act_return_def act_check_def unique_def set_add_def
        on_def queue_def new_bus_def set_queue_def handlers_for_def with_handlers_def map_has_def Let_def
        assertDefined_def assertString_def assertFunction_def assertStringArray_def assertOptionalArray_def)
  have "queues_unique (new_bus None None :: closure bus)" by (simp add: queues_unique_def new_bus_def)
  from sagas_of_one_name_clash [OF bn this, of "demo_saga_type ''s2''" "''incremented''" "JFun ''g'' []"]
  obtain err where "fst (event_receptor_factory (JObj []) (JObj []) (demo_saga_type ''s2'') (JFun ''g'' []) (b, n)) = Inl err"
    by (auto simp: demo_saga_type_def)
  with bn show ?thesis by auto
qed

end
