(* ===== verification/Subscribing.thy ===== *)
theory Subscribing
  imports Projection MessageBus
begin

text \<open>
  A projection at the event store: \<open>subscribe\<close> and the view of \<open>src/AbstractProjection.ts\<close>, over
  \<open>utils/subscribe.ts\<close> and the in-memory bus. The types subscribed to are those a restored view reads.
\<close>

text \<open>The getter makes a view at its first use if none was set; \<open>None\<close> is undefined or null.\<close>

definition projection_view :: "'v \<Rightarrow> ('v option, 'v) act" where
  "projection_view fresh slot = (case slot of Some v \<Rightarrow> (Inr v, slot) | None \<Rightarrow> (Inr fresh, Some fresh))"

definition set_projection_view :: "'v option \<Rightarrow> ('v option, unit) act" where
  "set_projection_view v slot = (Inr (), v)"

lemma projection_view_stable:
  "projection_view fresh slot = (Inr v, slot') \<Longrightarrow> projection_view fresh' slot' = (Inr v, slot')"
  by (auto simp: projection_view_def split: option.splits)

text \<open>\<open>project\<close> is the method that is passed as the master handler.\<close>

definition projection_subscribe :: "'w projection \<Rightarrow> jsval \<Rightarrow> bool \<Rightarrow> (closure bus \<times> nat, unit) act" where
  "projection_subscribe p project_fn provider =
     subscribe (pj_instance p) (map_option (map JStr) (pj_handles p)) None (Some project_fn) None provider"

lemma projection_types:
  "getHandledMessageTypes (map_option (map JStr) (pj_handles p)) (tl (pj_instance p))
    = res_bind (projection_handles p) (\<lambda>ts. Inr (map JStr ts))"
  by (simp add: getHandledMessageTypes_def projection_handles_def split: option.split)

lemma js_string_JStr [simp]: "map js_string (map JStr ts) = ts"
  by (simp add: map_idI)

text \<open>
  A projection that has subscribed gets the events of exactly the types it handles, the same
  that it reads when it is restored, each through one new listener that calls \<open>project\<close>; what was
  subscribed before stays.
\<close>

theorem projection_subscribed:
  assumes "projection_subscribe p project_fn provider (b, n) = (Inr (), b', n')" and "bus_ok b"
  shows "\<exists>ts. projection_handles p = Inr ts \<and> bus_ok b'
    \<and> (\<forall>t. t \<notin> set ts \<longrightarrow> set (handlers_for b' t) = set (handlers_for b t))
    \<and> (\<forall>t \<in> set ts. \<exists>k \<ge> n. set (handlers_for b' t) = insert (Closure k project_fn) (set (handlers_for b t)))"
proof (cases "projection_handles p")
  case (Inl e)
  with assms(1) show ?thesis
    by (auto simp: projection_subscribe_def subscribe_def projection_types act_check_def split: sum.splits)
next
  case (Inr ts)
  with assms(1) have "subscribe_each (pj_instance p) (Some project_fn) None provider (unique ts) (b, n) = (Inr (), b', n')"
    by (auto simp: projection_subscribe_def subscribe_def projection_types act_check_def simp del: map_map split: sum.splits)
  from subscribe_each_plain [OF this assms(2)] show ?thesis using Inr by (simp add: set_unique distinct_unique)
qed

end
