(* ===== verification/Accessor.thy ===== *)
theory Accessor
  imports LockModel Guards
begin

text \<open>
  Opening a database connection on demand (\<open>src/sqlite/AbstractSqliteAccessor.ts\<close>,
  \<open>src/mongodb/AbstractMongoAccessor.ts\<close>, \<open>src/redis/AbstractRedisAccessor.ts\<close>, which are the
  same but for the names): every storage and locker calls \<open>assertConnection\<close> before it touches
  the database, from any number of tasks at once. The factory of the connection and the
  \<open>initialize\<close> of the subclass are not part of these files: they return or fail, at any time.
\<close>

section \<open>State\<close>

text \<open>
  Where a task is inside \<open>assertConnection\<close>: at \<open>acquire\<close>, at the factory, at \<open>initialize\<close>, or
  back with its outcome. Each of these is an \<open>await\<close>, so other tasks may run in between. Inside
  \<open>acquire\<close> the task is where the lock's own model says.
\<close>

datatype caller = Outside | Acquiring | Creating | SettingUp | Returned "unit result"

text \<open>What the factory and \<open>initialize\<close> did, for the statements: neither is part of the code's state.\<close>

datatype 'd db_event = Opened 'd | SetUp 'd

record 'd accessor =
  ac_db :: "'d option"
  ac_has_factory :: bool
  ac_locker :: lock_sys
  ac_initialized :: bool
  ac_callers :: "nat \<Rightarrow> caller"
  ac_log :: "'d db_event list"

definition new_accessor :: "string \<Rightarrow> 'd option \<Rightarrow> bool \<Rightarrow> 'd accessor result" where
  "new_accessor what given factory =
     (if given = None \<and> \<not> factory
      then Inl (TypeError (''either '' @ what @ '' or '' @ what @ ''Factory argument required''))
      else Inr \<lparr>ac_db = given, ac_has_factory = factory, ac_locker = init_lock_sys, ac_initialized = False,
        ac_callers = \<lambda>_. Outside, ac_log = []\<rparr>)"

definition new_sqlite_accessor :: "'d option \<Rightarrow> bool \<Rightarrow> 'd accessor result" where
  "new_sqlite_accessor = new_accessor ''viewModelSqliteDb''"

definition new_mongo_accessor :: "'d option \<Rightarrow> bool \<Rightarrow> 'd accessor result" where
  "new_mongo_accessor = new_accessor ''viewModelMongoDb''"

definition new_redis_accessor :: "'d option \<Rightarrow> bool \<Rightarrow> 'd accessor result" where
  "new_redis_accessor = new_accessor ''viewModelRedis''"

section \<open>assertConnection, from one await to the next\<close>

definition goes_to :: "nat \<Rightarrow> caller \<Rightarrow> 'd accessor \<Rightarrow> 'd accessor" where
  "goes_to t c s = s\<lparr>ac_callers := (ac_callers s)(t := c)\<rparr>"

text \<open>The \<open>finally\<close>: the lock is released, however the call ends.\<close>

definition leaves :: "nat \<Rightarrow> unit result \<Rightarrow> 'd accessor \<Rightarrow> 'd accessor" where
  "leaves t r s = goes_to t (Returned r)
     (s\<lparr>ac_locker := (release None (ac_locker s))\<lparr>tasks := (tasks (ac_locker s))(t := Idle)\<rparr>\<rparr>)"

text \<open>Up to the first await: nothing to do, or \<open>acquire\<close>.\<close>

definition assert_enter :: "nat \<Rightarrow> 'd accessor \<Rightarrow> 'd accessor" where
  "assert_enter t s =
     (if ac_initialized s then goes_to t (Returned (Inr ())) s
      else (case acquire_enter None (ac_locker s) of
        (k, l) \<Rightarrow> goes_to t Acquiring (s\<lparr>ac_locker := l\<lparr>tasks := (tasks l)(t := k)\<rparr>\<rparr>)))"

text \<open>With the lock: another task may have done it all meanwhile.\<close>

definition assert_locked :: "nat \<Rightarrow> 'd accessor \<Rightarrow> 'd accessor" where
  "assert_locked t s =
     (if ac_initialized s then leaves t (Inr ()) s
      else if ac_db s = None then goes_to t Creating s
      else goes_to t SettingUp s)"

text \<open>The factory has answered.\<close>

definition assert_opened :: "nat \<Rightarrow> 'd result \<Rightarrow> 'd accessor \<Rightarrow> 'd accessor" where
  "assert_opened t answer s = (case answer of
       Inl err \<Rightarrow> leaves t (Inl err) s
     | Inr d \<Rightarrow> goes_to t SettingUp (s\<lparr>ac_db := Some d, ac_log := ac_log s @ [Opened d]\<rparr>))"

text \<open>\<open>initialize\<close> has answered.\<close>

definition assert_set_up :: "nat \<Rightarrow> unit result \<Rightarrow> 'd accessor \<Rightarrow> 'd accessor" where
  "assert_set_up t answer s = (case answer of
       Inl err \<Rightarrow> leaves t (Inl err) s
     | Inr _ \<Rightarrow> leaves t (Inr ()) (s\<lparr>ac_initialized := True,
         ac_log := ac_log s @ (case ac_db s of None \<Rightarrow> [] | Some d \<Rightarrow> [SetUp d])\<rparr>))"

text \<open>
  The steps of the event loop. A call that has returned may be followed by another of the same
  task.
\<close>

inductive accessor_step :: "'d accessor \<Rightarrow> 'd accessor \<Rightarrow> bool" where
  step_enter: "ac_callers s t \<in> {Outside} \<union> range Returned \<Longrightarrow> accessor_step s (assert_enter t s)"
| step_woken: "ac_callers s t = Acquiring \<Longrightarrow> lock_step (ac_locker s) (Wake t) l \<Longrightarrow>
     accessor_step s (s\<lparr>ac_locker := l\<rparr>)"
| step_locked: "ac_callers s t = Acquiring \<Longrightarrow> tasks (ac_locker s) t = Holds None \<Longrightarrow>
     accessor_step s (assert_locked t s)"
| step_opened: "ac_callers s t = Creating \<Longrightarrow> accessor_step s (assert_opened t answer s)"
| step_set_up: "ac_callers s t = SettingUp \<Longrightarrow> accessor_step s (assert_set_up t answer s)"

inductive accessor_run :: "'d accessor \<Rightarrow> 'd accessor \<Rightarrow> bool" for s where
  run_none: "accessor_run s s"
| run_more: "accessor_run s u \<Longrightarrow> accessor_step u v \<Longrightarrow> accessor_run s v"

section \<open>The invariant\<close>

text \<open>
  The lock's tasks are the calls: who is at the factory or at \<open>initialize\<close> holds the lock, who
  is outside has nothing to do with it.
\<close>

definition inside :: "caller \<Rightarrow> bool" where
  "inside c \<longleftrightarrow> c = Creating \<or> c = SettingUp"

definition outside :: "caller \<Rightarrow> bool" where
  "outside c \<longleftrightarrow> c = Outside \<or> (\<exists>r. c = Returned r)"

definition only_global :: "task \<Rightarrow> bool" where
  "only_global k \<longleftrightarrow> task_name k \<in> {None, Some None}"

definition calls_inv :: "'d accessor \<Rightarrow> bool" where
  "calls_inv s \<longleftrightarrow> lock_reachable (ac_locker s)
     \<and> (\<forall>t. inside (ac_callers s t) \<longrightarrow> tasks (ac_locker s) t = Holds None)
     \<and> (\<forall>t. outside (ac_callers s t) \<longleftrightarrow> tasks (ac_locker s) t = Idle)
     \<and> (\<forall>t. only_global (tasks (ac_locker s) t))"

fun is_set_up :: "'d db_event \<Rightarrow> bool" where
  "is_set_up (SetUp _) = True"
| "is_set_up (Opened _) = False"

text \<open>What the log can be: the connection opened at most once, and only if none was given, then set up at most once.\<close>

definition openings :: "'d option \<Rightarrow> 'd option \<Rightarrow> bool \<Rightarrow> 'd db_event list" where
  "openings given db initialized =
     (case (given, db) of (None, Some d) \<Rightarrow> [Opened d] | _ \<Rightarrow> []) @
     (case db of Some d \<Rightarrow> if initialized then [SetUp d] else [] | None \<Rightarrow> [])"

definition opened_inv :: "'d option \<Rightarrow> 'd accessor \<Rightarrow> bool" where
  "opened_inv given s \<longleftrightarrow> ac_log s = openings given (ac_db s) (ac_initialized s)
     \<and> (given \<noteq> None \<longrightarrow> ac_db s = given)
     \<and> (ac_initialized s \<longrightarrow> ac_db s \<noteq> None)
     \<and> (\<forall>t. ac_callers s t = Creating \<longrightarrow> ac_db s = None)
     \<and> (\<forall>t. ac_callers s t = SettingUp \<longrightarrow> ac_db s \<noteq> None)
     \<and> (\<forall>t. inside (ac_callers s t) \<longrightarrow> \<not> ac_initialized s)
     \<and> (\<forall>t. ac_callers s t = Returned (Inr ()) \<longrightarrow> ac_initialized s)"

lemma only_global_simps [simp]:
  "only_global Idle" "only_global (AwaitAcquiring n d) \<longleftrightarrow> n = None" "only_global (AwaitLock n d) \<longleftrightarrow> n = None"
  "only_global (Holds n) \<longleftrightarrow> n = None"
  by (simp_all add: only_global_def)

lemma acquire_enter_task:
  "acquire_enter None l = (k, l') \<Longrightarrow> tasks l' = tasks l \<and> k \<noteq> Idle \<and> only_global k"
  using acquire_enter_name [of None l k l'] by (auto simp: only_global_def)

lemma wake_task:
  assumes "lock_step l (Wake t) l'" "\<forall>u. only_global (tasks l u)"
  shows "\<exists>k. tasks l' = (tasks l)(t := k) \<and> k \<noteq> Idle \<and> only_global k \<and> tasks l t \<noteq> Idle \<and> (\<forall>n. tasks l t \<noteq> Holds n)"
  using wake_name [OF assms(1)] assms(2) by (metis only_global_def task_name_None)

lemma leaves_sel [simp]:
  "ac_db (leaves t r s) = ac_db s" "ac_initialized (leaves t r s) = ac_initialized s" "ac_log (leaves t r s) = ac_log s"
  "ac_callers (leaves t r s) = (ac_callers s)(t := Returned r)"
  by (simp_all add: leaves_def goes_to_def)

lemma goes_to_sel [simp]:
  "ac_db (goes_to t c s) = ac_db s" "ac_initialized (goes_to t c s) = ac_initialized s" "ac_log (goes_to t c s) = ac_log s"
  "ac_locker (goes_to t c s) = ac_locker s" "ac_callers (goes_to t c s) = (ac_callers s)(t := c)"
  by (simp_all add: goes_to_def)

lemma leaves_calls:
  assumes "calls_inv s" "tasks (ac_locker s) t = Holds None"
  shows "calls_inv (leaves t r s)"
proof -
  have "lock_reachable ((release None (ac_locker s))\<lparr>tasks := (tasks (ac_locker s))(t := Idle)\<rparr>)"
    using assms by (auto simp: calls_inv_def intro: reach_step lock_step.step_release)
  with assms show ?thesis
    by (simp add: calls_inv_def leaves_def inside_def outside_def)
qed

lemma stays_calls:
  assumes "calls_inv s" "tasks (ac_locker s) t = Holds None" "inside c"
  shows "calls_inv (goes_to t c s)"
  using assms by (auto simp: calls_inv_def inside_def outside_def)

lemma assert_enter_calls:
  assumes "calls_inv s" "outside (ac_callers s t)"
  shows "calls_inv (assert_enter t s)"
proof (cases "ac_initialized s")
  case True
  with assms show ?thesis by (simp add: assert_enter_def calls_inv_def inside_def outside_def)
next
  case False
  obtain k l where kl: "acquire_enter None (ac_locker s) = (k, l)" by fastforce
  note task = acquire_enter_task [OF kl]
  have "tasks (ac_locker s) t = Idle" using assms by (simp add: calls_inv_def)
  then have "lock_step (ac_locker s) (Call t None) (l\<lparr>tasks := (tasks l)(t := k)\<rparr>)"
    using lock_step.step_call [of "ac_locker s" t None k l] kl by (simp add: lock_name_def)
  then have "lock_reachable (l\<lparr>tasks := (tasks l)(t := k)\<rparr>)"
    using assms(1) reach_step by (auto simp: calls_inv_def)
  with assms task kl False show ?thesis
    by (simp add: assert_enter_def calls_inv_def inside_def outside_def)
qed

lemma inside_holds: "calls_inv s \<Longrightarrow> inside (ac_callers s t) \<Longrightarrow> tasks (ac_locker s) t = Holds None"
  by (simp add: calls_inv_def)

lemma step_calls: "accessor_step s s' \<Longrightarrow> calls_inv s \<Longrightarrow> calls_inv s'"
proof (induction rule: accessor_step.induct)
  case (step_enter s t)
  then show ?case by (intro assert_enter_calls) (auto simp: outside_def)
next
  case (step_woken s t l)
  have reach: "lock_reachable l" using step_woken reach_step by (auto simp: calls_inv_def)
  obtain k where k: "tasks l = (tasks (ac_locker s))(t := k)" "k \<noteq> Idle" "only_global k"
    "tasks (ac_locker s) t \<noteq> Idle" "\<forall>n. tasks (ac_locker s) t \<noteq> Holds n"
    using wake_task [OF step_woken(2)] step_woken(3) by (auto simp: calls_inv_def)
  with reach step_woken show ?case by (auto simp: calls_inv_def inside_def outside_def)
next
  case (step_locked s t)
  then show ?case
    by (auto simp: assert_locked_def inside_def intro: leaves_calls stays_calls)
next
  case (step_opened s t answer)
  then have t: "tasks (ac_locker s) t = Holds None" by (intro inside_holds) (simp_all add: inside_def)
  have "calls_inv (s\<lparr>ac_db := d, ac_log := es\<rparr>)" for d es using step_opened(2) by (simp add: calls_inv_def)
  with t step_opened(2) show ?case
    by (auto simp: assert_opened_def inside_def split: sum.splits intro: leaves_calls stays_calls)
next
  case (step_set_up s t answer)
  then have t: "tasks (ac_locker s) t = Holds None" by (intro inside_holds) (simp_all add: inside_def)
  have "calls_inv (s\<lparr>ac_initialized := b, ac_log := es\<rparr>)" for b es using step_set_up(2) by (simp add: calls_inv_def)
  with t step_set_up(2) show ?case
    by (auto simp: assert_set_up_def split: sum.splits intro: leaves_calls)
qed

text \<open>The lock lets one task in: this is where its mutual exclusion is used.\<close>

lemma one_caller:
  "calls_inv s \<Longrightarrow> tasks (ac_locker s) t = Holds None \<Longrightarrow> tasks (ac_locker s) u = Holds None \<Longrightarrow> t = u"
  using one_holder by (auto simp: calls_inv_def)

lemma others_outside:
  assumes "calls_inv s" "inside (ac_callers s t)"
  shows "\<forall>u. u \<noteq> t \<longrightarrow> \<not> inside (ac_callers s u)"
  using one_caller [OF assms(1)] inside_holds [OF assms(1)] assms(2) by blast

lemma step_opened_inv: "accessor_step s s' \<Longrightarrow> calls_inv s \<Longrightarrow> opened_inv given s \<Longrightarrow> opened_inv given s'"
proof (induction rule: accessor_step.induct)
  case (step_enter s t)
  then show ?case by (auto simp: assert_enter_def opened_inv_def inside_def split: prod.splits)
next
  case (step_woken s t l)
  then show ?case by (simp add: opened_inv_def)
next
  case (step_locked s t)
  then show ?case by (auto simp: assert_locked_def opened_inv_def inside_def)
next
  case (step_opened s t answer)
  then have others: "\<forall>u. u \<noteq> t \<longrightarrow> \<not> inside (ac_callers s u)"
    by (intro others_outside [OF step_opened(2)]) (simp add: inside_def)
  have st: "ac_db s = None" "given = None" "\<not> ac_initialized s"
    using step_opened(1,3) by (auto simp: opened_inv_def inside_def)
  show ?case
  proof (cases answer)
    case (Inl err)
    with st others step_opened(3) show ?thesis by (simp add: assert_opened_def opened_inv_def inside_def)
  next
    case (Inr d)
    with st others step_opened(3) show ?thesis
      by (simp add: assert_opened_def opened_inv_def openings_def inside_def)
  qed
next
  case (step_set_up s t answer)
  then have others: "\<forall>u. u \<noteq> t \<longrightarrow> \<not> inside (ac_callers s u)"
    by (intro others_outside [OF step_set_up(2)]) (simp add: inside_def)
  obtain d where st: "ac_db s = Some d" "\<not> ac_initialized s"
    using step_set_up(1,3) by (auto simp: opened_inv_def inside_def)
  show ?case
  proof (cases answer)
    case (Inl err)
    with st others step_set_up(3) show ?thesis by (simp add: assert_set_up_def opened_inv_def inside_def)
  next
    case (Inr u)
    with st others step_set_up(3) show ?thesis
      by (simp add: assert_set_up_def opened_inv_def openings_def inside_def split: option.splits)
  qed
qed

lemma new_accessor_inv:
  assumes "new_accessor what given factory = Inr s"
  shows "calls_inv s" "opened_inv given s"
  using assms reach_init
  by (auto simp: new_accessor_def calls_inv_def opened_inv_def openings_def inside_def outside_def init_lock_sys_def
      lock.defs split: if_splits option.splits)

lemma run_inv: "accessor_run s s' \<Longrightarrow> calls_inv s \<Longrightarrow> opened_inv given s \<Longrightarrow> calls_inv s' \<and> opened_inv given s'"
  by (induction rule: accessor_run.induct) (auto intro: step_calls step_opened_inv)

section \<open>Properties\<close>

definition demo_accessor :: "nat accessor" where
  "demo_accessor = \<lparr>ac_db = None, ac_has_factory = True, ac_locker = init_lock_sys, ac_initialized = False,
     ac_callers = \<lambda>_. Outside, ac_log = []\<rparr>"

lemma demo_accessor_new: "new_sqlite_accessor None True = Inr demo_accessor"
  by (simp add: new_sqlite_accessor_def new_accessor_def demo_accessor_def)

lemma demo_accessor_run:
  "accessor_run demo_accessor (assert_locked 0 (assert_enter 0 demo_accessor))"
  "ac_callers (assert_locked 0 (assert_enter 0 demo_accessor)) 0 = Creating"
proof -
  have "ac_callers (assert_enter 0 demo_accessor) 0 = Acquiring"
    "tasks (ac_locker (assert_enter 0 demo_accessor)) 0 = Holds None"
    by (simp_all add: demo_accessor_def assert_enter_def demo_lock_defs resolve_deferred_def)
  moreover have "accessor_run demo_accessor (assert_enter 0 demo_accessor)"
    by (intro run_more [OF run_none] accessor_step.step_enter) (simp add: demo_accessor_def)
  ultimately show "accessor_run demo_accessor (assert_locked 0 (assert_enter 0 demo_accessor))"
    by (blast intro: run_more accessor_step.step_locked)
  show "ac_callers (assert_locked 0 (assert_enter 0 demo_accessor)) 0 = Creating"
    by (simp add: demo_accessor_def assert_enter_def assert_locked_def demo_lock_defs resolve_deferred_def)
qed

text \<open>
  C19: however many tasks ask an accessor for its connection at once, and whatever the factory and
  \<open>initialize\<close> answer: the connection is opened at most once, and only if none was given; it is set up
  successfully at most once; no two tasks are opening it or setting it up at the same time; and
  no call returns normally before the connection is there and set up.
\<close>

theorem connection_opened_once:
  assumes "new_sqlite_accessor given factory = Inr s0" and "accessor_run s0 s"
  shows "ac_log s \<in> (case given of
        Some d \<Rightarrow> {[], [SetUp d]}
      | None \<Rightarrow> {[]} \<union> (\<Union>d. {[Opened d], [Opened d, SetUp d]}))
    \<and> card {t. inside (ac_callers s t)} \<le> 1
    \<and> (\<forall>t. ac_callers s t = Returned (Inr ()) \<longrightarrow> (\<exists>d. ac_db s = Some d \<and> SetUp d \<in> set (ac_log s)))"
proof -
  have new: "new_accessor ''viewModelSqliteDb'' given factory = Inr s0" using assms(1) by (simp add: new_sqlite_accessor_def)
  from run_inv [OF assms(2) new_accessor_inv [OF new]] have inv: "calls_inv s" "opened_inv given s" by simp_all
  have log: "ac_log s \<in> (case given of Some d \<Rightarrow> {[], [SetUp d]}
      | None \<Rightarrow> {[]} \<union> (\<Union>d. {[Opened d], [Opened d, SetUp d]}))"
    using inv(2) by (auto simp: opened_inv_def openings_def split: option.splits)
  have sub: "{t. inside (ac_callers s t)} \<subseteq> {t}" if "inside (ac_callers s t)" for t
    using one_caller [OF inv(1)] inside_holds [OF inv(1)] that by blast
  have one: "card {t. inside (ac_callers s t)} \<le> 1"
  proof (cases "\<exists>t. inside (ac_callers s t)")
    case True
    then obtain t where "inside (ac_callers s t)" by blast
    from card_mono [OF _ sub [OF this]] show ?thesis by simp
  qed simp
  have "\<exists>d. ac_db s = Some d \<and> SetUp d \<in> set (ac_log s)" if "ac_callers s t = Returned (Inr ())" for t
    using inv(2) that by (auto simp: opened_inv_def openings_def split: option.splits)
  with log one show ?thesis by blast
qed

lemma connection_opened_once_witness:
  "card {t. inside (ac_callers (assert_locked 0 (assert_enter 0 demo_accessor)) t)} = 1"
proof -
  let ?s = "assert_locked 0 (assert_enter 0 demo_accessor)"
  have "card {t. inside (ac_callers ?s t)} \<le> 1"
    using connection_opened_once [OF demo_accessor_new demo_accessor_run(1)] by blast
  moreover have "{t. inside (ac_callers ?s t)} = {0}"
    using demo_accessor_run(2) by (auto simp: demo_accessor_def assert_enter_def assert_locked_def inside_def
        demo_lock_defs resolve_deferred_def split: if_splits)
  ultimately show ?thesis by simp
qed

text \<open>
  While calls are in progress one of them can go on: it is at the factory or at \<open>initialize\<close>, it has
  the lock, or it can be woken.
\<close>

theorem connection_progress:
  assumes "new_sqlite_accessor given factory = Inr s0" and "accessor_run s0 s" and "\<not> outside (ac_callers s t)"
  shows "\<exists>u. inside (ac_callers s u) \<or> ac_callers s u = Acquiring \<and>
    (tasks (ac_locker s) u = Holds None \<or> (\<exists>l. lock_step (ac_locker s) (Wake u) l))"
proof -
  have new: "new_accessor ''viewModelSqliteDb'' given factory = Inr s0" using assms(1) by (simp add: new_sqlite_accessor_def)
  from run_inv [OF assms(2) new_accessor_inv [OF new]] have inv: "calls_inv s" by simp
  then have reach: "lock_reachable (ac_locker s)" and g: "\<And>u. only_global (tasks (ac_locker s) u)"
    by (auto simp: calls_inv_def)
  have holder: ?thesis if "tasks (ac_locker s) u = Holds n" for u n
  proof -
    have "\<not> outside (ac_callers s u)" "n = None" using inv that g [of u] by (auto simp: calls_inv_def)
    with that show ?thesis by (cases "ac_callers s u") (auto simp: inside_def outside_def)
  qed
  have waiter: "ac_callers s u = Acquiring" if "waiting (tasks (ac_locker s) u)" for u
  proof -
    have "\<not> outside (ac_callers s u)" "\<not> inside (ac_callers s u)" using inv that by (auto simp: calls_inv_def waiting_def)
    then show ?thesis by (cases "ac_callers s u") (auto simp: inside_def outside_def)
  qed
  have "tasks (ac_locker s) t \<noteq> Idle" using inv assms(3) by (simp add: calls_inv_def)
  then have "waiting (tasks (ac_locker s) t) \<or> (\<exists>n. tasks (ac_locker s) t = Holds n)"
    by (cases "tasks (ac_locker s) t") (auto simp: waiting_def)
  with holder waiter waiter_or_holder [OF reach, of t] show ?thesis by blast
qed

end
