(* ===== verification/Views.thy ===== *)
theory Views
  imports Projection DbObjectStorage Accessor
begin

text \<open>
  The views that projections on a database work with: a view locker, an event locker and an
  object storage under one name (\<open>src/sqlite/AbstractSqliteView.ts\<close>, \<open>SqliteObjectView.ts\<close>,
  \<open>src/mongodb/AbstractMongoView.ts\<close>, \<open>MongoObjectView.ts\<close>, \<open>src/redis/RedisView.ts\<close>) and the
  projections that make them (\<open>AbstractSqliteObjectProjection.ts\<close>,
  \<open>AbstractMongoObjectProjection.ts\<close>, \<open>AbstractRedisProjection.ts\<close>). What a view is for: its
  readers wait until it is restored.
\<close>

section \<open>The parts of a view\<close>

text \<open>The lockers a view forwards to. \<open>lk_lock\<close> is \<open>None\<close> while it waits.\<close>

record 'db view_lockers =
  lk_lock :: "view_locker \<times> 'db \<Rightarrow> (bool result \<times> view_locker \<times> 'db) option"
  lk_unlock :: "view_locker \<times> 'db \<Rightarrow> view_locker \<times> 'db"
  lk_getLastEvent :: "'db \<Rightarrow> event option"
  lk_tryMarkAsProjecting :: "event \<Rightarrow> ('db, bool) act"
  lk_markAsProjected :: "event \<Rightarrow> ('db, unit) act"
  lk_markAsLastEvent :: "event \<Rightarrow> ('db, unit) act"

record 'k view_storage =
  sto_get :: "ident option \<Rightarrow> 'k table \<Rightarrow> jsval option result"
  sto_create :: "ident option \<Rightarrow> jsval \<Rightarrow> ('k table, unit) act"
  sto_update :: "ident option \<Rightarrow> callback \<Rightarrow> ('k table, unit) act"
  sto_updateEnforcingNew :: "ident option \<Rightarrow> callback \<Rightarrow> ('k table, unit) act"
  sto_delete :: "ident option \<Rightarrow> ('k table, bool) act"

text \<open>What a process has around it: its waiting and sleeping, and the clock.\<close>

record 'db surroundings =
  sr_env :: "nat \<Rightarrow> 'db \<Rightarrow> 'db"
  sr_clock :: "nat \<Rightarrow> int"
  sr_fuel :: nat
  sr_now :: int
  sr_digest :: "event \<Rightarrow> string"
  sr_dates :: "int \<Rightarrow> string"
  sr_uuid :: string

definition sqlite_view_lockers :: "locker_cfg \<Rightarrow> locker_cfg \<Rightarrow> sqlite_db surroundings \<Rightarrow> sqlite_db view_lockers" where
  "sqlite_view_lockers vc ec sr = \<lparr>lk_lock = sqlite_lock vc (sr_env sr) (sr_clock sr) (sr_fuel sr), lk_unlock = sqlite_unlock vc,
     lk_getLastEvent = sqlite_getLastEvent ec, lk_tryMarkAsProjecting = sqlite_tryMarkAsProjecting ec (sr_digest sr) (sr_now sr),
     lk_markAsProjected = sqlite_markAsProjected ec (sr_digest sr) (sr_now sr),
     lk_markAsLastEvent = sqlite_markAsLastEvent ec (sr_dates sr)\<rparr>"

definition mongo_view_lockers :: "locker_cfg \<Rightarrow> locker_cfg \<Rightarrow> mongo_db surroundings \<Rightarrow> mongo_db view_lockers" where
  "mongo_view_lockers vc ec sr = \<lparr>lk_lock = mongo_lock vc (sr_uuid sr) (sr_env sr) (sr_clock sr) (sr_fuel sr), lk_unlock = mongo_unlock vc,
     lk_getLastEvent = mongo_getLastEvent ec, lk_tryMarkAsProjecting = mongo_tryMarkAsProjecting ec (sr_digest sr) (sr_env sr 0) (sr_now sr),
     lk_markAsProjected = mongo_markAsProjected ec (sr_digest sr) (sr_now sr),
     lk_markAsLastEvent = mongo_markAsLastEvent ec (sr_dates sr)\<rparr>"

definition redis_view_lockers :: "locker_cfg \<Rightarrow> locker_cfg \<Rightarrow> redis_db surroundings \<Rightarrow> redis_db view_lockers" where
  "redis_view_lockers vc ec sr = \<lparr>lk_lock = redis_lock vc (sr_uuid sr) (sr_env sr) (sr_clock sr) (sr_fuel sr), lk_unlock = redis_unlock vc (sr_now sr),
     lk_getLastEvent = redis_getLastEvent ec, lk_tryMarkAsProjecting = redis_tryMarkAsProjecting ec (sr_digest sr) (sr_now sr),
     lk_markAsProjected = redis_markAsProjected ec (sr_digest sr) (sr_now sr),
     lk_markAsLastEvent = redis_markAsLastEvent ec (sr_dates sr)\<rparr>"

definition sqlite_view_storage :: "(int \<Rightarrow> string) \<Rightarrow> (nat list table \<Rightarrow> nat list table) \<Rightarrow> nat list view_storage" where
  "sqlite_view_storage dt env = \<lparr>sto_get = sqlite_get, sto_create = sqlite_create dt, sto_update = sqlite_update dt env,
     sto_updateEnforcingNew = sqlite_updateEnforcingNew dt env, sto_delete = sqlite_delete\<rparr>"

text \<open>The storages of these views are made without \<open>maxRetries\<close>, which is then 100.\<close>

definition mongo_view_storage :: "(jsval \<Rightarrow> jsval) \<Rightarrow> (nat \<Rightarrow> string table \<Rightarrow> string table) \<Rightarrow> string view_storage" where
  "mongo_view_storage bson env = \<lparr>sto_get = mongo_get, sto_create = mongo_create bson, sto_update = mongo_update bson env 100,
     sto_updateEnforcingNew = mongo_updateEnforcingNew bson env 100, sto_delete = mongo_delete\<rparr>"

definition redis_view_storage :: "(int \<Rightarrow> string) \<Rightarrow> (nat \<Rightarrow> string table \<Rightarrow> string table) \<Rightarrow> string \<Rightarrow> string view_storage" where
  "redis_view_storage dt env tn = \<lparr>sto_get = redis_get tn, sto_create = redis_create dt tn, sto_update = redis_update dt env tn 100,
     sto_updateEnforcingNew = redis_updateEnforcingNew dt env tn 100, sto_delete = redis_delete tn\<rparr>"

section \<open>Constructors\<close>

text \<open>The options as JavaScript values; a time to live that is absent is \<open>None\<close>.\<close>

record view_options =
  vo_tableNamePrefix :: jsval
  vo_projectionName :: jsval
  vo_schemaVersion :: jsval
  vo_viewLockTtl :: "int option"
  vo_eventLockTtl :: "int option"
  vo_keyPrefix :: "string option"

text \<open>What the constructor sets up: the configurations of the two lockers, and the table's name.\<close>

record view_parts =
  vp_viewLocker :: locker_cfg
  vp_eventLocker :: locker_cfg
  vp_tableName :: string

fun js_text :: "jsval \<Rightarrow> string" where
  "js_text (JStr s) = s"
| "js_text _ = []"

definition table_name :: "view_options \<Rightarrow> string" where
  "table_name c = js_text (vo_tableNamePrefix c) @ ''_'' @ js_text (vo_schemaVersion c)"

definition new_sqlite_object_view :: "'d option \<Rightarrow> bool \<Rightarrow> view_options \<Rightarrow> view_parts result" where
  "new_sqlite_object_view db dbFactory c =
     res_bind (assertString (vo_tableNamePrefix c) ''options.tableNamePrefix'') (\<lambda>_.
     res_bind (assertString (vo_schemaVersion c) ''options.schemaVersion'') (\<lambda>_.
     res_bind (new_sqlite_accessor db dbFactory) (\<lambda>_.
     res_bind (new_sqlite_view_locker (vo_projectionName c) (vo_schemaVersion c) (vo_viewLockTtl c)) (\<lambda>(vc, _).
     res_bind (new_sqlite_event_locker (vo_projectionName c) (vo_schemaVersion c) (vo_eventLockTtl c)) (\<lambda>ec.
       Inr \<lparr>vp_viewLocker = vc, vp_eventLocker = ec, vp_tableName = table_name c\<rparr>)))))"

definition new_mongo_object_view :: "'d option \<Rightarrow> bool \<Rightarrow> view_options \<Rightarrow> view_parts result" where
  "new_mongo_object_view db dbFactory c =
     res_bind (assertString (vo_tableNamePrefix c) ''tableNamePrefix'') (\<lambda>_.
     res_bind (assertString (vo_schemaVersion c) ''schemaVersion'') (\<lambda>_.
     res_bind (assertString (vo_projectionName c) ''projectionName'') (\<lambda>_.
     res_bind (assertString (vo_schemaVersion c) ''schemaVersion'') (\<lambda>_.
     res_bind (new_mongo_accessor db dbFactory) (\<lambda>_.
     res_bind (new_mongo_view_locker (vo_projectionName c) (vo_schemaVersion c) (vo_viewLockTtl c)) (\<lambda>(vc, _).
     res_bind (new_mongo_event_locker (vo_projectionName c) (vo_schemaVersion c)
         (case vo_eventLockTtl c of None \<Rightarrow> JUndef | Some t \<Rightarrow> JNum t)) (\<lambda>ec.
     res_bind (assertString (JStr (table_name c)) ''tableName'') (\<lambda>_.
       Inr \<lparr>vp_viewLocker = vc, vp_eventLocker = ec, vp_tableName = table_name c\<rparr>))))))))"

definition new_redis_view :: "'d option \<Rightarrow> bool \<Rightarrow> view_options \<Rightarrow> view_parts result" where
  "new_redis_view db dbFactory c =
     res_bind (assertString (vo_tableNamePrefix c) ''options.tableNamePrefix'') (\<lambda>_.
     res_bind (assertString (vo_schemaVersion c) ''options.schemaVersion'') (\<lambda>_.
     res_bind (new_redis_accessor db dbFactory) (\<lambda>_.
     res_bind (new_redis_view_locker (vo_projectionName c) (vo_schemaVersion c) (vo_viewLockTtl c) (vo_keyPrefix c)) (\<lambda>(vc, _).
     res_bind (new_redis_event_locker (vo_projectionName c) (vo_schemaVersion c) (vo_eventLockTtl c) (vo_keyPrefix c)) (\<lambda>ec.
     res_bind (assertString (JStr (table_name c)) ''o.tableName'') (\<lambda>_.
       Inr \<lparr>vp_viewLocker = vc, vp_eventLocker = ec, vp_tableName = table_name c\<rparr>))))))"

text \<open>
  The projections: the view is named after the class, its table and version are static members
  that throw where they are not overridden.
\<close>

definition abstract_tableName :: "jsval result" where
  "abstract_tableName = Inl (GenericError ''tableName is not defined'')"

definition abstract_schemaVersion :: "jsval result" where
  "abstract_schemaVersion = Inl (GenericError ''schemaVersion is not defined'')"

definition projection_view_options :: "jsval result \<Rightarrow> jsval result \<Rightarrow> string \<Rightarrow> view_options result" where
  "projection_view_options tableName version class_name =
     res_bind version (\<lambda>sv. res_bind tableName (\<lambda>tn. Inr \<lparr>vo_tableNamePrefix = tn,
       vo_projectionName = JStr class_name, vo_schemaVersion = sv, vo_viewLockTtl = None, vo_eventLockTtl = None,
       vo_keyPrefix = None\<rparr>))"

definition new_sqlite_object_projection :: "'d option \<Rightarrow> bool \<Rightarrow> jsval result \<Rightarrow> jsval result \<Rightarrow> string \<Rightarrow> view_parts result" where
  "new_sqlite_object_projection db dbFactory tableName version class_name =
     res_bind (projection_view_options tableName version class_name) (new_sqlite_object_view db dbFactory)"

definition new_mongo_object_projection :: "'d option \<Rightarrow> bool \<Rightarrow> jsval result \<Rightarrow> jsval result \<Rightarrow> string \<Rightarrow> view_parts result" where
  "new_mongo_object_projection db dbFactory tableName version class_name =
     res_bind (projection_view_options tableName version class_name) (new_mongo_object_view db dbFactory)"

definition new_redis_projection :: "'d option \<Rightarrow> bool \<Rightarrow> jsval result \<Rightarrow> jsval result \<Rightarrow> string \<Rightarrow> view_parts result" where
  "new_redis_projection db dbFactory tableName version class_name =
     res_bind (projection_view_options tableName version class_name) (new_redis_view db dbFactory)"

section \<open>The view\<close>

record ('db, 'k) object_view =
  ov_lockers :: "'db view_lockers"
  ov_storage :: "'k view_storage"

record ('db, 'k) view_state =
  vs_locker :: view_locker
  vs_db :: 'db
  vs_table :: "'k table"

text \<open>Acting on the lockers' tables, and on the view's own.\<close>

definition on_locker_db :: "('db, 'a) act \<Rightarrow> (('db, 'k) view_state, 'a) act" where
  "on_locker_db m s = (case m (vs_db s) of (r, db) \<Rightarrow> (r, s\<lparr>vs_db := db\<rparr>))"

definition on_table :: "('k table, 'a) act \<Rightarrow> (('db, 'k) view_state, 'a) act" where
  "on_table m s = (case m (vs_table s) of (r, t) \<Rightarrow> (r, s\<lparr>vs_table := t\<rparr>))"

definition ov_ready :: "('db, 'k) view_state \<Rightarrow> bool" where
  "ov_ready s = view_ready (vs_locker s)"

definition ov_lock :: "('db, 'k) object_view \<Rightarrow> ('db, 'k) view_state \<Rightarrow> (bool result \<times> ('db, 'k) view_state) option" where
  "ov_lock v s = map_option (\<lambda>(r, l, db). (r, s\<lparr>vs_locker := l, vs_db := db\<rparr>)) (lk_lock (ov_lockers v) (vs_locker s, vs_db s))"

definition ov_unlock :: "('db, 'k) object_view \<Rightarrow> (('db, 'k) view_state, unit) act" where
  "ov_unlock v s = (case lk_unlock (ov_lockers v) (vs_locker s, vs_db s) of (l, db) \<Rightarrow> (Inr (), s\<lparr>vs_locker := l, vs_db := db\<rparr>))"

definition ov_once :: "string \<Rightarrow> ('db, 'k) view_state \<Rightarrow> bool result" where
  "ov_once ev s = view_once ev (vs_locker s)"

text \<open>\<open>get\<close> waits until the view is ready (\<open>None\<close>); \<open>getSync\<close> of the SQLite view does not.\<close>

definition ov_get :: "('db, 'k) object_view \<Rightarrow> ident option \<Rightarrow> ('db, 'k) view_state \<Rightarrow> jsval option result option" where
  "ov_get v i s = (if \<not> ov_ready s then None else Some (sto_get (ov_storage v) i (vs_table s)))"

definition ov_getSync :: "('db, 'k) object_view \<Rightarrow> ident option \<Rightarrow> ('db, 'k) view_state \<Rightarrow> jsval option result" where
  "ov_getSync v i s = sto_get (ov_storage v) i (vs_table s)"

definition ov_create :: "('db, 'k) object_view \<Rightarrow> ident option \<Rightarrow> jsval \<Rightarrow> (('db, 'k) view_state, unit) act" where
  "ov_create v i x = on_table (sto_create (ov_storage v) i x)"

definition ov_update :: "('db, 'k) object_view \<Rightarrow> ident option \<Rightarrow> callback \<Rightarrow> (('db, 'k) view_state, unit) act" where
  "ov_update v i f = on_table (sto_update (ov_storage v) i f)"

definition ov_updateEnforcingNew :: "('db, 'k) object_view \<Rightarrow> ident option \<Rightarrow> callback \<Rightarrow> (('db, 'k) view_state, unit) act" where
  "ov_updateEnforcingNew v i f = on_table (sto_updateEnforcingNew (ov_storage v) i f)"

definition ov_delete :: "('db, 'k) object_view \<Rightarrow> ident option \<Rightarrow> (('db, 'k) view_state, bool) act" where
  "ov_delete v i = on_table (sto_delete (ov_storage v) i)"

text \<open>The view as the two lockers of a projection.\<close>

definition as_event_locker :: "('db, 'k) object_view \<Rightarrow> ('db, 'k) view_state event_locker_ops" where
  "as_event_locker v = \<lparr>el_try = \<lambda>e. on_locker_db (lk_tryMarkAsProjecting (ov_lockers v) e),
     el_mark = \<lambda>e. on_locker_db (lk_markAsProjected (ov_lockers v) e),
     el_mark_last = \<lambda>e. on_locker_db (lk_markAsLastEvent (ov_lockers v) e),
     el_get_last = \<lambda>s. (Inr (lk_getLastEvent (ov_lockers v) (vs_db s)), s)\<rparr>"

definition as_view_locker :: "('db, 'k) object_view \<Rightarrow> ('db, 'k) view_state view_locker_ops" where
  "as_view_locker v = \<lparr>vw_ready = ov_ready, vw_lock = ov_lock v, vw_unlock = ov_unlock v\<rparr>"


section \<open>Readers wait\<close>

text \<open>What a view needs of its view locker: the marker is set by \<open>lock\<close>, whatever it answers, and cleared by \<open>unlock\<close>.\<close>

locale restoring_view =
  fixes v :: "('db, 'k) object_view"
  assumes lock_marks: "lk_lock (ov_lockers v) (l, db) = Some (r, l', db') \<Longrightarrow> vl_marker l'"
    and unlock_clears: "lk_unlock (ov_lockers v) (l, db) = (l', db') \<Longrightarrow> \<not> vl_marker l'"
begin

text \<open>A projection whose lockers are the view; its handlers act on the view's table.\<close>

definition projects_into :: "('db, 'k) view_state projection \<Rightarrow> bool" where
  "projects_into p \<longleftrightarrow> pj_view_locker p = Some (as_view_locker v) \<and> pj_event_locker p = Some (as_event_locker v)
     \<and> (\<forall>h e s. vs_locker (snd (pj_call p h e s)) = vs_locker s)"

lemma projects_into_keeps: "projects_into p \<Longrightarrow> keeps vs_locker p"
  by (simp add: projects_into_def keeps_def as_event_locker_def on_locker_db_def split: prod.split)

lemma waits_meanwhile:
  assumes "projects_into p" "ov_lock v s = Some (r, s1)"
  shows "ov_get v i (snd (restore_each p es le s1)) = None"
proof -
  have "vl_marker (vs_locker s1)" using assms(2) lock_marks by (auto simp: ov_lock_def)
  then show ?thesis
    by (simp add: ov_get_def ov_ready_def view_ready_def keeps_restore_each [OF projects_into_keeps [OF assms(1)]])
qed

lemma waits_unless_restored:
  assumes "projects_into p" "restore p reader s = Some (r, s')"
  shows "ov_get v i s' = (case r of Inl _ \<Rightarrow> None | Inr _ \<Rightarrow> Some (ov_getSync v i s'))"
proof -
  have vl: "pj_view_locker p = Some (as_view_locker v)" using assms(1) by (simp add: projects_into_def)
  from assms(2) obtain r1 s1 where lock: "ov_lock v s = Some (r1, s1)"
    by (cases "ov_lock v s") (auto simp: restore_def vl as_view_locker_def)
  then have m1: "vl_marker (vs_locker s1)" using lock_marks by (auto simp: ov_lock_def)
  show ?thesis
  proof (cases r1)
    case (Inl err)
    with assms(2) lock have "r = Inl err" "s' = s1" by (simp_all add: restore_def vl as_view_locker_def)
    with m1 show ?thesis by (simp add: ov_get_def ov_ready_def view_ready_def)
  next
    case (Inr b)
    obtain r2 s2 where m: "restore_view p reader s1 = (r2, s2)" by fastforce
    with keeps_restore_view [OF projects_into_keeps [OF assms(1)], of reader s1] m1 have m2: "vl_marker (vs_locker s2)" by simp
    show ?thesis
    proof (cases r2)
      case (Inl err)
      with assms(2) lock Inr m have "r = Inl err" "s' = s2" by (simp_all add: restore_def vl as_view_locker_def)
      with m2 show ?thesis by (simp add: ov_get_def ov_ready_def view_ready_def)
    next
      case (Inr u)
      with assms(2) lock \<open>r1 = Inr b\<close> m have s': "r = Inr ()" "s' = snd (ov_unlock v s2)"
        by (simp_all add: restore_def vl as_view_locker_def)
      obtain l db where un: "lk_unlock (ov_lockers v) (vs_locker s2, vs_db s2) = (l, db)" by fastforce
      with unlock_clears have "\<not> vl_marker l" by blast
      with s' un show ?thesis by (simp add: ov_get_def ov_getSync_def ov_ready_def view_ready_def ov_unlock_def)
    qed
  qed
qed

end

lemma view_lock_lock_marks:
  assumes "view_lock_lock claim uuid env clock fuel (l, db) = Some (r, l', db')"
  shows "vl_marker l'"
proof -
  obtain q db1 where "lock_loop (claim uuid) env clock 0 fuel db = Some (q, db1)"
    using assms by (auto simp: view_lock_lock_def Let_def)
  with assms show ?thesis
    by (cases q) (auto simp: view_lock_lock_def lock_enter_def scheduleLockProlongation_def Let_def)
qed

lemma sqlite_lock_marks:
  assumes "sqlite_lock c env clock fuel (l, db) = Some (r, l', db')"
  shows "vl_marker l'"
proof -
  obtain q db1 where "lock_loop (sqlite_lock_attempt c) env clock 0 fuel db = Some (q, db1)"
    using assms by (auto simp: sqlite_lock_def Let_def)
  with assms show ?thesis
    by (cases q) (auto simp: sqlite_lock_def lock_enter_def scheduleLockProlongation_def Let_def)
qed

interpretation sqlite_ov: restoring_view "\<lparr>ov_lockers = sqlite_view_lockers vc ec sr, ov_storage = sto\<rparr>" for vc ec sr sto
  by unfold_locales (auto simp: sqlite_view_lockers_def sqlite_unlock_def cancelLockProlongation_def intro: sqlite_lock_marks)

interpretation mongo_ov: restoring_view "\<lparr>ov_lockers = mongo_view_lockers vc ec sr, ov_storage = sto\<rparr>" for vc ec sr sto
  by unfold_locales (auto simp: mongo_view_lockers_def mongo_lock_def mongo_unlock_def cancelLockProlongation_def
      intro: view_lock_lock_marks)

interpretation redis_ov: restoring_view "\<lparr>ov_lockers = redis_view_lockers vc ec sr, ov_storage = sto\<rparr>" for vc ec sr sto
  by unfold_locales (auto simp: redis_view_lockers_def redis_lock_def redis_unlock_def cancelLockProlongation_def
      intro: view_lock_lock_marks)

section \<open>Properties\<close>

text \<open>
  C20: a projection into a SQLite object view: from the moment it has the lock, and after any
  number of events restored, \<open>get\<close> waits. When \<open>restore\<close> returns normally \<open>get\<close> answers with what
  the table holds; after a restore that failed, it waits for ever.
\<close>

theorem sqlite_view_readers_wait:
  assumes "v = \<lparr>ov_lockers = sqlite_view_lockers vc ec sr, ov_storage = sqlite_view_storage dt env\<rparr>"
    and "pj_view_locker p = Some (as_view_locker v)" "pj_event_locker p = Some (as_event_locker v)"
    and "\<And>h e s. vs_locker (snd (pj_call p h e s)) = vs_locker s"
    and "restore p reader s = Some (r, s')"
  shows "(\<forall>b s1 es l. ov_lock v s = Some (b, s1) \<longrightarrow> ov_get v i (snd (restore_each p es l s1)) = None)
    \<and> ov_get v i s' = (case r of Inl _ \<Rightarrow> None | Inr _ \<Rightarrow> Some (sqlite_get i (vs_table s')))"
proof -
  have into: "sqlite_ov.projects_into vc ec sr (sqlite_view_storage dt env) p"
    using assms(1-4) by (simp add: sqlite_ov.projects_into_def)
  have sync: "ov_getSync v i s' = sqlite_get i (vs_table s')"
    by (simp add: ov_getSync_def assms(1) sqlite_view_storage_def)
  have meanwhile: "ov_get v i (snd (restore_each p es l s1)) = None" if "ov_lock v s = Some (b, s1)" for b s1 es l
    using sqlite_ov.waits_meanwhile [OF into] that by (simp add: assms(1))
  have "ov_get v i s' = (case r of Inl _ \<Rightarrow> None | Inr _ \<Rightarrow> Some (ov_getSync v i s'))"
    using sqlite_ov.waits_unless_restored [OF into assms(5), of i] by (simp only: assms(1))
  with sync meanwhile show ?thesis by (cases r) auto
qed

definition demo_view :: "(sqlite_db, nat list) object_view" where
  "demo_view = \<lparr>ov_lockers = sqlite_view_lockers demo_cfg demo_cfg \<lparr>sr_env = \<lambda>_ db. db, sr_clock = int, sr_fuel = 1,
       sr_now = 0, sr_digest = \<lambda>_. ''d'', sr_dates = \<lambda>_. [], sr_uuid = ''u''\<rparr>,
     ov_storage = sqlite_view_storage (\<lambda>_. []) id\<rparr>"

definition demo_view_projection :: "(sqlite_db, nat list) view_state projection" where
  "demo_view_projection = \<lparr>pj_instance = demo_chain, pj_handles = Some [''incremented''],
     pj_call = \<lambda>h e. ov_create demo_view (aggregateId e) (JNum 1), pj_view_locker = Some (as_view_locker demo_view),
     pj_event_locker = Some (as_event_locker demo_view), pj_records = default_records, pj_on_error = onRestoringError\<rparr>"

lemma sqlite_view_readers_wait_witness:
  "\<exists>s'. restore demo_view_projection (\<lambda>_ _. Inr [demo_event ''incremented'' ''0a'' 0 ''0b''])
       \<lparr>vs_locker = new_view_locker, vs_db = \<lparr>event_rows = [], view_rows = []\<rparr>, vs_table = []\<rparr> = Some (Inr (), s')
     \<and> ov_get demo_view (Some (IdStr ''0a'')) s' = Some (Inr (Some (JNum 1)))"
proof -
  let ?p = demo_view_projection and ?e = "demo_event ''incremented'' ''0a'' 0 ''0b''" and ?reader = "\<lambda>_ _. Inr [demo_event ''incremented'' ''0a'' 0 ''0b'']"
  let ?s = "\<lparr>vs_locker = new_view_locker, vs_db = \<lparr>event_rows = [], view_rows = []\<rparr>, vs_table = []\<rparr>"
  let ?s1 = "\<lparr>vs_locker = \<lparr>vl_marker = True, vl_token = None, vl_timer = True\<rparr>,
     vs_db = \<lparr>event_rows = [], view_rows = [((''p'', ''1''), Some 10, None)]\<rparr>, vs_table = []\<rparr>"
  note cfg = demo_cfg_def
  have p: "pj_instance ?p = demo_chain" "projection_handles ?p = Inr [''incremented'']"
    "pj_view_locker ?p = Some (as_view_locker demo_view)" "pj_event_locker ?p = Some (as_event_locker demo_view)"
    "pj_call ?p = (\<lambda>h e. ov_create demo_view (aggregateId e) (JNum 1))" "pj_records ?p = default_records"
    by (simp_all add: demo_view_projection_def projection_handles_def)
  have lock: "ov_lock demo_view ?s = Some (Inr True, ?s1)"
    by (simp add: ov_lock_def demo_view_def sqlite_view_lockers_def sqlite_lock_def sqlite_lock_attempt_def
        upsertTableLockQuery_def cfg new_view_locker_def lock_enter_def scheduleLockProlongation_def)
  have "\<exists>s2. project_event ?p ?e ?s1 = (Inr (), s2) \<and> vs_table s2 = [(guid (IdStr ''0a''), JNum 1, 1)]"
    by (simp add: project_event_def p as_event_locker_def on_locker_db_def demo_view_def sqlite_view_lockers_def
        sqlite_locker_defs sqlite_event_key_def cfg act_bind_def act_return_def ov_create_def on_table_def
        sqlite_view_storage_def sqlite_create_def sqlite_createSync_def insertQuery_def assert_id_defined_def
        default_records_def map_has_def)
  then obtain s2 where s2: "project_event ?p ?e ?s1 = (Inr (), s2)" "vs_table s2 = [(guid (IdStr ''0a''), JNum 1, 1)]" by blast
  have each: "restore_each ?p [?e] None ?s1 = (Inr (Some ?e), s2)" using s2(1) by simp
  have "\<exists>s3. restore_view ?p ?reader ?s1 = (Inr (), s3) \<and> vs_table s3 = vs_table s2"
    using each by (simp add: restore_view_def p act_bind_def as_event_locker_def on_locker_db_def demo_view_def
        sqlite_view_lockers_def sqlite_markAsLastEvent_def)
  then obtain s3 where s3: "restore_view ?p ?reader ?s1 = (Inr (), s3)" "vs_table s3 = vs_table s2" by blast
  have "\<exists>s'. restore ?p ?reader ?s = Some (Inr (), s') \<and> vs_table s' = vs_table s3"
    using lock s3(1) by (simp add: restore_def p as_view_locker_def ov_unlock_def split: prod.split)
  then obtain s' where s': "restore ?p ?reader ?s = Some (Inr (), s')" "vs_table s' = vs_table s3" by blast
  have "ov_get demo_view (Some (IdStr ''0a'')) s' = Some (sqlite_get (Some (IdStr ''0a'')) (vs_table s'))"
    using sqlite_view_readers_wait [OF demo_view_def p(3,4) _ s'(1), of "Some (IdStr ''0a'')"]
    by (simp add: p(5) ov_create_def on_table_def split: prod.splits)
  with s' s3(2) s2(2) show ?thesis by (simp add: sqlite_get_def getQuery_def assert_id_defined_def)
qed

end
