(* ===== verification/ErrorDetails.thy ===== *)
theory ErrorDetails
  imports Prelude
begin

text \<open>
  What is logged of an error (\<open>src/utils/extractErrorDetails.ts\<close>). A thrown value is an \<open>Error\<close>
  with a cause, an \<open>AggregateError\<close>, another object or any other value; an object that is its own
  cause, directly or not, is not a value of this type, and the code does not return for one. A
  cause that is falsy counts as none, as in the code, and is \<open>None\<close> here.
  \<open>to_text\<close> is \<open>String(value)\<close>.
\<close>

datatype thrown =
    ErrorObj (err_name: string) (err_message: string) (err_stack: string) (err_code: "jsval option") (err_cause: "thrown option")
  | AggregateErr string string string "jsval option" "thrown option" "thrown list"
  | OtherObj "(string \<times> jsval) list" "string option"
  | OtherValue jsval

definition string_prop :: "(string \<times> jsval) list \<Rightarrow> string \<Rightarrow> string option" where
  "string_prop ps k = (case map_of ps k of Some (JStr s) \<Rightarrow> Some s | _ \<Rightarrow> None)"

text \<open>For an object that is not an \<open>Error\<close>, the second component is the name of its constructor.\<close>

fun extractErrorName :: "thrown \<Rightarrow> string option" where
  "extractErrorName (ErrorObj n _ _ _ _) = Some n"
| "extractErrorName (AggregateErr n _ _ _ _ _) = Some n"
| "extractErrorName (OtherObj ps cn) = (case string_prop ps ''name'' of Some n \<Rightarrow> Some n | None \<Rightarrow> cn)"
| "extractErrorName (OtherValue _) = None"

fun join_with :: "string \<Rightarrow> string list \<Rightarrow> string" where
  "join_with sep [] = []"
| "join_with sep [s] = s"
| "join_with sep (s # t # ss) = s @ sep @ join_with sep (t # ss)"

fun extractErrorMessage :: "(thrown \<Rightarrow> string) \<Rightarrow> thrown \<Rightarrow> string" where
  "extractErrorMessage to_text (AggregateErr _ m _ _ _ errs) =
     (if errs = [] then m
      else join_with ''; '' (filter (\<lambda>m. m \<noteq> []) (m # map (extractErrorMessage to_text) errs)))"
| "extractErrorMessage to_text (ErrorObj _ m _ _ _) = m"
| "extractErrorMessage to_text (OtherObj ps cn) =
     (case string_prop ps ''message'' of Some m \<Rightarrow> m | None \<Rightarrow> to_text (OtherObj ps cn))"
| "extractErrorMessage to_text (OtherValue v) = to_text (OtherValue v)"

datatype error_details = Details (det_name: "string option") (det_message: string) (det_code: "jsval option")
  (det_stack: "string option") (det_cause: "error_details option")

fun extractErrorDetails :: "(thrown \<Rightarrow> string) \<Rightarrow> thrown \<Rightarrow> error_details" where
  "extractErrorDetails to_text (ErrorObj n m s c cause) =
     Details (Some n) m c (Some s) (map_option (extractErrorDetails to_text) cause)"
| "extractErrorDetails to_text (AggregateErr n m s c cause errs) =
     Details (Some n) (extractErrorMessage to_text (AggregateErr n m s c cause errs)) c (Some s)
       (map_option (extractErrorDetails to_text) cause)"
| "extractErrorDetails to_text (OtherObj ps cn) =
     Details (extractErrorName (OtherObj ps cn)) (extractErrorMessage to_text (OtherObj ps cn)) (map_of ps ''code'') None None"
| "extractErrorDetails to_text (OtherValue v) = Details None (to_text (OtherValue v)) None None None"

text \<open>The chain of causes, of an error and of its details.\<close>

fun cause_of :: "thrown \<Rightarrow> thrown option" where
  "cause_of (ErrorObj _ _ _ _ c) = c"
| "cause_of (AggregateErr _ _ _ _ c _) = c"
| "cause_of _ = None"

fun messages_of :: "error_details \<Rightarrow> string list" where
  "messages_of (Details _ m _ _ None) = [m]"
| "messages_of (Details _ m _ _ (Some d)) = m # messages_of d"

lemma details_of_cause:
  "det_message (extractErrorDetails to_text e) = extractErrorMessage to_text e"
  "det_cause (extractErrorDetails to_text e) = map_option (extractErrorDetails to_text) (cause_of e)"
  by (cases e; simp)+

text \<open>The details of an error name every message along its causes, in order.\<close>

inductive chain_of :: "thrown \<Rightarrow> thrown list \<Rightarrow> bool" where
  chain_end: "cause_of e = None \<Longrightarrow> chain_of e [e]"
| chain_more: "cause_of e = Some c \<Longrightarrow> chain_of c es \<Longrightarrow> chain_of e (e # es)"

theorem messages_along_causes:
  "chain_of e es \<Longrightarrow> messages_of (extractErrorDetails to_text e) = map (extractErrorMessage to_text) es"
proof (induction rule: chain_of.induct)
  case (chain_end e)
  then show ?case by (cases "extractErrorDetails to_text e") (use details_of_cause [of to_text e] in auto)
next
  case (chain_more e c es)
  then show ?case by (cases "extractErrorDetails to_text e") (use details_of_cause [of to_text e] in auto)
qed

text \<open>An aggregate error without a message of its own has that of its only part.\<close>

lemma join_parts:
  "extractErrorMessage to_text (AggregateErr n [] s c cause [e]) = extractErrorMessage to_text e"
  by (simp del: join_with.simps add: join_with.simps(1,2))

end
