(* ===== verification/Telemetry.thy ===== *)
theory Telemetry
  imports ErrorDetails Guards
begin

text \<open>
  \<open>telemetry/recordSpanError.ts\<close> and \<open>telemetry/spanContext.ts\<close>, beside \<open>spanAttributes.ts\<close>, which is in
  \<open>Guards\<close>. Spans and contexts belong to the package \<open>@opentelemetry/api\<close>: a span is what was recorded on
  it, contexts and how a span is put into one are parameters.
\<close>

record span =
  sp_exceptions :: "thrown list"
  sp_status :: "(int \<times> string) option"

definition SPAN_STATUS_ERROR :: int where "SPAN_STATUS_ERROR = 2"

text \<open>\<open>error instanceof Error ? error.message : String(error)\<close>\<close>

fun span_message :: "(thrown \<Rightarrow> string) \<Rightarrow> thrown \<Rightarrow> string" where
  "span_message to_text (ErrorObj _ m _ _ _) = m"
| "span_message to_text (AggregateErr _ m _ _ _ _) = m"
| "span_message to_text e = to_text e"

definition recordSpanError :: "(thrown \<Rightarrow> string) \<Rightarrow> thrown \<Rightarrow> span option \<Rightarrow> span option" where
  "recordSpanError to_text e otelSpan = (case otelSpan of None \<Rightarrow> None
     | Some s \<Rightarrow> Some (s\<lparr>sp_exceptions := sp_exceptions s @ [e],
         sp_status := Some (SPAN_STATUS_ERROR, span_message to_text e)\<rparr>))"

text \<open>The module is required once; \<open>None\<close> is not yet loaded. Loading it may throw.\<close>

definition getOtelApi :: "'api result \<Rightarrow> ('api option, 'api) act" where
  "getOtelApi required_api loaded = (case loaded of
       Some a \<Rightarrow> (Inr a, loaded)
     | None \<Rightarrow> (case required_api of Inl e \<Rightarrow> (Inl e, None) | Inr a \<Rightarrow> (Inr a, Some a)))"

record ('ctx, 'sp) otel_api =
  ot_active :: 'ctx
  ot_setSpan :: "'ctx \<Rightarrow> 'sp \<Rightarrow> 'ctx"

definition spanContext ::
  "('ctx, 'sp) otel_api result \<Rightarrow> 'sp option option \<Rightarrow> (('ctx, 'sp) otel_api option, 'ctx) act" where
  "spanContext required_api meta = act_bind (getOtelApi required_api) (\<lambda>api.
     act_return (case Option.bind meta (\<lambda>x. x) of None \<Rightarrow> ot_active api | Some sp \<Rightarrow> ot_setSpan api (ot_active api) sp))"

text \<open>
  Once a context was made, the module is not asked for again: later calls succeed whatever
  requiring it would give.
\<close>

theorem span_context_loads_once:
  "spanContext req m loaded = (Inr c, loaded') \<Longrightarrow>
     \<exists>api. loaded' = Some api \<and> (loaded = None \<longrightarrow> req = Inr api) \<and> (\<forall>req' m'. \<exists>c'. spanContext req' m' loaded' = (Inr c', loaded'))"
  by (auto simp: spanContext_def getOtelApi_def act_bind_def act_return_def split: option.splits sum.splits)

text \<open>The last error decides the status, all of them are kept.\<close>

theorem errors_recorded:
  "es \<noteq> [] \<Longrightarrow> fold (recordSpanError to_text) es (Some s) = Some (s\<lparr>sp_exceptions := sp_exceptions s @ es,
     sp_status := Some (SPAN_STATUS_ERROR, span_message to_text (last es))\<rparr>)"
proof (induction es arbitrary: s)
  case (Cons e es)
  show ?case
  proof (cases "es = []")
    case False
    with Cons.IH show ?thesis by (simp add: recordSpanError_def)
  qed (simp add: recordSpanError_def)
qed simp

end
