(* ===== verification/ProcessExit.thy ===== *)
theory ProcessExit
  imports Prelude
begin

text \<open>
  \<open>rabbitmq/utils/registerExitCleanup.ts\<close> and the same file under \<open>mongodb/\<close>: a cleanup that runs when
  the process gets a signal. The process is its listeners, one-time ones as here, in the order they
  were added; a listener is known by the registration that made it. Where there is no process (in a
  browser) nothing is registered, and there is nothing to model.
\<close>

datatype exit_signal = SIGINT | SIGTERM

record exit_process =
  xp_listeners :: "(exit_signal \<times> nat) list"
  xp_registered :: nat
  xp_cleaned :: "nat list"

definition new_process :: exit_process where
  "new_process = \<lparr>xp_listeners = [], xp_registered = 0, xp_cleaned = []\<rparr>"

definition off_both :: "nat \<Rightarrow> exit_process \<Rightarrow> exit_process" where
  "off_both n p = p\<lparr>xp_listeners := remove1 (SIGTERM, n) (remove1 (SIGINT, n) (xp_listeners p))\<rparr>"

definition registerExitCleanup :: "exit_process \<Rightarrow> nat \<times> exit_process" where
  "registerExitCleanup p = (xp_registered p,
     p\<lparr>xp_listeners := xp_listeners p @ [(SIGINT, xp_registered p), (SIGTERM, xp_registered p)],
       xp_registered := xp_registered p + 1\<rparr>)"

definition dispose_cleanup :: "nat \<Rightarrow> exit_process \<Rightarrow> exit_process" where
  "dispose_cleanup n p = off_both n p"

text \<open>The handler; its listener for the signal has been taken off before it runs.\<close>

definition exit_handler :: "nat \<Rightarrow> exit_process \<Rightarrow> exit_process" where
  "exit_handler n p = (let p1 = off_both n p in p1\<lparr>xp_cleaned := xp_cleaned p1 @ [n]\<rparr>)"

text \<open>A signal calls the listeners it has at that moment.\<close>

definition deliver_signal :: "exit_signal \<Rightarrow> exit_process \<Rightarrow> exit_process" where
  "deliver_signal sg p = fold (\<lambda>n q. exit_handler n (q\<lparr>xp_listeners := remove1 (sg, n) (xp_listeners q)\<rparr>))
     (map snd (filter (\<lambda>l. fst l = sg) (xp_listeners p))) p"

inductive exit_step :: "exit_process \<Rightarrow> exit_process \<Rightarrow> bool" where
  exit_registers: "exit_step p (snd (registerExitCleanup p))"
| exit_disposes: "n < xp_registered p \<Longrightarrow> exit_step p (dispose_cleanup n p)"
| exit_signalled: "exit_step p (deliver_signal sg p)"

inductive exit_run :: "exit_process \<Rightarrow> exit_process \<Rightarrow> bool" for p where
  exit_none: "exit_run p p"
| exit_more: "exit_run p q \<Longrightarrow> exit_step q r \<Longrightarrow> exit_run p r"

text \<open>A registration has both listeners or none, and none once it was cleaned up.\<close>

definition exit_inv :: "exit_process \<Rightarrow> bool" where
  "exit_inv p \<longleftrightarrow> distinct (xp_listeners p) \<and> distinct (xp_cleaned p)
     \<and> (\<forall>n. (SIGINT, n) \<in> set (xp_listeners p) \<longleftrightarrow> (SIGTERM, n) \<in> set (xp_listeners p))
     \<and> (\<forall>sg n. (sg, n) \<in> set (xp_listeners p) \<longrightarrow> n < xp_registered p \<and> n \<notin> set (xp_cleaned p))
     \<and> (\<forall>n \<in> set (xp_cleaned p). n < xp_registered p)"

definition live :: "exit_process \<Rightarrow> nat set" where
  "live p = {n. (SIGINT, n) \<in> set (xp_listeners p)}"

lemma off_both_inv: "exit_inv p \<Longrightarrow> exit_inv (off_both n p) \<and> live (off_both n p) = live p - {n}"
  by (auto simp: exit_inv_def off_both_def live_def)

text \<open>Taking the signal's listener off first makes no difference.\<close>

lemma handler_takes_off:
  "exit_handler n (p\<lparr>xp_listeners := remove1 (sg, n) (xp_listeners p)\<rparr>) = exit_handler n p" if "exit_inv p"
proof -
  have "remove1 (SIGTERM, n) (remove1 (SIGINT, n) (remove1 (sg, n) (xp_listeners p)))
      = remove1 (SIGTERM, n) (remove1 (SIGINT, n) (xp_listeners p))"
    using that by (cases sg) (simp_all add: exit_inv_def distinct_remove1_removeAll removeAll_filter_not_eq conj_ac)
  then show ?thesis by (simp add: exit_handler_def off_both_def Let_def)
qed

lemma handler_inv:
  assumes "exit_inv p" "n \<in> live p"
  shows "exit_inv (exit_handler n p) \<and> live (exit_handler n p) = live p - {n} \<and> xp_cleaned (exit_handler n p) = xp_cleaned p @ [n]
    \<and> xp_registered (exit_handler n p) = xp_registered p"
proof -
  define o1 where "o1 = off_both n p"
  have h: "exit_handler n p = o1\<lparr>xp_cleaned := xp_cleaned o1 @ [n]\<rparr>" by (simp add: exit_handler_def o1_def Let_def)
  have sel: "xp_cleaned o1 = xp_cleaned p" "xp_registered o1 = xp_registered p" by (simp_all add: o1_def off_both_def)
  have o1: "exit_inv o1" "live o1 = live p - {n}" using off_both_inv [OF assms(1), of n] by (simp_all add: o1_def)
  then have "(SIGINT, n) \<notin> set (xp_listeners o1)" by (auto simp: live_def)
  with o1(1) have off: "(sg, n) \<notin> set (xp_listeners o1)" for sg by (cases sg) (auto simp: exit_inv_def)
  have n: "n < xp_registered p" "n \<notin> set (xp_cleaned p)" using assms by (auto simp: exit_inv_def live_def)
  have "exit_inv (o1\<lparr>xp_cleaned := xp_cleaned o1 @ [n]\<rparr>)"
    using o1(1) off n sel unfolding exit_inv_def by auto
  with o1(2) sel show ?thesis by (simp add: h live_def)
qed

lemma handlers_run:
  "exit_inv p \<Longrightarrow> set ns \<subseteq> live p \<Longrightarrow> distinct ns \<Longrightarrow>
    (let q = fold (\<lambda>n q. exit_handler n (q\<lparr>xp_listeners := remove1 (sg, n) (xp_listeners q)\<rparr>)) ns p
     in exit_inv q \<and> live q = live p - set ns \<and> xp_cleaned q = xp_cleaned p @ ns \<and> xp_registered q = xp_registered p)"
proof (induction ns arbitrary: p)
  case (Cons n ns)
  from Cons.prems have h: "exit_inv (exit_handler n p)" "live (exit_handler n p) = live p - {n}"
    "xp_cleaned (exit_handler n p) = xp_cleaned p @ [n]" "xp_registered (exit_handler n p) = xp_registered p"
    using handler_inv [of p n] by auto
  have "set ns \<subseteq> live (exit_handler n p)" "distinct ns" using Cons.prems h(2) by auto
  from Cons.IH [OF h(1) this] h Cons.prems show ?case by (auto simp: handler_takes_off Let_def)
qed simp

text \<open>A signal cleans up exactly what is registered, in the order of registration.\<close>

lemma signal_cleans:
  assumes "exit_inv p"
  shows "exit_inv (deliver_signal sg p) \<and> live (deliver_signal sg p) = {}
    \<and> (\<exists>ns. set ns = live p \<and> distinct ns \<and> xp_cleaned (deliver_signal sg p) = xp_cleaned p @ ns)
    \<and> xp_registered (deliver_signal sg p) = xp_registered p"
proof -
  let ?ns = "map snd (filter (\<lambda>l. fst l = sg) (xp_listeners p))"
  have s: "set ?ns = live p" using assms by (cases sg) (auto simp: live_def exit_inv_def image_iff)
  have "inj_on snd (set (filter (\<lambda>l. fst l = sg) (xp_listeners p)))" by (auto simp: inj_on_def)
  then have d: "distinct ?ns" using assms by (simp add: distinct_map exit_inv_def)
  from handlers_run [OF assms _ d, of sg] s d show ?thesis unfolding deliver_signal_def Let_def by auto
qed

lemma exit_run_inv: "exit_run p q \<Longrightarrow> exit_inv p \<Longrightarrow> exit_inv q"
proof (induction rule: exit_run.induct)
  case (exit_more q r)
  then have q: "exit_inv q" by simp
  from exit_more.hyps(2) show ?case
  proof cases
    case exit_registers
    with q show ?thesis by (fastforce simp: exit_inv_def registerExitCleanup_def)
  next
    case (exit_disposes n)
    with off_both_inv [OF q] show ?thesis by (simp add: dispose_cleanup_def)
  next
    case (exit_signalled sg)
    with signal_cleans [OF q] show ?thesis by simp
  qed
qed

text \<open>
  Whatever is registered, disposed and signalled, every cleanup runs at most once; a signal runs
  those that are registered and not disposed and leaves no listener, so that the next signal ends
  the process.
\<close>

theorem cleanup_once:
  assumes "exit_run new_process p"
  shows "distinct (xp_cleaned p) \<and> xp_listeners (deliver_signal sg p) = []
    \<and> (\<exists>ns. set ns = live p \<and> xp_cleaned (deliver_signal sg p) = xp_cleaned p @ ns)"
proof -
  have inv: "exit_inv p" by (rule exit_run_inv [OF assms]) (simp add: exit_inv_def new_process_def)
  note sc = signal_cleans [OF inv, of sg]
  have "xp_listeners (deliver_signal sg p) = []"
  proof (rule ccontr)
    assume "\<not> ?thesis"
    then obtain l where "l \<in> set (xp_listeners (deliver_signal sg p))" by (metis list.set_intros(1) neq_Nil_conv)
    with sc show False by (cases l; cases "fst l") (auto simp: live_def exit_inv_def)
  qed
  with sc inv show ?thesis by (auto simp: exit_inv_def)
qed

end
