(* ===== verification/Spec2Isabelle.thy ===== *)
theory Spec2Isabelle
  imports Prolongation UserDomainCjs OverlappingSagas FrameworkFree Pipelining MongoEventStorage RabbitBuses Workers Startup
    Wiring Subscribing Views Telemetry ProcessExit
begin

text \<open>
  node-cqrs is a CQRS and event sourcing framework in TypeScript. Commands go over a command bus to
  an aggregate command handler, which restores an aggregate from its events, lets it handle the
  command and dispatches the events it emitted through a pipeline of processors (id augmentor,
  event storage, snapshot storage) to the event store's bus. From there projections fold them into
  views, and sagas turn them into further commands. Storages, lockers and buses come in memory, on
  SQLite, on MongoDB, on Redis and on RabbitMQ. All paths below are relative to \<open>src/src/\<close>, those that
  start with \<open>examples/\<close> to \<open>src/\<close>.

  How the code is modelled. A class with mutable fields is a record; a method is a function of that
  record which returns the result and the changed record, \<open>('s, 'a) act\<close>: an error (\<open>js_error\<close>)
  keeps the changes made before it was thrown, as in JavaScript. Code between two \<open>await\<close>s is one
  step. Where other tasks or other processes act in between and it matters, they are there: as a
  step relation (\<open>lock_step\<close>, \<open>sys_step\<close>, \<open>delivery_step\<close>, \<open>gateway_step\<close>, \<open>accessor_step\<close>,
  \<open>startup_step\<close>, \<open>cc_step\<close>, \<open>pp_step\<close>, \<open>pc_step\<close>, \<open>free_step\<close>, \<open>exit_step\<close>) or as a function \<open>env\<close>
  applied to the shared database between two requests. Databases are tables with the queries of
  the source as definitions. User code (state methods, command and event handlers, sagas, view
  updates) and packages outside the repository (the MongoDB driver, amqplib, comlink,
  async-parallel-pipe, JSON rendering of dates, md5, random numbers, the clock) are parameters.

  Theories, in the order of the code.
  \<^item> \<open>Prelude\<close>: JavaScript values, errors, results, actions, maps; the shared rules.
  \<^item> \<open>Guards\<close>: \<open>interfaces/\<close> type guards, \<open>utils/assert.ts\<close>, \<open>telemetry/spanAttributes.ts\<close>.
  \<^item> \<open>Messages\<close>: messages, events, \<open>Event.ts\<close>, \<open>utils/sagaId.ts\<close>.
  \<^item> \<open>Handlers\<close>: \<open>utils/getHandler.ts\<close>, \<open>getMessageHandlerNames.ts\<close>, \<open>validateHandlers.ts\<close>.
  \<^item> \<open>LockModel\<close>: \<open>utils/Lock.ts\<close>, \<open>utils/Deferred.ts\<close>; mutual exclusion and progress for any tasks.
  \<^item> \<open>UsageCache\<close>: \<open>utils/MapAssertable.ts\<close> and the locale of its clients.
  \<^item> \<open>EventStorage\<close>, \<open>SnapshotStorage\<close>: \<open>in-memory/InMemoryEventStorage.ts\<close>,
    \<open>InMemorySnapshotStorage.ts\<close>; the locales \<open>event_log\<close> and \<open>strict_event_log\<close>.
  \<^item> \<open>Pipeline\<close>: \<open>EventDispatchPipeline.ts\<close>, \<open>EventDispatcher.ts\<close>, \<open>EventIdAugmentor.ts\<close>.
  \<^item> \<open>MessageBus\<close>: \<open>in-memory/InMemoryMessageBus.ts\<close>, \<open>utils/subscribe.ts\<close>,
    \<open>setupOneTimeEmitterSubscription.ts\<close>.
  \<^item> \<open>EventStore\<close>: \<open>EventStore.ts\<close> over storages, dispatcher and bus.
  \<^item> \<open>Aggregate\<close>, \<open>CommandHandler\<close>: \<open>AbstractAggregate.ts\<close>, \<open>AggregateCommandHandler.ts\<close>.
  \<^item> \<open>Consistency\<close>: any number of processes on one event log; the versions stay without gap.
  \<^item> \<open>ConcurrentCommands\<close>, \<open>Pipelining\<close>: calls of \<open>AggregateCommandHandler.execute\<close> that overlap in one
    process, over lock, cache and store; batches that overlap in the dispatch pipeline.
  \<^item> \<open>Saga\<close>, \<open>SagaHandler\<close>: \<open>AbstractSaga.ts\<close>, \<open>SagaEventHandler.ts\<close>.
  \<^item> \<open>MemView\<close>, \<open>DbObjectStorage\<close>: \<open>in-memory/InMemoryView.ts\<close>, \<open>InMemoryLock.ts\<close> and the three
    object storages, against \<open>interfaces/IObjectStorage.ts\<close>.
  \<^item> \<open>EventLockers\<close>, \<open>ViewLockers\<close>, \<open>Projection\<close>: the lockers of the three databases, the contracts
    \<open>interfaces/IEventLocker.ts\<close> and \<open>IViewLocker.ts\<close>, and \<open>AbstractProjection.ts\<close> over them.
  \<^item> \<open>Prolongation\<close>: timers, prolongations and unlocking of the view lockers, between their awaits.
  \<^item> \<open>SqliteEventStorage\<close>, \<open>MongoEventStorage\<close>: the event storages on SQLite and MongoDB.
  \<^item> \<open>RabbitGateway\<close>, \<open>RabbitBuses\<close>: \<open>rabbitmq/RabbitMqGateway.ts\<close>, the command and the event bus.
  \<^item> \<open>Accessor\<close>, \<open>Views\<close>: opening a database on demand (\<open>sqlite/AbstractSqliteAccessor.ts\<close> and
    its MongoDB and Redis counterparts), and the views and projections over one: locker, event locker
    and storage under one name (\<open>sqlite/SqliteObjectView.ts\<close>, \<open>mongodb/MongoObjectView.ts\<close>,
    \<open>redis/RedisView.ts\<close>, \<open>Abstract*Projection.ts\<close>).
  \<^item> \<open>Workers\<close>: \<open>workers/\<close>, projections in a worker thread and their proxies.
  \<^item> \<open>Subscribing\<close>: \<open>subscribe\<close> and \<open>view\<close> of \<open>AbstractProjection.ts\<close> at the event bus.
  \<^item> \<open>Wiring\<close>, \<open>Startup\<close>: the constructors and subscriptions of event store and handlers, and
    \<open>CqrsContainerBuilder.ts\<close>: registering aggregates and sagas, and projections while events are
    being dispatched.
  \<^item> \<open>ErrorDetails\<close>, \<open>Telemetry\<close>: \<open>utils/extractErrorDetails.ts\<close>, \<open>telemetry/recordSpanError.ts\<close>,
    \<open>spanContext.ts\<close>.
  \<^item> \<open>ProcessExit\<close>: \<open>rabbitmq/utils/registerExitCleanup.ts\<close> and \<open>mongodb/registerExitCleanup.ts\<close>.
  \<^item> \<open>StoredEvents\<close>: from what command handlers emit to what the log holds, for overlapping commands.
  \<^item> \<open>UserDomain\<close>, \<open>UserDomainCjs\<close>, \<open>OverlappingSagas\<close>: the classes of \<open>examples/user-domain-ts\<close>,
    \<open>user-domain-cjs\<close> and \<open>sagas-overlaps\<close>, user code put in for the parameters of the framework.
  \<^item> \<open>FrameworkFree\<close>: \<open>examples/user-domain-framework-free\<close>, the same domain without the framework.
  \<^item> this theory: properties that span components.

  Interfaces are locales: \<open>event_log\<close> (what writers of events rely on) interpreted by the in-memory
  and the SQLite storage, and for MongoDB as a lemma, since there it needs that no request fails
  after it was carried out; \<open>event_locker\<close> and \<open>view_lock\<close> by the lockers; the cache, bus and object
  storage contracts by their components; \<open>gateway_relation\<close> and \<open>subscription_relation\<close> for what
  setting up a RabbitMQ subscription keeps; \<open>restoring_view\<close>, what readers of a view rely on, by the
  views of the three databases; \<open>batched\<close>, sending that does not mind where batches are cut, by the
  calls to a worker; \<open>serial_store\<close>, a store that only this process writes, by the in-memory event
  store; \<open>dispatched_events\<close>, a property of emitted batches that the log keeps, by the two user domains;
  \<open>token_lock\<close>, requests that do nothing without a token, by the Redis view locker.

  What is shown, by group. Consistency: no gap and no repetition in an aggregate's versions, of two
  conflicting batches one wins, a batch is stored as a whole or not at all, and where MongoDB fails
  in this; commands that overlap in one process never conflict and never block each other for good,
  but one that follows an ignored conflict sees an old state; of overlapping batches exactly what is
  stored is published. Equivalence: a rebuilt aggregate equals the live one, snapshots are shortcuts, a saga that
  handled an event is what applying it gives, the database storages read like the in-memory one.
  Exclusion: locks, event lockers and view lockers, which of them do not exclude, and what
  prolongs a lock that was given back. Failure: what
  is cleaned up, what stays broken, what is retried; every message of a queue is finalized once.
  Routing: an event emitted for a saga's command returns to that saga, a command reaches the one
  aggregate that lists it. Start: a connection is opened once, readers wait for a restored view, a
  projection registered under traffic misses no event, and where it sees one twice. Domains: the read
  model of the user example agrees with its write model, a user is created once, a password changes
  with the old one only, sagas started by one event are kept apart.

  Bounds and fuel. \<open>attempts\<close> (the retry loop of the command handler) takes fuel;
  \<open>execute_terminates\<close> gives an amount fixed by the retry option that is enough. \<open>lock_loop\<close> (waiting
  for a view lock) takes fuel; \<open>redis_lock_returns\<close> shows that some is enough when nobody else acts.
  The retry loops of the MongoDB and Redis object storages run \<open>maxRetries + 1\<close> times, as in the
  code. \<open>restore_turns\<close> runs once per subscription, which \<open>subscribe_now_length\<close> justifies.
  Integers are \<open>int\<close>: versions, times and counters stay in the range where JavaScript numbers are
  exact, and \<open>assertNonNegativeInteger\<close> has the bound $2^{53}-1$ written out.

  Not modelled: logging and when spans are started and ended, beyond the attributes, errors and
  contexts they are given; creating tables and indexes, beyond the constraints the tables have; the
  container di0 that \<open>CqrsContainerBuilder.ts\<close> extends, so that which alias it resolves to what is no
  part of the model; threads and ports; the order in which the pipeline package advances batches,
  which is left open; the example scripts that only wire these components to a database or a page
  and print, the linter configuration and the changelog script.
\<close>



text \<open>
  A saga restored from the in-memory event storage does not see the event that started it: the
  stream of a saga's events holds only events that carry its origin, and a starter event carries
  none. The SQLite and the MongoDB storage include the starter.
\<close>

theorem memory_forgets_starter:
  assumes "saga_route cfg org = Inr (True, oid, sid)" and "CHR '':'' \<notin> set oid"
    and "getSagaEvents (IdStr sid) b s = Inr es"
  shows "org \<notin> set es"
proof
  assume "org \<in> set es"
  have route: "origin_of cfg org = None" "sg_descriptor cfg \<noteq> []" "oid \<noteq> []" "sid = sg_descriptor cfg @ '':'' @ oid"
    using assms(1) by (auto simp: saga_route_ok)
  then have "parseSagaId (IdStr sid) = Inr (sg_descriptor cfg, oid)" using assms(2) by (auto simp: parseSagaId_ok)
  with assms(3) have "\<forall>e \<in> set es. saga_origin e (sg_descriptor cfg) = Some oid"
    by (auto simp: getSagaEvents_def split: if_splits option.splits)
  with \<open>org \<in> set es\<close> have "origin_of cfg org = Some oid" using route(3) by (simp add: origin_of_Some)
  with route(1) show False by simp
qed

lemma memory_forgets_starter_witness:
  "\<exists>es. getSagaEvents (IdStr ''S:e1'') demo_origin_event (new_mem_storage\<lparr>events :=
      [demo_event ''incremented'' ''a'' 0 ''e1'', demo_origin_event]\<rparr>) = Inr es \<and> demo_event ''incremented'' ''a'' 0 ''e1'' \<notin> set es"
proof -
  obtain es where es: "getSagaEvents (IdStr ''S:e1'') demo_origin_event (new_mem_storage\<lparr>events :=
      [demo_event ''incremented'' ''a'' 0 ''e1'', demo_origin_event]\<rparr>) = Inr es"
    by (simp add: getSagaEvents_def demo_origin_event_def assert_id_string_def parseSagaId_ok saga_origin_def)
  from memory_forgets_starter [OF demo_route_starter _ es] es show ?thesis by simp
qed

end
